(* ===== verification/OSRM_Prelude.thy ===== *)
theory OSRM_Prelude
  imports Main "HOL-Library.Word" "HOL-Library.Multiset" "HOL-Library.Monad_Syntax"
begin

text \<open>
  Shared vocabulary of the development: the integer types of \<^verbatim>\<open>typedefs.h\<close>, the integer
  ranges of \<^verbatim>\<open>DataStructures/Range.h\<close>, and vectors whose accesses are checked.

  Code that indexes a \<^verbatim>\<open>std::vector\<close> out of range, or fails a \<^verbatim>\<open>BOOST_ASSERT\<close>, has
  no defined result.  The models return \<^term>\<open>None\<close> there, so that a theorem of the form
  ``the operation returns \<^term>\<open>Some\<close>'' includes that every access was in range and every
  assertion held.  Indices and counters are natural numbers: the code keeps them in
  \<^verbatim>\<open>unsigned\<close> variables and never stores more than \<^term>\<open>2 ^ 31\<close> elements in one
  container.  Where the wrap-around of a machine integer decides the behaviour the models use
  \<open>word\<close> types instead.
\<close>

section \<open>Identifiers and weights\<close>

type_synonym NodeID = nat
type_synonym EdgeID = nat
type_synonym EdgeWeight = int

type_synonym u8 = "8 word"
type_synonym u16 = "16 word"
type_synonym u32 = "32 word"
type_synonym u64 = "64 word"

definition SPECIAL_NODEID :: NodeID where
  "SPECIAL_NODEID = 2 ^ 32 - 1"

definition SPECIAL_EDGEID :: EdgeID where
  "SPECIAL_EDGEID = 2 ^ 32 - 1"

definition INVALID_EDGE_WEIGHT :: EdgeWeight where
  "INVALID_EDGE_WEIGHT = 2 ^ 31 - 1"

definition INT_MIN :: int where
  "INT_MIN = - (2 ^ 31)"

text \<open>The value kept by a signed integer of \<open>w\<close> bits, an \<^verbatim>\<open>int\<close> or a bit field.\<close>

definition sbits :: "nat \<Rightarrow> int \<Rightarrow> int" where
  "sbits w x = (x + 2 ^ (w - 1)) mod 2 ^ w - 2 ^ (w - 1)"

lemma sbits_id: "0 < w \<Longrightarrow> - (2 ^ (w - 1)) \<le> x \<Longrightarrow> x < 2 ^ (w - 1) \<Longrightarrow> sbits w x = x"
  using power_Suc [of "2 :: int" "w - 1"] by (simp add: sbits_def mod_pos_pos_trivial)

lemma sbits_range: "0 < w \<Longrightarrow> - (2 ^ (w - 1)) \<le> sbits w x \<and> sbits w x < 2 ^ (w - 1)"
proof -
  assume "0 < w"
  then have "(2 :: int) ^ w = 2 * 2 ^ (w - 1)" by (cases w) auto
  moreover have pos: "(0 :: int) < 2 ^ w" by simp
  ultimately show ?thesis
    using pos_mod_bound [OF pos, of "x + 2 ^ (w - 1)"] pos_mod_sign [OF pos, of "x + 2 ^ (w - 1)"]
    unfolding sbits_def by linarith
qed

section \<open>Integer ranges\<close>

definition irange :: "nat \<Rightarrow> nat \<Rightarrow> nat list" where
  "irange a b = [a..<b]"

lemma set_irange [simp]: "set (irange a b) = {a..<b}"
  by (simp add: irange_def)

lemma irange_empty [simp]: "b \<le> a \<Longrightarrow> irange a b = []"
  by (simp add: irange_def)

lemma irange_Cons: "a < b \<Longrightarrow> irange a b = a # irange (Suc a) b"
  by (simp add: irange_def upt_conv_Cons)

section \<open>Checked vectors\<close>

named_theorems vec_simps \<open>rewrite rules for checked vector accesses\<close>

definition vec_at :: "'a list \<Rightarrow> nat \<Rightarrow> 'a option" where
  "vec_at xs i = (if i < length xs then Some (xs ! i) else None)"

definition vec_upd :: "'a list \<Rightarrow> nat \<Rightarrow> ('a \<Rightarrow> 'a) \<Rightarrow> 'a list option" where
  "vec_upd xs i f = (if i < length xs then Some (xs[i := f (xs ! i)]) else None)"

definition assert_that :: "bool \<Rightarrow> unit option" where
  "assert_that b = (if b then Some () else None)"

lemma vec_at_Some [vec_simps]: "i < length xs \<Longrightarrow> vec_at xs i = Some (xs ! i)"
  by (simp add: vec_at_def)

lemma vec_at_eq_Some_iff: "vec_at xs i = Some x \<longleftrightarrow> i < length xs \<and> x = xs ! i"
  by (auto simp: vec_at_def)

lemma vec_upd_Some [vec_simps]: "i < length xs \<Longrightarrow> vec_upd xs i f = Some (xs[i := f (xs ! i)])"
  by (simp add: vec_upd_def)

lemma vec_upd_eq_Some_iff: "vec_upd xs i f = Some ys \<longleftrightarrow> i < length xs \<and> ys = xs[i := f (xs ! i)]"
  by (auto simp: vec_upd_def)

lemma assert_that_True [simp]: "assert_that True = Some ()"
  by (simp add: assert_that_def)

lemma assert_that_False [simp]: "assert_that False = None"
  by (simp add: assert_that_def)

lemma assert_that_eq_Some_iff [simp]: "assert_that b = Some u \<longleftrightarrow> b"
  by (simp add: assert_that_def)

section \<open>Segments of a vector\<close>

definition seg :: "'a list \<Rightarrow> nat \<Rightarrow> nat \<Rightarrow> 'a list" where
  "seg xs a b = map ((!) xs) [a..<b]"

lemma length_seg [simp]: "length (seg xs a b) = b - a"
  by (simp add: seg_def)

lemma seg_nth [simp]: "i < b - a \<Longrightarrow> seg xs a b ! i = xs ! (a + i)"
  by (simp add: seg_def)

lemma seg_empty [simp]: "b \<le> a \<Longrightarrow> seg xs a b = []"
  by (simp add: seg_def)

lemma seg_Suc: "a \<le> b \<Longrightarrow> seg xs a (Suc b) = seg xs a b @ [xs ! b]"
  by (simp add: seg_def)

lemma seg_Cons: "a < b \<Longrightarrow> seg xs a b = xs ! a # seg xs (Suc a) b"
  by (simp add: seg_def upt_conv_Cons)

lemma seg_join: "a \<le> b \<Longrightarrow> b \<le> c \<Longrightarrow> seg xs a b @ seg xs b c = seg xs a c"
  by (simp add: seg_def map_append [symmetric] del: map_append)
    (metis le_add_diff_inverse upt_add_eq_append)

lemma seg_cong: "(\<And>i. a \<le> i \<Longrightarrow> i < b \<Longrightarrow> xs ! i = ys ! i) \<Longrightarrow> seg xs a b = seg ys a b"
  by (simp add: seg_def)

lemma seg_update [simp]: "\<not> (a \<le> i \<and> i < b) \<Longrightarrow> seg (xs[i := v]) a b = seg xs a b"
  by (rule seg_cong) (auto simp: nth_list_update)

lemma set_seg: "set (seg xs a b) = (!) xs ` {a..<b}"
  by (simp add: seg_def)

lemma seg_all: "seg xs 0 (length xs) = xs"
  by (simp add: seg_def map_nth)

lemma mset_seg_replace:
  assumes "a \<le> i" "i < b" "b \<le> length xs"
  shows "mset (seg (xs[i := v]) a b) = add_mset v (mset (seg xs a b) - {#xs ! i#})"
proof -
  have "seg (xs[i := v]) a b = (seg xs a b)[i - a := v]"
    using assms by (intro nth_equalityI) (auto simp: nth_list_update)
  then show ?thesis using assms by (simp add: mset_update)
qed

section \<open>Lists sorted by a key\<close>

text \<open>In a list sorted by \<open>f\<close>, the elements with key \<open>n\<close> stand between two positions.\<close>

definition key_pos :: "('a \<Rightarrow> nat) \<Rightarrow> 'a list \<Rightarrow> nat \<Rightarrow> nat" where
  "key_pos f xs n = length (filter (\<lambda>x. f x < n) xs)"

lemma key_pos_le [simp]: "key_pos f xs n \<le> length xs"
  by (simp add: key_pos_def)

lemma key_pos_0 [simp]: "key_pos f xs 0 = 0"
  by (simp add: key_pos_def)

lemma key_pos_all: "\<forall>x \<in> set xs. f x < n \<Longrightarrow> key_pos f xs n = length xs"
  by (simp add: key_pos_def)

lemma key_pos_mono: "m \<le> n \<Longrightarrow> key_pos f xs m \<le> key_pos f xs n"
  unfolding key_pos_def by (induction xs) auto

lemma key_pos_iff:
  assumes "sorted (map f xs)" "i < length xs"
  shows "i < key_pos f xs n \<longleftrightarrow> f (xs ! i) < n"
  using assms
proof (induction xs arbitrary: i)
  case (Cons x xs)
  then have "\<not> f x < n \<Longrightarrow> filter (\<lambda>x. f x < n) xs = []"
    by (auto simp: filter_empty_conv)
  with Cons show ?case by (cases i) (auto simp: key_pos_def)
qed simp

lemma filter_key_seg:
  assumes "sorted (map f xs)"
  shows "filter (\<lambda>x. f x = n) xs = seg xs (key_pos f xs n) (key_pos f xs (Suc n))"
proof -
  let ?a = "key_pos f xs n" and ?b = "key_pos f xs (Suc n)"
  have le: "?a \<le> ?b" "?b \<le> length xs" by (simp_all add: key_pos_mono)
  have "xs = seg xs 0 ?a @ seg xs ?a ?b @ seg xs ?b (length xs)"
    using le seg_all [of xs] by (simp add: seg_join)
  then have split: "filter (\<lambda>x. f x = n) xs = filter (\<lambda>x. f x = n) (seg xs 0 ?a) @
      filter (\<lambda>x. f x = n) (seg xs ?a ?b) @ filter (\<lambda>x. f x = n) (seg xs ?b (length xs))"
    by (metis filter_append)
  have lo: "f (xs ! i) \<noteq> n" if "i < ?a" for i
    using that key_pos_iff [OF assms, of i n] le by simp
  have hi: "f (xs ! i) \<noteq> n" if "?b \<le> i" "i < length xs" for i
    using that key_pos_iff [OF assms, of i "Suc n"] by simp
  have mid: "f (xs ! i) = n" if "?a \<le> i" "i < ?b" for i
    using that key_pos_iff [OF assms, of i n] key_pos_iff [OF assms, of i "Suc n"] le by simp
  have "filter (\<lambda>x. f x = n) (seg xs 0 ?a) = []"
    unfolding filter_empty_conv set_seg using lo by auto
  moreover have "filter (\<lambda>x. f x = n) (seg xs ?b (length xs)) = []"
    unfolding filter_empty_conv set_seg using hi by auto
  moreover have "filter (\<lambda>x. f x = n) (seg xs ?a ?b) = seg xs ?a ?b"
    unfolding filter_id_conv set_seg using mid by auto
  ultimately show ?thesis using split by simp
qed

section \<open>Association lists under list update\<close>

lemma map_of_list_update:
  assumes "distinct (map f xs)" "j < length xs" "f y = f (xs ! j)"
  shows "map_of (map (\<lambda>x. (f x, g x)) (xs[j := y])) =
    (map_of (map (\<lambda>x. (f x, g x)) xs))(f (xs ! j) \<mapsto> g y)"
  using assms
proof (induction xs arbitrary: j)
  case (Cons x xs)
  show ?case
  proof (cases j)
    case (Suc i)
    with Cons.prems have "f x \<noteq> f (xs ! i)" by auto
    then show ?thesis using Cons Suc by (auto simp: fun_eq_iff)
  qed (use Cons.prems in \<open>auto simp: fun_eq_iff\<close>)
qed simp

lemma map_filter_list_update:
  assumes "f y = f (xs ! j)" "P y = P (xs ! j)" "j < length xs"
  shows "map f (filter P (xs[j := y])) = map f (filter P xs)"
  using assms by (induction xs arbitrary: j) (auto simp: nth_Cons split: nat.splits)

lemma ball_map_eq:
  assumes "map f xs = map f ys"
  shows "(\<forall>x \<in> set xs. P (f x)) \<longleftrightarrow> (\<forall>y \<in> set ys. P (f y))"
proof -
  have "(\<forall>x \<in> set zs. P (f x)) \<longleftrightarrow> (\<forall>z \<in> set (map f zs). P z)" for zs by simp
  then show ?thesis using assms by metis
qed

end
