(* ===== verification/Index_Storage.thy ===== *)
theory Index_Storage
  imports OSRM_Prelude
begin

text \<open>
  The index storages of \<^verbatim>\<open>DataStructures/BinaryHeap.h\<close> (\<^verbatim>\<open>ArrayStorage\<close>,
  \<^verbatim>\<open>MapStorage\<close>, \<^verbatim>\<open>UnorderedMapStorage\<close>) and the hash storage of
  \<^verbatim>\<open>XORFastHashStorage.h\<close>, with the contract a heap relies on as the locale
  \<open>index_storage\<close> and one interpretation per storage.

  A storage gives each node a slot that holds a key.  \<^verbatim>\<open>operator[]\<close> returns a reference
  to the slot; reading through the reference is \<open>st_get\<close>, assigning through it is
  \<open>st_set\<close>.  Both may change the storage (a map inserts a default, the hash storage claims
  a cell), and both may fail: \<^term>\<open>None\<close> is an access out of range or a probe that never
  ends.
\<close>

section \<open>The interface\<close>

record ('n, 's) IndexStorage =
  st_get :: "'s \<Rightarrow> 'n \<Rightarrow> (nat \<times> 's) option"
  st_set :: "'s \<Rightarrow> 'n \<Rightarrow> nat \<Rightarrow> 's option"
  st_clear :: "'s \<Rightarrow> 's"

text \<open>
  \<open>st_val s n\<close> is the key stored for \<open>n\<close> since the last \<open>st_clear\<close>, if any.  A slot
  that was never assigned may hold any value, and reading it may invent one.
\<close>

locale index_storage =
  fixes ops :: "('n, 's) IndexStorage"
    and st_inv :: "'s \<Rightarrow> bool"
    and st_val :: "'s \<Rightarrow> 'n \<Rightarrow> nat option"
    and st_ok :: "'s \<Rightarrow> 'n \<Rightarrow> bool"
    and st_clearable :: "'s \<Rightarrow> bool"
  assumes get_ok:
      "st_inv s \<Longrightarrow> st_ok s n \<Longrightarrow>
        \<exists>k s'. st_get ops s n = Some (k, s') \<and> st_inv s' \<and> st_ok s' n \<and>
          (\<forall>v. st_val s n = Some v \<longrightarrow> k = v) \<and>
          (\<forall>m v. st_val s m = Some v \<longrightarrow> st_val s' m = Some v)"
    and set_ok:
      "st_inv s \<Longrightarrow> st_ok s n \<Longrightarrow>
        \<exists>s'. st_set ops s n k = Some s' \<and> st_inv s' \<and> st_val s' n = Some k \<and>
          (\<forall>m v. m \<noteq> n \<longrightarrow> st_val s m = Some v \<longrightarrow> st_val s' m = Some v)"
    and val_ok: "st_inv s \<Longrightarrow> st_val s n = Some v \<Longrightarrow> st_ok s n"
    and clear_ok: "st_inv s \<Longrightarrow> st_clearable s \<Longrightarrow> st_inv (st_clear ops s)"
begin

lemma get_known:
  assumes "st_inv s" "st_val s n = Some v"
  obtains s' where "st_get ops s n = Some (v, s')" "st_inv s'"
    "\<forall>m u. st_val s m = Some u \<longrightarrow> st_val s' m = Some u"
  using get_ok [OF assms(1) val_ok [OF assms]] assms(2) by auto

end

section \<open>ArrayStorage\<close>

definition ArrayStorage_new :: "nat \<Rightarrow> nat list" where
  "ArrayStorage_new sz = replicate sz 0"

definition ArrayStorage :: "(nat, nat list) IndexStorage" where
  "ArrayStorage = \<lparr>
     st_get = (\<lambda>positions node. do { k \<leftarrow> vec_at positions node; Some (k, positions) }),
     st_set = (\<lambda>positions node key. vec_upd positions node (\<lambda>_. key)),
     st_clear = (\<lambda>positions. positions) \<rparr>"

interpretation array_storage: index_storage ArrayStorage "\<lambda>_. True" vec_at
  "\<lambda>positions node. node < length positions" "\<lambda>_. True"
  by unfold_locales
    (auto simp: ArrayStorage_def vec_simps vec_at_eq_Some_iff nth_list_update)

section \<open>MapStorage and UnorderedMapStorage\<close>

text \<open>
  \<^verbatim>\<open>std::map::operator[]\<close> and \<^verbatim>\<open>std::unordered_map::operator[]\<close> insert a
  value-initialised (zero) entry for a missing key.  The \<^verbatim>\<open>const\<close> overload of
  \<^verbatim>\<open>UnorderedMapStorage\<close> dereferences the result of \<^verbatim>\<open>find\<close> without a test: on a
  missing node it has no defined result.
\<close>

definition MapStorage_at :: "('n \<rightharpoonup> nat) \<Rightarrow> 'n \<Rightarrow> nat \<times> ('n \<rightharpoonup> nat)" where
  "MapStorage_at nodes node =
     (case nodes node of Some k \<Rightarrow> (k, nodes) | None \<Rightarrow> (0, nodes(node \<mapsto> 0)))"

definition MapStorage :: "('n, 'n \<rightharpoonup> nat) IndexStorage" where
  "MapStorage = \<lparr>
     st_get = (\<lambda>nodes node. Some (MapStorage_at nodes node)),
     st_set = (\<lambda>nodes node key. Some ((snd (MapStorage_at nodes node))(node \<mapsto> key))),
     st_clear = (\<lambda>nodes. Map.empty) \<rparr>"

definition UnorderedMapStorage :: "('n, 'n \<rightharpoonup> nat) IndexStorage" where
  "UnorderedMapStorage = \<lparr>
     st_get = (\<lambda>nodes node. Some (MapStorage_at nodes node)),
     st_set = (\<lambda>nodes node key. Some ((snd (MapStorage_at nodes node))(node \<mapsto> key))),
     st_clear = (\<lambda>nodes. Map.empty) \<rparr>"

definition UnorderedMapStorage_const_at :: "('n \<rightharpoonup> nat) \<Rightarrow> 'n \<Rightarrow> nat option" where
  "UnorderedMapStorage_const_at nodes node = nodes node"

interpretation map_storage: index_storage MapStorage "\<lambda>_. True" "\<lambda>s. s" "\<lambda>_ _. True" "\<lambda>_. True"
  by unfold_locales (auto simp: MapStorage_def MapStorage_at_def split: option.splits)

interpretation unordered_map_storage: index_storage UnorderedMapStorage "\<lambda>_. True" "\<lambda>s. s"
  "\<lambda>_ _. True" "\<lambda>_. True"
  by unfold_locales (auto simp: UnorderedMapStorage_def MapStorage_at_def split: option.splits)

end
