(* ===== verification/XOR_Fast_Hash.thy ===== *)
theory XOR_Fast_Hash
  imports Index_Storage
begin

text \<open>
  \<^verbatim>\<open>DataStructures/XORFastHash.h\<close> and \<^verbatim>\<open>DataStructures/XORFastHashStorage.h\<close>: the
  tabulation hash and the open-addressing index storage of the contractor's heap.  A cell is in
  use when its \<open>time\<close> equals the current time stamp, so that \<open>Clear\<close> is an increment.
  The shuffles of the hash tables are random: they are arguments of the constructor.
\<close>

unbundle bit_operations_syntax

section \<open>Tabulation hashing\<close>

record XORFastHash =
  table1 :: "u16 list"
  table2 :: "u16 list"

definition hash_table_size :: nat where
  "hash_table_size = 2 * 2 ^ 16"

definition XORFastHash_new ::
    "(u16 list \<Rightarrow> u16 list) \<Rightarrow> (u16 list \<Rightarrow> u16 list) \<Rightarrow> XORFastHash" where
  "XORFastHash_new shuffle1 shuffle2 =
     \<lparr> table1 = shuffle1 (map of_nat (irange 0 hash_table_size)),
       table2 = shuffle2 (map of_nat (irange 0 hash_table_size)) \<rparr>"

definition XORFastHash_hash :: "XORFastHash \<Rightarrow> u32 \<Rightarrow> u16" where
  "XORFastHash_hash h originalValue =
     (let lsb = (ucast (originalValue AND 0xffff) :: u16);
          msb = (ucast (drop_bit 16 originalValue AND 0xffff) :: u16)
      in (table1 h ! unat lsb) XOR (table2 h ! unat msb))"

section \<open>The storage\<close>

record HashCell =
  cell_key :: nat
  cell_id :: u32
  cell_time :: u32

definition HashCell_new :: HashCell where
  "HashCell_new = \<lparr> cell_key = 2 ^ 32 - 1, cell_id = - 1, cell_time = - 1 \<rparr>"

record XORFastHashStorage =
  positions :: "HashCell list"
  fast_hasher :: XORFastHash
  current_timestamp :: u32

definition XORFastHashStorage_new :: "XORFastHash \<Rightarrow> XORFastHashStorage" where
  "XORFastHashStorage_new hasher =
     \<lparr> positions = replicate hash_table_size HashCell_new, fast_hasher = hasher,
       current_timestamp = 0 \<rparr>"

partial_function (option) xor_probe :: "XORFastHashStorage \<Rightarrow> u32 \<Rightarrow> u16 \<Rightarrow> u16 option" where
  "xor_probe s node position =
     (case vec_at (positions s) (unat position) of
        None \<Rightarrow> None
      | Some cell \<Rightarrow>
          if cell_time cell = current_timestamp s \<and> cell_id cell \<noteq> node
          then xor_probe s node (position + 1)
          else Some position)"

definition XORFastHashStorage_at ::
    "XORFastHashStorage \<Rightarrow> u32 \<Rightarrow> (u16 \<times> XORFastHashStorage) option" where
  "XORFastHashStorage_at s node = do {
     position \<leftarrow> xor_probe s node (XORFastHash_hash (fast_hasher s) node);
     cells \<leftarrow> vec_upd (positions s) (unat position)
       (\<lambda>cell. cell\<lparr> cell_id := node, cell_time := current_timestamp s \<rparr>);
     Some (position, s\<lparr> positions := cells \<rparr>)
   }"

definition XORFastHashStorage_Clear :: "XORFastHashStorage \<Rightarrow> XORFastHashStorage" where
  "XORFastHashStorage_Clear s =
     (let s' = s\<lparr> current_timestamp := current_timestamp s + 1 \<rparr>
      in if current_timestamp s' = - 1
         then s'\<lparr> positions := replicate hash_table_size HashCell_new \<rparr>
         else s')"

definition XORFastHashStorage_ops :: "(u32, XORFastHashStorage) IndexStorage" where
  "XORFastHashStorage_ops = \<lparr>
     st_get = (\<lambda>s node. do {
       (position, s') \<leftarrow> XORFastHashStorage_at s node;
       cell \<leftarrow> vec_at (positions s') (unat position);
       Some (cell_key cell, s')
     }),
     st_set = (\<lambda>s node key. do {
       (position, s') \<leftarrow> XORFastHashStorage_at s node;
       cells \<leftarrow> vec_upd (positions s') (unat position) (\<lambda>cell. cell\<lparr> cell_key := key \<rparr>);
       Some (s'\<lparr> positions := cells \<rparr>)
     }),
     st_clear = XORFastHashStorage_Clear \<rparr>"

section \<open>Probing\<close>

definition cell_at :: "XORFastHashStorage \<Rightarrow> u16 \<Rightarrow> HashCell" where
  "cell_at s p = positions s ! unat p"

definition blocked :: "XORFastHashStorage \<Rightarrow> u32 \<Rightarrow> u16 \<Rightarrow> bool" where
  "blocked s n p \<longleftrightarrow> cell_time (cell_at s p) = current_timestamp s \<and> cell_id (cell_at s p) \<noteq> n"

definition xor_inv :: "XORFastHashStorage \<Rightarrow> bool" where
  "xor_inv s \<longleftrightarrow> length (positions s) = hash_table_size \<and>
     (\<forall>cell \<in> set (positions s). cell_time cell = - 1 \<or>
        current_timestamp s \<noteq> - 1 \<and> cell_time cell \<le> current_timestamp s)"

definition xor_val :: "XORFastHashStorage \<Rightarrow> u32 \<Rightarrow> nat option" where
  "xor_val s n =
     (case xor_probe s n (XORFastHash_hash (fast_hasher s) n) of
        None \<Rightarrow> None
      | Some p \<Rightarrow> if cell_time (cell_at s p) = current_timestamp s
                  then Some (cell_key (cell_at s p)) else None)"

definition xor_ok :: "XORFastHashStorage \<Rightarrow> u32 \<Rightarrow> bool" where
  "xor_ok s n \<longleftrightarrow> (\<exists>p. \<not> blocked s n p)"

lemma unat_u16_in_table: "length xs = hash_table_size \<Longrightarrow> unat (p :: u16) < length xs"
  using unsigned_less [of p, where ?'a = nat] by (simp add: hash_table_size_def)

lemma xor_probe_step:
  assumes "length (positions s) = hash_table_size"
  shows "xor_probe s n p = (if blocked s n p then xor_probe s n (p + 1) else Some p)"
  by (subst xor_probe.simps)
    (simp add: vec_simps unat_u16_in_table [OF assms] blocked_def cell_at_def)

lemma xor_probe_run:
  assumes "length (positions s) = hash_table_size" "\<forall>j < d. blocked s n (p + of_nat j)"
  shows "xor_probe s n p = xor_probe s n (p + of_nat d)"
  using assms(2)
proof (induction d)
  case (Suc d)
  then have "xor_probe s n p = xor_probe s n (p + of_nat d)" by simp
  also have "\<dots> = xor_probe s n (p + of_nat d + 1)"
    using Suc.prems by (subst xor_probe_step [OF assms(1)]) simp
  finally show ?case by (simp add: ac_simps)
qed simp

lemma xor_probe_found:
  assumes "length (positions s) = hash_table_size" "\<forall>j < d. blocked s n (p + of_nat j)"
    and "\<not> blocked s n (p + of_nat d)"
  shows "xor_probe s n p = Some (p + of_nat d)"
  using xor_probe_run [OF assms(1,2)] xor_probe_step [OF assms(1), of n "p + of_nat d"] assms(3)
  by simp

lemma xor_probe_ex:
  assumes "length (positions s) = hash_table_size" "\<not> blocked s n q"
  obtains d where "\<forall>j < d. blocked s n (p + of_nat j)" "\<not> blocked s n (p + of_nat d)"
    "xor_probe s n p = Some (p + of_nat d)"
proof -
  have "\<not> blocked s n (p + of_nat (unat (q - p)))" using assms(2) by simp
  then obtain d where "\<not> blocked s n (p + of_nat d)" "\<forall>j < d. blocked s n (p + of_nat j)"
    using exists_least_iff [of "\<lambda>d. \<not> blocked s n (p + of_nat d)"] by blast
  with that xor_probe_found [OF assms(1)] show thesis by blast
qed

lemma xor_probe_not_blocked:
  assumes "length (positions s) = hash_table_size" "xor_probe s n p = Some q"
  shows "\<not> blocked s n q"
proof -
  have "length (positions s) = hash_table_size \<longrightarrow> \<not> blocked s n q"
  proof (rule xor_probe.raw_induct
      [where P = "\<lambda>s n p q. length (positions s) = hash_table_size \<longrightarrow> \<not> blocked s n q",
        OF _ assms(2)], rule impI)
  fix probe s n p q
  assume "\<And>s n p q. probe s n p = Some q \<Longrightarrow>
      length (positions s) = hash_table_size \<longrightarrow> \<not> blocked s n q"
    and "(case vec_at (positions s) (unat p) of None \<Rightarrow> None
      | Some cell \<Rightarrow> if cell_time cell = current_timestamp s \<and> cell_id cell \<noteq> n
          then probe s n (p + 1) else Some p) = Some q"
    and "length (positions s) = hash_table_size"
  then show "\<not> blocked s n q"
    by (auto simp: vec_at_def unat_u16_in_table blocked_def cell_at_def split: if_splits)
  qed
  with assms(1) show ?thesis by blast
qed

lemma xor_probe_diverges:
  assumes "length (positions s) = hash_table_size" "\<And>p. blocked s n p"
  shows "xor_probe s n p = None"
  using assms xor_probe_not_blocked [OF assms(1)] by (metis option.exhaust)

section \<open>Accesses\<close>

definition same_cells :: "XORFastHashStorage \<Rightarrow> XORFastHashStorage \<Rightarrow> u32 \<Rightarrow> u16 \<Rightarrow> bool" where
  "same_cells s s' n p \<longleftrightarrow>
     length (positions s') = length (positions s) \<and> fast_hasher s' = fast_hasher s \<and>
     current_timestamp s' = current_timestamp s \<and>
     (\<forall>q. q \<noteq> p \<longrightarrow> cell_at s' q = cell_at s q) \<and>
     cell_id (cell_at s' p) = n \<and> cell_time (cell_at s' p) = current_timestamp s"

lemma same_cells_val:
  assumes len: "length (positions s) = hash_table_size" and free: "\<not> blocked s n p"
    and same: "same_cells s s' n p" and val: "xor_val s m = Some v" and neq: "m \<noteq> n"
  shows "xor_val s' m = Some v"
proof -
  let ?h = "XORFastHash_hash (fast_hasher s) m"
  have len': "length (positions s') = hash_table_size" and now: "current_timestamp s' = current_timestamp s"
    and hash: "fast_hasher s' = fast_hasher s"
    using len same by (simp_all add: same_cells_def)
  obtain q where q: "xor_probe s m ?h = Some q" "cell_time (cell_at s q) = current_timestamp s"
    "v = cell_key (cell_at s q)"
    using val by (auto simp: xor_val_def split: option.splits if_splits)
  have "\<not> blocked s m q" using xor_probe_not_blocked [OF len q(1)] .
  then obtain d where d: "\<forall>j < d. blocked s m (?h + of_nat j)" "\<not> blocked s m (?h + of_nat d)"
      "xor_probe s m ?h = Some (?h + of_nat d)"
    using xor_probe_ex [OF len, of m q ?h] by metis
  have qd: "q = ?h + of_nat d" using q(1) d(3) by simp
  have mq: "cell_id (cell_at s q) = m" using \<open>\<not> blocked s m q\<close> q(2) by (simp add: blocked_def)
  have "q \<noteq> p" using free mq q(2) neq by (auto simp: blocked_def)
  then have cq: "cell_at s' q = cell_at s q" using same by (simp add: same_cells_def)
  have "blocked s' m r" if "blocked s m r" for r
    using that same neq by (cases "r = p") (auto simp: blocked_def same_cells_def)
  with d(1) have "\<forall>j < d. blocked s' m (?h + of_nat j)" by blast
  moreover have "\<not> blocked s' m (?h + of_nat d)"
    using mq cq by (simp add: qd [symmetric] blocked_def)
  ultimately have "xor_probe s' m ?h = Some q" using xor_probe_found [OF len'] qd by simp
  then show ?thesis using q cq by (simp add: xor_val_def hash now)
qed

lemma same_cells_val_self:
  assumes len: "length (positions s) = hash_table_size"
    and probe: "xor_probe s n (XORFastHash_hash (fast_hasher s) n) = Some p"
    and same: "same_cells s s' n p"
  shows "xor_val s' n = Some (cell_key (cell_at s' p))"
proof -
  let ?h = "XORFastHash_hash (fast_hasher s) n"
  have len': "length (positions s') = hash_table_size"
    using len same by (simp add: same_cells_def)
  obtain d where d: "\<forall>j < d. blocked s n (?h + of_nat j)" "xor_probe s n ?h = Some (?h + of_nat d)"
    using xor_probe_ex [OF len xor_probe_not_blocked [OF len probe], of ?h] by metis
  have pd: "p = ?h + of_nat d" using probe d(2) by simp
  have "blocked s' n r" if "blocked s n r" for r
    using that same xor_probe_not_blocked [OF len probe]
    by (cases "r = p") (auto simp: blocked_def same_cells_def)
  with d(1) have "\<forall>j < d. blocked s' n (?h + of_nat j)" by blast
  moreover have "\<not> blocked s' n (?h + of_nat d)"
    using same by (simp add: pd [symmetric] blocked_def same_cells_def)
  ultimately have "xor_probe s' n ?h = Some p" using xor_probe_found [OF len'] pd by simp
  then show ?thesis using same by (simp add: xor_val_def same_cells_def)
qed

lemma cell_at_update:
  assumes "length (positions s) = hash_table_size"
  shows "cell_at (s\<lparr> positions := (positions s)[unat p := c] \<rparr>) q =
    (if q = p then c else cell_at s q)"
  using unat_u16_in_table [OF assms] by (auto simp: cell_at_def nth_list_update word_unat_eq_iff)

lemma XORFastHashStorage_at_Some:
  assumes inv: "xor_inv s" and ok: "xor_ok s n"
  obtains p s' where "XORFastHashStorage_at s n = Some (p, s')" "same_cells s s' n p"
    "xor_probe s n (XORFastHash_hash (fast_hasher s) n) = Some p"
    "cell_key (cell_at s' p) = cell_key (cell_at s p)" "xor_inv s'"
proof -
  have len: "length (positions s) = hash_table_size" using inv by (simp add: xor_inv_def)
  obtain p where p: "xor_probe s n (XORFastHash_hash (fast_hasher s) n) = Some p"
    using ok xor_probe_ex [OF len] by (metis xor_ok_def)
  let ?c = "(cell_at s p)\<lparr> cell_id := n, cell_time := current_timestamp s \<rparr>"
  let ?s' = "s\<lparr> positions := (positions s)[unat p := ?c] \<rparr>"
  have "XORFastHashStorage_at s n = Some (p, ?s')"
    using p unat_u16_in_table [OF len, of p]
    by (simp add: XORFastHashStorage_at_def vec_simps cell_at_def)
  moreover have "same_cells s ?s' n p"
    using cell_at_update [OF len] len by (simp add: same_cells_def)
  moreover have "xor_inv ?s'"
    using inv by (auto simp: xor_inv_def dest!: subsetD [OF set_update_subset_insert])
  ultimately show thesis using that p cell_at_update [OF len, of p ?c p] by simp
qed

lemma xor_get_ok:
  assumes inv: "xor_inv s" and ok: "xor_ok s n"
  shows "\<exists>k s'. st_get XORFastHashStorage_ops s n = Some (k, s') \<and> xor_inv s' \<and> xor_ok s' n \<and>
    (\<forall>v. xor_val s n = Some v \<longrightarrow> k = v) \<and> (\<forall>m v. xor_val s m = Some v \<longrightarrow> xor_val s' m = Some v)"
proof -
  have len: "length (positions s) = hash_table_size" using inv by (simp add: xor_inv_def)
  obtain p s' where at: "XORFastHashStorage_at s n = Some (p, s')" and same: "same_cells s s' n p"
    and p: "xor_probe s n (XORFastHash_hash (fast_hasher s) n) = Some p"
    and key: "cell_key (cell_at s' p) = cell_key (cell_at s p)" and inv': "xor_inv s'"
    using XORFastHashStorage_at_Some [OF assms] .
  have len': "length (positions s') = hash_table_size" using inv' by (simp add: xor_inv_def)
  have get: "st_get XORFastHashStorage_ops s n = Some (cell_key (cell_at s p), s')"
    using at key unat_u16_in_table [OF len', of p]
    by (simp add: XORFastHashStorage_ops_def vec_simps cell_at_def)
  have self: "xor_val s' n = Some (cell_key (cell_at s p))"
    using same_cells_val_self [OF len p same] key by simp
  have val: "xor_val s n = Some v \<Longrightarrow> cell_key (cell_at s p) = v" for v
    using p by (auto simp: xor_val_def split: if_splits)
  have "xor_val s' m = Some v" if "xor_val s m = Some v" for m v
    using that self val same_cells_val [OF len xor_probe_not_blocked [OF len p] same]
    by (cases "m = n") auto
  moreover have "xor_ok s' n"
    using same by (auto simp: xor_ok_def blocked_def same_cells_def intro: exI [of _ p])
  ultimately show ?thesis using get inv' val by blast
qed

lemma xor_set_ok:
  assumes inv: "xor_inv s" and ok: "xor_ok s n"
  shows "\<exists>s'. st_set XORFastHashStorage_ops s n k = Some s' \<and> xor_inv s' \<and>
    xor_val s' n = Some k \<and> (\<forall>m v. m \<noteq> n \<longrightarrow> xor_val s m = Some v \<longrightarrow> xor_val s' m = Some v)"
proof -
  have len: "length (positions s) = hash_table_size" using inv by (simp add: xor_inv_def)
  obtain p s1 where at: "XORFastHashStorage_at s n = Some (p, s1)" and same: "same_cells s s1 n p"
    and p: "xor_probe s n (XORFastHash_hash (fast_hasher s) n) = Some p" and inv1: "xor_inv s1"
    using XORFastHashStorage_at_Some [OF assms] by metis
  have len1: "length (positions s1) = hash_table_size" using inv1 by (simp add: xor_inv_def)
  let ?c = "(cell_at s1 p)\<lparr> cell_key := k \<rparr>"
  let ?s' = "s1\<lparr> positions := (positions s1)[unat p := ?c] \<rparr>"
  have set: "st_set XORFastHashStorage_ops s n k = Some ?s'"
    using at unat_u16_in_table [OF len1, of p]
    by (simp add: XORFastHashStorage_ops_def vec_simps cell_at_def)
  have same': "same_cells s ?s' n p"
    using same cell_at_update [OF len1] by (simp add: same_cells_def)
  have "?c \<in> set (positions ?s')" "cell_time ?c = current_timestamp s1"
    using unat_u16_in_table [OF len1, of p] same by (auto simp: same_cells_def set_update_memI)
  then have inv': "xor_inv ?s'"
    using inv1 by (auto simp: xor_inv_def dest!: subsetD [OF set_update_subset_insert])
  have "xor_val ?s' n = Some k"
    using same_cells_val_self [OF len p same'] cell_at_update [OF len1, of p ?c p] by simp
  then show ?thesis
    using set inv' same_cells_val [OF len xor_probe_not_blocked [OF len p] same'] by blast
qed

lemma xor_val_ok: "xor_val s n = Some v \<Longrightarrow> xor_inv s \<Longrightarrow> xor_ok s n"
  using xor_probe_not_blocked
  by (fastforce simp: xor_val_def xor_ok_def xor_inv_def split: option.splits)

lemma u32_le_Suc:
  assumes "(t :: u32) \<le> u" "u \<noteq> - 1"
  shows "t \<le> u + 1"
proof -
  have "u + 1 \<noteq> 0" using assms(2) by (metis add_eq_0_iff2)
  then have "unat (u + 1) = Suc (unat u)" by (metis add.commute unatSuc)
  with assms(1) show ?thesis by (simp add: word_le_nat_alt)
qed

lemma xor_clear_inv:
  assumes "xor_inv s"
  shows "xor_inv (XORFastHashStorage_Clear s)"
  using assms u32_le_Suc
  by (fastforce simp: xor_inv_def XORFastHashStorage_Clear_def Let_def HashCell_new_def)

lemma xor_st_clear: "st_clear XORFastHashStorage_ops = XORFastHashStorage_Clear"
  by (simp add: XORFastHashStorage_ops_def)

interpretation xor_storage: index_storage XORFastHashStorage_ops xor_inv xor_val xor_ok "\<lambda>_. True"
  by unfold_locales
    (simp_all only: xor_get_ok xor_set_ok xor_val_ok xor_clear_inv xor_st_clear)

section \<open>Clearing and capacity\<close>

definition xor_used :: "XORFastHashStorage \<Rightarrow> u16 set" where
  "xor_used s = {p. cell_time (cell_at s p) = current_timestamp s}"

lemma xor_clear_unused:
  assumes "xor_inv s" "current_timestamp s + 1 \<noteq> - 1"
  shows "xor_used (XORFastHashStorage_Clear s) = {}"
proof -
  have len: "length (positions s) = hash_table_size" using assms(1) by (simp add: xor_inv_def)
  have "cell_time (cell_at s p) \<noteq> current_timestamp s + 1" for p
  proof
    assume eq: "cell_time (cell_at s p) = current_timestamp s + 1"
    have "cell_at s p \<in> set (positions s)"
      using unat_u16_in_table [OF len, of p] by (simp add: cell_at_def)
    with assms eq have "current_timestamp s \<noteq> - 1" "current_timestamp s + 1 \<le> current_timestamp s"
      by (auto simp: xor_inv_def)
    then show False
      by (metis add_eq_0_iff2 add.commute linorder_not_less unatSuc lessI word_le_nat_alt)
  qed
  with assms(2) show ?thesis
    by (auto simp: xor_used_def XORFastHashStorage_Clear_def Let_def cell_at_def)
qed

lemma xor_used_room:
  assumes "card (xor_used s) < 2 ^ 16"
  shows "xor_ok s n"
proof (rule ccontr)
  assume "\<not> xor_ok s n"
  then have "xor_used s = UNIV" by (auto simp: xor_ok_def blocked_def xor_used_def)
  with assms show False by (simp add: card_word)
qed

lemma xor_set_used:
  assumes "xor_inv s" "xor_ok s n" "st_set XORFastHashStorage_ops s n k = Some s'"
  shows "card (xor_used s') \<le> Suc (card (xor_used s))"
proof -
  obtain p s1 where at: "XORFastHashStorage_at s n = Some (p, s1)" and same: "same_cells s s1 n p"
    and inv1: "xor_inv s1"
    using XORFastHashStorage_at_Some [OF assms(1,2)] by metis
  have len1: "length (positions s1) = hash_table_size" using inv1 by (simp add: xor_inv_def)
  have "s' = s1\<lparr> positions := (positions s1)[unat p := (cell_at s1 p)\<lparr> cell_key := k \<rparr>] \<rparr>"
    using at assms(3) unat_u16_in_table [OF len1, of p]
    by (simp add: XORFastHashStorage_ops_def vec_simps cell_at_def)
  then have "xor_used s' \<subseteq> insert p (xor_used s)"
    using same cell_at_update [OF len1] by (auto simp: xor_used_def same_cells_def split: if_splits)
  then have "card (xor_used s') \<le> card (insert p (xor_used s))"
    by (intro card_mono) auto
  then show ?thesis by (simp add: card_insert_if split: if_splits)
qed

text \<open>Storing a sequence of node-key pairs one after the other.\<close>

fun xor_store :: "XORFastHashStorage \<Rightarrow> (u32 \<times> nat) list \<Rightarrow> XORFastHashStorage option" where
  "xor_store s [] = Some s"
| "xor_store s ((n, k) # kvs) = do { s' \<leftarrow> st_set XORFastHashStorage_ops s n k; xor_store s' kvs }"

lemma xor_store_ok:
  assumes "xor_inv s" "card (xor_used s) + length kvs \<le> 2 ^ 16"
  shows "\<exists>s'. xor_store s kvs = Some s' \<and> xor_inv s' \<and>
    (\<forall>n v. (case map_of (rev kvs) n of None \<Rightarrow> xor_val s n | Some k \<Rightarrow> Some k) = Some v \<longrightarrow>
       xor_val s' n = Some v)"
  using assms
proof (induction kvs arbitrary: s)
  case (Cons kv kvs)
  obtain n k where kv: "kv = (n, k)" by (cases kv)
  have ok: "xor_ok s n" using Cons.prems(2) by (intro xor_used_room) simp
  obtain s1 where s1: "st_set XORFastHashStorage_ops s n k = Some s1" "xor_inv s1"
    "xor_val s1 n = Some k" "\<And>m v. m \<noteq> n \<Longrightarrow> xor_val s m = Some v \<Longrightarrow> xor_val s1 m = Some v"
    using xor_set_ok [OF Cons.prems(1) ok] by blast
  have "card (xor_used s1) + length kvs \<le> 2 ^ 16"
    using xor_set_used [OF Cons.prems(1) ok s1(1)] Cons.prems(2) by simp
  then obtain s' where s': "xor_store s1 kvs = Some s'" "xor_inv s'"
    "\<And>m v. (case map_of (rev kvs) m of None \<Rightarrow> xor_val s1 m | Some k \<Rightarrow> Some k) = Some v \<Longrightarrow>
       xor_val s' m = Some v"
    using Cons.IH [OF s1(2)] by blast
  have "xor_val s' m = Some v"
    if "(case map_of (rev (kv # kvs)) m of None \<Rightarrow> xor_val s m | Some k \<Rightarrow> Some k) = Some v" for m v
    using that s'(3) [of m v] s1(3,4) kv
    by (cases "map_of (rev kvs) m"; cases "m = n") (auto simp: map_add_def)
  then show ?case using s1(1) s'(1,2) kv by auto
qed simp

section \<open>Properties\<close>

text \<open>
  C18: after \<open>Clear\<close> has moved the hash storage to a time stamp other than
  \<^verbatim>\<open>UINT_MAX\<close>, storing keys for up to 65536 nodes never probes forever, and every node
  reads back the key that was stored for it last, whatever the hash tables contain.
\<close>

theorem xor_storage_after_clear:
  assumes "xor_inv s" "current_timestamp s + 1 \<noteq> - 1" "length kvs \<le> 2 ^ 16"
  shows "\<exists>s'. xor_store (st_clear XORFastHashStorage_ops s) kvs = Some s' \<and>
    (\<forall>n k. map_of (rev kvs) n = Some k \<longrightarrow>
       (\<exists>s''. st_get XORFastHashStorage_ops s' n = Some (k, s'')))"
proof -
  obtain s' where s': "xor_store (XORFastHashStorage_Clear s) kvs = Some s'" "xor_inv s'"
    "\<And>n k. map_of (rev kvs) n = Some k \<Longrightarrow> xor_val s' n = Some k"
    using xor_store_ok [OF xor_clear_inv [OF assms(1)], of kvs] assms(3)
      xor_clear_unused [OF assms(1,2)] by fastforce
  then show ?thesis using xor_storage.get_known [OF s'(2)] by (metis xor_st_clear)
qed

lemma xor_new_inv: "xor_inv (XORFastHashStorage_new h)"
  by (simp add: xor_inv_def XORFastHashStorage_new_def HashCell_new_def)

theorem xor_storage_after_clear_witness:
  "\<exists>s'. xor_store (st_clear XORFastHashStorage_ops
      (XORFastHashStorage_new (XORFastHash_new id rev))) [(7, 0), (8, 1), (7, 2)] = Some s' \<and>
    (\<exists>s''. st_get XORFastHashStorage_ops s' 7 = Some (2, s'')) \<and>
    (\<exists>s''. st_get XORFastHashStorage_ops s' 8 = Some (1, s''))"
proof -
  have "current_timestamp (XORFastHashStorage_new (XORFastHash_new id rev)) + 1 \<noteq> - 1"
    by (simp add: XORFastHashStorage_new_def)
  from xor_storage_after_clear [OF xor_new_inv this, of "[(7, 0), (8, 1), (7, 2)]"]
  show ?thesis by (auto split: if_splits)
qed

text \<open>
  C19: when the \<open>Clear\<close> that moves the time stamp to \<^verbatim>\<open>UINT_MAX\<close> re-initialises the
  cells, every cell carries the time stamp \<^verbatim>\<open>UINT_MAX\<close> of a fresh cell and so counts as
  in use.  Until the next \<open>Clear\<close> every access, of any node but \<^verbatim>\<open>UINT_MAX\<close>,
  probes forever.
\<close>

theorem xor_clear_wrap_diverges:
  assumes "current_timestamp s + 1 = - 1" "n \<noteq> - 1"
  shows "st_get XORFastHashStorage_ops (st_clear XORFastHashStorage_ops s) n = None \<and>
    st_set XORFastHashStorage_ops (st_clear XORFastHashStorage_ops s) n k = None"
proof -
  let ?s = "XORFastHashStorage_Clear s"
  have len: "length (positions ?s) = hash_table_size"
    using assms(1) by (simp add: XORFastHashStorage_Clear_def)
  have "blocked ?s n p" for p
    using assms unat_u16_in_table [OF len, of p] len
    by (simp add: blocked_def cell_at_def XORFastHashStorage_Clear_def HashCell_new_def)
  then have "xor_probe ?s n p = None" for p by (rule xor_probe_diverges [OF len])
  then show ?thesis by (simp add: XORFastHashStorage_ops_def XORFastHashStorage_at_def)
qed

theorem xor_clear_wrap_diverges_witness:
  "st_get XORFastHashStorage_ops (st_clear XORFastHashStorage_ops
     ((XORFastHashStorage_new (XORFastHash_new id id))\<lparr> current_timestamp := - 2 \<rparr>)) 5 = None"
  using xor_clear_wrap_diverges
    [of "(XORFastHashStorage_new (XORFastHash_new id id))\<lparr> current_timestamp := - 2 \<rparr>" 5] by simp

end
