(* ===== verification/Binary_Heap.thy ===== *)
theory Binary_Heap
  imports Index_Storage XOR_Fast_Hash
begin

text \<open>
  \<^verbatim>\<open>DataStructures/BinaryHeap.h\<close>: the addressable binary heap of the searches.  A heap
  keeps the nodes inserted since the last \<open>Clear\<close> in \<open>inserted_nodes\<close> (a removed node
  stays there with key 0), the implicit tree in \<open>heap\<close> (from position 1, with a sentinel of
  minimal weight at position 0), and the position of each node in \<open>inserted_nodes\<close> in an
  index storage, which is an argument of every operation as it is a template argument of the
  class.

  The operations are shown to implement an abstract priority queue with a membership test,
  \<open>decrease key\<close> and data (the record \<open>abs_heap\<close>), over every storage that satisfies the
  locale \<open>index_storage\<close>.
\<close>

section \<open>State\<close>

record ('n, 'd) HeapNode =
  hn_node :: 'n
  hn_key :: nat
  hn_weight :: int
  hn_data :: 'd

record HeapElement =
  he_index :: nat
  he_weight :: int

record ('n, 'd, 's) BinaryHeap =
  inserted_nodes :: "('n, 'd) HeapNode list"
  heap :: "HeapElement list"
  node_index :: 's

section \<open>Operations\<close>

text \<open>
  \<open>Upheap\<close> moves the element at \<open>key\<close> towards the root.  The loop carries the element that
  rises and the hole it leaves; its assertion \<^verbatim>\<open>nextKey != 0\<close> is a failure of the model.
\<close>

function upheap_loop ::
    "HeapElement \<Rightarrow> HeapElement list \<Rightarrow> ('n, 'd) HeapNode list \<Rightarrow> nat \<Rightarrow> nat \<Rightarrow>
     (HeapElement list \<times> ('n, 'd) HeapNode list \<times> nat) option" where
  "upheap_loop rising hp nodes key nextKey = do {
     parent \<leftarrow> vec_at hp nextKey;
     if he_weight parent > he_weight rising then
       if nextKey = 0 then None
       else do {
         hp' \<leftarrow> vec_upd hp key (\<lambda>_. parent);
         nodes' \<leftarrow> vec_upd nodes (he_index parent) (\<lambda>n. n\<lparr> hn_key := key \<rparr>);
         upheap_loop rising hp' nodes' nextKey (nextKey div 2)
       }
     else Some (hp, nodes, key)
   }"
  by pat_completeness auto
termination
  by (relation "measure (\<lambda>(_, _, _, _, nextKey). nextKey)") auto

definition Upheap ::
    "HeapElement list \<Rightarrow> ('n, 'd) HeapNode list \<Rightarrow> nat \<Rightarrow>
     (HeapElement list \<times> ('n, 'd) HeapNode list) option" where
  "Upheap hp nodes key = do {
     rising \<leftarrow> vec_at hp key;
     (hp, nodes, key) \<leftarrow> upheap_loop rising hp nodes key (key div 2);
     hp \<leftarrow> vec_upd hp key (\<lambda>_. rising);
     nodes \<leftarrow> vec_upd nodes (he_index rising) (\<lambda>n. n\<lparr> hn_key := key \<rparr>);
     Some (hp, nodes)
   }"

definition downheap_next :: "HeapElement list \<Rightarrow> nat \<Rightarrow> nat" where
  "downheap_next hp key =
     (if 2 * key + 1 < length hp \<and> he_weight (hp ! (2 * key)) > he_weight (hp ! (2 * key + 1))
      then 2 * key + 1 else 2 * key)"

text \<open>
  \<open>Downheap\<close> is private and only called on position 1; position 0 has no children of its own,
  so the model has no result there.
\<close>

function downheap_loop ::
    "HeapElement \<Rightarrow> HeapElement list \<Rightarrow> ('n, 'd) HeapNode list \<Rightarrow> nat \<Rightarrow>
     (HeapElement list \<times> ('n, 'd) HeapNode list \<times> nat) option" where
  "downheap_loop dropping hp nodes key =
     (if key = 0 then None
      else if 2 * key < length hp then
        let nextKey = downheap_next hp key
        in if he_weight dropping \<le> he_weight (hp ! nextKey) then Some (hp, nodes, key)
           else do {
             hp' \<leftarrow> vec_upd hp key (\<lambda>_. hp ! nextKey);
             nodes' \<leftarrow> vec_upd nodes (he_index (hp ! nextKey)) (\<lambda>n. n\<lparr> hn_key := key \<rparr>);
             downheap_loop dropping hp' nodes' nextKey
           }
      else Some (hp, nodes, key))"
  by pat_completeness auto
termination
  by (relation "measure (\<lambda>(_, hp, _, key). length hp - key)")
    (auto simp: vec_upd_def downheap_next_def split: if_splits)

definition Downheap ::
    "HeapElement list \<Rightarrow> ('n, 'd) HeapNode list \<Rightarrow> nat \<Rightarrow>
     (HeapElement list \<times> ('n, 'd) HeapNode list) option" where
  "Downheap hp nodes key = do {
     dropping \<leftarrow> vec_at hp key;
     (hp, nodes, key) \<leftarrow> downheap_loop dropping hp nodes key;
     hp \<leftarrow> vec_upd hp key (\<lambda>_. dropping);
     nodes \<leftarrow> vec_upd nodes (he_index dropping) (\<lambda>n. n\<lparr> hn_key := key \<rparr>);
     Some (hp, nodes)
   }"

definition CheckHeap :: "HeapElement list \<Rightarrow> unit option" where
  "CheckHeap hp =
     assert_that (\<forall>i \<in> set (irange 2 (length hp)). he_weight (hp ! (i div 2)) \<le> he_weight (hp ! i))"

definition heap_Clear :: "('n, 's) IndexStorage \<Rightarrow> ('n, 'd, 's) BinaryHeap \<Rightarrow> ('n, 'd, 's) BinaryHeap" where
  "heap_Clear ops h = h\<lparr>
     heap := [(if heap h = [] then \<lparr> he_index = 0, he_weight = 0 \<rparr> else heap h ! 0)
              \<lparr> he_weight := INT_MIN \<rparr>],
     inserted_nodes := [],
     node_index := st_clear ops (node_index h) \<rparr>"

definition BinaryHeap_new :: "('n, 's) IndexStorage \<Rightarrow> 's \<Rightarrow> ('n, 'd, 's) BinaryHeap" where
  "BinaryHeap_new ops storage =
     heap_Clear ops \<lparr> inserted_nodes = [], heap = [], node_index = storage \<rparr>"

definition heap_Size :: "('n, 'd, 's) BinaryHeap \<Rightarrow> nat" where
  "heap_Size h = length (heap h) - 1"

definition heap_Empty :: "('n, 'd, 's) BinaryHeap \<Rightarrow> bool" where
  "heap_Empty h \<longleftrightarrow> 0 = heap_Size h"

definition heap_Insert ::
    "('n, 's) IndexStorage \<Rightarrow> ('n, 'd, 's) BinaryHeap \<Rightarrow> 'n \<Rightarrow> int \<Rightarrow> 'd \<Rightarrow>
     ('n, 'd, 's) BinaryHeap option" where
  "heap_Insert ops h node weight data = do {
     let element = \<lparr> he_index = length (inserted_nodes h), he_weight = weight \<rparr>;
     let key = length (heap h);
     let hp = heap h @ [element];
     let nodes = inserted_nodes h @
       [\<lparr> hn_node = node, hn_key = key, hn_weight = weight, hn_data = data \<rparr>];
     storage \<leftarrow> st_set ops (node_index h) node (he_index element);
     (hp, nodes) \<leftarrow> Upheap hp nodes key;
     CheckHeap hp;
     Some (h\<lparr> inserted_nodes := nodes, heap := hp, node_index := storage \<rparr>)
   }"

text \<open>
  The accessors read the storage through \<^verbatim>\<open>operator[]\<close>, so they return the heap with the
  storage this access leaves.  \<open>heap_SetData\<close> is an assignment through the reference
  \<^verbatim>\<open>GetData\<close> returns.
\<close>

definition heap_node ::
    "('n, 's) IndexStorage \<Rightarrow> ('n, 'd, 's) BinaryHeap \<Rightarrow> 'n \<Rightarrow>
     (('n, 'd) HeapNode \<times> ('n, 'd, 's) BinaryHeap) option" where
  "heap_node ops h node = do {
     (index, storage) \<leftarrow> st_get ops (node_index h) node;
     hn \<leftarrow> vec_at (inserted_nodes h) index;
     Some (hn, h\<lparr> node_index := storage \<rparr>)
   }"

definition heap_GetData where
  "heap_GetData ops h node = do { (hn, h) \<leftarrow> heap_node ops h node; Some (hn_data hn, h) }"

definition heap_SetData ::
    "('n, 's) IndexStorage \<Rightarrow> ('n, 'd, 's) BinaryHeap \<Rightarrow> 'n \<Rightarrow> 'd \<Rightarrow> ('n, 'd, 's) BinaryHeap option" where
  "heap_SetData ops h node data = do {
     (index, storage) \<leftarrow> st_get ops (node_index h) node;
     nodes \<leftarrow> vec_upd (inserted_nodes h) index (\<lambda>n. n\<lparr> hn_data := data \<rparr>);
     Some (h\<lparr> inserted_nodes := nodes, node_index := storage \<rparr>)
   }"

definition heap_GetKey where
  "heap_GetKey ops h node = do { (hn, h) \<leftarrow> heap_node ops h node; Some (hn_weight hn, h) }"

definition heap_WasInserted ::
    "('n, 's) IndexStorage \<Rightarrow> ('n, 'd, 's) BinaryHeap \<Rightarrow> 'n \<Rightarrow> (bool \<times> ('n, 'd, 's) BinaryHeap) option" where
  "heap_WasInserted ops h node = do {
     (index, storage) \<leftarrow> st_get ops (node_index h) node;
     let h = h\<lparr> node_index := storage \<rparr>;
     if index \<ge> length (inserted_nodes h) then Some (False, h)
     else Some (hn_node (inserted_nodes h ! index) = node, h)
   }"

definition heap_WasRemoved ::
    "('n, 's) IndexStorage \<Rightarrow> ('n, 'd, 's) BinaryHeap \<Rightarrow> 'n \<Rightarrow> (bool \<times> ('n, 'd, 's) BinaryHeap) option" where
  "heap_WasRemoved ops h node = do {
     (inserted, h) \<leftarrow> heap_WasInserted ops h node;
     assert_that inserted;
     (hn, h) \<leftarrow> heap_node ops h node;
     Some (hn_key hn = 0, h)
   }"

definition heap_Min :: "('n, 'd, 's) BinaryHeap \<Rightarrow> 'n option" where
  "heap_Min h = do {
     assert_that (length (heap h) > 1);
     hn \<leftarrow> vec_at (inserted_nodes h) (he_index (heap h ! 1));
     Some (hn_node hn)
   }"

definition heap_DeleteMin :: "('n, 'd, 's) BinaryHeap \<Rightarrow> ('n \<times> ('n, 'd, 's) BinaryHeap) option" where
  "heap_DeleteMin h = do {
     assert_that (length (heap h) > 1);
     let removedIndex = he_index (heap h ! 1);
     let hp = butlast ((heap h)[1 := heap h ! (length (heap h) - 1)]);
     (hp, nodes) \<leftarrow> (if length hp > 1 then Downheap hp (inserted_nodes h) 1
                      else Some (hp, inserted_nodes h));
     nodes \<leftarrow> vec_upd nodes removedIndex (\<lambda>n. n\<lparr> hn_key := 0 \<rparr>);
     CheckHeap hp;
     removed \<leftarrow> vec_at nodes removedIndex;
     Some (hn_node removed, h\<lparr> heap := hp, inserted_nodes := nodes \<rparr>)
   }"

fun mark_removed :: "HeapElement list \<Rightarrow> ('n, 'd) HeapNode list \<Rightarrow> ('n, 'd) HeapNode list option" where
  "mark_removed [] nodes = Some nodes"
| "mark_removed (e # es) nodes = do {
     nodes \<leftarrow> vec_upd nodes (he_index e) (\<lambda>n. n\<lparr> hn_key := 0 \<rparr>);
     mark_removed es nodes
   }"

definition heap_DeleteAll :: "('n, 'd, 's) BinaryHeap \<Rightarrow> ('n, 'd, 's) BinaryHeap option" where
  "heap_DeleteAll h = do {
     first \<leftarrow> vec_at (heap h) 0;
     nodes \<leftarrow> mark_removed (tl (heap h)) (inserted_nodes h);
     Some (h\<lparr> inserted_nodes := nodes, heap := [first\<lparr> he_weight := INT_MIN \<rparr>] \<rparr>)
   }"

text \<open>
  \<open>DecreaseKey\<close> also asserts that the node is not the largest value of the identifier type;
  identifiers are a type parameter of the model, which has no largest value.
\<close>

definition heap_DecreaseKey ::
    "('n, 's) IndexStorage \<Rightarrow> ('n, 'd, 's) BinaryHeap \<Rightarrow> 'n \<Rightarrow> int \<Rightarrow> ('n, 'd, 's) BinaryHeap option" where
  "heap_DecreaseKey ops h node weight = do {
     (index, storage) \<leftarrow> st_get ops (node_index h) node;
     hn \<leftarrow> vec_at (inserted_nodes h) index;
     let key = hn_key hn;
     nodes \<leftarrow> vec_upd (inserted_nodes h) index (\<lambda>n. n\<lparr> hn_weight := weight \<rparr>);
     hp \<leftarrow> vec_upd (heap h) key (\<lambda>e. e\<lparr> he_weight := weight \<rparr>);
     (hp, nodes) \<leftarrow> Upheap hp nodes key;
     CheckHeap hp;
     Some (h\<lparr> inserted_nodes := nodes, heap := hp, node_index := storage \<rparr>)
   }"

section \<open>The heap invariant\<close>

definition setkey :: "('n, 'd) HeapNode list \<Rightarrow> nat \<Rightarrow> nat \<Rightarrow> ('n, 'd) HeapNode list" where
  "setkey nodes j k = nodes[j := (nodes ! j)\<lparr> hn_key := k \<rparr>]"

text \<open>What moving an element in the tree leaves of a node: all but the value of a non-zero key.\<close>

definition payload :: "('n, 'd) HeapNode list \<Rightarrow> ('n, 'd) HeapNode list" where
  "payload nodes = map (\<lambda>n. n\<lparr> hn_key := (if hn_key n = 0 then 0 else 1) \<rparr>) nodes"

text \<open>
  Tree positions and inserted nodes point at each other, and agree on the weight.  The nodes at
  the indices in \<open>X\<close> are in no tree position whatever their key says: \<open>DeleteMin\<close> resets
  the key of the removed node only after \<open>Downheap\<close>.
\<close>

definition linked :: "nat set \<Rightarrow> HeapElement list \<Rightarrow> ('n, 'd) HeapNode list \<Rightarrow> bool" where
  "linked X hp nodes \<longleftrightarrow>
     (\<forall>i. 0 < i \<and> i < length hp \<longrightarrow> he_index (hp ! i) < length nodes \<and> he_index (hp ! i) \<notin> X \<and>
        hn_key (nodes ! he_index (hp ! i)) = i \<and>
        hn_weight (nodes ! he_index (hp ! i)) = he_weight (hp ! i)) \<and>
     (\<forall>j < length nodes. j \<notin> X \<longrightarrow> hn_key (nodes ! j) \<noteq> 0 \<longrightarrow>
        hn_key (nodes ! j) < length hp \<and> he_index (hp ! hn_key (nodes ! j)) = j)"

definition heap_order :: "HeapElement list \<Rightarrow> bool" where
  "heap_order hp \<longleftrightarrow> (\<forall>i. 2 \<le> i \<and> i < length hp \<longrightarrow> he_weight (hp ! (i div 2)) \<le> he_weight (hp ! i))"

definition order_but_parent :: "HeapElement list \<Rightarrow> nat \<Rightarrow> bool" where
  "order_but_parent hp key \<longleftrightarrow>
     (\<forall>i. 2 \<le> i \<and> i < length hp \<and> i \<noteq> key \<longrightarrow> he_weight (hp ! (i div 2)) \<le> he_weight (hp ! i)) \<and>
     (\<forall>i. i < length hp \<and> i div 2 = key \<and> 2 \<le> key \<longrightarrow>
        he_weight (hp ! (key div 2)) \<le> he_weight (hp ! i))"

definition order_but_children :: "HeapElement list \<Rightarrow> nat \<Rightarrow> bool" where
  "order_but_children hp key \<longleftrightarrow>
     (\<forall>i. 2 \<le> i \<and> i < length hp \<and> i div 2 \<noteq> key \<longrightarrow>
        he_weight (hp ! (i div 2)) \<le> he_weight (hp ! i)) \<and>
     (\<forall>i. i < length hp \<and> i div 2 = key \<and> 2 \<le> key \<longrightarrow>
        he_weight (hp ! (key div 2)) \<le> he_weight (hp ! i))"

lemma length_setkey [simp]: "length (setkey nodes j k) = length nodes"
  by (simp add: setkey_def)

lemma nth_setkey:
  "j < length nodes \<Longrightarrow> setkey nodes i k ! j = (if i = j then (nodes ! j)\<lparr> hn_key := k \<rparr> else nodes ! j)"
  by (simp add: setkey_def nth_list_update)

lemma payload_setkey:
  "hn_key (nodes ! j) \<noteq> 0 \<Longrightarrow> k \<noteq> 0 \<Longrightarrow> payload (setkey nodes j k) = payload nodes"
  by (rule nth_equalityI) (auto simp: payload_def nth_setkey)

lemma payload_eqD:
  assumes "payload nodes' = payload nodes"
  shows "length nodes' = length nodes"
    and "j < length nodes \<Longrightarrow> hn_key (nodes' ! j) = 0 \<longleftrightarrow> hn_key (nodes ! j) = 0"
proof -
  show len: "length nodes' = length nodes"
    using arg_cong [OF assms, of length] by (simp add: payload_def)
  assume j: "j < length nodes"
  have "hn_key (payload nodes' ! j) = hn_key (payload nodes ! j)" using assms by simp
  then show "hn_key (nodes' ! j) = 0 \<longleftrightarrow> hn_key (nodes ! j) = 0"
    using j len by (auto simp: payload_def split: if_splits)
qed

lemma linkedD:
  assumes "linked X hp nodes" "0 < i" "i < length hp"
  shows "he_index (hp ! i) < length nodes" "hn_key (nodes ! he_index (hp ! i)) = i"
    "hn_weight (nodes ! he_index (hp ! i)) = he_weight (hp ! i)" "he_index (hp ! i) \<notin> X"
  using assms by (auto simp: linked_def)

lemma linked_keyD:
  assumes "linked X hp nodes" "j < length nodes" "j \<notin> X" "hn_key (nodes ! j) \<noteq> 0"
  shows "hn_key (nodes ! j) < length hp" "he_index (hp ! hn_key (nodes ! j)) = j"
  using assms by (auto simp: linked_def)

text \<open>
  One turn of either loop exchanges the element in the hole with the one at \<open>nk\<close>.
\<close>

lemma linked_swap:
  assumes L: "linked X (hp[key := e]) (setkey nodes (he_index e) key)"
    and b: "0 < key" "key < length hp" "0 < nk" "nk < length hp" "nk \<noteq> key"
  shows "he_index (hp ! nk) < length nodes" and "hn_key (nodes ! he_index (hp ! nk)) = nk"
    and "linked X (hp[key := hp ! nk, nk := e])
      (setkey (setkey nodes (he_index (hp ! nk)) key) (he_index e) nk)"
proof -
  let ?N = "setkey nodes (he_index e) key" and ?a = "he_index (hp ! nk)" and ?b = "he_index e"
  have bl: "?b < length nodes" and bw: "hn_weight (nodes ! ?b) = he_weight e" and bx: "?b \<notin> X"
    using linkedD [OF L b(1)] b(2) by (auto simp: nth_setkey)
  have al: "?a < length nodes" and ak: "hn_key (?N ! ?a) = nk"
    and aw: "hn_weight (?N ! ?a) = he_weight (hp ! nk)" and ax: "?a \<notin> X"
    using linkedD [OF L b(3)] b by auto
  show "he_index (hp ! nk) < length nodes" by (fact al)
  have ab: "?a \<noteq> ?b" using ak bl b(5) by (auto simp: nth_setkey)
  show "hn_key (nodes ! he_index (hp ! nk)) = nk" using ak al ab by (simp add: nth_setkey)
  have other: "he_index (hp ! i) < length nodes \<and> he_index (hp ! i) \<noteq> ?a \<and> he_index (hp ! i) \<noteq> ?b \<and>
      he_index (hp ! i) \<notin> X \<and> hn_key (nodes ! he_index (hp ! i)) = i \<and>
      hn_weight (nodes ! he_index (hp ! i)) = he_weight (hp ! i)"
    if "0 < i" "i < length hp" "i \<noteq> key" "i \<noteq> nk" for i
    using linkedD [OF L that(1)] that ak bl al ab by (auto simp: nth_setkey split: if_splits)
  have keys: "hn_key (nodes ! j) < length hp \<and> he_index (hp ! hn_key (nodes ! j)) = j \<and>
      hn_key (nodes ! j) \<noteq> key \<and> hn_key (nodes ! j) \<noteq> nk"
    if "j < length nodes" "j \<notin> X" "j \<noteq> ?a" "j \<noteq> ?b" "hn_key (nodes ! j) \<noteq> 0" for j
    using linked_keyD [OF L, of j] that b al bl ab
    by (auto simp: nth_setkey nth_list_update split: if_splits)
  show "linked X (hp[key := hp ! nk, nk := e])
      (setkey (setkey nodes (he_index (hp ! nk)) key) (he_index e) nk)"
    unfolding linked_def
  proof (intro conjI allI impI, goal_cases)
    case (1 i) then show ?case using other [of i] al bl b by (auto simp: nth_list_update)
  next
    case (2 i) then show ?case using other [of i] ax bx b by (auto simp: nth_list_update)
  next
    case (3 i) then show ?case
      using other [of i] al bl ab b by (auto simp: nth_list_update nth_setkey)
  next
    case (4 i) then show ?case
      using other [of i] al bl ab aw bw b by (auto simp: nth_list_update nth_setkey)
  next
    case (5 j) then show ?case
      using keys [of j] al bl ab b by (auto simp: nth_setkey split: if_splits)
  next
    case (6 j) then show ?case
      using keys [of j] al bl ab b by (auto simp: nth_setkey nth_list_update split: if_splits)
  qed
qed

section \<open>Upheap and Downheap\<close>

declare upheap_loop.simps [simp del] downheap_loop.simps [simp del]

lemma order_up_swap:
  assumes O: "order_but_parent (hp[key := e]) key" and k: "2 \<le> key" "key < length hp"
    and gt: "he_weight (hp ! (key div 2)) > he_weight e"
  shows "order_but_parent (hp[key := hp ! (key div 2), key div 2 := e]) (key div 2)"
proof -
  let ?nk = "key div 2"
  have nk: "0 < ?nk" "?nk < key" "?nk \<noteq> key" using k by auto
  have lt: "he_weight (hp ! (i div 2)) \<le> he_weight (hp ! i)"
    if "2 \<le> i" "i < length hp" "i \<noteq> key" "i div 2 \<noteq> key" for i
    using O that k by (auto simp: order_but_parent_def nth_list_update)
  have ch: "he_weight (hp ! ?nk) \<le> he_weight (hp ! i)" if "i < length hp" "i div 2 = key" for i
  proof -
    have "i \<noteq> key" using that k by auto
    moreover have "he_weight (hp[key := e] ! ?nk) \<le> he_weight (hp[key := e] ! i)"
      using O that k by (auto simp: order_but_parent_def)
    ultimately show ?thesis using nk by simp
  qed
  have le: "he_weight (hp ! ?nk) \<le> he_weight (hp ! i)"
    if "2 \<le> i" "i < length hp" "i \<noteq> key" "i div 2 = ?nk" for i
    using lt [of i] that nk by simp
  have gp: "he_weight (hp ! (?nk div 2)) \<le> he_weight (hp ! ?nk)" if "2 \<le> ?nk"
    using lt [of ?nk] that nk k by simp
  show ?thesis
    unfolding order_but_parent_def
  proof (intro conjI allI impI, goal_cases)
    case (1 i)
    then show ?case
      using lt [of i] ch [of i] le [of i] gt nk k by (auto simp: nth_list_update)
  next
    case (2 i)
    then have i: "i < length hp" "i div 2 = ?nk" "2 \<le> ?nk" by auto
    then have "2 \<le> i" "i \<noteq> ?nk" "?nk div 2 \<noteq> key" "?nk div 2 \<noteq> ?nk" using nk by linarith+
    then show ?case
      using gp [OF i(3)] le [of i] i k by (cases "i = key") simp_all
  qed
qed

lemma order_up_done:
  assumes "order_but_parent hp key" "2 \<le> key \<longrightarrow> he_weight (hp ! (key div 2)) \<le> he_weight (hp ! key)"
  shows "heap_order hp"
  using assms by (auto simp: heap_order_def order_but_parent_def)

lemma upheap_loop_correct:
  assumes "0 < key" "key < length hp"
    and "linked X (hp[key := e]) (setkey nodes (he_index e) key)"
    and "order_but_parent (hp[key := e]) key" and "he_weight (hp ! 0) \<le> he_weight e"
  shows "\<exists>hp' nodes' key'. upheap_loop e hp nodes key (key div 2) = Some (hp', nodes', key') \<and>
    0 < key' \<and> key' < length hp' \<and> length hp' = length hp \<and> hp' ! 0 = hp ! 0 \<and>
    linked X (hp'[key' := e]) (setkey nodes' (he_index e) key') \<and> heap_order (hp'[key' := e]) \<and>
    payload nodes' = payload nodes"
  using assms
proof (induction key arbitrary: hp nodes rule: less_induct)
  case (less key)
  let ?nk = "key div 2"
  have nk: "?nk < length hp" "?nk \<noteq> key" "?nk < key" using less.prems by auto
  show ?case
  proof (cases "he_weight (hp ! ?nk) > he_weight e")
    case False
    have "heap_order (hp[key := e])"
      using False nk less.prems by (intro order_up_done [OF less.prems(4)]) auto
    then show ?thesis
      using False nk less.prems by (subst upheap_loop.simps) (simp add: vec_simps)
  next
    case True
    then have n0: "?nk \<noteq> 0" using less.prems by (metis linorder_not_less)
    then have k2: "2 \<le> key" by linarith
    let ?hp = "hp[key := hp ! ?nk]" and ?nodes = "setkey nodes (he_index (hp ! ?nk)) key"
    have al: "he_index (hp ! ?nk) < length nodes" and ak: "hn_key (nodes ! he_index (hp ! ?nk)) = ?nk"
      and L: "linked X (?hp[?nk := e]) (setkey ?nodes (he_index e) ?nk)"
      using linked_swap [OF less.prems(3) less.prems(1,2), of ?nk] n0 nk by auto
    have O: "order_but_parent (?hp[?nk := e]) ?nk"
      using order_up_swap [OF less.prems(4) k2 less.prems(2) True] by simp
    have "upheap_loop e hp nodes key ?nk = upheap_loop e ?hp ?nodes ?nk (?nk div 2)"
      using True n0 nk al less.prems
      by (subst upheap_loop.simps) (simp add: vec_simps setkey_def)
    moreover have "he_weight (?hp ! 0) \<le> he_weight e" using less.prems by simp
    moreover have "payload ?nodes = payload nodes" using ak n0 less.prems by (simp add: payload_setkey)
    ultimately show ?thesis
      using less.IH [OF nk(3) _ _ L O] n0 nk less.prems by auto
  qed
qed

lemma Upheap_correct:
  assumes "0 < key" "key < length hp" "linked X hp nodes" "order_but_parent hp key"
    and "he_weight (hp ! 0) \<le> he_weight (hp ! key)"
  obtains hp' nodes' where "Upheap hp nodes key = Some (hp', nodes')" "linked X hp' nodes'"
    "heap_order hp'" "payload nodes' = payload nodes" "length hp' = length hp" "hp' ! 0 = hp ! 0"
proof -
  let ?e = "hp ! key"
  have il: "he_index ?e < length nodes" and ik: "hn_key (nodes ! he_index ?e) = key"
    using linkedD [OF assms(3,1,2)] by auto
  have "setkey nodes (he_index ?e) key = nodes" using il ik by (simp add: setkey_def list_update_same_conv)
  then obtain hp' nodes' key' where l: "upheap_loop ?e hp nodes key (key div 2) = Some (hp', nodes', key')"
    "0 < key'" "key' < length hp'" "length hp' = length hp" "hp' ! 0 = hp ! 0"
    "linked X (hp'[key' := ?e]) (setkey nodes' (he_index ?e) key')" "heap_order (hp'[key' := ?e])"
    "payload nodes' = payload nodes"
    using upheap_loop_correct [of key hp X ?e nodes] assms by auto
  have il': "he_index ?e < length nodes'" "hn_key (nodes' ! he_index ?e) \<noteq> 0"
    using il ik assms(1) payload_eqD [OF l(8)] by auto
  then have "Upheap hp nodes key = Some (hp'[key' := ?e], setkey nodes' (he_index ?e) key')"
    using assms(2) l(1-3) by (simp add: Upheap_def vec_simps setkey_def)
  then show thesis using that l il' by (simp add: payload_setkey)
qed

lemma order_down_swap:
  assumes O: "order_but_children (hp[key := e]) key" and k: "0 < key" "key < length hp"
    and nk: "nk div 2 = key" "nk < length hp"
    and small: "\<forall>i < length hp. i div 2 = key \<longrightarrow> he_weight (hp ! nk) \<le> he_weight (hp ! i)"
    and gt: "he_weight e > he_weight (hp ! nk)"
  shows "order_but_children (hp[key := hp ! nk, nk := e]) nk"
proof -
  have nkey: "nk \<noteq> key" "2 \<le> nk" using nk k by auto
  have lt: "he_weight (hp ! (i div 2)) \<le> he_weight (hp ! i)"
    if "2 \<le> i" "i < length hp" "i \<noteq> key" "i div 2 \<noteq> key" for i
    using O that k by (auto simp: order_but_children_def nth_list_update)
  have up: "he_weight (hp ! (key div 2)) \<le> he_weight (hp ! nk)" if "2 \<le> key"
    using O that k nk nkey by (force simp: order_but_children_def nth_list_update)
  have grand: "he_weight (hp ! nk) \<le> he_weight (hp ! i)" if "i < length hp" "i div 2 = nk" for i
    using lt [of i] that nk nkey k by auto
  show ?thesis
    unfolding order_but_children_def
  proof (intro conjI allI impI, goal_cases)
    case (1 i)
    then show ?case
      using lt [of i] up small gt nk nkey k by (auto simp: nth_list_update)
  next
    case (2 i)
    then show ?case using grand [of i] nk nkey k by (auto simp: nth_list_update)
  qed
qed

lemma order_down_done:
  assumes "order_but_children hp key"
    and "\<forall>i < length hp. 2 \<le> i \<and> i div 2 = key \<longrightarrow> he_weight (hp ! key) \<le> he_weight (hp ! i)"
  shows "heap_order hp"
  using assms by (auto simp: heap_order_def order_but_children_def)

lemma children_cases: "i div 2 = key \<longleftrightarrow> i = 2 * key \<or> i = 2 * key + (1 :: nat)"
  by auto

lemma downheap_loop_correct:
  assumes "0 < key" "key < length hp"
    and "linked X (hp[key := e]) (setkey nodes (he_index e) key)"
    and "order_but_children (hp[key := e]) key"
  shows "\<exists>hp' nodes' key'. downheap_loop e hp nodes key = Some (hp', nodes', key') \<and>
    0 < key' \<and> key' < length hp' \<and> length hp' = length hp \<and> hp' ! 0 = hp ! 0 \<and>
    linked X (hp'[key' := e]) (setkey nodes' (he_index e) key') \<and> heap_order (hp'[key' := e]) \<and>
    payload nodes' = payload nodes"
  using assms
proof (induction "length hp - key" arbitrary: key hp nodes rule: less_induct)
  case less
  define nk where "nk = downheap_next hp key"
  note nk_def' = nk_def [unfolded downheap_next_def]
  have nk: "nk div 2 = key" "nk \<noteq> key" "key < nk" using less.prems(1) by (auto simp: nk_def')
  consider (leaf) "\<not> 2 * key < length hp"
    | (stop) "2 * key < length hp" "he_weight e \<le> he_weight (hp ! nk)"
    | (go) "2 * key < length hp" "he_weight e > he_weight (hp ! nk)" by linarith
  then show ?case
  proof cases
    case leaf
    have "heap_order (hp[key := e])"
      using leaf by (intro order_down_done [OF less.prems(4)]) auto
    then show ?thesis using leaf less.prems by (subst downheap_loop.simps) simp
  next
    case stop
    have "heap_order (hp[key := e])"
      using stop less.prems(1,2) by (intro order_down_done [OF less.prems(4)])
        (auto simp: children_cases nk_def' split: if_splits)
    then show ?thesis
      using stop less.prems by (subst downheap_loop.simps) (simp add: nk_def [symmetric])
  next
    case go
    have nl: "nk < length hp" using go(1) by (auto simp: nk_def')
    have small: "\<forall>i < length hp. i div 2 = key \<longrightarrow> he_weight (hp ! nk) \<le> he_weight (hp ! i)"
      by (auto simp: children_cases nk_def')
    let ?hp = "hp[key := hp ! nk]" and ?nodes = "setkey nodes (he_index (hp ! nk)) key"
    have al: "he_index (hp ! nk) < length nodes" and ak: "hn_key (nodes ! he_index (hp ! nk)) = nk"
      and L: "linked X (?hp[nk := e]) (setkey ?nodes (he_index e) nk)"
      using linked_swap [OF less.prems(3,1,2), of nk] nl nk by auto
    have O: "order_but_children (?hp[nk := e]) nk"
      using order_down_swap [OF less.prems(4,1,2) nk(1) nl small go(2)] by simp
    have "downheap_loop e hp nodes key = downheap_loop e ?hp ?nodes nk"
      using go less.prems al
      by (subst downheap_loop.simps) (simp add: nk_def [symmetric] vec_simps setkey_def)
    moreover have "payload ?nodes = payload nodes" using ak nk less.prems by (simp add: payload_setkey)
    ultimately show ?thesis
      using less.hyps [OF _ _ _ L O] nl nk less.prems by auto
  qed
qed

lemma Downheap_correct:
  assumes "0 < key" "key < length hp" "linked X (hp[key := e]) (setkey nodes (he_index e) key)"
    and "hp ! key = e" "order_but_children hp key" "hn_key (nodes ! he_index e) \<noteq> 0"
  obtains hp' nodes' where "Downheap hp nodes key = Some (hp', nodes')" "linked X hp' nodes'"
    "heap_order hp'" "payload nodes' = payload nodes" "length hp' = length hp" "hp' ! 0 = hp ! 0"
proof -
  have il: "he_index e < length nodes" using linkedD(1) [OF assms(3,1)] assms(2) by simp
  have "hp[key := e] = hp" using assms(4) by auto
  then obtain hp' nodes' key' where l: "downheap_loop e hp nodes key = Some (hp', nodes', key')"
    "0 < key'" "key' < length hp'" "length hp' = length hp" "hp' ! 0 = hp ! 0"
    "linked X (hp'[key' := e]) (setkey nodes' (he_index e) key')" "heap_order (hp'[key' := e])"
    "payload nodes' = payload nodes"
    using downheap_loop_correct [OF assms(1-3)] assms(5) by auto
  have il': "he_index e < length nodes'" "hn_key (nodes' ! he_index e) \<noteq> 0"
    using il assms(6) payload_eqD [OF l(8)] by auto
  then have "Downheap hp nodes key = Some (hp'[key' := e], setkey nodes' (he_index e) key')"
    using assms(2,4) l(1-3) by (simp add: Downheap_def vec_simps setkey_def)
  then show thesis using that l il' by (simp add: payload_setkey)
qed

section \<open>The abstract priority queue\<close>

record ('n, 'd) abs_heap =
  ah_key :: "'n \<rightharpoonup> int"
  ah_data :: "'n \<rightharpoonup> 'd"
  ah_queue :: "'n set"

definition abs_nodes :: "('n, 'd) HeapNode list \<Rightarrow> ('n, 'd) abs_heap" where
  "abs_nodes nodes = \<lparr>
     ah_key = map_of (map (\<lambda>n. (hn_node n, hn_weight n)) nodes),
     ah_data = map_of (map (\<lambda>n. (hn_node n, hn_data n)) nodes),
     ah_queue = set (map hn_node (filter (\<lambda>n. hn_key n \<noteq> 0) nodes)) \<rparr>"

definition abs_of :: "('n, 'd, 's) BinaryHeap \<Rightarrow> ('n, 'd) abs_heap" where
  "abs_of h = abs_nodes (inserted_nodes h)"

definition abs_empty :: "('n, 'd) abs_heap" where
  "abs_empty = \<lparr> ah_key = Map.empty, ah_data = Map.empty, ah_queue = {} \<rparr>"

definition abs_insert :: "('n, 'd) abs_heap \<Rightarrow> 'n \<Rightarrow> int \<Rightarrow> 'd \<Rightarrow> ('n, 'd) abs_heap" where
  "abs_insert a n w d = \<lparr> ah_key = (ah_key a)(n \<mapsto> w), ah_data = (ah_data a)(n \<mapsto> d),
     ah_queue = insert n (ah_queue a) \<rparr>"

definition abs_decrease :: "('n, 'd) abs_heap \<Rightarrow> 'n \<Rightarrow> int \<Rightarrow> ('n, 'd) abs_heap" where
  "abs_decrease a n w = a\<lparr> ah_key := (ah_key a)(n \<mapsto> w) \<rparr>"

definition abs_set_data :: "('n, 'd) abs_heap \<Rightarrow> 'n \<Rightarrow> 'd \<Rightarrow> ('n, 'd) abs_heap" where
  "abs_set_data a n d = a\<lparr> ah_data := (ah_data a)(n \<mapsto> d) \<rparr>"

definition abs_remove :: "('n, 'd) abs_heap \<Rightarrow> 'n \<Rightarrow> ('n, 'd) abs_heap" where
  "abs_remove a n = a\<lparr> ah_queue := ah_queue a - {n} \<rparr>"

definition is_min :: "('n, 'd) abs_heap \<Rightarrow> 'n \<Rightarrow> bool" where
  "is_min a n \<longleftrightarrow> n \<in> ah_queue a \<and> (\<forall>m \<in> ah_queue a. the (ah_key a n) \<le> the (ah_key a m))"

text \<open>What the tree and the node table keep, whatever the storage.\<close>

definition tree_inv :: "HeapElement list \<Rightarrow> ('n, 'd) HeapNode list \<Rightarrow> bool" where
  "tree_inv hp nodes \<longleftrightarrow> hp \<noteq> [] \<and> he_weight (hp ! 0) = INT_MIN \<and> linked {} hp nodes \<and>
     heap_order hp \<and> distinct (map hn_node nodes) \<and> (\<forall>n \<in> set nodes. INT_MIN \<le> hn_weight n)"

definition heap_inv ::
    "('s \<Rightarrow> bool) \<Rightarrow> ('s \<Rightarrow> 'n \<Rightarrow> nat option) \<Rightarrow> ('n, 'd, 's) BinaryHeap \<Rightarrow> bool" where
  "heap_inv st_inv st_val h \<longleftrightarrow> tree_inv (heap h) (inserted_nodes h) \<and> st_inv (node_index h) \<and>
     (\<forall>j < length (inserted_nodes h).
        st_val (node_index h) (hn_node (inserted_nodes h ! j)) = Some j)"

lemma payload_inj:
  assumes "payload nodes' = payload nodes" "\<And>n k. f (n\<lparr> hn_key := k \<rparr>) = f n"
  shows "map f nodes' = map f nodes"
proof -
  have "map f (payload ns) = map f ns" for ns using assms(2) by (simp add: payload_def)
  with assms(1) show ?thesis by metis
qed

lemma payload_abs:
  assumes "payload nodes' = payload nodes"
  shows "abs_nodes nodes' = abs_nodes nodes"
    and "map hn_node nodes' = map hn_node nodes" and "map hn_weight nodes' = map hn_weight nodes"
proof -
  have queue: "map hn_node (filter (\<lambda>n. hn_key n \<noteq> 0) (payload ns)) =
      map hn_node (filter (\<lambda>n. hn_key n \<noteq> 0) ns)" for ns :: "('a, 'b) HeapNode list"
    by (induction ns) (simp_all add: payload_def)
  show "map hn_node nodes' = map hn_node nodes" "map hn_weight nodes' = map hn_weight nodes"
    by (simp_all add: payload_inj [OF assms])
  have "ah_queue (abs_nodes nodes') = ah_queue (abs_nodes nodes)"
    using queue [of nodes'] queue [of nodes] assms by (simp add: abs_nodes_def)
  then show "abs_nodes nodes' = abs_nodes nodes"
    by (simp add: abs_nodes_def payload_inj [OF assms])
qed

lemma abs_key_nth:
  assumes "distinct (map hn_node nodes)" "j < length nodes"
  shows "ah_key (abs_nodes nodes) (hn_node (nodes ! j)) = Some (hn_weight (nodes ! j))"
    and "ah_data (abs_nodes nodes) (hn_node (nodes ! j)) = Some (hn_data (nodes ! j))"
  using assms by (auto simp: abs_nodes_def comp_def intro!: map_of_is_SomeI)

lemma abs_dom: "dom (ah_key (abs_nodes nodes)) = hn_node ` set nodes"
  by (auto simp: abs_nodes_def dom_map_of_conv_image_fst image_image)

lemma abs_domE:
  assumes "ah_key (abs_nodes nodes) n = Some w" "distinct (map hn_node nodes)"
  obtains j where "j < length nodes" "hn_node (nodes ! j) = n" "hn_weight (nodes ! j) = w"
    "ah_data (abs_nodes nodes) n = Some (hn_data (nodes ! j))"
proof -
  have "n \<in> hn_node ` set nodes" using assms(1) abs_dom [of nodes] by (auto simp: dom_def)
  then obtain j where j: "j < length nodes" "hn_node (nodes ! j) = n"
    by (auto simp: in_set_conv_nth)
  with that abs_key_nth [OF assms(2) j(1)] assms(1) show thesis by auto
qed

lemma queue_nth:
  "n \<in> ah_queue (abs_nodes nodes) \<longleftrightarrow>
    (\<exists>j < length nodes. hn_node (nodes ! j) = n \<and> hn_key (nodes ! j) \<noteq> 0)"
  by (auto simp: abs_nodes_def in_set_conv_nth)

lemma linked_queue:
  assumes "linked {} hp nodes"
  shows "ah_queue (abs_nodes nodes) = (\<lambda>i. hn_node (nodes ! he_index (hp ! i))) ` {0<..<length hp}"
proof (intro equalityI subsetI)
  fix n assume "n \<in> ah_queue (abs_nodes nodes)"
  then obtain j where j: "j < length nodes" "hn_node (nodes ! j) = n" "hn_key (nodes ! j) \<noteq> 0"
    by (auto simp: abs_nodes_def in_set_conv_nth)
  then show "n \<in> (\<lambda>i. hn_node (nodes ! he_index (hp ! i))) ` {0<..<length hp}"
    using linked_keyD [OF assms j(1) _ j(3)] by (intro image_eqI [of _ _ "hn_key (nodes ! j)"]) auto
next
  fix n assume "n \<in> (\<lambda>i. hn_node (nodes ! he_index (hp ! i))) ` {0<..<length hp}"
  then obtain i where i: "0 < i" "i < length hp" "n = hn_node (nodes ! he_index (hp ! i))" by auto
  then show "n \<in> ah_queue (abs_nodes nodes)"
    using linkedD [OF assms i(1,2)] by (auto simp: abs_nodes_def)
qed

text \<open>The root carries the smallest weight.\<close>

lemma heap_order_root:
  assumes "heap_order hp" "0 < i" "i < length hp"
  shows "he_weight (hp ! 1) \<le> he_weight (hp ! i)"
  using assms(2,3)
proof (induction i rule: less_induct)
  case (less i)
  show ?case
  proof (cases "i = 1")
    case False
    then have "2 \<le> i" "i div 2 < i" "0 < i div 2" using less.prems by auto
    then have "he_weight (hp ! (i div 2)) \<le> he_weight (hp ! i)" "i div 2 < length hp"
      using assms(1) less.prems by (auto simp: heap_order_def)
    then show ?thesis
      using less.IH [of "i div 2"] \<open>i div 2 < i\<close> \<open>0 < i div 2\<close> by linarith
  qed simp
qed

lemma heap_root_min:
  assumes "linked {} hp nodes" "heap_order hp" "distinct (map hn_node nodes)" "1 < length hp"
  shows "is_min (abs_nodes nodes) (hn_node (nodes ! he_index (hp ! 1)))"
proof -
  have key: "ah_key (abs_nodes nodes) (hn_node (nodes ! he_index (hp ! i))) = Some (he_weight (hp ! i))"
    if "0 < i" "i < length hp" for i
    using abs_key_nth(1) [OF assms(3)] linkedD [OF assms(1) that] by metis
  show ?thesis
    using assms(4) heap_order_root [OF assms(2)] key
    by (auto simp: is_min_def linked_queue [OF assms(1)])
qed

lemma tree_inv_order: "tree_inv hp nodes \<Longrightarrow> CheckHeap hp = Some ()"
  by (auto simp: CheckHeap_def tree_inv_def heap_order_def)

section \<open>The operations on the tree\<close>

lemma tree_inv_payload:
  assumes "payload nodes' = payload nodes" "distinct (map hn_node nodes)"
    "\<forall>n \<in> set nodes. INT_MIN \<le> hn_weight n" "linked {} hp' nodes'" "heap_order hp'"
    "0 < length hp'" "he_weight (hp' ! 0) = INT_MIN"
  shows "tree_inv hp' nodes'"
proof -
  have "\<forall>n \<in> set nodes'. INT_MIN \<le> hn_weight n"
    using assms(3) ball_map_eq [OF payload_abs(3) [OF assms(1)]] by blast
  then show ?thesis using assms payload_abs(2) [OF assms(1)] by (simp add: tree_inv_def)
qed

lemma map_of_hn_None:
  "n \<notin> hn_node ` set nodes \<Longrightarrow> map_of (map (\<lambda>x. (hn_node x, g x)) nodes) n = None"
  by (simp add: map_of_eq_None_iff image_image)

lemma insert_tree:
  assumes inv: "tree_inv hp nodes" and new: "n \<notin> dom (ah_key (abs_nodes nodes))"
    and w: "INT_MIN \<le> w"
  obtains hp' nodes' where
    "Upheap (hp @ [\<lparr> he_index = length nodes, he_weight = w \<rparr>])
       (nodes @ [\<lparr> hn_node = n, hn_key = length hp, hn_weight = w, hn_data = d \<rparr>]) (length hp) =
       Some (hp', nodes')"
    "tree_inv hp' nodes'" "abs_nodes nodes' = abs_insert (abs_nodes nodes) n w d"
    "map hn_node nodes' = map hn_node nodes @ [n]"
proof -
  let ?hp = "hp @ [\<lparr> he_index = length nodes, he_weight = w \<rparr>]"
  let ?nodes = "nodes @ [\<lparr> hn_node = n, hn_key = length hp, hn_weight = w, hn_data = d \<rparr>]"
  have hp: "hp \<noteq> []" "he_weight (hp ! 0) = INT_MIN" "linked {} hp nodes" "heap_order hp"
    "distinct (map hn_node nodes)" "\<forall>n \<in> set nodes. INT_MIN \<le> hn_weight n"
    using inv by (auto simp: tree_inv_def)
  have L: "linked {} ?hp ?nodes"
    unfolding linked_def
  proof (intro conjI allI impI, goal_cases)
    case (1 i) then show ?case
      using linkedD(1) [OF hp(3), of i] by (cases "i < length hp") (auto simp: nth_append)
  next
    case (3 i) then show ?case
      using linkedD [OF hp(3), of i] by (cases "i < length hp") (auto simp: nth_append)
  next
    case (4 i) then show ?case
      using linkedD [OF hp(3), of i] by (cases "i < length hp") (auto simp: nth_append)
  next
    case (5 j) then show ?case
      using linked_keyD [OF hp(3), of j] by (cases "j < length nodes") (auto simp: nth_append)
  next
    case (6 j) then show ?case
      using linked_keyD [OF hp(3), of j] by (cases "j < length nodes") (auto simp: nth_append)
  qed simp
  have O: "order_but_parent ?hp (length hp)"
    using hp(4) by (auto simp: order_but_parent_def heap_order_def nth_append)
  obtain hp' nodes' where r: "Upheap ?hp ?nodes (length hp) = Some (hp', nodes')" "linked {} hp' nodes'"
    "heap_order hp'" "payload nodes' = payload ?nodes" "length hp' = length ?hp" "hp' ! 0 = ?hp ! 0"
    using Upheap_correct [OF _ _ L O] hp(1,2) w by (auto simp: nth_append)
  have "n \<notin> hn_node ` set nodes" using new by (simp add: abs_dom)
  then have "distinct (map hn_node ?nodes)" "\<forall>n \<in> set ?nodes. INT_MIN \<le> hn_weight n"
    using hp(5,6) w by auto
  then have "tree_inv hp' nodes'"
    using tree_inv_payload [OF r(4) _ _ r(2,3)] r(5,6) hp(1,2) by (auto simp: nth_append)
  moreover have "abs_nodes nodes' = abs_insert (abs_nodes nodes) n w d"
  proof -
    show ?thesis
      unfolding payload_abs(1) [OF r(4)] using hp(1)
      by (auto simp: map_of_hn_None [OF \<open>n \<notin> hn_node ` set nodes\<close>] abs_nodes_def abs_insert_def map_add_def fun_eq_iff split: option.splits)
  qed
  ultimately show thesis using that r(1) payload_abs(2) [OF r(4)] by simp
qed

lemma decrease_tree:
  assumes inv: "tree_inv hp nodes" and j: "j < length nodes" "hn_key (nodes ! j) \<noteq> 0"
    and w: "INT_MIN \<le> w" "w \<le> hn_weight (nodes ! j)"
  defines "key \<equiv> hn_key (nodes ! j)"
  obtains hp' nodes' where
    "Upheap (hp[key := (hp ! key)\<lparr> he_weight := w \<rparr>]) (nodes[j := (nodes ! j)\<lparr> hn_weight := w \<rparr>]) key =
       Some (hp', nodes')"
    "tree_inv hp' nodes'" "abs_nodes nodes' = abs_decrease (abs_nodes nodes) (hn_node (nodes ! j)) w"
    "map hn_node nodes' = map hn_node nodes" "key < length hp"
proof -
  let ?hp = "hp[key := (hp ! key)\<lparr> he_weight := w \<rparr>]"
  let ?nodes = "nodes[j := (nodes ! j)\<lparr> hn_weight := w \<rparr>]"
  have hp: "hp \<noteq> []" "he_weight (hp ! 0) = INT_MIN" "linked {} hp nodes" "heap_order hp"
    "distinct (map hn_node nodes)" "\<forall>n \<in> set nodes. INT_MIN \<le> hn_weight n"
    using inv by (auto simp: tree_inv_def)
  have key: "key < length hp" "he_index (hp ! key) = j" "0 < key"
    using linked_keyD [OF hp(3) j(1) _ j(2)] j(2) by (auto simp: key_def)
  have other: "he_index (hp ! i) \<noteq> j" if "0 < i" "i < length hp" "i \<noteq> key" for i
    using linkedD(2) [OF hp(3) that(1,2)] that(3) by (auto simp: key_def)
  have kw: "w \<le> he_weight (hp ! key)" using linkedD(3) [OF hp(3) key(3,1)] key(2) w(2) by simp
  have L: "linked {} ?hp ?nodes"
    unfolding linked_def
  proof (intro conjI allI impI, goal_cases)
    case (1 i) then show ?case
      using linkedD(1) [OF hp(3), of i] key by (cases "i = key") auto
  next
    case (3 i) then show ?case
      using linkedD [OF hp(3), of i] key j other [of i] by (cases "i = key") (auto simp: key_def)
  next
    case (4 i) then show ?case
      using linkedD [OF hp(3), of i] key j other [of i] by (cases "i = key") auto
  next
    case (5 i) then show ?case
      using linked_keyD [OF hp(3), of i] key j by (cases "i = j") auto
  next
    case (6 i) then show ?case
      using linked_keyD [OF hp(3), of i] key j by (cases "i = j") (auto simp: key_def nth_list_update)
  qed simp
  have le: "he_weight (hp ! (i div 2)) \<le> he_weight (hp ! i)" if "2 \<le> i" "i < length hp" for i
    using hp(4) that by (auto simp: heap_order_def)
  have O: "order_but_parent ?hp key"
    unfolding order_but_parent_def
  proof (intro conjI allI impI, goal_cases)
    case (1 i) then show ?case
      using le [of i] kw key by (cases "i div 2 = key") (auto intro: order_trans)
  next
    case (2 i)
    then have "i \<noteq> key" "key div 2 \<noteq> key" "2 \<le> i" using key by auto
    then show ?case using le [of i] le [of key] 2 key by auto
  qed
  obtain hp' nodes' where r: "Upheap ?hp ?nodes key = Some (hp', nodes')" "linked {} hp' nodes'"
    "heap_order hp'" "payload nodes' = payload ?nodes" "length hp' = length ?hp" "hp' ! 0 = ?hp ! 0"
    using Upheap_correct [OF key(3) _ L O] hp(2) w key by auto
  have nodes: "map hn_node ?nodes = map hn_node nodes"
    using j by (simp add: map_update list_update_same_conv)
  have "\<forall>n \<in> set ?nodes. INT_MIN \<le> hn_weight n"
    using hp(6) w(1) by (auto dest!: subsetD [OF set_update_subset_insert])
  then have "tree_inv hp' nodes'"
    using tree_inv_payload [OF r(4) _ _ r(2,3)] r(5,6) hp(1,2,5) key nodes by auto
  moreover have "abs_nodes nodes' = abs_decrease (abs_nodes nodes) (hn_node (nodes ! j)) w"
    unfolding payload_abs(1) [OF r(4)]
  proof -
    have "map_of (map (\<lambda>n. (hn_node n, hn_weight n)) ?nodes) =
        (map_of (map (\<lambda>n. (hn_node n, hn_weight n)) nodes))(hn_node (nodes ! j) \<mapsto> w)"
      using map_of_list_update [OF hp(5) j(1), of "(nodes ! j)\<lparr> hn_weight := w \<rparr>" hn_weight] by simp
    moreover have "map (\<lambda>n. (hn_node n, hn_data n)) ?nodes = map (\<lambda>n. (hn_node n, hn_data n)) nodes"
      using j by (simp add: map_update list_update_same_conv)
    moreover have "map hn_node (filter (\<lambda>n. hn_key n \<noteq> 0) ?nodes) = map hn_node (filter (\<lambda>n. hn_key n \<noteq> 0) nodes)"
      using j(1) by (intro map_filter_list_update) auto
    ultimately show "abs_nodes ?nodes = abs_decrease (abs_nodes nodes) (hn_node (nodes ! j)) w"
      by (simp add: abs_nodes_def abs_decrease_def)
  qed
  ultimately show thesis using that r(1) payload_abs(2) [OF r(4)] nodes key(1) by simp
qed

lemma map_setkey: "(\<And>n k. f (n\<lparr> hn_key := k \<rparr>) = f n) \<Longrightarrow> map f (setkey nodes j k) = map f nodes"
  by (rule nth_equalityI) (auto simp: nth_setkey)

lemma linked_remove:
  "linked {r} hp nodes \<Longrightarrow> linked {} hp (setkey nodes r 0)"
  by (auto simp: linked_def nth_setkey)

lemma abs_setkey_0:
  assumes "distinct (map hn_node nodes)" "r < length nodes"
  shows "abs_nodes (setkey nodes r 0) = abs_remove (abs_nodes nodes) (hn_node (nodes ! r))"
proof -
  have "hn_node (nodes ! j) = hn_node (nodes ! r) \<longleftrightarrow> j = r" if "j < length nodes" for j
    using assms that by (auto simp: distinct_conv_nth)
  then have "n \<in> ah_queue (abs_nodes (setkey nodes r 0)) \<longleftrightarrow>
      n \<in> ah_queue (abs_nodes nodes) - {hn_node (nodes ! r)}" for n
    using assms(2) by (auto simp: queue_nth nth_setkey split: if_splits)
  then have "ah_queue (abs_nodes (setkey nodes r 0)) = ah_queue (abs_nodes nodes) - {hn_node (nodes ! r)}"
    by blast
  then show ?thesis by (simp add: abs_nodes_def abs_remove_def map_setkey)
qed

lemma delete_min_hole:
  assumes L: "linked {} hp nodes" and len: "2 < length hp"
  defines "r \<equiv> he_index (hp ! 1)" and "hp1 \<equiv> butlast (hp[1 := hp ! (length hp - 1)])"
    and "e \<equiv> hp ! (length hp - 1)"
  shows "linked {r} hp1 (setkey nodes (he_index e) 1)"
proof -
  have r: "r < length nodes" "hn_key (nodes ! r) = 1" using linkedD [OF L, of 1] len by (auto simp: r_def)
  have b: "he_index e < length nodes" "hn_key (nodes ! he_index e) = length hp - 1"
    "hn_weight (nodes ! he_index e) = he_weight e"
    using linkedD [OF L, of "length hp - 1"] len by (auto simp: e_def)
  have br: "he_index e \<noteq> r" using r(2) b(2) len by auto
  have nth: "hp1 ! i = (if i = 1 then e else hp ! i)" if "i < length hp - 1" for i
    using that len by (auto simp: hp1_def e_def nth_butlast nth_list_update)
  have len1: "length hp1 = length hp - 1" by (simp add: hp1_def)
  have other: "he_index (hp ! i) \<noteq> r \<and> he_index (hp ! i) \<noteq> he_index e" if "1 < i" "i < length hp - 1" for i
  proof -
    have "hn_key (nodes ! he_index (hp ! i)) = i" using linkedD(2) [OF L, of i] that by simp
    then show ?thesis using that r(2) b(2) by auto
  qed
  have key: "hn_key (nodes ! j) \<noteq> 1 \<and> hn_key (nodes ! j) < length hp - 1"
    if "j < length nodes" "j \<noteq> r" "j \<noteq> he_index e" "hn_key (nodes ! j) \<noteq> 0" for j
  proof -
    have k: "hn_key (nodes ! j) < length hp" "he_index (hp ! hn_key (nodes ! j)) = j"
      using linked_keyD [OF L that(1) _ that(4)] by auto
    then have "hn_key (nodes ! j) \<noteq> 1" "hn_key (nodes ! j) \<noteq> length hp - 1"
      using that by (auto simp: r_def e_def)
    with k show ?thesis by linarith
  qed
  show ?thesis
    unfolding linked_def
  proof (intro conjI allI impI, goal_cases)
    case (1 i) then show ?case using linkedD(1) [OF L, of i] b nth len1 by auto
  next
    case (2 i) then show ?case using other [of i] br nth len1 by (cases "i = 1") auto
  next
    case (3 i) then show ?case
      using linkedD [OF L, of i] other [of i] b nth len1 by (cases "i = 1") (auto simp: nth_setkey)
  next
    case (4 i) then show ?case
      using linkedD [OF L, of i] other [of i] b nth len1 by (cases "i = 1") (auto simp: nth_setkey)
  next
    case (5 j) then show ?case
      using key [of j] len len1 by (cases "j = he_index e") (auto simp: nth_setkey)
  next
    case (6 j) then show ?case
      using key [of j] linked_keyD [OF L, of j] len nth
      by (cases "j = he_index e") (auto simp: nth_setkey)
  qed
qed

lemma delete_min_tree:
  assumes inv: "tree_inv hp nodes" and ne: "1 < length hp"
  defines "r \<equiv> he_index (hp ! 1)" and "hp1 \<equiv> butlast (hp[1 := hp ! (length hp - 1)])"
  obtains hp' nodes' where
    "(if length hp1 > 1 then Downheap hp1 nodes 1 else Some (hp1, nodes)) = Some (hp', nodes')"
    "r < length nodes'" "hn_node (nodes' ! r) = hn_node (nodes ! r)"
    "tree_inv hp' (setkey nodes' r 0)"
    "abs_nodes (setkey nodes' r 0) = abs_remove (abs_nodes nodes) (hn_node (nodes ! r))"
    "map hn_node (setkey nodes' r 0) = map hn_node nodes"
proof -
  have hp: "he_weight (hp ! 0) = INT_MIN" "linked {} hp nodes" "heap_order hp"
    "distinct (map hn_node nodes)" "\<forall>n \<in> set nodes. INT_MIN \<le> hn_weight n"
    using inv by (auto simp: tree_inv_def)
  have r: "r < length nodes" using linkedD [OF hp(2), of 1] ne by (auto simp: r_def)
  have h0: "length hp1 = length hp - 1" "hp1 ! 0 = hp ! 0"
    using ne by (auto simp: hp1_def nth_butlast)
  obtain hp' nodes' where
    run: "(if length hp1 > 1 then Downheap hp1 nodes 1 else Some (hp1, nodes)) = Some (hp', nodes')"
    and L: "linked {r} hp' nodes'" and O: "heap_order hp'" and P: "payload nodes' = payload nodes"
    and len: "length hp' = length hp1" "hp' ! 0 = hp1 ! 0"
  proof (cases "2 < length hp")
    case False
    then have hp1: "length hp1 = 1" using ne h0 by simp
    have "j = r" if "j < length nodes" "hn_key (nodes ! j) \<noteq> 0" for j
    proof -
      have "hn_key (nodes ! j) = 1"
        using linked_keyD(1) [OF hp(2) that(1) _ that(2)] that(2) False by simp
      then show ?thesis using linked_keyD(2) [OF hp(2) that(1) _ that(2)] by (simp add: r_def)
    qed
    then have "linked {r} hp1 nodes" using hp1 by (auto simp: linked_def)
    then show thesis using that [of hp1 nodes] hp1 by (simp add: heap_order_def)
  next
    case True
    let ?e = "hp ! (length hp - 1)"
    have "linked {r} hp1 (setkey nodes (he_index ?e) 1)"
      using delete_min_hole [OF hp(2) True] by (simp add: r_def hp1_def)
    moreover have e1: "hp1 ! 1 = ?e" using True by (auto simp: hp1_def nth_butlast)
    moreover have "hn_key (nodes ! he_index ?e) \<noteq> 0"
      using linkedD(2) [OF hp(2), of "length hp - 1"] True by simp
    moreover have "order_but_children hp1 1"
      using hp(3) h0(1) by (auto simp: order_but_children_def heap_order_def hp1_def nth_butlast nth_list_update)
    moreover have "hp1[1 := ?e] = hp1" using e1 by (metis list_update_id)
    moreover have len1: "1 < length hp1" using True h0(1) by simp
    ultimately obtain hp' nodes' where "Downheap hp1 nodes 1 = Some (hp', nodes')" "linked {r} hp' nodes'"
      "heap_order hp'" "payload nodes' = payload nodes" "length hp' = length hp1" "hp' ! 0 = hp1 ! 0"
      using Downheap_correct [of 1 hp1 "{r}" ?e nodes] by (metis zero_less_one)
    then show thesis using len1 by (intro that [of hp' nodes']) simp_all
  qed
  have maps: "map hn_node (setkey nodes' r 0) = map hn_node nodes"
    "map hn_weight (setkey nodes' r 0) = map hn_weight nodes"
    by (simp_all add: map_setkey payload_abs [OF P])
  have "\<forall>n \<in> set (setkey nodes' r 0). INT_MIN \<le> hn_weight n"
    using hp(5) ball_map_eq [OF maps(2)] by blast
  moreover have "hp' \<noteq> []" using len h0 ne by (cases hp') auto
  ultimately have "tree_inv hp' (setkey nodes' r 0)"
    using linked_remove [OF L] O hp maps len h0 by (simp add: tree_inv_def)
  moreover have n': "distinct (map hn_node nodes')" "r < length nodes'"
    "hn_node (nodes' ! r) = hn_node (nodes ! r)"
    using payload_abs(2) [OF P] hp(4) r payload_eqD(1) [OF P] by (simp, simp, metis nth_map)
  moreover have "abs_nodes (setkey nodes' r 0) = abs_remove (abs_nodes nodes) (hn_node (nodes ! r))"
    using abs_setkey_0 [OF n'(1,2)] n'(3) payload_abs(1) [OF P] by simp
  ultimately show thesis using that run maps(1) by blast
qed

lemma mark_removed_correct:
  assumes "\<forall>e \<in> set es. he_index e < length nodes"
  shows "mark_removed es nodes = Some (map (\<lambda>j. if j \<in> he_index ` set es
      then (nodes ! j)\<lparr> hn_key := 0 \<rparr> else nodes ! j) [0..<length nodes])"
  using assms
proof (induction es arbitrary: nodes)
  case Nil
  then show ?case by (simp add: map_nth)
next
  case (Cons e es)
  let ?nodes = "nodes[he_index e := (nodes ! he_index e)\<lparr> hn_key := 0 \<rparr>]"
  have "mark_removed (e # es) nodes = mark_removed es ?nodes"
    using Cons.prems by (simp add: vec_simps)
  also have "\<dots> = Some (map (\<lambda>j. if j \<in> he_index ` set es
      then (?nodes ! j)\<lparr> hn_key := 0 \<rparr> else ?nodes ! j) [0..<length nodes])"
    using Cons by simp
  also have "\<dots> = Some (map (\<lambda>j. if j \<in> he_index ` set (e # es)
      then (nodes ! j)\<lparr> hn_key := 0 \<rparr> else nodes ! j) [0..<length nodes])"
    using Cons.prems by (auto simp: nth_list_update)
  finally show ?case .
qed

lemma delete_all_tree:
  assumes inv: "tree_inv hp nodes"
  defines "hp' \<equiv> [(hp ! 0)\<lparr> he_weight := INT_MIN \<rparr>]"
  obtains nodes' where "mark_removed (tl hp) nodes = Some nodes'" "tree_inv hp' nodes'"
    "abs_nodes nodes' = (abs_nodes nodes)\<lparr> ah_queue := {} \<rparr>" "map hn_node nodes' = map hn_node nodes"
proof -
  have hp: "hp \<noteq> []" "linked {} hp nodes" "distinct (map hn_node nodes)"
    "\<forall>n \<in> set nodes. INT_MIN \<le> hn_weight n"
    using inv by (auto simp: tree_inv_def)
  let ?nodes = "map (\<lambda>j. if j \<in> he_index ` set (tl hp)
      then (nodes ! j)\<lparr> hn_key := 0 \<rparr> else nodes ! j) [0..<length nodes]"
  have tl: "e \<in> set (tl hp) \<longleftrightarrow> (\<exists>i. 0 < i \<and> i < length hp \<and> e = hp ! i)" for e
  proof
    assume "e \<in> set (tl hp)"
    then obtain i where "i < length (tl hp)" "e = tl hp ! i" by (auto simp: in_set_conv_nth)
    then show "\<exists>i. 0 < i \<and> i < length hp \<and> e = hp ! i"
      by (intro exI [of _ "Suc i"]) (simp add: nth_tl)
  next
    assume "\<exists>i. 0 < i \<and> i < length hp \<and> e = hp ! i"
    then obtain i where "0 < i" "i < length hp" "e = hp ! i" by blast
    then have "tl hp ! (i - 1) = e" "i - 1 < length (tl hp)" by (auto simp: nth_tl)
    then show "e \<in> set (tl hp)" by (metis nth_mem)
  qed
  have run: "mark_removed (tl hp) nodes = Some ?nodes"
    using linkedD(1) [OF hp(2)] by (intro mark_removed_correct) (auto simp: tl)
  have "hn_key (nodes ! j) = 0" if "j < length nodes" "j \<notin> he_index ` set (tl hp)" for j
  proof (rule ccontr)
    assume nz: "hn_key (nodes ! j) \<noteq> 0"
    then have "hp ! hn_key (nodes ! j) \<in> set (tl hp)"
      using linked_keyD(1) [OF hp(2) that(1) _ nz] tl by blast
    then show False using linked_keyD(2) [OF hp(2) that(1) _ nz] that(2) by force
  qed
  then have zero: "hn_key (?nodes ! j) = 0" if "j < length nodes" for j using that by simp
  have maps: "map f ?nodes = map f nodes" if "\<And>n k. f (n\<lparr> hn_key := k \<rparr>) = f n" for f
    using that by (intro nth_equalityI) auto
  have "ah_queue (abs_nodes ?nodes) = {}" using zero by (auto simp: queue_nth)
  then have abs: "abs_nodes ?nodes = (abs_nodes nodes)\<lparr> ah_queue := {} \<rparr>"
    by (simp add: abs_nodes_def maps del: map_map)
  have "linked {} hp' ?nodes" using zero by (auto simp: linked_def hp'_def)
  moreover have "map hn_node ?nodes = map hn_node nodes" "map hn_weight ?nodes = map hn_weight nodes"
    by (rule maps, simp)+
  ultimately have "tree_inv hp' ?nodes"
    using hp(3,4) ball_map_eq [of hn_weight ?nodes nodes "\<lambda>w. INT_MIN \<le> w"]
    by (simp add: tree_inv_def hp'_def heap_order_def del: map_map)
  then show thesis using that run abs \<open>map hn_node ?nodes = map hn_node nodes\<close> by blast
qed

end
