(* ===== verification/Heap_Refinement.thy ===== *)
theory Heap_Refinement
  imports Binary_Heap
begin

text \<open>
  The heap of \<^verbatim>\<open>BinaryHeap.h\<close> implements the abstract priority queue \<open>abs_heap\<close> over
  every index storage that satisfies \<open>index_storage\<close>: each operation returns a result (no access
  is out of range, no assertion fails), keeps the invariant, and changes the abstract queue as
  specified.  The lemmas are proved once in the locale and used on the storages of the code.
\<close>

section \<open>The operations over any index storage\<close>

lemma heap_upd_id:
  "h\<lparr> inserted_nodes := ns, heap := hp, node_index := node_index h \<rparr> =
    h\<lparr> inserted_nodes := ns, heap := hp \<rparr>"
  by simp

context index_storage
begin

lemma heap_invD:
  assumes "heap_inv st_inv st_val h"
  shows "tree_inv (heap h) (inserted_nodes h)" "st_inv (node_index h)"
    "distinct (map hn_node (inserted_nodes h))"
    "j < length (inserted_nodes h) \<Longrightarrow>
       st_val (node_index h) (hn_node (inserted_nodes h ! j)) = Some j"
  using assms by (auto simp: heap_inv_def tree_inv_def)

text \<open>An update that keeps the nodes and every stored index keeps the storage part.\<close>

lemma heap_invI:
  assumes "heap_inv st_inv st_val h" "tree_inv hp nodes"
    "map hn_node nodes = map hn_node (inserted_nodes h)" "st_inv s"
    "\<forall>m v. st_val (node_index h) m = Some v \<longrightarrow> st_val s m = Some v"
  shows "heap_inv st_inv st_val (h\<lparr> inserted_nodes := nodes, heap := hp, node_index := s \<rparr>)"
proof -
  have "length nodes = length (inserted_nodes h)" using arg_cong [OF assms(3), of length] by simp
  moreover have "hn_node (nodes ! j) = hn_node (inserted_nodes h ! j)" if "j < length nodes" for j
    using assms(3) that calculation by (metis nth_map)
  ultimately show ?thesis
    using assms heap_invD(4) [OF assms(1)] by (simp add: heap_inv_def)
qed

lemma known_node:
  assumes inv: "heap_inv st_inv st_val h" and n: "ah_key (abs_of h) n = Some w"
  obtains j s where "st_get ops (node_index h) n = Some (j, s)" "j < length (inserted_nodes h)"
    "hn_node (inserted_nodes h ! j) = n" "hn_weight (inserted_nodes h ! j) = w"
    "ah_data (abs_of h) n = Some (hn_data (inserted_nodes h ! j))"
    "hn_key (inserted_nodes h ! j) = 0 \<longleftrightarrow> n \<notin> ah_queue (abs_of h)" "st_inv s"
    "\<forall>m v. st_val (node_index h) m = Some v \<longrightarrow> st_val s m = Some v"
proof -
  note D = heap_invD [OF inv]
  obtain j where j: "j < length (inserted_nodes h)" "hn_node (inserted_nodes h ! j) = n"
    "hn_weight (inserted_nodes h ! j) = w" "ah_data (abs_of h) n = Some (hn_data (inserted_nodes h ! j))"
    using abs_domE [OF n [unfolded abs_of_def] D(3)] by (metis abs_of_def)
  have "st_val (node_index h) n = Some j" using D(4) [OF j(1)] j(2) by simp
  then obtain s where s: "st_get ops (node_index h) n = Some (j, s)" "st_inv s"
    "\<forall>m u. st_val (node_index h) m = Some u \<longrightarrow> st_val s m = Some u"
    using get_known [OF D(2)] that by blast
  have uniq: "i = j" if "i < length (inserted_nodes h)" "hn_node (inserted_nodes h ! i) = n" for i
    using D(3) that j(1,2) by (auto simp: distinct_conv_nth)
  have "hn_key (inserted_nodes h ! j) = 0 \<longleftrightarrow> n \<notin> ah_queue (abs_of h)"
  proof (cases "n \<in> ah_queue (abs_of h)")
    case True
    then obtain i where i: "i < length (inserted_nodes h)" "hn_node (inserted_nodes h ! i) = n"
      "hn_key (inserted_nodes h ! i) \<noteq> 0"
      unfolding abs_of_def queue_nth by blast
    show ?thesis using True i(3) uniq [OF i(1,2)] by simp
  next
    case False
    then show ?thesis using j(1,2) by (simp add: abs_of_def queue_nth)
  qed
  then show thesis by (rule that [OF s(1) j _ s(2,3)])
qed

lemma Insert_correct:
  assumes inv: "heap_inv st_inv st_val h" and ok: "st_ok (node_index h) n"
    and new: "ah_key (abs_of h) n = None" and w: "INT_MIN \<le> w"
  shows "\<exists>h'. heap_Insert ops h n w d = Some h' \<and> heap_inv st_inv st_val h' \<and>
    abs_of h' = abs_insert (abs_of h) n w d"
proof -
  note D = heap_invD [OF inv]
  obtain s where s: "st_set ops (node_index h) n (length (inserted_nodes h)) = Some s" "st_inv s"
    "st_val s n = Some (length (inserted_nodes h))"
    "\<And>m v. m \<noteq> n \<Longrightarrow> st_val (node_index h) m = Some v \<Longrightarrow> st_val s m = Some v"
    using set_ok [OF D(2) ok] by blast
  obtain hp' nodes' where t:
    "Upheap (heap h @ [\<lparr> he_index = length (inserted_nodes h), he_weight = w \<rparr>])
       (inserted_nodes h @ [\<lparr> hn_node = n, hn_key = length (heap h), hn_weight = w, hn_data = d \<rparr>])
       (length (heap h)) = Some (hp', nodes')"
    "tree_inv hp' nodes'" "abs_nodes nodes' = abs_insert (abs_nodes (inserted_nodes h)) n w d"
    "map hn_node nodes' = map hn_node (inserted_nodes h) @ [n]"
    using insert_tree [OF D(1) _ w] new by (metis abs_of_def domIff)
  let ?h = "h\<lparr> inserted_nodes := nodes', heap := hp', node_index := s \<rparr>"
  have run: "heap_Insert ops h n w d = Some ?h"
    using s(1) t(1) tree_inv_order [OF t(2)] by (simp add: heap_Insert_def)
  have len: "length nodes' = Suc (length (inserted_nodes h))" using arg_cong [OF t(4), of length] by simp
  have node: "hn_node (nodes' ! j) = (map hn_node (inserted_nodes h) @ [n]) ! j" if "j < length nodes'" for j
    using t(4) that by (metis nth_map)
  have fresh: "hn_node (inserted_nodes h ! j) \<noteq> n" if "j < length (inserted_nodes h)" for j
    using new abs_key_nth(1) [OF D(3) that] by (auto simp: abs_of_def)
  have "st_val s (hn_node (nodes' ! j)) = Some j" if "j < length nodes'" for j
  proof (cases "j < length (inserted_nodes h)")
    case True
    then show ?thesis using node [OF that] s(4) [OF fresh [OF True]] D(4) [OF True] by (simp add: nth_append)
  next
    case False
    then show ?thesis using node [OF that] s(3) that len by (simp add: nth_append less_Suc_eq)
  qed
  then have "heap_inv st_inv st_val ?h" using t(2) s(2) by (simp add: heap_inv_def)
  then show ?thesis using run t(3) by (simp add: abs_of_def)
qed

lemma heap_inv_read:
  assumes "heap_inv st_inv st_val h" "st_inv s"
    "\<forall>m v. st_val (node_index h) m = Some v \<longrightarrow> st_val s m = Some v"
  shows "heap_inv st_inv st_val (h\<lparr> node_index := s \<rparr>)" "abs_of (h\<lparr> node_index := s \<rparr>) = abs_of h"
  using assms by (auto simp: heap_inv_def abs_of_def)

lemma node_correct:
  assumes "heap_inv st_inv st_val h" "ah_key (abs_of h) n = Some w"
  shows "\<exists>hn h'. heap_node ops h n = Some (hn, h') \<and> hn_weight hn = w \<and>
    ah_data (abs_of h) n = Some (hn_data hn) \<and> (hn_key hn = 0 \<longleftrightarrow> n \<notin> ah_queue (abs_of h)) \<and>
    heap_inv st_inv st_val h' \<and> abs_of h' = abs_of h"
proof -
  obtain j s where j: "st_get ops (node_index h) n = Some (j, s)" "j < length (inserted_nodes h)"
    "hn_node (inserted_nodes h ! j) = n" "hn_weight (inserted_nodes h ! j) = w"
    "ah_data (abs_of h) n = Some (hn_data (inserted_nodes h ! j))"
    "hn_key (inserted_nodes h ! j) = 0 \<longleftrightarrow> n \<notin> ah_queue (abs_of h)" "st_inv s"
    "\<forall>m v. st_val (node_index h) m = Some v \<longrightarrow> st_val s m = Some v"
    using known_node [OF assms] .
  have "heap_node ops h n = Some (inserted_nodes h ! j, h\<lparr> node_index := s \<rparr>)"
    using j(1,2) by (simp add: heap_node_def vec_simps)
  then show ?thesis using j(4-6) heap_inv_read [OF assms(1) j(7,8)] by simp
qed

lemma GetKey_correct:
  assumes "heap_inv st_inv st_val h" "ah_key (abs_of h) n = Some w"
  shows "\<exists>h'. heap_GetKey ops h n = Some (w, h') \<and> heap_inv st_inv st_val h' \<and> abs_of h' = abs_of h"
  using node_correct [OF assms] by (auto simp: heap_GetKey_def)

lemma GetData_correct:
  assumes "heap_inv st_inv st_val h" "ah_key (abs_of h) n = Some w"
  shows "\<exists>d h'. heap_GetData ops h n = Some (d, h') \<and> ah_data (abs_of h) n = Some d \<and>
    heap_inv st_inv st_val h' \<and> abs_of h' = abs_of h"
  using node_correct [OF assms] by (auto simp: heap_GetData_def)

lemma WasInserted_correct:
  assumes inv: "heap_inv st_inv st_val h" and ok: "st_ok (node_index h) n"
  shows "\<exists>h'. heap_WasInserted ops h n = Some (n \<in> dom (ah_key (abs_of h)), h') \<and>
    heap_inv st_inv st_val h' \<and> abs_of h' = abs_of h \<and> st_ok (node_index h') n"
proof -
  note D = heap_invD [OF inv]
  obtain k s where g: "st_get ops (node_index h) n = Some (k, s)" "st_inv s" "st_ok s n"
    "\<And>v. st_val (node_index h) n = Some v \<Longrightarrow> k = v"
    "\<forall>m v. st_val (node_index h) m = Some v \<longrightarrow> st_val s m = Some v"
    using get_ok [OF D(2) ok] by blast
  have "n \<in> dom (ah_key (abs_of h)) \<longleftrightarrow>
      k < length (inserted_nodes h) \<and> hn_node (inserted_nodes h ! k) = n" (is "?l \<longleftrightarrow> ?r")
  proof
    assume ?l
    then obtain j where "j < length (inserted_nodes h)" "hn_node (inserted_nodes h ! j) = n"
      by (auto simp: abs_of_def abs_dom in_set_conv_nth)
    then show ?r using D(4) [of j] g(4) [of j] by auto
  next
    assume ?r
    then show ?l by (auto simp: abs_of_def abs_dom)
  qed
  then show ?thesis
    using g heap_inv_read [OF inv g(2,5)] by (simp add: heap_WasInserted_def Let_def)
qed

lemma WasRemoved_correct:
  assumes inv: "heap_inv st_inv st_val h" and n: "ah_key (abs_of h) n = Some w"
  shows "\<exists>h'. heap_WasRemoved ops h n = Some (n \<notin> ah_queue (abs_of h), h') \<and>
    heap_inv st_inv st_val h' \<and> abs_of h' = abs_of h"
proof -
  obtain j where "j < length (inserted_nodes h)" "hn_node (inserted_nodes h ! j) = n"
    using n by (auto simp: abs_of_def elim: abs_domE [OF _ heap_invD(3) [OF inv]])
  then have "st_ok (node_index h) n" using heap_invD(2,4) [OF inv] val_ok by metis
  then obtain h1 where h1: "heap_WasInserted ops h n = Some (True, h1)" "heap_inv st_inv st_val h1"
    "abs_of h1 = abs_of h"
    using WasInserted_correct [OF inv] n by fastforce
  then show ?thesis using node_correct [OF h1(2), of n w] n by (auto simp: heap_WasRemoved_def)
qed

lemma SetData_correct:
  assumes inv: "heap_inv st_inv st_val h" and n: "ah_key (abs_of h) n = Some w"
  shows "\<exists>h'. heap_SetData ops h n d = Some h' \<and> heap_inv st_inv st_val h' \<and>
    abs_of h' = abs_set_data (abs_of h) n d"
proof -
  obtain j s where j: "st_get ops (node_index h) n = Some (j, s)" "j < length (inserted_nodes h)"
    "hn_node (inserted_nodes h ! j) = n" "st_inv s"
    "\<forall>m v. st_val (node_index h) m = Some v \<longrightarrow> st_val s m = Some v"
    using known_node [OF assms] by metis
  let ?nodes = "(inserted_nodes h)[j := (inserted_nodes h ! j)\<lparr> hn_data := d \<rparr>]"
  let ?h = "h\<lparr> inserted_nodes := ?nodes, heap := heap h, node_index := s \<rparr>"
  have maps: "map f ?nodes = map f (inserted_nodes h)" if "\<And>n k. f (n\<lparr> hn_data := k \<rparr>) = f n" for f
    using j(2) that by (simp add: map_update list_update_same_conv)
  have T: "tree_inv (heap h) (inserted_nodes h)" by (rule heap_invD [OF inv])
  have "linked {} (heap h) ?nodes"
    using T j(2) by (auto simp: tree_inv_def linked_def nth_list_update)
  then have "tree_inv (heap h) ?nodes"
    using T ball_map_eq [OF maps, of hn_weight "\<lambda>w. INT_MIN \<le> w"] by (simp add: tree_inv_def maps)
  then have "heap_inv st_inv st_val ?h"
    by (rule heap_invI [OF inv _ maps j(4,5)]) simp_all
  moreover have "heap_SetData ops h n d = Some ?h"
    using j(1,2) by (cases h) (simp add: heap_SetData_def vec_simps)
  moreover have "abs_nodes ?nodes = abs_set_data (abs_nodes (inserted_nodes h)) n d"
  proof -
    have "map_of (map (\<lambda>x. (hn_node x, hn_data x)) ?nodes) =
        (map_of (map (\<lambda>x. (hn_node x, hn_data x)) (inserted_nodes h)))(n \<mapsto> d)"
      using map_of_list_update [OF heap_invD(3) [OF inv] j(2), of "(inserted_nodes h ! j)\<lparr> hn_data := d \<rparr>" hn_data]
        j(3) by simp
    moreover have "map hn_node (filter (\<lambda>n. hn_key n \<noteq> 0) ?nodes) =
        map hn_node (filter (\<lambda>n. hn_key n \<noteq> 0) (inserted_nodes h))"
      using j(2) by (intro map_filter_list_update) auto
    ultimately show ?thesis by (simp add: abs_nodes_def abs_set_data_def maps)
  qed
  ultimately show ?thesis by (simp add: abs_of_def)
qed

lemma DecreaseKey_correct:
  assumes inv: "heap_inv st_inv st_val h" and n: "ah_key (abs_of h) n = Some v"
    "n \<in> ah_queue (abs_of h)" and w: "INT_MIN \<le> w" "w \<le> v"
  shows "\<exists>h'. heap_DecreaseKey ops h n w = Some h' \<and> heap_inv st_inv st_val h' \<and>
    abs_of h' = abs_decrease (abs_of h) n w"
proof -
  obtain j s where j: "st_get ops (node_index h) n = Some (j, s)" "j < length (inserted_nodes h)"
    "hn_node (inserted_nodes h ! j) = n" "hn_weight (inserted_nodes h ! j) = v"
    "ah_data (abs_of h) n = Some (hn_data (inserted_nodes h ! j))"
    "hn_key (inserted_nodes h ! j) = 0 \<longleftrightarrow> n \<notin> ah_queue (abs_of h)" "st_inv s"
    "\<forall>m v. st_val (node_index h) m = Some v \<longrightarrow> st_val s m = Some v"
    using known_node [OF inv n(1)] .
  let ?key = "hn_key (inserted_nodes h ! j)"
  obtain hp' nodes' where t:
    "Upheap ((heap h)[?key := (heap h ! ?key)\<lparr> he_weight := w \<rparr>])
       ((inserted_nodes h)[j := (inserted_nodes h ! j)\<lparr> hn_weight := w \<rparr>]) ?key = Some (hp', nodes')"
    "tree_inv hp' nodes'"
    "abs_nodes nodes' = abs_decrease (abs_nodes (inserted_nodes h)) (hn_node (inserted_nodes h ! j)) w"
    "map hn_node nodes' = map hn_node (inserted_nodes h)" "?key < length (heap h)"
    using decrease_tree [OF heap_invD(1) [OF inv] j(2) _ w(1)] j(4,6) n(2) w(2) by auto
  have "heap_DecreaseKey ops h n w =
      Some (h\<lparr> inserted_nodes := nodes', heap := hp', node_index := s \<rparr>)"
    using j(1,2) t(1,5) tree_inv_order [OF t(2)] by (simp add: heap_DecreaseKey_def vec_simps Let_def)
  then show ?thesis
    using heap_invI [OF inv t(2,4) j(7,8)] t(3) j(3) by (simp add: abs_of_def)
qed

lemma Empty_correct:
  assumes "heap_inv st_inv st_val h"
  shows "heap_Empty h \<longleftrightarrow> ah_queue (abs_of h) = {}"
proof -
  have "linked {} (heap h) (inserted_nodes h)"
    using heap_invD(1) [OF assms] by (simp add: tree_inv_def)
  then have "ah_queue (abs_of h) = {} \<longleftrightarrow> {0<..<length (heap h)} = {}"
    by (simp add: abs_of_def linked_queue)
  also have "\<dots> \<longleftrightarrow> length (heap h) \<le> 1"
  proof
    assume "{0<..<length (heap h)} = {}"
    then have "1 \<notin> {0<..<length (heap h)}" by blast
    then show "length (heap h) \<le> 1" by simp
  qed auto
  finally show ?thesis by (auto simp: heap_Empty_def heap_Size_def)
qed

lemma nonempty_length:
  assumes "heap_inv st_inv st_val h" "ah_queue (abs_of h) \<noteq> {}"
  shows "1 < length (heap h)"
  using Empty_correct [OF assms(1)] assms(2) by (auto simp: heap_Empty_def heap_Size_def)

lemma Min_correct:
  assumes inv: "heap_inv st_inv st_val h" and ne: "ah_queue (abs_of h) \<noteq> {}"
  shows "\<exists>n. heap_Min h = Some n \<and> is_min (abs_of h) n"
proof -
  have T: "linked {} (heap h) (inserted_nodes h)" "heap_order (heap h)"
    using heap_invD(1) [OF inv] by (simp_all add: tree_inv_def)
  have len: "1 < length (heap h)" by (rule nonempty_length [OF assms])
  show ?thesis
    using heap_root_min [OF T heap_invD(3) [OF inv] len] linkedD(1) [OF T(1), of 1] len
    by (simp add: heap_Min_def vec_simps abs_of_def)
qed

lemma DeleteMin_correct:
  assumes inv: "heap_inv st_inv st_val h" and ne: "ah_queue (abs_of h) \<noteq> {}"
  shows "\<exists>n h'. heap_DeleteMin h = Some (n, h') \<and> is_min (abs_of h) n \<and>
    heap_inv st_inv st_val h' \<and> abs_of h' = abs_remove (abs_of h) n \<and> node_index h' = node_index h"
proof -
  have T: "linked {} (heap h) (inserted_nodes h)" "heap_order (heap h)"
    using heap_invD(1) [OF inv] by (simp_all add: tree_inv_def)
  have len: "1 < length (heap h)" by (rule nonempty_length [OF assms])
  let ?r = "he_index (heap h ! 1)" and ?hp1 = "butlast ((heap h)[1 := heap h ! (length (heap h) - 1)])"
  obtain hp' nodes' where d:
    "(if length ?hp1 > 1 then Downheap ?hp1 (inserted_nodes h) 1 else Some (?hp1, inserted_nodes h)) =
       Some (hp', nodes')"
    "?r < length nodes'" "hn_node (nodes' ! ?r) = hn_node (inserted_nodes h ! ?r)"
    "tree_inv hp' (setkey nodes' ?r 0)"
    "abs_nodes (setkey nodes' ?r 0) =
       abs_remove (abs_nodes (inserted_nodes h)) (hn_node (inserted_nodes h ! ?r))"
    "map hn_node (setkey nodes' ?r 0) = map hn_node (inserted_nodes h)"
    by (rule delete_min_tree [OF heap_invD(1) [OF inv] len])
  let ?h = "h\<lparr> inserted_nodes := setkey nodes' ?r 0, heap := hp', node_index := node_index h \<rparr>"
  have "heap_DeleteMin h = Some (hn_node (inserted_nodes h ! ?r), ?h)"
    unfolding heap_DeleteMin_def Let_def d(1) using len d(2,3) tree_inv_order [OF d(4)]
    by (simp add: vec_simps setkey_def heap_upd_id)
  moreover have "is_min (abs_of h) (hn_node (inserted_nodes h ! ?r))"
    using heap_root_min [OF T heap_invD(3) [OF inv] len] by (simp add: abs_of_def)
  moreover have "heap_inv st_inv st_val ?h"
    by (rule heap_invI [OF inv d(4,6) heap_invD(2) [OF inv]]) simp
  ultimately show ?thesis using d(5) by (simp add: abs_of_def)
qed

lemma DeleteAll_correct:
  assumes inv: "heap_inv st_inv st_val h"
  shows "\<exists>h'. heap_DeleteAll h = Some h' \<and> heap_inv st_inv st_val h' \<and>
    abs_of h' = (abs_of h)\<lparr> ah_queue := {} \<rparr> \<and> node_index h' = node_index h"
proof -
  have "heap h \<noteq> []" using heap_invD(1) [OF inv] by (simp add: tree_inv_def)
  obtain nodes' where d: "mark_removed (tl (heap h)) (inserted_nodes h) = Some nodes'"
    "tree_inv [(heap h ! 0)\<lparr> he_weight := INT_MIN \<rparr>] nodes'"
    "abs_nodes nodes' = (abs_nodes (inserted_nodes h))\<lparr> ah_queue := {} \<rparr>"
    "map hn_node nodes' = map hn_node (inserted_nodes h)"
    by (rule delete_all_tree [OF heap_invD(1) [OF inv]])
  let ?h = "h\<lparr> inserted_nodes := nodes', heap := [(heap h ! 0)\<lparr> he_weight := INT_MIN \<rparr>],
    node_index := node_index h \<rparr>"
  have "heap_DeleteAll h = Some ?h"
    using d(1) \<open>heap h \<noteq> []\<close> by (simp add: heap_DeleteAll_def vec_simps heap_upd_id)
  moreover have "heap_inv st_inv st_val ?h"
    by (rule heap_invI [OF inv d(2,4) heap_invD(2) [OF inv]]) simp
  ultimately show ?thesis using d(3) by (simp add: abs_of_def)
qed

lemma Clear_correct:
  assumes "st_inv (node_index h)" "st_clearable (node_index h)"
  shows "heap_inv st_inv st_val (heap_Clear ops h)" "abs_of (heap_Clear ops h) = abs_empty"
  using clear_ok [OF assms]
  by (auto simp: heap_inv_def heap_Clear_def tree_inv_def linked_def heap_order_def
      abs_of_def abs_nodes_def abs_empty_def)

lemma new_correct:
  assumes "st_inv s" "st_clearable s"
  shows "heap_inv st_inv st_val (BinaryHeap_new ops s)" "abs_of (BinaryHeap_new ops s) = abs_empty"
  using Clear_correct [of "\<lparr> inserted_nodes = [], heap = [], node_index = s \<rparr>"] assms
  by (simp_all add: BinaryHeap_new_def)

end

section \<open>The heaps of the code\<close>

text \<open>
  \<^verbatim>\<open>SearchEngineData.h\<close> runs the queries on heaps over \<^verbatim>\<open>UnorderedMapStorage\<close>,
  \<^verbatim>\<open>Contractor.h\<close> runs its local searches on heaps over \<^verbatim>\<open>XORFastHashStorage\<close>.
\<close>

record HeapData =
  parent :: NodeID

type_synonym QueryHeap = "(NodeID, HeapData, NodeID \<rightharpoonup> nat) BinaryHeap"

abbreviation query_inv :: "('n, 'd, 'n \<rightharpoonup> nat) BinaryHeap \<Rightarrow> bool" where
  "query_inv \<equiv> heap_inv (\<lambda>_. True) (\<lambda>s. s)"

abbreviation contractor_heap_inv :: "(u32, 'd, XORFastHashStorage) BinaryHeap \<Rightarrow> bool" where
  "contractor_heap_inv \<equiv> heap_inv xor_inv xor_val"

text \<open>The thread-local heaps are created on first use and cleared afterwards.\<close>

definition InitializeOrClear :: "QueryHeap option \<Rightarrow> QueryHeap" where
  "InitializeOrClear h =
     (case h of Some h \<Rightarrow> heap_Clear UnorderedMapStorage h
      | None \<Rightarrow> BinaryHeap_new UnorderedMapStorage Map.empty)"

record SearchEngineData =
  forwardHeap :: "QueryHeap option"
  backwardHeap :: "QueryHeap option"
  forwardHeap2 :: "QueryHeap option"
  backwardHeap2 :: "QueryHeap option"
  forwardHeap3 :: "QueryHeap option"
  backwardHeap3 :: "QueryHeap option"

definition InitializeOrClearFirstThreadLocalStorage :: "SearchEngineData \<Rightarrow> SearchEngineData" where
  "InitializeOrClearFirstThreadLocalStorage d =
     d\<lparr>forwardHeap := Some (InitializeOrClear (forwardHeap d)),
       backwardHeap := Some (InitializeOrClear (backwardHeap d))\<rparr>"

definition InitializeOrClearSecondThreadLocalStorage :: "SearchEngineData \<Rightarrow> SearchEngineData" where
  "InitializeOrClearSecondThreadLocalStorage d =
     d\<lparr>forwardHeap2 := Some (InitializeOrClear (forwardHeap2 d)),
       backwardHeap2 := Some (InitializeOrClear (backwardHeap2 d))\<rparr>"

definition InitializeOrClearThirdThreadLocalStorage :: "SearchEngineData \<Rightarrow> SearchEngineData" where
  "InitializeOrClearThirdThreadLocalStorage d =
     d\<lparr>forwardHeap3 := Some (InitializeOrClear (forwardHeap3 d)),
       backwardHeap3 := Some (InitializeOrClear (backwardHeap3 d))\<rparr>"

lemma InitializeOrClear_correct:
  "query_inv (InitializeOrClear h)" "abs_of (InitializeOrClear h) = abs_empty"
  using unordered_map_storage.new_correct [of Map.empty] unordered_map_storage.Clear_correct
  by (auto simp: InitializeOrClear_def split: option.splits)

lemmas query_heap_correct =
  unordered_map_storage.Insert_correct unordered_map_storage.DecreaseKey_correct
  unordered_map_storage.DeleteMin_correct unordered_map_storage.GetKey_correct
  unordered_map_storage.GetData_correct unordered_map_storage.SetData_correct
  unordered_map_storage.WasInserted_correct unordered_map_storage.WasRemoved_correct
  unordered_map_storage.Empty_correct unordered_map_storage.DeleteAll_correct

text \<open>Repeated \<open>DeleteMin\<close>, the order in which a search settles nodes.\<close>

fun heap_drain :: "nat \<Rightarrow> ('n, 'd, 's) BinaryHeap \<Rightarrow> 'n list option" where
  "heap_drain 0 h = Some []"
| "heap_drain (Suc k) h = do { (n, h') \<leftarrow> heap_DeleteMin h; ns \<leftarrow> heap_drain k h'; Some (n # ns) }"

context index_storage
begin

lemma drain_correct:
  assumes "heap_inv st_inv st_val h" "card (ah_queue (abs_of h)) = k"
  shows "\<exists>ns. heap_drain k h = Some ns \<and> set ns = ah_queue (abs_of h) \<and> distinct ns \<and>
    sorted (map (\<lambda>n. the (ah_key (abs_of h) n)) ns)"
  using assms
proof (induction k arbitrary: h)
  case 0
  have "finite (ah_queue (abs_of h))" by (simp add: abs_of_def abs_nodes_def)
  then show ?case using 0 by simp
next
  case (Suc k)
  have ne: "ah_queue (abs_of h) \<noteq> {}" using Suc.prems(2) by auto
  obtain n h' where d: "heap_DeleteMin h = Some (n, h')" "is_min (abs_of h) n"
    "heap_inv st_inv st_val h'" "abs_of h' = abs_remove (abs_of h) n"
    using DeleteMin_correct [OF Suc.prems(1) ne] by blast
  have n: "n \<in> ah_queue (abs_of h)" "\<And>m. m \<in> ah_queue (abs_of h) \<Longrightarrow>
      the (ah_key (abs_of h) n) \<le> the (ah_key (abs_of h) m)"
    using d(2) by (auto simp: is_min_def)
  have "card (ah_queue (abs_of h')) = k" using d(4) n(1) Suc.prems(2) by (simp add: abs_remove_def)
  then obtain ns where ns: "heap_drain k h' = Some ns" "set ns = ah_queue (abs_of h) - {n}"
    "distinct ns" "sorted (map (\<lambda>n. the (ah_key (abs_of h) n)) ns)"
    using Suc.IH [OF d(3)] d(4) by (auto simp: abs_remove_def)
  then show ?case using d(1) n by (intro exI [of _ "n # ns"]) auto
qed

end

section \<open>Properties\<close>

text \<open>
  C16: on a query heap, \<open>Insert\<close> of a node that was not inserted since the last \<open>Clear\<close>
  succeeds, keeps the invariant (tree order, the links between tree positions and nodes, the
  index storage) and adds exactly that node, with its weight and data, to the abstract queue.
\<close>

theorem query_heap_Insert:
  assumes "query_inv h" "ah_key (abs_of h) n = None" "INT_MIN \<le> w"
  shows "\<exists>h'. heap_Insert UnorderedMapStorage h n w d = Some h' \<and> query_inv h' \<and>
    abs_of h' = abs_insert (abs_of h) n w d"
  using unordered_map_storage.Insert_correct [OF assms(1) _ assms(2,3)] by simp

theorem query_heap_Insert_witness:
  "\<exists>h'. heap_Insert UnorderedMapStorage (InitializeOrClear None) 4 17 \<lparr> parent = 4 \<rparr> = Some h' \<and>
    query_inv h' \<and> ah_key (abs_of h') 4 = Some 17"
proof -
  have "ah_key (abs_of (InitializeOrClear None)) 4 = None"
    by (simp add: InitializeOrClear_correct abs_empty_def)
  from query_heap_Insert [OF InitializeOrClear_correct(1) this, of 17 "\<lparr> parent = 4 \<rparr>"]
  show ?thesis by (auto simp: INT_MIN_def abs_insert_def)
qed

text \<open>
  C11: on a query heap with a queued node, \<open>DeleteMin\<close> returns a queued node of smallest weight,
  keeps the invariant, takes that node (and no other) off the queue and keeps all keys and data,
  so that \<open>GetKey\<close> of the removed node still returns its weight.
\<close>

theorem query_heap_DeleteMin:
  assumes "query_inv h" "ah_queue (abs_of h) \<noteq> {}"
  shows "\<exists>n h'. heap_DeleteMin h = Some (n, h') \<and> is_min (abs_of h) n \<and> query_inv h' \<and>
    abs_of h' = abs_remove (abs_of h) n"
  using unordered_map_storage.DeleteMin_correct [OF assms] by blast

lemma sample_heap:
  "\<exists>h. do { h \<leftarrow> heap_Insert UnorderedMapStorage (InitializeOrClear None) 4 17 \<lparr> parent = 4 \<rparr>;
      heap_Insert UnorderedMapStorage h 5 3 \<lparr> parent = 4 \<rparr> } = Some h \<and> query_inv h \<and>
    ah_queue (abs_of h) = {4, 5} \<and> ah_key (abs_of h) 4 = Some 17 \<and> ah_key (abs_of h) 5 = Some 3"
proof -
  have new: "ah_key (abs_of (InitializeOrClear None)) 4 = None" and m: "INT_MIN \<le> 17" "INT_MIN \<le> 3"
    by (simp_all add: InitializeOrClear_correct abs_empty_def INT_MIN_def)
  obtain h1 where h1: "heap_Insert UnorderedMapStorage (InitializeOrClear None) 4 17 \<lparr> parent = 4 \<rparr> = Some h1"
    "query_inv h1" "abs_of h1 = abs_insert abs_empty 4 17 \<lparr> parent = 4 \<rparr>"
    using unordered_map_storage.Insert_correct [OF InitializeOrClear_correct(1) _ new m(1)]
    by (auto simp: InitializeOrClear_correct)
  have "ah_key (abs_of h1) 5 = None" by (simp add: h1 abs_insert_def abs_empty_def)
  from unordered_map_storage.Insert_correct [OF h1(2) _ this m(2), of "\<lparr> parent = 4 \<rparr>"]
  show ?thesis using h1 by (auto simp: abs_insert_def abs_empty_def)
qed

theorem query_heap_DeleteMin_witness:
  "\<exists>(h :: QueryHeap) n h'. query_inv h \<and> ah_queue (abs_of h) = {4, 5} \<and> heap_DeleteMin h = Some (n, h') \<and> n = 5"
proof -
  obtain h :: QueryHeap where h: "query_inv h" "ah_queue (abs_of h) = {4, 5}"
    "ah_key (abs_of h) 4 = Some 17" "ah_key (abs_of h) 5 = Some 3" using sample_heap by blast
  then show ?thesis using query_heap_DeleteMin [OF h(1)] by (auto simp: is_min_def)
qed

text \<open>
  On a query heap, \<open>DecreaseKey\<close> of a queued node to a weight no larger than its key
  succeeds, keeps the invariant and changes that key only.
\<close>

theorem query_heap_DecreaseKey:
  assumes "query_inv h" "ah_key (abs_of h) n = Some v" "n \<in> ah_queue (abs_of h)"
    and "INT_MIN \<le> w" "w \<le> v"
  shows "\<exists>h'. heap_DecreaseKey UnorderedMapStorage h n w = Some h' \<and> query_inv h' \<and>
    abs_of h' = abs_decrease (abs_of h) n w"
  using unordered_map_storage.DecreaseKey_correct [OF assms] .

theorem query_heap_DecreaseKey_witness:
  "\<exists>(h :: QueryHeap) h'. query_inv h \<and> ah_key (abs_of h) 4 = Some 17 \<and>
    heap_DecreaseKey UnorderedMapStorage h 4 2 = Some h' \<and> ah_key (abs_of h') 4 = Some 2"
proof -
  obtain h :: QueryHeap where h: "query_inv h" "ah_queue (abs_of h) = {4, 5}"
    "ah_key (abs_of h) 4 = Some 17" using sample_heap by blast
  then show ?thesis
    using query_heap_DecreaseKey [OF h(1,3), of 2] by (auto simp: INT_MIN_def abs_decrease_def)
qed

text \<open>
  C17: the contractor's heap, whose index storage is the time-stamped hash table: deleting
  the minimum as often as there are queued nodes returns every queued node
  exactly once, in ascending order of weight.
\<close>

theorem contractor_heap_drain:
  assumes "contractor_heap_inv h" "card (ah_queue (abs_of h)) = k"
  shows "\<exists>ns. heap_drain k h = Some ns \<and> set ns = ah_queue (abs_of h) \<and> distinct ns \<and>
    sorted (map (\<lambda>n. the (ah_key (abs_of h) n)) ns)"
  using xor_storage.drain_correct [OF assms] .

theorem contractor_heap_drain_witness:
  "\<exists>h. heap_Insert XORFastHashStorage_ops
      (BinaryHeap_new XORFastHashStorage_ops (XORFastHashStorage_new (XORFastHash_new id rev)))
      9 100 () = Some h \<and> heap_drain 1 h = Some [9]"
proof -
  let ?s = "XORFastHashStorage_new (XORFastHash_new id rev)"
  let ?h = "BinaryHeap_new XORFastHashStorage_ops ?s :: (u32, unit, XORFastHashStorage) BinaryHeap"
  have h: "contractor_heap_inv ?h" "abs_of ?h = abs_empty"
    using xor_storage.new_correct [OF xor_new_inv] by simp_all
  have "xor_ok (node_index ?h) 9"
    using xor_used_room [of "node_index ?h"] xor_clear_unused [OF xor_new_inv]
    by (simp add: BinaryHeap_new_def heap_Clear_def xor_st_clear XORFastHashStorage_new_def)
  then obtain h' where h': "heap_Insert XORFastHashStorage_ops ?h 9 100 () = Some h'"
    "contractor_heap_inv h'" "abs_of h' = abs_insert abs_empty 9 100 ()"
    using xor_storage.Insert_correct [OF h(1), of 9 100 "()"] by (auto simp: h(2) INT_MIN_def abs_empty_def)
  have "card (ah_queue (abs_of h')) = 1" by (simp add: h'(3) abs_insert_def abs_empty_def)
  then obtain ns where "heap_drain 1 h' = Some ns" "set ns = {9}" "distinct ns"
    using contractor_heap_drain [OF h'(2)] h'(3) by (auto simp: abs_insert_def abs_empty_def)
  moreover from this have "ns = [9]"
    by (metis distinct_card card.empty card_insert_disjoint empty_iff finite.emptyI length_0_conv
        length_Suc_conv list.set_intros(1) singletonD)
  ultimately show ?thesis using h'(1) by auto
qed

end
