(* ===== verification/Dynamic_Graph.thy ===== *)
theory Dynamic_Graph
  imports OSRM_Prelude
begin

text \<open>
  The graph of the preprocessing, \<^verbatim>\<open>DataStructures/DynamicGraph.h\<close>.  All edges live in
  one vector; a node owns a contiguous range of it, free slots carry the dummy target
  \<^verbatim>\<open>max()\<close>.  The theory models both constructors and every operation and shows that the
  vector implements one multiset of \<open>(target, data)\<close> pairs per node.

  \<open>edge_list\<close> is a \<^verbatim>\<open>DeallocatingVector\<close>, whose \<open>resize\<close> leaves new elements
  uninitialised.  The content of fresh memory is the parameter \<open>fresh\<close>: no theorem below
  depends on it.
\<close>

section \<open>Data\<close>

record 'd InputEdge =
  ie_source :: NodeID
  ie_target :: NodeID
  ie_data :: 'd

definition InputEdge_less :: "'d InputEdge \<Rightarrow> 'd InputEdge \<Rightarrow> bool" where
  "InputEdge_less l r =
     (if ie_source l \<noteq> ie_source r then ie_source l < ie_source r else ie_target l < ie_target r)"

record DG_Node =
  firstEdge :: EdgeID
  edges :: nat

record 'd DG_Edge =
  de_target :: NodeID
  de_data :: 'd

record 'd DynamicGraph =
  number_of_nodes :: nat
  number_of_edges :: nat
  node_list :: "DG_Node list"
  edge_list :: "'d DG_Edge list"

section \<open>Construction\<close>

text \<open>The graph without edges; \<open>fresh\<close> gives the uninitialised content of the edge slots.\<close>

definition DynamicGraph_new :: "(nat \<Rightarrow> 'd DG_Edge) \<Rightarrow> nat \<Rightarrow> 'd DynamicGraph" where
  "DynamicGraph_new fresh nodes =
     \<lparr> number_of_nodes = nodes, number_of_edges = 0,
       node_list = replicate nodes \<lparr> firstEdge = 0, edges = 0 \<rparr>,
       edge_list = map fresh [0..<nodes] \<rparr>"

text \<open>The inner \<open>while\<close>: advance over the edges of one source.\<close>

function skip_source :: "'d InputEdge list \<Rightarrow> NodeID \<Rightarrow> nat \<Rightarrow> nat" where
  "skip_source graph node edge =
     (if edge < length graph \<and> ie_source (graph ! edge) = node
      then skip_source graph node (edge + 1) else edge)"
  by pat_completeness auto
termination by (relation "measure (\<lambda>(g, _, e). length g - e)") auto

declare skip_source.simps [simp del]

text \<open>The first loop of the constructor: the entries of the remaining nodes and the end position.\<close>

fun place_nodes :: "'d InputEdge list \<Rightarrow> nat list \<Rightarrow> nat \<Rightarrow> nat \<Rightarrow> DG_Node list \<times> nat" where
  "place_nodes graph [] edge position = ([], position)"
| "place_nodes graph (node # ns) edge position =
     (let edge' = skip_source graph node edge;
          (rest, end) = place_nodes graph ns edge' (position + (edge' - edge))
      in (\<lparr> firstEdge = position, edges = edge' - edge \<rparr> # rest, end))"

text \<open>The second loop: copy the edges to the positions of each node in turn.\<close>

fun copy_edges :: "'d InputEdge list \<Rightarrow> nat list \<Rightarrow> nat \<Rightarrow> 'd DG_Edge list \<Rightarrow> ('d DG_Edge list \<times> nat) option" where
  "copy_edges graph [] edge el = Some (el, edge)"
| "copy_edges graph (i # is) edge el = do {
     ie \<leftarrow> vec_at graph edge;
     el \<leftarrow> vec_upd el i (\<lambda>_. \<lparr> de_target = ie_target ie, de_data = ie_data ie \<rparr>);
     copy_edges graph is (edge + 1) el
   }"

fun fill_nodes :: "'d InputEdge list \<Rightarrow> DG_Node list \<Rightarrow> nat \<Rightarrow> 'd DG_Edge list \<Rightarrow> 'd DG_Edge list option" where
  "fill_nodes graph [] edge el = Some el"
| "fill_nodes graph (n # ns) edge el = do {
     (el, edge) \<leftarrow> copy_edges graph (irange (firstEdge n) (firstEdge n + edges n)) edge el;
     fill_nodes graph ns edge el
   }"

definition DynamicGraph_of ::
    "(nat \<Rightarrow> 'd DG_Edge) \<Rightarrow> nat \<Rightarrow> 'd InputEdge list \<Rightarrow> 'd DynamicGraph option" where
  "DynamicGraph_of fresh nodes graph = do {
     let (entries, position) = place_nodes graph (irange 0 nodes) 0 0;
     el \<leftarrow> fill_nodes graph entries 0 (map fresh [0..<position]);
     Some \<lparr> number_of_nodes = nodes, number_of_edges = length graph,
            node_list = entries @ [\<lparr> firstEdge = position, edges = 0 \<rparr>], edge_list = el \<rparr>
   }"

section \<open>Operations\<close>

definition dg_GetNumberOfNodes :: "'d DynamicGraph \<Rightarrow> nat" where
  "dg_GetNumberOfNodes g = number_of_nodes g"

definition dg_GetNumberOfEdges :: "'d DynamicGraph \<Rightarrow> nat" where
  "dg_GetNumberOfEdges g = number_of_edges g"

definition dg_GetOutDegree :: "'d DynamicGraph \<Rightarrow> NodeID \<Rightarrow> nat option" where
  "dg_GetOutDegree g n = do { x \<leftarrow> vec_at (node_list g) n; Some (edges x) }"

definition dg_GetTarget :: "'d DynamicGraph \<Rightarrow> EdgeID \<Rightarrow> NodeID option" where
  "dg_GetTarget g e = do { x \<leftarrow> vec_at (edge_list g) e; Some (de_target x) }"

definition dg_SetTarget :: "'d DynamicGraph \<Rightarrow> EdgeID \<Rightarrow> NodeID \<Rightarrow> 'd DynamicGraph option" where
  "dg_SetTarget g e n = do {
     el \<leftarrow> vec_upd (edge_list g) e (\<lambda>x. x\<lparr> de_target := n \<rparr>);
     Some (g\<lparr> edge_list := el \<rparr>)
   }"

definition dg_GetEdgeData :: "'d DynamicGraph \<Rightarrow> EdgeID \<Rightarrow> 'd option" where
  "dg_GetEdgeData g e = do { x \<leftarrow> vec_at (edge_list g) e; Some (de_data x) }"

definition dg_SetEdgeData :: "'d DynamicGraph \<Rightarrow> EdgeID \<Rightarrow> ('d \<Rightarrow> 'd) \<Rightarrow> 'd DynamicGraph option" where
  "dg_SetEdgeData g e f = do {
     el \<leftarrow> vec_upd (edge_list g) e (\<lambda>x. x\<lparr> de_data := f (de_data x) \<rparr>);
     Some (g\<lparr> edge_list := el \<rparr>)
   }"

definition dg_BeginEdges :: "'d DynamicGraph \<Rightarrow> NodeID \<Rightarrow> EdgeID option" where
  "dg_BeginEdges g n = do { x \<leftarrow> vec_at (node_list g) n; Some (firstEdge x) }"

definition dg_EndEdges :: "'d DynamicGraph \<Rightarrow> NodeID \<Rightarrow> EdgeID option" where
  "dg_EndEdges g n = do { x \<leftarrow> vec_at (node_list g) n; Some (firstEdge x + edges x) }"

definition dg_GetAdjacentEdgeRange :: "'d DynamicGraph \<Rightarrow> NodeID \<Rightarrow> EdgeID list option" where
  "dg_GetAdjacentEdgeRange g n = do {
     b \<leftarrow> dg_BeginEdges g n;
     e \<leftarrow> dg_EndEdges g n;
     Some (irange b e)
   }"

text \<open>The loop of \<open>GetDirectedOutDegree\<close>; \<open>forward\<close> reads the flag of the edge data.\<close>

fun count_forward :: "('d \<Rightarrow> bool) \<Rightarrow> 'd DynamicGraph \<Rightarrow> EdgeID list \<Rightarrow> nat \<Rightarrow> nat option" where
  "count_forward forward g [] degree = Some degree"
| "count_forward forward g (e # es) degree = do {
     d \<leftarrow> dg_GetEdgeData g e;
     count_forward forward g es (if forward d then degree + 1 else degree)
   }"

definition dg_GetDirectedOutDegree :: "('d \<Rightarrow> bool) \<Rightarrow> 'd DynamicGraph \<Rightarrow> NodeID \<Rightarrow> nat option" where
  "dg_GetDirectedOutDegree forward g n = do {
     r \<leftarrow> dg_GetAdjacentEdgeRange g n;
     count_forward forward g r 0
   }"

definition dg_InsertNode :: "'d DynamicGraph \<Rightarrow> (NodeID \<times> 'd DynamicGraph) option" where
  "dg_InsertNode g = do {
     assert_that (node_list g \<noteq> []);
     let g' = g\<lparr> node_list := node_list g @ [last (node_list g)], number_of_nodes := number_of_nodes g + 1 \<rparr>;
     Some (number_of_nodes g', g')
   }"

definition isDummy :: "'d DG_Edge list \<Rightarrow> EdgeID \<Rightarrow> bool option" where
  "isDummy el e = do { x \<leftarrow> vec_at el e; Some (de_target x = SPECIAL_NODEID) }"

definition makeDummy :: "'d DG_Edge list \<Rightarrow> EdgeID \<Rightarrow> 'd DG_Edge list option" where
  "makeDummy el e = vec_upd el e (\<lambda>x. x\<lparr> de_target := SPECIAL_NODEID \<rparr>)"

text \<open>The assignment \<^verbatim>\<open>edge_list[dst] = edge_list[src]\<close>.\<close>

definition edge_assign :: "'d DG_Edge list \<Rightarrow> EdgeID \<Rightarrow> EdgeID \<Rightarrow> 'd DG_Edge list option" where
  "edge_assign el dst src = do { x \<leftarrow> vec_at el src; vec_upd el dst (\<lambda>_. x) }"

text \<open>
  Moving the edges of a node behind the last slot.  \<^verbatim>\<open>node.edges * 1.1 + 2\<close> is computed in
  floating point and truncated.  For 32-bit counts that is \<open>edges * 11 div 10 + 2\<close>: the
  \<^verbatim>\<open>double\<close> nearest to 1.1 lies above 1.1 by less than \<open>2^-53\<close>, which does not carry a product
  over the next integer.
\<close>

fun move_edges :: "nat list \<Rightarrow> EdgeID \<Rightarrow> EdgeID \<Rightarrow> 'd DG_Edge list \<Rightarrow> 'd DG_Edge list option" where
  "move_edges [] dst src el = Some el"
| "move_edges (i # is) dst src el = do {
     el \<leftarrow> edge_assign el (dst + i) (src + i);
     el \<leftarrow> makeDummy el (src + i);
     move_edges is dst src el
   }"

fun make_dummies :: "nat list \<Rightarrow> EdgeID \<Rightarrow> 'd DG_Edge list \<Rightarrow> 'd DG_Edge list option" where
  "make_dummies [] dst el = Some el"
| "make_dummies (i # is) dst el = do { el \<leftarrow> makeDummy el (dst + i); make_dummies is dst el }"

definition relocate_edges ::
    "(nat \<Rightarrow> 'd DG_Edge) \<Rightarrow> DG_Node \<Rightarrow> 'd DG_Edge list \<Rightarrow> (DG_Node \<times> 'd DG_Edge list) option" where
  "relocate_edges fresh node el = do {
     let newFirstEdge = length el;
     let newSize = edges node * 11 div 10 + 2;
     let el = el @ map fresh [newFirstEdge..<newFirstEdge + newSize];
     el \<leftarrow> move_edges (irange 0 (edges node)) newFirstEdge (firstEdge node) el;
     el \<leftarrow> make_dummies (irange (edges node + 1) newSize) newFirstEdge el;
     Some (node\<lparr> firstEdge := newFirstEdge \<rparr>, el)
   }"

text \<open>The first half of \<open>InsertEdge\<close>: afterwards the slot behind the last edge of the node is free.\<close>

definition make_room ::
    "(nat \<Rightarrow> 'd DG_Edge) \<Rightarrow> DG_Node \<Rightarrow> 'd DG_Edge list \<Rightarrow> (DG_Node \<times> 'd DG_Edge list) option" where
  "make_room fresh node el = do {
     let newFirstEdge = edges node + firstEdge node;
     free \<leftarrow> (if newFirstEdge \<ge> length el then Some False else isDummy el newFirstEdge);
     if free then Some (node, el)
     else do {
       front \<leftarrow> (if firstEdge node = 0 then Some False else isDummy el (firstEdge node - 1));
       if front then do {
         let node = node\<lparr> firstEdge := firstEdge node - 1 \<rparr>;
         el \<leftarrow> edge_assign el (firstEdge node) (firstEdge node + edges node);
         Some (node, el)
       } else relocate_edges fresh node el
     }
   }"

definition dg_InsertEdge ::
    "(nat \<Rightarrow> 'd DG_Edge) \<Rightarrow> 'd DynamicGraph \<Rightarrow> NodeID \<Rightarrow> NodeID \<Rightarrow> 'd \<Rightarrow>
     (EdgeID \<times> 'd DynamicGraph) option" where
  "dg_InsertEdge fresh g from to d = do {
     node \<leftarrow> vec_at (node_list g) from;
     (node, el) \<leftarrow> make_room fresh node (edge_list g);
     el \<leftarrow> vec_upd el (firstEdge node + edges node) (\<lambda>_. \<lparr> de_target = to, de_data = d \<rparr>);
     let node = node\<lparr> edges := edges node + 1 \<rparr>;
     Some (firstEdge node + edges node,
           g\<lparr> edge_list := el, number_of_edges := number_of_edges g + 1,
              node_list := (node_list g)[from := node] \<rparr>)
   }"

definition dg_DeleteEdge :: "'d DynamicGraph \<Rightarrow> NodeID \<Rightarrow> EdgeID \<Rightarrow> 'd DynamicGraph option" where
  "dg_DeleteEdge g source e = do {
     node \<leftarrow> vec_at (node_list g) source;
     assert_that (edges node \<noteq> 0);
     let node = node\<lparr> edges := edges node - 1 \<rparr>;
     let last = firstEdge node + edges node;
     assert_that (last \<noteq> 2 ^ 32 - 1);
     el \<leftarrow> edge_assign (edge_list g) e last;
     el \<leftarrow> makeDummy el last;
     Some (g\<lparr> number_of_edges := number_of_edges g - 1, edge_list := el,
              node_list := (node_list g)[source := node] \<rparr>)
   }"

text \<open>
  The two loops of \<open>DeleteEdgesTo\<close>.  The inner \<^verbatim>\<open>do ... while\<close> fills slot \<open>i\<close> with edges from
  the end of the range until its target is another one.
\<close>

function delete_at ::
    "NodeID \<Rightarrow> EdgeID \<Rightarrow> EdgeID \<Rightarrow> nat \<Rightarrow> 'd DG_Edge list \<Rightarrow> (nat \<times> 'd DG_Edge list) option" where
  "delete_at target i iend deleted el = do {
     let deleted = deleted + 1;
     el \<leftarrow> edge_assign el i (iend - deleted);
     el \<leftarrow> makeDummy el (iend - deleted);
     x \<leftarrow> vec_at el i;
     if i < iend - deleted \<and> de_target x = target then delete_at target i iend deleted el
     else Some (deleted, el)
   }"
  by pat_completeness auto
termination by (relation "measure (\<lambda>(_, i, iend, deleted, _). iend - deleted)") auto

declare delete_at.simps [simp del]

function delete_to ::
    "NodeID \<Rightarrow> EdgeID \<Rightarrow> EdgeID \<Rightarrow> nat \<Rightarrow> 'd DG_Edge list \<Rightarrow> (nat \<times> 'd DG_Edge list) option" where
  "delete_to target i iend deleted el =
     (if i < iend - deleted then do {
        x \<leftarrow> vec_at el i;
        (deleted, el) \<leftarrow> (if de_target x = target then delete_at target i iend deleted el
                           else Some (deleted, el));
        delete_to target (i + 1) iend deleted el
      } else Some (deleted, el))"
  by pat_completeness auto
termination by (relation "measure (\<lambda>(_, i, iend, _, _). iend - i)") auto

declare delete_to.simps [simp del]

definition dg_DeleteEdgesTo :: "'d DynamicGraph \<Rightarrow> NodeID \<Rightarrow> NodeID \<Rightarrow> (nat \<times> 'd DynamicGraph) option" where
  "dg_DeleteEdgesTo g source target = do {
     i \<leftarrow> dg_BeginEdges g source;
     iend \<leftarrow> dg_EndEdges g source;
     (deleted, el) \<leftarrow> delete_to target i iend 0 (edge_list g);
     nl \<leftarrow> vec_upd (node_list g) source (\<lambda>n. n\<lparr> edges := edges n - deleted \<rparr>);
     Some (deleted, g\<lparr> edge_list := el, number_of_edges := number_of_edges g - deleted, node_list := nl \<rparr>)
   }"

fun find_target :: "'d DG_Edge list \<Rightarrow> NodeID \<Rightarrow> EdgeID list \<Rightarrow> EdgeID option option" where
  "find_target el to [] = Some None"
| "find_target el to (i # is) = do {
     x \<leftarrow> vec_at el i;
     if to = de_target x then Some (Some i) else find_target el to is
   }"

definition dg_FindEdge :: "'d DynamicGraph \<Rightarrow> NodeID \<Rightarrow> NodeID \<Rightarrow> EdgeID option" where
  "dg_FindEdge g from to = do {
     b \<leftarrow> dg_BeginEdges g from;
     e \<leftarrow> dg_EndEdges g from;
     found \<leftarrow> find_target (edge_list g) to (irange b e);
     Some (case found of Some i \<Rightarrow> i | None \<Rightarrow> e)
   }"

section \<open>Invariant and abstraction\<close>

text \<open>
  Node \<open>n\<close> owns the slots of its range.  The invariant: owned slots exist and are no dummies, no
  slot has two owners, ranges start inside the vector, and the edge counter counts the owned
  slots.  \<open>adj\<close> is the abstract value of the graph, the edges of every node.
\<close>

definition owns :: "DG_Node list \<Rightarrow> NodeID \<Rightarrow> EdgeID \<Rightarrow> bool" where
  "owns nl n i \<longleftrightarrow> n < length nl \<and> firstEdge (nl ! n) \<le> i \<and> i < firstEdge (nl ! n) + edges (nl ! n)"

definition dg_inv :: "'d DynamicGraph \<Rightarrow> bool" where
  "dg_inv g \<longleftrightarrow>
     (\<forall>n < length (node_list g). firstEdge (node_list g ! n) \<le> length (edge_list g)) \<and>
     (\<forall>n i. owns (node_list g) n i \<longrightarrow>
        i < length (edge_list g) \<and> de_target (edge_list g ! i) \<noteq> SPECIAL_NODEID) \<and>
     (\<forall>m n i. owns (node_list g) m i \<longrightarrow> owns (node_list g) n i \<longrightarrow> m = n) \<and>
     number_of_edges g = sum_list (map edges (node_list g))"

definition out :: "'d DynamicGraph \<Rightarrow> NodeID \<Rightarrow> 'd DG_Edge list" where
  "out g n = seg (edge_list g) (firstEdge (node_list g ! n))
     (firstEdge (node_list g ! n) + edges (node_list g ! n))"

definition adj :: "'d DynamicGraph \<Rightarrow> NodeID \<Rightarrow> 'd DG_Edge multiset" where
  "adj g n = mset (out g n)"

lemma dg_inv_range:
  assumes "dg_inv g" "n < length (node_list g)"
  shows "firstEdge (node_list g ! n) + edges (node_list g ! n) \<le> length (edge_list g)"
proof (cases "edges (node_list g ! n)")
  case 0
  then show ?thesis using assms by (auto simp: dg_inv_def)
next
  case (Suc k)
  then have "owns (node_list g) n (firstEdge (node_list g ! n) + k)" using assms(2) by (simp add: owns_def)
  then show ?thesis using assms(1) Suc by (fastforce simp: dg_inv_def)
qed

text \<open>An update of one node that keeps the slots owned by the others keeps the invariant.\<close>

lemma change_node:
  assumes inv: "dg_inv g" and n: "n < length (node_list g)"
    and g': "node_list g' = (node_list g)[n := node]" "edge_list g' = el"
      "number_of_edges g' + edges (node_list g ! n) = number_of_edges g + edges node"
    and len: "length (edge_list g) \<le> length el" "firstEdge node \<le> length el"
    and foreign: "\<And>i. i < length (edge_list g) \<Longrightarrow> \<not> owns (node_list g) n i \<Longrightarrow>
      de_target (edge_list g ! i) \<noteq> SPECIAL_NODEID \<Longrightarrow>
      el ! i = edge_list g ! i \<and> \<not> (firstEdge node \<le> i \<and> i < firstEdge node + edges node)"
    and own: "\<And>i. firstEdge node \<le> i \<Longrightarrow> i < firstEdge node + edges node \<Longrightarrow>
      i < length el \<and> de_target (el ! i) \<noteq> SPECIAL_NODEID"
  shows "dg_inv g'" "\<And>m. m < length (node_list g) \<Longrightarrow> m \<noteq> n \<Longrightarrow> out g' m = out g m"
proof -
  have os: "owns (node_list g') m i \<longleftrightarrow> (if m = n then firstEdge node \<le> i \<and> i < firstEdge node + edges node
      else owns (node_list g) m i)" for m i
    using n g' by (auto simp: owns_def)
  have fr: "i < length (edge_list g) \<and> el ! i = edge_list g ! i \<and> de_target (edge_list g ! i) \<noteq> SPECIAL_NODEID
      \<and> \<not> (firstEdge node \<le> i \<and> i < firstEdge node + edges node)"
    if "m \<noteq> n" "owns (node_list g) m i" for m i
  proof -
    have "i < length (edge_list g)" "de_target (edge_list g ! i) \<noteq> SPECIAL_NODEID" "\<not> owns (node_list g) n i"
      using inv that unfolding dg_inv_def by blast+
    then show ?thesis using foreign by blast
  qed
  have "number_of_edges g' = sum_list (map edges (node_list g'))"
    using inv g' n by (simp add: dg_inv_def map_update sum_list_update)
  moreover have "i < length el \<and> de_target (el ! i) \<noteq> SPECIAL_NODEID" if "owns (node_list g') m i" for m i
    using that fr [of m i] own [of i] len(1) by (auto simp: os split: if_splits)
  moreover have "m = m'" if "owns (node_list g') m i" "owns (node_list g') m' i" for m m' i
  proof (rule ccontr)
    assume "m \<noteq> m'"
    moreover have "\<not> (m \<noteq> n \<and> m' \<noteq> n)"
      using that inv \<open>m \<noteq> m'\<close> unfolding os dg_inv_def by metis
    ultimately show False using that fr [of m i] fr [of m' i] by (auto simp: os split: if_splits)
  qed
  moreover have "firstEdge (node_list g' ! m) \<le> length el" if "m < length (node_list g)" for m
    using that inv n g' len by (cases "m = n") (auto simp: dg_inv_def intro: le_trans)
  ultimately show "dg_inv g'" unfolding dg_inv_def using g' by (metis length_list_update)
  show "out g' m = out g m" if "m < length (node_list g)" "m \<noteq> n" for m
    using that fr [of m] g' n by (auto simp: out_def owns_def intro!: seg_cong)
qed

section \<open>Insertion\<close>

lemma move_edges_correct:
  assumes "src + b \<le> dst" "dst + b \<le> length el" "a \<le> b"
  shows "\<exists>el'. move_edges (irange a b) dst src el = Some el' \<and> length el' = length el \<and>
    (\<forall>i. a \<le> i \<and> i < b \<longrightarrow> el' ! (dst + i) = el ! (src + i)) \<and>
    (\<forall>j. \<not> (dst + a \<le> j \<and> j < dst + b) \<and> \<not> (src + a \<le> j \<and> j < src + b) \<longrightarrow> el' ! j = el ! j)"
  using assms
proof (induction "b - a" arbitrary: a el)
  case 0
  then show ?case by auto
next
  case (Suc k)
  then have a: "a < b" by simp
  let ?el = "el[dst + a := el ! (src + a), src + a := (el ! (src + a))\<lparr> de_target := SPECIAL_NODEID \<rparr>]"
  have step: "move_edges (irange a b) dst src el = move_edges (irange (Suc a) b) dst src ?el"
    using a Suc.prems by (simp add: irange_Cons edge_assign_def makeDummy_def vec_simps)
  obtain el' where el': "move_edges (irange (Suc a) b) dst src ?el = Some el'" "length el' = length ?el"
    "\<forall>i. Suc a \<le> i \<and> i < b \<longrightarrow> el' ! (dst + i) = ?el ! (src + i)"
    "\<forall>j. \<not> (dst + Suc a \<le> j \<and> j < dst + b) \<and> \<not> (src + Suc a \<le> j \<and> j < src + b) \<longrightarrow> el' ! j = ?el ! j"
    using Suc.hyps(1) [of "Suc a" ?el] Suc.hyps(2) Suc.prems a by fastforce
  have "el' ! (dst + i) = el ! (src + i)" if "a \<le> i" "i < b" for i
    using that el'(3,4) Suc.prems by (cases "i = a") (auto simp: nth_list_update)
  moreover have "el' ! j = el ! j"
    if "\<not> (dst + a \<le> j \<and> j < dst + b)" "\<not> (src + a \<le> j \<and> j < src + b)" for j
    using that el'(4) a by (auto simp: nth_list_update)
  ultimately show ?case using step el'(1,2) by (auto intro!: exI [of _ el'])
qed

lemma make_dummies_correct:
  assumes "dst + b \<le> length el"
  shows "\<exists>el'. make_dummies (irange a b) dst el = Some el' \<and> length el' = length el \<and>
    (\<forall>j. \<not> (dst + a \<le> j \<and> j < dst + b) \<longrightarrow> el' ! j = el ! j)"
  using assms
proof (induction "b - a" arbitrary: a el)
  case (Suc k)
  let ?el = "el[dst + a := (el ! (dst + a))\<lparr> de_target := SPECIAL_NODEID \<rparr>]"
  have "make_dummies (irange a b) dst el = make_dummies (irange (Suc a) b) dst ?el"
    using Suc by (simp add: irange_Cons makeDummy_def vec_simps)
  moreover obtain el' where "make_dummies (irange (Suc a) b) dst ?el = Some el'" "length el' = length ?el"
    "\<forall>j. \<not> (dst + Suc a \<le> j \<and> j < dst + b) \<longrightarrow> el' ! j = ?el ! j"
    using Suc.hyps(1) [of "Suc a" ?el] Suc.hyps(2) Suc.prems by fastforce
  ultimately show ?case using Suc.hyps(2) by auto
qed simp

text \<open>
  \<open>make_room\<close> yields a node with the same edges and a slot behind them, and touches no slot of
  another node, that is no slot outside the range that is not a dummy.
\<close>

definition roomy :: "DG_Node \<Rightarrow> 'd DG_Edge list \<Rightarrow> DG_Node \<Rightarrow> 'd DG_Edge list \<Rightarrow> bool" where
  "roomy node el node' el' \<longleftrightarrow>
     edges node' = edges node \<and> length el \<le> length el' \<and> firstEdge node' + edges node < length el' \<and>
     mset (seg el' (firstEdge node') (firstEdge node' + edges node)) =
       mset (seg el (firstEdge node) (firstEdge node + edges node)) \<and>
     (\<forall>i < length el. \<not> (firstEdge node \<le> i \<and> i < firstEdge node + edges node) \<longrightarrow>
        de_target (el ! i) \<noteq> SPECIAL_NODEID \<longrightarrow>
        el' ! i = el ! i \<and> \<not> (firstEdge node' \<le> i \<and> i \<le> firstEdge node' + edges node))"

lemma relocate_edges_correct:
  assumes "firstEdge node + edges node \<le> length el"
  shows "\<exists>node' el'. relocate_edges fresh node el = Some (node', el') \<and> roomy node el node' el'"
proof -
  let ?n = "length el" and ?k = "edges node" and ?s = "edges node * 11 div 10 + 2"
  let ?el = "el @ map fresh [?n..<?n + ?s]"
  have "?k \<le> ?s" by presburger
  then have len: "?n + ?k \<le> length ?el" by (simp del: upt_Suc)
  obtain el1 where el1: "move_edges (irange 0 ?k) ?n (firstEdge node) ?el = Some el1" "length el1 = length ?el"
    "\<forall>i. 0 \<le> i \<and> i < ?k \<longrightarrow> el1 ! (?n + i) = ?el ! (firstEdge node + i)"
    "\<forall>j. \<not> (?n + 0 \<le> j \<and> j < ?n + ?k) \<and> \<not> (firstEdge node + 0 \<le> j \<and> j < firstEdge node + ?k) \<longrightarrow> el1 ! j = ?el ! j"
    using move_edges_correct [OF assms len le0] by blast
  obtain el2 where el2: "make_dummies (irange (?k + 1) ?s) ?n el1 = Some el2" "length el2 = length el1"
    "\<forall>j. \<not> (?n + (?k + 1) \<le> j \<and> j < ?n + ?s) \<longrightarrow> el2 ! j = el1 ! j"
    using make_dummies_correct [of ?n ?s el1 "?k + 1"] el1(2) by auto
  have "seg el2 ?n (?n + ?k) = seg el (firstEdge node) (firstEdge node + ?k)"
    using el1(3) el2(3) assms by (intro nth_equalityI) (auto simp: nth_append)
  then have "roomy node el (node\<lparr> firstEdge := ?n \<rparr>) el2"
    using el1(2,4) el2(2,3) by (auto simp: roomy_def nth_append)
  then show ?thesis using el1(1) el2(1) by (simp add: relocate_edges_def)
qed

lemma make_room_correct:
  assumes "firstEdge node + edges node \<le> length el"
  shows "\<exists>node' el'. make_room fresh node el = Some (node', el') \<and> roomy node el node' el'"
proof -
  let ?f = "firstEdge node" and ?k = "edges node"
  consider (free) "?f + ?k < length el" "de_target (el ! (?f + ?k)) = SPECIAL_NODEID"
    | (front) "\<not> (?f + ?k < length el \<and> de_target (el ! (?f + ?k)) = SPECIAL_NODEID)" "?f \<noteq> 0"
      "de_target (el ! (?f - 1)) = SPECIAL_NODEID"
    | (full) "\<not> (?f + ?k < length el \<and> de_target (el ! (?f + ?k)) = SPECIAL_NODEID)"
      "?f = 0 \<or> de_target (el ! (?f - 1)) \<noteq> SPECIAL_NODEID"
    by argo
  then show ?thesis
  proof cases
    case free
    then have "roomy node el node el" by (auto simp: roomy_def le_less)
    then show ?thesis using free by (simp add: make_room_def isDummy_def vec_simps add.commute)
  next
    case front
    let ?el = "el[?f - 1 := el ! (?f - 1 + ?k)]"
    have "mset (seg ?el (?f - 1) (?f - 1 + ?k)) = mset (seg el ?f (?f + ?k))"
    proof (cases ?k)
      case (Suc k)
      then have "seg ?el (?f - 1) (?f - 1 + ?k) = el ! (?f - 1 + ?k) # seg el ?f (?f - 1 + ?k)"
        using front(2) assms by (subst seg_Cons) auto
      moreover have "seg el ?f (?f + ?k) = seg el ?f (?f - 1 + ?k) @ [el ! (?f - 1 + ?k)]"
        using Suc front(2) by (metis Suc_diff_1 add_Suc_right add_Suc le_add1 neq0_conv seg_Suc)
      ultimately show ?thesis by simp
    qed simp
    then have "roomy node el (node\<lparr> firstEdge := ?f - 1 \<rparr>) ?el"
      using front(2,3) assms by (auto simp: roomy_def nth_list_update)
    moreover have "make_room fresh node el = Some (node\<lparr> firstEdge := ?f - 1 \<rparr>, ?el)"
      using front assms by (auto simp: make_room_def isDummy_def edge_assign_def vec_simps add.commute Let_def)
    ultimately show ?thesis by blast
  next
    case full
    then have "make_room fresh node el = relocate_edges fresh node el"
      using assms by (auto simp: make_room_def isDummy_def vec_simps add.commute Let_def)
    then show ?thesis using relocate_edges_correct [OF assms] by metis
  qed
qed

lemma InsertEdge_correct:
  assumes inv: "dg_inv g" and n: "from < length (node_list g)" and t: "to \<noteq> SPECIAL_NODEID"
  shows "\<exists>e g'. dg_InsertEdge fresh g from to d = Some (e, g') \<and> dg_inv g' \<and>
    adj g' from = add_mset \<lparr> de_target = to, de_data = d \<rparr> (adj g from) \<and>
    (\<forall>m < length (node_list g). m \<noteq> from \<longrightarrow> out g' m = out g m) \<and>
    length (node_list g') = length (node_list g) \<and> number_of_nodes g' = number_of_nodes g \<and>
    number_of_edges g' = number_of_edges g + 1"
proof -
  let ?node = "node_list g ! from" and ?e = "\<lparr> de_target = to, de_data = d \<rparr>"
  obtain node el where r: "make_room fresh ?node (edge_list g) = Some (node, el)" "roomy ?node (edge_list g) node el"
    using make_room_correct [OF dg_inv_range [OF inv n]] by blast
  let ?el = "el[firstEdge node + edges node := ?e]" and ?node' = "node\<lparr> edges := edges node + 1 \<rparr>"
  let ?g = "g\<lparr> edge_list := ?el, number_of_edges := number_of_edges g + 1,
              node_list := (node_list g)[from := ?node'] \<rparr>"
  have run: "dg_InsertEdge fresh g from to d = Some (firstEdge node + edges node + 1, ?g)"
    using n r by (simp add: dg_InsertEdge_def vec_simps roomy_def)
  have segs: "seg ?el (firstEdge node) (firstEdge node + edges node + 1) =
      seg el (firstEdge node) (firstEdge node + edges node) @ [?e]"
    using r(2) by (simp add: seg_Suc roomy_def)
  have own_old: "de_target x \<noteq> SPECIAL_NODEID" if "x \<in># mset (seg (edge_list g) (firstEdge ?node) (firstEdge ?node + edges ?node))" for x
    using that inv n by (auto simp: set_seg dg_inv_def owns_def)
  have own: "i < length ?el \<and> de_target (?el ! i) \<noteq> SPECIAL_NODEID"
    if "firstEdge ?node' \<le> i" "i < firstEdge ?node' + edges ?node'" for i
  proof -
    have "?el ! i \<in> set (seg ?el (firstEdge node) (firstEdge node + edges node + 1))"
      using that by (auto simp: set_seg)
    then have "?el ! i = ?e \<or> ?el ! i \<in># mset (seg el (firstEdge node) (firstEdge node + edges node))"
      unfolding segs by auto
    then have "de_target (?el ! i) \<noteq> SPECIAL_NODEID"
      using own_old t r(2) unfolding roomy_def by (metis DG_Edge.select_convs(1))
    then show ?thesis using that r(2) by (auto simp: roomy_def)
  qed
  have foreign: "?el ! i = edge_list g ! i \<and> \<not> (firstEdge ?node' \<le> i \<and> i < firstEdge ?node' + edges ?node')"
    if "i < length (edge_list g)" "\<not> owns (node_list g) from i" "de_target (edge_list g ! i) \<noteq> SPECIAL_NODEID" for i
    using that r(2) n unfolding roomy_def owns_def by (auto simp: nth_list_update)
  have ch: "dg_inv ?g" "\<And>m. m < length (node_list g) \<Longrightarrow> m \<noteq> from \<Longrightarrow> out ?g m = out g m"
    using change_node [OF inv n, of ?g ?node' ?el] foreign own r(2) by (simp_all add: roomy_def)
  have "adj ?g from = add_mset ?e (adj g from)"
    using segs r(2) n by (simp add: adj_def out_def roomy_def)
  then show ?thesis using run ch by auto
qed

section \<open>Deletion\<close>

lemma DeleteEdge_correct:
  assumes inv: "dg_inv g" and e: "owns (node_list g) source e" and size: "length (edge_list g) < 2 ^ 32"
  shows "\<exists>g'. dg_DeleteEdge g source e = Some g' \<and> dg_inv g' \<and>
    adj g' source = adj g source - {#edge_list g ! e#} \<and>
    (\<forall>m < length (node_list g). m \<noteq> source \<longrightarrow> out g' m = out g m) \<and>
    length (node_list g') = length (node_list g) \<and> number_of_nodes g' = number_of_nodes g \<and>
    number_of_edges g' + 1 = number_of_edges g"
proof -
  let ?node = "node_list g ! source" and ?el = "edge_list g"
  let ?l = "firstEdge ?node + (edges ?node - 1)"
  have n: "source < length (node_list g)" and e': "firstEdge ?node \<le> e" "e < firstEdge ?node + edges ?node"
    using e by (auto simp: owns_def)
  note range = dg_inv_range [OF inv n]
  have l: "e \<le> ?l" "?l < length ?el" "e < length ?el" using e' range by auto
  let ?el1 = "?el[e := ?el ! ?l]"
  let ?el2 = "?el1[?l := (?el1 ! ?l)\<lparr> de_target := SPECIAL_NODEID \<rparr>]"
  let ?node' = "?node\<lparr> edges := edges ?node - 1 \<rparr>"
  let ?g = "g\<lparr> number_of_edges := number_of_edges g - 1, edge_list := ?el2, node_list := (node_list g)[source := ?node'] \<rparr>"
  have pos: "1 \<le> edges ?node" "edges ?node \<le> number_of_edges g"
    using e' inv n elem_le_sum_list [of source "map edges (node_list g)"] by (auto simp: dg_inv_def)
  have run: "dg_DeleteEdge g source e = Some ?g"
    using n l size pos by (simp add: dg_DeleteEdge_def edge_assign_def makeDummy_def vec_simps Let_def)
  have seg2: "seg ?el2 (firstEdge ?node) ?l = seg ?el1 (firstEdge ?node) ?l" by simp
  have live: "de_target (?el ! i) \<noteq> SPECIAL_NODEID" if "firstEdge ?node \<le> i" "i < firstEdge ?node + edges ?node" for i
    using that inv n by (auto simp: dg_inv_def owns_def)
  have own: "i < length ?el2 \<and> de_target (?el2 ! i) \<noteq> SPECIAL_NODEID"
    if "firstEdge ?node' \<le> i" "i < firstEdge ?node' + edges ?node'" for i
    using that range l pos live [of i] live [of ?l] by (auto simp: nth_list_update)
  have foreign: "?el2 ! i = ?el ! i \<and> \<not> (firstEdge ?node' \<le> i \<and> i < firstEdge ?node' + edges ?node')"
    if "\<not> owns (node_list g) source i" for i
    using that n e' by (auto simp: owns_def nth_list_update)
  have ch: "dg_inv ?g" "\<And>m. m < length (node_list g) \<Longrightarrow> m \<noteq> source \<Longrightarrow> out ?g m = out g m"
    using change_node [OF inv n, of ?g ?node' ?el2] foreign own pos range by simp_all
  have full: "seg ?el (firstEdge ?node) (firstEdge ?node + edges ?node) = seg ?el (firstEdge ?node) ?l @ [?el ! ?l]"
    using pos seg_Suc [of "firstEdge ?node" ?l ?el] by (simp del: One_nat_def add: Suc_diff_le)
  have "mset (seg ?el1 (firstEdge ?node) ?l) = add_mset (?el ! ?l) (mset (seg ?el (firstEdge ?node) ?l)) - {#?el ! e#}"
  proof (cases "e = ?l")
    case False
    then have "?el ! e \<in># mset (seg ?el (firstEdge ?node) ?l)" using e' l by (auto simp: set_seg)
    then show ?thesis using mset_seg_replace [of "firstEdge ?node" e ?l ?el "?el ! ?l"] e' l False
      by (simp add: add_mset_remove_trivial_If)
  qed simp
  then have "adj ?g source = adj g source - {#?el ! e#}"
    using n by (simp add: adj_def out_def full seg2)
  then show ?thesis using run ch pos by auto
qed

text \<open>The inner loop of \<open>DeleteEdgesTo\<close>, then the outer one, on the live part of the range.\<close>

lemma delete_at_correct:
  assumes "i < iend - deleted" "iend \<le> length el" "de_target (el ! i) = t"
  shows "\<exists>k el'. delete_at t i iend deleted el = Some (k, el') \<and> length el' = length el \<and>
    deleted < k \<and> i + k \<le> iend \<and>
    (\<forall>j. \<not> (i \<le> j \<and> j < iend - deleted) \<longrightarrow> el' ! j = el ! j) \<and>
    (i < iend - k \<longrightarrow> de_target (el' ! i) \<noteq> t) \<and>
    filter_mset (\<lambda>e. de_target e \<noteq> t) (mset (seg el' i (iend - k))) =
      filter_mset (\<lambda>e. de_target e \<noteq> t) (mset (seg el i (iend - deleted)))"
  using assms
proof (induction t i iend deleted el rule: delete_at.induct)
  case (1 t i iend deleted el)
  let ?l = "iend - (deleted + 1)"
  let ?el1 = "el[i := el ! ?l]"
  let ?el2 = "?el1[?l := (el ! ?l)\<lparr> de_target := SPECIAL_NODEID \<rparr>]"
  let ?f = "filter_mset (\<lambda>e. de_target e \<noteq> t)"
  have l: "i \<le> ?l" "?l < length el" "i < length el" "iend - deleted = Suc ?l" using "1.prems" by auto
  have step: "edge_assign el i ?l = Some ?el1" "makeDummy ?el1 ?l = Some ?el2" "vec_at ?el2 i = Some (?el2 ! i)"
    using l by (simp_all add: edge_assign_def makeDummy_def vec_simps nth_list_update)
  have segs: "?f (mset (seg ?el2 i ?l)) = ?f (mset (seg el i (iend - deleted)))"
  proof (cases "i < ?l")
    case True
    have "?f (mset (seg ?el1 i ?l)) = ?f (add_mset (el ! ?l) (mset (seg el (Suc i) ?l)))"
      using True l by (subst seg_Cons) auto
    also have "\<dots> = ?f (mset (seg el i (Suc ?l)))"
      using True l "1.prems"(3) by (simp add: seg_Suc seg_Cons [of i "iend - Suc deleted"])
    finally show ?thesis using l by simp
  next
    case False
    then have "?l = i" using l by simp
    then show ?thesis using l "1.prems"(3) by (simp add: seg_Suc)
  qed
  show ?case
  proof (cases "i < ?l \<and> de_target (?el2 ! i) = t")
    case True
    then have run: "delete_at t i iend deleted el = delete_at t i iend (deleted + 1) ?el2"
      by (subst delete_at.simps) (simp only: step Let_def Option.bind.simps simp_thms if_True if_False)
    have len: "iend \<le> length ?el2" using "1.prems" by simp
    obtain k el' where r: "delete_at t i iend (deleted + 1) ?el2 = Some (k, el')" "length el' = length ?el2"
      "deleted + 1 < k" "i + k \<le> iend" "\<forall>j. \<not> (i \<le> j \<and> j < ?l) \<longrightarrow> el' ! j = ?el2 ! j"
      "i < iend - k \<longrightarrow> de_target (el' ! i) \<noteq> t" "?f (mset (seg el' i (iend - k))) = ?f (mset (seg ?el2 i ?l))"
      using "1.IH" [OF refl step True conjunct1 [OF True] len conjunct2 [OF True]] by blast
    then have "el' ! j = el ! j" if "\<not> (i \<le> j \<and> j < iend - deleted)" for j
      using that l by (auto simp: nth_list_update)
    moreover have "length el' = length el" using r(2) by simp
    moreover have "deleted < k" using r(3) by simp
    ultimately show ?thesis using r(1,4,6,7) run segs by metis
  next
    case False
    then have run: "delete_at t i iend deleted el = Some (deleted + 1, ?el2)"
      by (subst delete_at.simps) (simp only: step Let_def Option.bind.simps simp_thms if_True if_False)
    have "?el2 ! j = el ! j" if "\<not> (i \<le> j \<and> j < iend - deleted)" for j
      using that l by (auto simp: nth_list_update)
    moreover have "length ?el2 = length el" "deleted < deleted + 1" by simp_all
    moreover have "i < ?l \<longrightarrow> de_target (?el2 ! i) \<noteq> t" using False by blast
    moreover have "i + (deleted + 1) \<le> iend" using "1.prems"(1) by simp
    ultimately show ?thesis using run segs by blast
  qed
qed

lemma delete_to_correct:
  assumes "a \<le> i" "i + deleted \<le> iend" "iend \<le> length el" "\<forall>j. a \<le> j \<and> j < i \<longrightarrow> de_target (el ! j) \<noteq> t"
  shows "\<exists>k el'. delete_to t i iend deleted el = Some (k, el') \<and> length el' = length el \<and>
    deleted \<le> k \<and> a + k \<le> iend \<and>
    (\<forall>j. \<not> (a \<le> j \<and> j < iend - deleted) \<longrightarrow> el' ! j = el ! j) \<and>
    (\<forall>j. a \<le> j \<and> j < iend - k \<longrightarrow> de_target (el' ! j) \<noteq> t) \<and>
    mset (seg el' a (iend - k)) =
      filter_mset (\<lambda>e. de_target e \<noteq> t) (mset (seg el a (iend - deleted)))"
  using assms
proof (induction t i iend deleted el rule: delete_to.induct)
  case (1 t i iend deleted el)
  let ?f = "filter_mset (\<lambda>e. de_target e \<noteq> t)"
  consider (finished) "iend - deleted \<le> i" | (keep) "i < iend - deleted" "de_target (el ! i) \<noteq> t"
    | (del) "i < iend - deleted" "de_target (el ! i) = t" by force
  then show ?case
  proof cases
    case finished
    then have "i = iend - deleted" using "1.prems" by simp
    then have "\<forall>e \<in> set (seg el a (iend - deleted)). de_target e \<noteq> t" using "1.prems" by (auto simp: set_seg)
    then have "?f (mset (seg el a (iend - deleted))) = mset (seg el a (iend - deleted))"
      by (simp add: filter_mset_eq_conv)
    then show ?thesis using finished "1.prems" \<open>i = _\<close> by (subst delete_to.simps) auto
  next
    case keep
    then have x: "vec_at el i = Some (el ! i)" using "1.prems" by (simp add: vec_simps)
    then have "delete_to t i iend deleted el = delete_to t (i + 1) iend deleted el"
      using keep by (subst delete_to.simps) simp
    moreover have "Suc (i + deleted) \<le> iend" "\<forall>j. a \<le> j \<and> (j < i \<or> j = i) \<longrightarrow> de_target (el ! j) \<noteq> t"
      using keep "1.prems"(4) by auto
    ultimately show ?thesis
      using "1.IH" [OF keep(1) x, of "(deleted, el)"] keep "1.prems" by (simp add: less_Suc_eq)
  next
    case del
    then have x: "vec_at el i = Some (el ! i)" using "1.prems" by (simp add: vec_simps)
    obtain k el1 where r: "delete_at t i iend deleted el = Some (k, el1)" "length el1 = length el"
      "deleted < k" "i + k \<le> iend" "\<forall>j. \<not> (i \<le> j \<and> j < iend - deleted) \<longrightarrow> el1 ! j = el ! j"
      "i < iend - k \<longrightarrow> de_target (el1 ! i) \<noteq> t"
      "?f (mset (seg el1 i (iend - k))) = ?f (mset (seg el i (iend - deleted)))"
      using delete_at_correct [OF del(1) "1.prems"(3) del(2)] by blast
    have run: "delete_to t i iend deleted el = delete_to t (i + 1) iend k el1"
      using del r x by (subst delete_to.simps) simp
    have "seg el1 a i = seg el a i" using r(5) by (auto intro: seg_cong)
    then have segs: "?f (mset (seg el1 a (iend - k))) = ?f (mset (seg el a (iend - deleted)))"
      using seg_join [of a i "iend - k" el1, symmetric] seg_join [of a i "iend - deleted" el, symmetric]
        "1.prems" r(4,7) by simp
    show ?thesis
    proof (cases "i < iend - k")
      case True
      have "\<forall>j. a \<le> j \<and> j < i + 1 \<longrightarrow> de_target (el1 ! j) \<noteq> t"
        using True "1.prems"(4) r(5,6) by (auto simp: less_Suc_eq)
      then show ?thesis using "1.IH" [OF del(1) x, of "(k, el1)" k el1] del r(1-5) run "1.prems"(1-3) True
        unfolding segs [symmetric] by (fastforce simp: le_less_trans)
    next
      case False
      have "i = iend - k" using False r(4) by simp
      then have "\<forall>e \<in> set (seg el1 a (iend - k)). de_target e \<noteq> t"
        using "1.prems"(4) r(5) by (auto simp: set_seg)
      then have "?f (mset (seg el1 a (iend - k))) = mset (seg el1 a (iend - k))"
        by (simp add: filter_mset_eq_conv)
      then have "mset (seg el1 a (iend - k)) = ?f (mset (seg el a (iend - deleted)))"
        using segs by simp
      moreover have "delete_to t (i + 1) iend k el1 = Some (k, el1)"
        using False by (subst delete_to.simps) simp
      ultimately show ?thesis using run r "1.prems" \<open>i = iend - k\<close> by auto
    qed
  qed
qed

lemma DeleteEdgesTo_correct:
  assumes inv: "dg_inv g" and n: "source < length (node_list g)"
  shows "\<exists>k g'. dg_DeleteEdgesTo g source t = Some (k, g') \<and> dg_inv g' \<and>
    adj g' source = filter_mset (\<lambda>e. de_target e \<noteq> t) (adj g source) \<and>
    (\<forall>m < length (node_list g). m \<noteq> source \<longrightarrow> out g' m = out g m) \<and>
    length (node_list g') = length (node_list g) \<and> number_of_nodes g' = number_of_nodes g \<and>
    k = size (filter_mset (\<lambda>e. de_target e = t) (adj g source)) \<and> number_of_edges g' + k = number_of_edges g"
proof -
  let ?node = "node_list g ! source" and ?el = "edge_list g"
  let ?a = "firstEdge ?node" and ?b = "firstEdge ?node + edges ?node"
  have range: "?b \<le> length ?el" by (rule dg_inv_range [OF inv n])
  obtain k el where r: "delete_to t ?a ?b 0 ?el = Some (k, el)" "length el = length ?el" "?a + k \<le> ?b"
    "\<forall>j. \<not> (?a \<le> j \<and> j < ?b) \<longrightarrow> el ! j = ?el ! j"
    "mset (seg el ?a (?b - k)) = filter_mset (\<lambda>e. de_target e \<noteq> t) (mset (seg ?el ?a ?b))"
    using delete_to_correct [of ?a ?a 0 ?b ?el t, OF order_refl _ range] unfolding diff_zero by fastforce
  let ?node' = "?node\<lparr> edges := edges ?node - k \<rparr>"
  let ?g = "g\<lparr> edge_list := el, number_of_edges := number_of_edges g - k, node_list := (node_list g)[source := ?node'] \<rparr>"
  have "size (mset (seg el ?a (?b - k))) + size (filter_mset (\<lambda>e. \<not> de_target e \<noteq> t) (mset (seg ?el ?a ?b))) =
      size (mset (seg ?el ?a ?b))"
    unfolding r(5) size_union [symmetric] multiset_partition [symmetric] ..
  then have k: "k = size (filter_mset (\<lambda>e. de_target e = t) (mset (seg ?el ?a ?b)))" "k \<le> edges ?node"
    using r(3) by auto
  have nb: "edges ?node \<le> number_of_edges g"
    using inv n elem_le_sum_list [of source "map edges (node_list g)"] by (auto simp: dg_inv_def)
  have run: "dg_DeleteEdgesTo g source t = Some (k, ?g)"
    using n r(1) by (simp add: dg_DeleteEdgesTo_def dg_BeginEdges_def dg_EndEdges_def vec_simps)
  have live: "de_target x \<noteq> SPECIAL_NODEID" if "x \<in># mset (seg ?el ?a ?b)" for x
    using that inv n by (auto simp: set_seg dg_inv_def owns_def)
  have own: "i < length el \<and> de_target (el ! i) \<noteq> SPECIAL_NODEID"
    if "firstEdge ?node' \<le> i" "i < firstEdge ?node' + edges ?node'" for i
  proof -
    have "el ! i \<in># mset (seg el ?a (?b - k))" using that by (auto simp: set_seg)
    then show ?thesis using live that range r(2,5) by auto
  qed
  have foreign: "el ! i = ?el ! i \<and> \<not> (firstEdge ?node' \<le> i \<and> i < firstEdge ?node' + edges ?node')"
    if "\<not> owns (node_list g) source i" for i
    using that n r(4) by (auto simp: owns_def)
  have ch: "dg_inv ?g" "\<And>m. m < length (node_list g) \<Longrightarrow> m \<noteq> source \<Longrightarrow> out ?g m = out g m"
    using change_node [OF inv n, of ?g ?node' el] foreign own k(2) nb range r(2) by simp_all
  have "adj ?g source = filter_mset (\<lambda>e. de_target e \<noteq> t) (adj g source)"
    using n r(5) k(2) by (simp add: adj_def out_def)
  moreover have "k = size (filter_mset (\<lambda>e. de_target e = t) (adj g source))"
    using k(1) by (simp add: adj_def out_def)
  ultimately show ?thesis using run ch k(2) nb by auto
qed

section \<open>Look-up\<close>

lemma find_target_correct:
  assumes "b \<le> length el"
  shows "\<exists>r. find_target el t (irange a b) = Some r \<and>
    (case r of None \<Rightarrow> \<forall>j. a \<le> j \<and> j < b \<longrightarrow> de_target (el ! j) \<noteq> t
     | Some i \<Rightarrow> a \<le> i \<and> i < b \<and> de_target (el ! i) = t \<and> (\<forall>j. a \<le> j \<and> j < i \<longrightarrow> de_target (el ! j) \<noteq> t))"
proof (induction "b - a" arbitrary: a)
  case (Suc k)
  then have "a < b" by simp
  show ?case
  proof (cases "de_target (el ! a) = t")
    case True
    then show ?thesis using \<open>a < b\<close> assms by (auto simp: irange_Cons vec_simps)
  next
    case False
    then have "find_target el t (irange a b) = find_target el t (irange (Suc a) b)"
      using \<open>a < b\<close> assms by (simp add: irange_Cons vec_simps)
    moreover obtain r where "find_target el t (irange (Suc a) b) = Some r"
      "case r of None \<Rightarrow> \<forall>j. Suc a \<le> j \<and> j < b \<longrightarrow> de_target (el ! j) \<noteq> t
       | Some i \<Rightarrow> Suc a \<le> i \<and> i < b \<and> de_target (el ! i) = t \<and> (\<forall>j. Suc a \<le> j \<and> j < i \<longrightarrow> de_target (el ! j) \<noteq> t)"
      using Suc.hyps(1) [of "Suc a"] Suc.hyps(2) by fastforce
    ultimately show ?thesis using False
      by (intro exI [of _ r]) (auto split: option.splits; metis Suc_leI le_neq_implies_less)
  qed
qed auto

lemma FindEdge_correct:
  assumes inv: "dg_inv g" and n: "from < length (node_list g)"
  shows "\<exists>e. dg_FindEdge g from to = Some e \<and>
    (if \<exists>x \<in># adj g from. de_target x = to
     then owns (node_list g) from e \<and> de_target (edge_list g ! e) = to
     else dg_EndEdges g from = Some e)"
proof -
  let ?a = "firstEdge (node_list g ! from)" and ?b = "firstEdge (node_list g ! from) + edges (node_list g ! from)"
  obtain r where r: "find_target (edge_list g) to (irange ?a ?b) = Some r"
    "case r of None \<Rightarrow> \<forall>j. ?a \<le> j \<and> j < ?b \<longrightarrow> de_target (edge_list g ! j) \<noteq> to
     | Some i \<Rightarrow> ?a \<le> i \<and> i < ?b \<and> de_target (edge_list g ! i) = to \<and>
         (\<forall>j. ?a \<le> j \<and> j < i \<longrightarrow> de_target (edge_list g ! j) \<noteq> to)"
    using find_target_correct [OF dg_inv_range [OF inv n]] by blast
  have be: "dg_BeginEdges g from = Some ?a" "dg_EndEdges g from = Some ?b"
    using n by (simp_all add: dg_BeginEdges_def dg_EndEdges_def vec_simps)
  show ?thesis
    using r be n by (auto simp: dg_FindEdge_def adj_def out_def set_seg owns_def split: option.splits)
qed

lemma GetAdjacentEdgeRange_correct:
  assumes "dg_inv g" "n < length (node_list g)"
  shows "\<exists>r. dg_GetAdjacentEdgeRange g n = Some r \<and> distinct r \<and> set r = {e. owns (node_list g) n e} \<and>
    map (\<lambda>e. edge_list g ! e) r = out g n"
  using assms by (auto simp: dg_GetAdjacentEdgeRange_def dg_BeginEdges_def dg_EndEdges_def vec_simps
      irange_def owns_def out_def seg_def)

lemma count_forward_correct:
  "\<forall>e \<in> set r. e < length (edge_list g) \<Longrightarrow>
   count_forward fwd g r k = Some (k + length (filter (\<lambda>e. fwd (de_data (edge_list g ! e))) r))"
  by (induction r arbitrary: k) (auto simp: dg_GetEdgeData_def vec_simps)

lemma GetDirectedOutDegree_correct:
  assumes "dg_inv g" "n < length (node_list g)"
  shows "dg_GetDirectedOutDegree fwd g n = Some (size (filter_mset (\<lambda>e. fwd (de_data e)) (adj g n)))"
proof -
  obtain r where r: "dg_GetAdjacentEdgeRange g n = Some r" "set r = {e. owns (node_list g) n e}"
    "map (\<lambda>e. edge_list g ! e) r = out g n"
    using GetAdjacentEdgeRange_correct [OF assms] by blast
  have "\<forall>e \<in> set r. e < length (edge_list g)" using r(2) assms(1) by (auto simp: dg_inv_def)
  then show ?thesis
    unfolding dg_GetDirectedOutDegree_def adj_def r(3) [symmetric] mset_filter [symmetric] size_mset
      filter_map length_map by (simp add: r(1) count_forward_correct o_def)
qed

section \<open>Construction\<close>

lemma skip_source_pos:
  assumes "sorted (map ie_source graph)" "key_pos ie_source graph n \<le> i" "i \<le> key_pos ie_source graph (Suc n)"
  shows "skip_source graph n i = key_pos ie_source graph (Suc n)"
  using assms
proof (induction graph n i rule: skip_source.induct)
  case (1 graph n i)
  show ?case
  proof (cases "i < length graph \<and> ie_source (graph ! i) = n")
    case True
    then show ?thesis using 1 key_pos_iff [OF "1.prems"(1), of i "Suc n"]
      by (subst skip_source.simps) auto
  next
    case False
    then have "i = key_pos ie_source graph (Suc n)"
      using "1.prems" key_pos_iff [OF "1.prems"(1), of i n] key_pos_iff [OF "1.prems"(1), of i "Suc n"]
        key_pos_le [of ie_source graph "Suc n"] by (metis less_antisym linorder_not_less le_less_trans order_le_less)
    then show ?thesis using False by (subst skip_source.simps) auto
  qed
qed

lemma place_nodes_pos:
  assumes "sorted (map ie_source graph)"
  shows "place_nodes graph (irange a b) (key_pos ie_source graph a) (key_pos ie_source graph a) =
    (map (\<lambda>n. \<lparr> firstEdge = key_pos ie_source graph n,
       edges = key_pos ie_source graph (Suc n) - key_pos ie_source graph n \<rparr>) (irange a b),
     key_pos ie_source graph (max a b))"
proof (induction "b - a" arbitrary: a)
  case (Suc k)
  then have "a < b" by simp
  then show ?case
    using Suc.hyps(1) [of "Suc a"] Suc.hyps(2) skip_source_pos [OF assms order_refl key_pos_mono, of a] key_pos_mono [of a "Suc a" ie_source graph]
    by (simp add: irange_Cons Let_def)
qed (simp add: max_def)

definition edge_of :: "'d InputEdge \<Rightarrow> 'd DG_Edge" where
  "edge_of ie = \<lparr> de_target = ie_target ie, de_data = ie_data ie \<rparr>"

lemma copy_edges_correct:
  assumes "a \<le> b" "b \<le> length graph" "b \<le> length el"
  shows "\<exists>el'. copy_edges graph (irange a b) a el = Some (el', b) \<and> length el' = length el \<and>
    (\<forall>i. el' ! i = (if a \<le> i \<and> i < b then edge_of (graph ! i) else el ! i))"
  using assms
proof (induction "b - a" arbitrary: a el)
  case (Suc k)
  let ?el = "el[a := edge_of (graph ! a)]"
  have a: "a < b" using Suc.hyps(2) by simp
  then have "copy_edges graph (irange a b) a el = copy_edges graph (irange (Suc a) b) (Suc a) ?el"
    using Suc.prems by (simp add: irange_Cons vec_simps edge_of_def)
  moreover obtain el' where "copy_edges graph (irange (Suc a) b) (Suc a) ?el = Some (el', b)" "length el' = length ?el"
    "\<forall>i. el' ! i = (if Suc a \<le> i \<and> i < b then edge_of (graph ! i) else ?el ! i)"
    using Suc.hyps(1) [of "Suc a" ?el] Suc.hyps(2) Suc.prems a by fastforce
  moreover have "(if Suc a \<le> i \<and> i < b then edge_of (graph ! i) else ?el ! i) =
      (if a \<le> i \<and> i < b then edge_of (graph ! i) else el ! i)" for i
    using a Suc.prems by (auto simp: nth_list_update)
  ultimately show ?case by simp
qed auto

lemma fill_nodes_correct:
  assumes "\<forall>n. pos n \<le> pos (Suc n)" "pos b \<le> length graph" "pos b \<le> length el" "a \<le> b"
  shows "\<exists>el'. fill_nodes graph (map (\<lambda>n. \<lparr> firstEdge = pos n, edges = pos (Suc n) - pos n \<rparr>) (irange a b)) (pos a) el
      = Some el' \<and> length el' = length el \<and>
    (\<forall>i. el' ! i = (if pos a \<le> i \<and> i < pos b then edge_of (graph ! i) else el ! i))"
  using assms(3,4)
proof (induction "b - a" arbitrary: a el)
  case (Suc k)
  have a: "a < b" using Suc.hyps(2) by simp
  have m: "pos a \<le> pos (Suc a)" "pos (Suc a) \<le> pos b"
    using assms(1) a lift_Suc_mono_le [of pos "Suc a" b] by auto
  obtain el1 where el1: "copy_edges graph (irange (pos a) (pos (Suc a))) (pos a) el = Some (el1, pos (Suc a))"
    "length el1 = length el" "\<forall>i. el1 ! i = (if pos a \<le> i \<and> i < pos (Suc a) then edge_of (graph ! i) else el ! i)"
    using copy_edges_correct [of "pos a" "pos (Suc a)" graph el] m assms(2) Suc.prems by auto
  obtain el' where el': "fill_nodes graph (map (\<lambda>n. \<lparr> firstEdge = pos n, edges = pos (Suc n) - pos n \<rparr>) (irange (Suc a) b)) (pos (Suc a)) el1
      = Some el'" "length el' = length el1" "\<forall>i. el' ! i = (if pos (Suc a) \<le> i \<and> i < pos b then edge_of (graph ! i) else el1 ! i)"
    using Suc.hyps(1) [of "Suc a" el1] Suc.hyps(2) Suc.prems a el1(2) by fastforce
  show ?case using el1 el' a m by (auto simp: irange_Cons)
qed auto

lemma DynamicGraph_of_correct:
  assumes sorted: "sorted (map ie_source graph)"
    and valid: "\<forall>ie \<in> set graph. ie_source ie < nodes \<and> ie_target ie \<noteq> SPECIAL_NODEID"
  shows "\<exists>g. DynamicGraph_of fresh nodes graph = Some g \<and> dg_inv g \<and> number_of_nodes g = nodes \<and>
    length (node_list g) = nodes + 1 \<and> edges (last (node_list g)) = 0 \<and> number_of_edges g = length graph \<and>
    (\<forall>n < nodes. out g n = map edge_of (filter (\<lambda>ie. ie_source ie = n) graph))"
proof -
  let ?p = "key_pos ie_source graph"
  let ?nl = "map (\<lambda>n. \<lparr> firstEdge = ?p n, edges = ?p (Suc n) - ?p n \<rparr>) (irange 0 nodes)"
  have pos: "?p nodes = length graph" using valid by (simp add: key_pos_all)
  obtain el where el: "fill_nodes graph ?nl 0 (map fresh [0..<length graph]) = Some el" "length el = length graph"
    "\<forall>i. el ! i = (if i < length graph then edge_of (graph ! i) else map fresh [0..<length graph] ! i)"
    using fill_nodes_correct [of ?p nodes graph "map fresh [0..<length graph]" 0] by (auto simp: pos key_pos_mono)
  let ?g = "\<lparr> number_of_nodes = nodes, number_of_edges = length graph,
    node_list = ?nl @ [\<lparr> firstEdge = length graph, edges = 0 \<rparr>], edge_list = el \<rparr>"
  have run: "DynamicGraph_of fresh nodes graph = Some ?g"
    using el(1) place_nodes_pos [OF sorted, of 0 nodes] by (simp add: DynamicGraph_of_def pos)
  have own: "owns (node_list ?g) n i \<longleftrightarrow> n < nodes \<and> ?p n \<le> i \<and> i < ?p (Suc n)" for n i
    using key_pos_mono [of n "Suc n" ie_source graph] by (auto simp: owns_def nth_append irange_def)
  have src: "i < length graph \<and> ie_source (graph ! i) = n" if "owns (node_list ?g) n i" for n i
    using that key_pos_iff [OF sorted, of i n] key_pos_iff [OF sorted, of i "Suc n"]
      less_le_trans [OF _ key_pos_le, of i ie_source graph "Suc n"] unfolding own by auto
  have sum: "sum_list (map edges ?nl) = ?p nodes"
    using key_pos_mono [of _ "Suc _" ie_source graph] by (induction nodes) (auto simp: irange_def)
  have first: "\<forall>n < length (node_list ?g). firstEdge (node_list ?g ! n) \<le> length (edge_list ?g)"
    using el(2) by (auto simp: nth_append irange_def)
  have live: "\<forall>n i. owns (node_list ?g) n i \<longrightarrow> i < length (edge_list ?g) \<and> de_target (edge_list ?g ! i) \<noteq> SPECIAL_NODEID"
    using src el(2,3) valid by (simp add: edge_of_def)
  have "dg_inv ?g"
    unfolding dg_inv_def using first live src sum pos by (intro conjI) (blast | simp)+
  moreover have "out ?g n = map edge_of (filter (\<lambda>ie. ie_source ie = n) graph)" if "n < nodes" for n
  proof -
    have "out ?g n = seg el (?p n) (?p (Suc n))"
      using that key_pos_mono [of n "Suc n" ie_source graph] by (simp add: out_def nth_append irange_def)
    also have "\<dots> = map edge_of (seg graph (?p n) (?p (Suc n)))"
      using el(3) less_le_trans [OF _ key_pos_le [of ie_source graph "Suc n"]] by (auto simp: seg_def)
    finally show ?thesis using filter_key_seg [OF sorted] by simp
  qed
  ultimately show ?thesis using run by (auto simp: irange_def)
qed

lemma DynamicGraph_new_correct:
  "dg_inv (DynamicGraph_new fresh n)" "adj (DynamicGraph_new fresh n) m = {#} \<or> n \<le> m"
  by (auto simp: dg_inv_def DynamicGraph_new_def owns_def adj_def out_def sum_list_replicate)

text \<open>
  \<open>InsertNode\<close> appends a copy of the last entry.  It keeps the invariant when that entry has no
  edges, as the sentinel built by the second constructor.
\<close>

lemma InsertNode_correct:
  assumes "dg_inv g" "node_list g \<noteq> []" "edges (last (node_list g)) = 0"
  shows "\<exists>n g'. dg_InsertNode g = Some (n, g') \<and> n = number_of_nodes g + 1 \<and> dg_inv g' \<and>
    length (node_list g') = length (node_list g) + 1 \<and> adj g' (length (node_list g)) = {#} \<and>
    (\<forall>m < length (node_list g). out g' m = out g m)"
proof -
  let ?g = "g\<lparr> node_list := node_list g @ [last (node_list g)], number_of_nodes := number_of_nodes g + 1 \<rparr>"
  have own: "owns (node_list ?g) n i \<longleftrightarrow> owns (node_list g) n i" for n i
    using assms(3) by (auto simp: owns_def nth_append)
  have "firstEdge (last (node_list g)) \<le> length (edge_list g)"
    using assms(1,2) by (simp add: dg_inv_def last_conv_nth)
  then have "dg_inv ?g" using assms unfolding dg_inv_def own by (auto simp: nth_append)
  then show ?thesis using assms by (auto simp: dg_InsertNode_def adj_def out_def nth_append)
qed

section \<open>The contract of the graph\<close>

text \<open>
  What the clients of the graph (the contractor and the edge-based graph factory) rely on.  The
  operations are partial functions on a graph type; \<open>edges_of\<close> is the abstract value.
\<close>

locale edge_store =
  fixes inv :: "'g \<Rightarrow> bool"
    and nodes_of :: "'g \<Rightarrow> NodeID set"
    and edges_of :: "'g \<Rightarrow> NodeID \<Rightarrow> 'd DG_Edge multiset"
    and insert :: "'g \<Rightarrow> NodeID \<Rightarrow> NodeID \<Rightarrow> 'd \<Rightarrow> 'g option"
    and delete_all_to :: "'g \<Rightarrow> NodeID \<Rightarrow> NodeID \<Rightarrow> 'g option"
  assumes insert_ok: "inv g \<Longrightarrow> u \<in> nodes_of g \<Longrightarrow> v \<noteq> SPECIAL_NODEID \<Longrightarrow>
      \<exists>g'. insert g u v d = Some g' \<and> inv g' \<and> nodes_of g' = nodes_of g \<and>
        (\<forall>n \<in> nodes_of g. edges_of g' n =
          (if n = u then add_mset \<lparr> de_target = v, de_data = d \<rparr> (edges_of g u) else edges_of g n))"
    and delete_ok: "inv g \<Longrightarrow> u \<in> nodes_of g \<Longrightarrow>
      \<exists>g'. delete_all_to g u v = Some g' \<and> inv g' \<and> nodes_of g' = nodes_of g \<and>
        (\<forall>n \<in> nodes_of g. edges_of g' n =
          (if n = u then filter_mset (\<lambda>e. de_target e \<noteq> v) (edges_of g u) else edges_of g n))"
begin

text \<open>A batch of insertions, and the deletion of all edges from a list of nodes to one node.\<close>

primrec insert_all :: "(NodeID \<times> NodeID \<times> 'd) list \<Rightarrow> 'g \<Rightarrow> 'g option" where
  "insert_all [] g = Some g"
| "insert_all (e # es) g = do { g' \<leftarrow> insert g (fst e) (fst (snd e)) (snd (snd e)); insert_all es g' }"

lemma insert_all_ok:
  assumes "inv g" "\<forall>e \<in> set es. fst e \<in> nodes_of g \<and> fst (snd e) \<noteq> SPECIAL_NODEID"
  shows "\<exists>g'. insert_all es g = Some g' \<and> inv g' \<and> nodes_of g' = nodes_of g \<and>
    (\<forall>n \<in> nodes_of g. edges_of g' n = edges_of g n +
      mset (map (\<lambda>e. \<lparr> de_target = fst (snd e), de_data = snd (snd e) \<rparr>) (filter (\<lambda>e. fst e = n) es)))"
  using assms
proof (induction es arbitrary: g)
  case (Cons e es)
  obtain u v d where e: "e = (u, v, d)" by (cases e)
  obtain g1 where g1: "insert g u v d = Some g1" "inv g1" "nodes_of g1 = nodes_of g"
    "\<forall>n \<in> nodes_of g. edges_of g1 n =
      (if n = u then add_mset \<lparr> de_target = v, de_data = d \<rparr> (edges_of g u) else edges_of g n)"
    using insert_ok [OF Cons.prems(1), of u v d] Cons.prems(2) e by auto
  obtain g' where "insert_all es g1 = Some g'" "inv g'" "nodes_of g' = nodes_of g1"
    "\<forall>n \<in> nodes_of g1. edges_of g' n = edges_of g1 n +
      mset (map (\<lambda>e. \<lparr> de_target = fst (snd e), de_data = snd (snd e) \<rparr>) (filter (\<lambda>e. fst e = n) es))"
    using Cons.IH [OF g1(2)] Cons.prems(2) g1(3) by fastforce
  then show ?case using g1 e by auto
qed simp

primrec delete_all_from :: "NodeID list \<Rightarrow> NodeID \<Rightarrow> 'g \<Rightarrow> 'g option" where
  "delete_all_from [] v g = Some g"
| "delete_all_from (u # us) v g = do { g' \<leftarrow> delete_all_to g u v; delete_all_from us v g' }"

lemma delete_all_from_ok:
  assumes "inv g" "set us \<subseteq> nodes_of g"
  shows "\<exists>g'. delete_all_from us v g = Some g' \<and> inv g' \<and> nodes_of g' = nodes_of g \<and>
    (\<forall>n \<in> nodes_of g. edges_of g' n =
      (if n \<in> set us then filter_mset (\<lambda>e. de_target e \<noteq> v) (edges_of g n) else edges_of g n))"
  using assms
proof (induction us arbitrary: g)
  case (Cons u us)
  obtain g1 where g1: "delete_all_to g u v = Some g1" "inv g1" "nodes_of g1 = nodes_of g"
    "\<forall>n \<in> nodes_of g. edges_of g1 n =
      (if n = u then filter_mset (\<lambda>e. de_target e \<noteq> v) (edges_of g u) else edges_of g n)"
    using delete_ok [OF Cons.prems(1), of u v] Cons.prems(2) by auto
  obtain g' where "delete_all_from us v g1 = Some g'" "inv g'" "nodes_of g' = nodes_of g1"
    "\<forall>n \<in> nodes_of g1. edges_of g' n =
      (if n \<in> set us then filter_mset (\<lambda>e. de_target e \<noteq> v) (edges_of g1 n) else edges_of g1 n)"
    using Cons.IH [OF g1(2)] Cons.prems(2) g1(3) by auto
  then show ?case using g1 by (auto simp: filter_filter_mset)
qed simp

end

interpretation dynamic_graph: edge_store dg_inv "\<lambda>g. {..<length (node_list g)}" adj
  "\<lambda>g u v d. map_option snd (dg_InsertEdge fresh g u v d)"
  "\<lambda>g u v. map_option snd (dg_DeleteEdgesTo g u v)"
  for fresh
proof (unfold_locales, goal_cases)
  case (1 g u v d)
  then show ?case using InsertEdge_correct [of g u v fresh d] by (fastforce simp: adj_def)
next
  case (2 g u v)
  then show ?case using DeleteEdgesTo_correct [of g u v] by (fastforce simp: adj_def)
qed

section \<open>Properties\<close>

text \<open>
  C12: \<open>InsertEdge\<close> on a well-formed graph returns, keeps the graph well-formed, adds exactly the
  new edge to the edges of its source and leaves the edge list of every other node as it is,
  whichever of its three branches (free slot behind, free slot in front, relocation) it takes and
  whatever the uninitialised slots hold.
\<close>

theorem dg_InsertEdge_refines:
  assumes "dg_inv g" "from < length (node_list g)" "to \<noteq> SPECIAL_NODEID"
  shows "\<exists>e g'. dg_InsertEdge fresh g from to d = Some (e, g') \<and> dg_inv g' \<and>
    adj g' from = add_mset \<lparr> de_target = to, de_data = d \<rparr> (adj g from) \<and>
    (\<forall>m < length (node_list g). m \<noteq> from \<longrightarrow> out g' m = out g m) \<and>
    number_of_edges g' = number_of_edges g + 1"
  using InsertEdge_correct [OF assms, of fresh d] by blast

theorem dg_InsertEdge_refines_witness:
  "\<exists>e g'. dg_InsertEdge (\<lambda>_. \<lparr> de_target = 0, de_data = 0 :: int \<rparr>)
      (DynamicGraph_new (\<lambda>_. \<lparr> de_target = 0, de_data = 0 \<rparr>) 3) 0 2 7 = Some (e, g') \<and>
    adj g' 0 = {#\<lparr> de_target = 2, de_data = 7 \<rparr>#}"
proof -
  let ?f = "\<lambda>_ :: nat. \<lparr> de_target = 0, de_data = 0 :: int \<rparr>"
  have "0 < length (node_list (DynamicGraph_new ?f 3))" "2 \<noteq> SPECIAL_NODEID"
    "adj (DynamicGraph_new ?f 3) 0 = {#}"
    using DynamicGraph_new_correct(2) [of ?f 3 0] by (simp_all add: DynamicGraph_new_def SPECIAL_NODEID_def)
  then show ?thesis
    using dg_InsertEdge_refines [OF DynamicGraph_new_correct(1), of 0 ?f 3 2 ?f 7] by auto
qed

text \<open>
  C20: \<open>DeleteEdgesTo\<close> on a well-formed graph terminates, removes from the source exactly the edges
  to the target and returns their number; every other node keeps its edge list.
\<close>

theorem dg_DeleteEdgesTo_refines:
  assumes "dg_inv g" "source < length (node_list g)"
  shows "\<exists>k g'. dg_DeleteEdgesTo g source t = Some (k, g') \<and> dg_inv g' \<and>
    adj g' source = filter_mset (\<lambda>e. de_target e \<noteq> t) (adj g source) \<and>
    (\<forall>m < length (node_list g). m \<noteq> source \<longrightarrow> out g' m = out g m) \<and>
    k = size (filter_mset (\<lambda>e. de_target e = t) (adj g source)) \<and> number_of_edges g' + k = number_of_edges g"
  using DeleteEdgesTo_correct [OF assms, of t] by blast

definition sample_edges :: "int InputEdge list" where
  "sample_edges = [\<lparr> ie_source = 0, ie_target = 1, ie_data = 5 \<rparr>, \<lparr> ie_source = 0, ie_target = 2, ie_data = 6 \<rparr>,
     \<lparr> ie_source = 0, ie_target = 1, ie_data = 7 \<rparr>, \<lparr> ie_source = 2, ie_target = 1, ie_data = 8 \<rparr>]"

lemma sample_graph:
  "\<exists>g. DynamicGraph_of (\<lambda>_. \<lparr> de_target = 0, de_data = 0 \<rparr>) 3 sample_edges = Some g \<and> dg_inv g \<and>
    length (node_list g) = 4 \<and> adj g 0 = mset (map edge_of (take 3 sample_edges))"
  using DynamicGraph_of_correct [of sample_edges 3 "\<lambda>_. \<lparr> de_target = 0, de_data = 0 \<rparr>"]
  by (auto simp: sample_edges_def SPECIAL_NODEID_def adj_def)

theorem dg_DeleteEdgesTo_refines_witness:
  "\<exists>g g'. DynamicGraph_of (\<lambda>_. \<lparr> de_target = 0, de_data = 0 \<rparr>) 3 sample_edges = Some g \<and>
    dg_DeleteEdgesTo g 0 1 = Some (2, g') \<and> adj g' 0 = {#\<lparr> de_target = 2, de_data = 6 \<rparr>#}"
proof -
  obtain g where g: "DynamicGraph_of (\<lambda>_. \<lparr> de_target = 0, de_data = 0 \<rparr>) 3 sample_edges = Some g" "dg_inv g"
    "length (node_list g) = 4" "adj g 0 = mset (map edge_of (take 3 sample_edges))"
    using sample_graph by blast
  then show ?thesis
    using dg_DeleteEdgesTo_refines [OF g(2), of 0 1] by (auto simp: sample_edges_def edge_of_def)
qed

text \<open>
  C21: building the graph from an edge list sorted by source yields a well-formed graph in which the
  edges of every node are the edges of the list with that source, in the order of the list.
\<close>

theorem dg_construction:
  assumes "sorted (map ie_source graph)"
    and "\<forall>ie \<in> set graph. ie_source ie < nodes \<and> ie_target ie \<noteq> SPECIAL_NODEID"
  shows "\<exists>g. DynamicGraph_of fresh nodes graph = Some g \<and> dg_inv g \<and>
    number_of_nodes g = nodes \<and> number_of_edges g = length graph \<and>
    (\<forall>n < nodes. out g n = map edge_of (filter (\<lambda>ie. ie_source ie = n) graph))"
  using DynamicGraph_of_correct [OF assms, of fresh] by blast

theorem dg_construction_witness:
  "\<exists>g. DynamicGraph_of (\<lambda>_. \<lparr> de_target = 9, de_data = 0 \<rparr>) 3 sample_edges = Some g \<and>
    out g 2 = [\<lparr> de_target = 1, de_data = 8 \<rparr>] \<and> out g 1 = []"
  using dg_construction [of sample_edges 3 "\<lambda>_. \<lparr> de_target = 9, de_data = 0 \<rparr>"]
  by (auto simp: sample_edges_def SPECIAL_NODEID_def edge_of_def)

text \<open>
  \<open>DeleteEdge\<close> of an edge of the source removes exactly that edge: the last edge of the node
  takes its slot and the vacated slot becomes a dummy.
\<close>

theorem dg_DeleteEdge_refines:
  assumes "dg_inv g" "owns (node_list g) source e" "length (edge_list g) < 2 ^ 32"
  shows "\<exists>g'. dg_DeleteEdge g source e = Some g' \<and> dg_inv g' \<and>
    adj g' source = adj g source - {#edge_list g ! e#} \<and>
    (\<forall>m < length (node_list g). m \<noteq> source \<longrightarrow> out g' m = out g m) \<and>
    number_of_edges g' + 1 = number_of_edges g"
  using DeleteEdge_correct [OF assms] by blast

theorem dg_DeleteEdge_refines_witness:
  "\<exists>g g'. DynamicGraph_of (\<lambda>_. \<lparr> de_target = 0, de_data = 0 \<rparr>) 1 [\<lparr> ie_source = 0, ie_target = 0, ie_data = 5 :: int \<rparr>] = Some g \<and>
    dg_DeleteEdge g 0 0 = Some g' \<and> number_of_edges g' = 0"
proof -
  let ?g = "\<lparr> number_of_nodes = 1, number_of_edges = 1,
    node_list = [\<lparr> firstEdge = 0, edges = 1 \<rparr>, \<lparr> firstEdge = 1, edges = 0 \<rparr>], edge_list = [\<lparr> de_target = 0, de_data = 5 :: int \<rparr>] \<rparr>"
  have g: "DynamicGraph_of (\<lambda>_. \<lparr> de_target = 0, de_data = 0 \<rparr>) 1 [\<lparr> ie_source = 0, ie_target = 0, ie_data = 5 \<rparr>] = Some ?g"
    by (simp add: DynamicGraph_of_def irange_def skip_source.simps vec_at_def vec_upd_def)
  moreover have "dg_inv ?g"
    using DynamicGraph_of_correct [of "[\<lparr> ie_source = 0, ie_target = 0, ie_data = 5 :: int \<rparr>]" 1 "\<lambda>_. \<lparr> de_target = 0, de_data = 0 \<rparr>"] g
    by (auto simp: SPECIAL_NODEID_def)
  ultimately show ?thesis using dg_DeleteEdge_refines [of ?g 0 0] by (auto simp: owns_def)
qed

end
