(* ===== verification/Static_Graph.thy ===== *)
theory Static_Graph
  imports Dynamic_Graph
begin

text \<open>
  The query graph: the adjacency array of \<^verbatim>\<open>DataStructures/StaticGraph.h\<close> and the edge data of
  \<^verbatim>\<open>DataStructures/QueryEdge.h\<close>.  The constructor sorts its input with
  \<^verbatim>\<open>tbb::parallel_sort\<close>, which is not part of the sources: it is a parameter of the model, of
  which the theorems only use that the result is a sorted permutation.  The graph is generic in
  its edge data and reads one field of it, \<^verbatim>\<open>data.distance\<close>, passed as a function.
\<close>

section \<open>Query edges\<close>

record EdgeData =
  ed_id :: NodeID
  ed_shortcut :: bool
  ed_distance :: int
  ed_forward :: bool
  ed_backward :: bool

definition EdgeData_new :: EdgeData where
  "EdgeData_new = \<lparr> ed_id = 0, ed_shortcut = False, ed_distance = 0, ed_forward = False, ed_backward = False \<rparr>"

definition EdgeData_of :: "nat \<Rightarrow> bool \<Rightarrow> int \<Rightarrow> bool \<Rightarrow> bool \<Rightarrow> EdgeData" where
  "EdgeData_of oid shortcut distance forward backward =
     \<lparr> ed_id = oid mod 2 ^ 31, ed_shortcut = shortcut, ed_distance = sbits 30 distance,
       ed_forward = forward, ed_backward = backward \<rparr>"

record QueryEdge =
  qe_source :: NodeID
  qe_target :: NodeID
  qe_data :: EdgeData

definition QueryEdge_less :: "QueryEdge \<Rightarrow> QueryEdge \<Rightarrow> bool" where
  "QueryEdge_less l r =
     (if qe_source l \<noteq> qe_source r then qe_source l < qe_source r else qe_target l < qe_target r)"

definition QueryEdge_eq :: "QueryEdge \<Rightarrow> QueryEdge \<Rightarrow> bool" where
  "QueryEdge_eq l r \<longleftrightarrow> qe_source l = qe_source r \<and> qe_target l = qe_target r \<and>
     ed_distance (qe_data l) = ed_distance (qe_data r) \<and> ed_shortcut (qe_data l) = ed_shortcut (qe_data r) \<and>
     ed_forward (qe_data l) = ed_forward (qe_data r) \<and> ed_backward (qe_data l) = ed_backward (qe_data r) \<and>
     ed_id (qe_data l) = ed_id (qe_data r)"

section \<open>The adjacency array\<close>

record 'd StaticGraph =
  sg_number_of_nodes :: nat
  sg_number_of_edges :: nat
  node_array :: "EdgeID list"
  edge_array :: "'d DG_Edge list"

text \<open>First loop of the constructor, one entry per node.\<close>

fun sg_place :: "'d InputEdge list \<Rightarrow> nat list \<Rightarrow> nat \<Rightarrow> nat \<Rightarrow> EdgeID list \<times> nat" where
  "sg_place graph [] edge position = ([], position)"
| "sg_place graph (node # ns) edge position =
     (let edge' = skip_source graph node edge;
          (rest, end) = sg_place graph ns edge' (position + (edge' - edge))
      in (position # rest, end))"

text \<open>Second loop, with the assertion on the distance of every edge.\<close>

fun sg_copy :: "('d \<Rightarrow> int) \<Rightarrow> 'd InputEdge list \<Rightarrow> nat list \<Rightarrow> nat \<Rightarrow> 'd DG_Edge list \<Rightarrow>
    ('d DG_Edge list \<times> nat) option" where
  "sg_copy dist graph [] edge el = Some (el, edge)"
| "sg_copy dist graph (i # is) edge el = do {
     ie \<leftarrow> vec_at graph edge;
     el \<leftarrow> vec_upd el i (\<lambda>_. \<lparr> de_target = ie_target ie, de_data = ie_data ie \<rparr>);
     assert_that (dist (ie_data ie) > 0);
     sg_copy dist graph is (edge + 1) el
   }"

fun sg_fill :: "('d \<Rightarrow> int) \<Rightarrow> 'd InputEdge list \<Rightarrow> EdgeID list \<Rightarrow> nat list \<Rightarrow> nat \<Rightarrow> 'd DG_Edge list \<Rightarrow>
    'd DG_Edge list option" where
  "sg_fill dist graph na [] edge el = Some el"
| "sg_fill dist graph na (node # ns) edge el = do {
     b \<leftarrow> vec_at na node;
     e \<leftarrow> vec_at na (node + 1);
     (el, edge) \<leftarrow> sg_copy dist graph (irange b e) edge el;
     sg_fill dist graph na ns edge el
   }"

text \<open>\<open>dflt\<close> is the value-initialised element that \<open>edge_array.resize\<close> creates.\<close>

definition StaticGraph_of ::
    "('d \<Rightarrow> int) \<Rightarrow> ('d InputEdge list \<Rightarrow> 'd InputEdge list) \<Rightarrow> 'd DG_Edge \<Rightarrow> nat \<Rightarrow> 'd InputEdge list \<Rightarrow>
     'd StaticGraph option" where
  "StaticGraph_of dist parallel_sort dflt nodes graph = do {
     let graph = parallel_sort graph;
     let (na, position) = sg_place graph (irange 0 (nodes + 1)) 0 0;
     el \<leftarrow> sg_fill dist graph na (irange 0 nodes) 0 (replicate position dflt);
     Some \<lparr> sg_number_of_nodes = nodes, sg_number_of_edges = length graph, node_array = na, edge_array = el \<rparr>
   }"

definition StaticGraph_adopt :: "EdgeID list \<Rightarrow> 'd DG_Edge list \<Rightarrow> 'd StaticGraph" where
  "StaticGraph_adopt nodes es =
     \<lparr> sg_number_of_nodes = length nodes - 1, sg_number_of_edges = length es,
       node_array = nodes, edge_array = es \<rparr>"

definition sg_BeginEdges :: "'d StaticGraph \<Rightarrow> NodeID \<Rightarrow> EdgeID option" where
  "sg_BeginEdges g n = vec_at (node_array g) n"

definition sg_EndEdges :: "'d StaticGraph \<Rightarrow> NodeID \<Rightarrow> EdgeID option" where
  "sg_EndEdges g n = vec_at (node_array g) (n + 1)"

definition sg_GetAdjacentEdgeRange :: "'d StaticGraph \<Rightarrow> NodeID \<Rightarrow> EdgeID list option" where
  "sg_GetAdjacentEdgeRange g n = do { b \<leftarrow> sg_BeginEdges g n; e \<leftarrow> sg_EndEdges g n; Some (irange b e) }"

definition sg_GetOutDegree :: "'d StaticGraph \<Rightarrow> NodeID \<Rightarrow> nat option" where
  "sg_GetOutDegree g n = do { e \<leftarrow> sg_EndEdges g n; b \<leftarrow> sg_BeginEdges g n; Some (e - b) }"

definition sg_GetTarget :: "'d StaticGraph \<Rightarrow> EdgeID \<Rightarrow> NodeID option" where
  "sg_GetTarget g e = map_option de_target (vec_at (edge_array g) e)"

definition sg_GetEdgeData :: "'d StaticGraph \<Rightarrow> EdgeID \<Rightarrow> 'd option" where
  "sg_GetEdgeData g e = map_option de_data (vec_at (edge_array g) e)"

text \<open>The loop of \<open>FindEdge\<close>, with \<open>smallest_edge\<close> and \<open>smallest_weight\<close> as its state.\<close>

fun find_smallest :: "('d \<Rightarrow> int) \<Rightarrow> 'd StaticGraph \<Rightarrow> NodeID \<Rightarrow> EdgeID list \<Rightarrow> EdgeID \<Rightarrow> int \<Rightarrow> EdgeID option" where
  "find_smallest dist g to [] smallest_edge smallest_weight = Some smallest_edge"
| "find_smallest dist g to (edge # es) smallest_edge smallest_weight = do {
     target \<leftarrow> sg_GetTarget g edge;
     d \<leftarrow> sg_GetEdgeData g edge;
     if target = to \<and> dist d < smallest_weight then find_smallest dist g to es edge (dist d)
     else find_smallest dist g to es smallest_edge smallest_weight
   }"

definition sg_FindEdge :: "('d \<Rightarrow> int) \<Rightarrow> 'd StaticGraph \<Rightarrow> NodeID \<Rightarrow> NodeID \<Rightarrow> EdgeID option" where
  "sg_FindEdge dist g from to = do {
     r \<leftarrow> sg_GetAdjacentEdgeRange g from;
     find_smallest dist g to r SPECIAL_EDGEID INVALID_EDGE_WEIGHT
   }"

definition sg_FindEdgeInEitherDirection :: "('d \<Rightarrow> int) \<Rightarrow> 'd StaticGraph \<Rightarrow> NodeID \<Rightarrow> NodeID \<Rightarrow> EdgeID option" where
  "sg_FindEdgeInEitherDirection dist g from to = do {
     tmp \<leftarrow> sg_FindEdge dist g from to;
     if SPECIAL_NODEID \<noteq> tmp then Some tmp else sg_FindEdge dist g to from
   }"

text \<open>Returns the edge and the new value of the reference parameter \<open>result\<close>.\<close>

definition sg_FindEdgeIndicateIfReverse ::
    "('d \<Rightarrow> int) \<Rightarrow> 'd StaticGraph \<Rightarrow> NodeID \<Rightarrow> NodeID \<Rightarrow> bool \<Rightarrow> (EdgeID \<times> bool) option" where
  "sg_FindEdgeIndicateIfReverse dist g from to result = do {
     current_iterator \<leftarrow> sg_FindEdge dist g from to;
     if SPECIAL_NODEID = current_iterator then do {
       current_iterator \<leftarrow> sg_FindEdge dist g to from;
       Some (current_iterator, if SPECIAL_NODEID \<noteq> current_iterator then True else result)
     } else Some (current_iterator, result)
   }"

section \<open>Invariant\<close>

definition sg_inv :: "'d StaticGraph \<Rightarrow> bool" where
  "sg_inv g \<longleftrightarrow> length (node_array g) = sg_number_of_nodes g + 1 \<and> sorted (node_array g) \<and>
     last (node_array g) \<le> length (edge_array g) \<and> length (edge_array g) < SPECIAL_EDGEID"

definition sg_out :: "'d StaticGraph \<Rightarrow> NodeID \<Rightarrow> 'd DG_Edge list" where
  "sg_out g n = seg (edge_array g) (node_array g ! n) (node_array g ! (n + 1))"

text \<open>The edge slots of a node.\<close>

definition sg_range :: "'d StaticGraph \<Rightarrow> NodeID \<Rightarrow> EdgeID set" where
  "sg_range g n = {node_array g ! n..<node_array g ! (n + 1)}"

lemma sg_inv_range:
  assumes "sg_inv g" "n < sg_number_of_nodes g"
  shows "node_array g ! n \<le> node_array g ! (n + 1)" "node_array g ! (n + 1) \<le> length (edge_array g)"
proof -
  show "node_array g ! n \<le> node_array g ! (n + 1)"
    using assms by (auto simp: sg_inv_def intro: sorted_nth_mono)
  have "node_array g ! (n + 1) \<le> node_array g ! sg_number_of_nodes g"
    using assms by (auto simp: sg_inv_def intro: sorted_nth_mono)
  moreover have "last (node_array g) = node_array g ! sg_number_of_nodes g"
    using assms by (subst last_conv_nth) (auto simp: sg_inv_def)
  ultimately show "node_array g ! (n + 1) \<le> length (edge_array g)" using assms(1) by (simp add: sg_inv_def)
qed

lemma sg_Range:
  assumes "sg_inv g" "n < sg_number_of_nodes g"
  shows "sg_GetAdjacentEdgeRange g n = Some (irange (node_array g ! n) (node_array g ! (n + 1)))"
  using assms by (simp add: sg_GetAdjacentEdgeRange_def sg_BeginEdges_def sg_EndEdges_def sg_inv_def vec_simps)

lemma sg_range_valid:
  assumes "sg_inv g" "n < sg_number_of_nodes g" "e \<in> sg_range g n"
  shows "e < length (edge_array g)" "e \<noteq> SPECIAL_EDGEID"
    "sg_GetTarget g e = Some (de_target (edge_array g ! e))" "sg_GetEdgeData g e = Some (de_data (edge_array g ! e))"
  using assms(3) sg_inv_range [OF assms(1,2)] assms(1)
  by (auto simp: sg_range_def sg_GetTarget_def sg_GetEdgeData_def vec_simps sg_inv_def)

section \<open>Look-up\<close>

text \<open>The edges from \<open>u\<close> to \<open>v\<close> that can be found, and the condition on the result.\<close>

definition sg_cands :: "('d \<Rightarrow> int) \<Rightarrow> 'd StaticGraph \<Rightarrow> NodeID \<Rightarrow> EdgeID set \<Rightarrow> EdgeID set" where
  "sg_cands dist g v R =
     {e \<in> R. de_target (edge_array g ! e) = v \<and> dist (de_data (edge_array g ! e)) < INVALID_EDGE_WEIGHT}"

definition lightest :: "('d \<Rightarrow> int) \<Rightarrow> 'd StaticGraph \<Rightarrow> EdgeID set \<Rightarrow> EdgeID \<Rightarrow> bool" where
  "lightest dist g R e \<longleftrightarrow> e \<in> R \<and>
     (\<forall>e' \<in> R. dist (de_data (edge_array g ! e)) \<le> dist (de_data (edge_array g ! e')))"

lemma find_smallest_correct:
  assumes "\<forall>e \<in> set es. e < length (edge_array g)"
    and "\<forall>e. (e \<in> S \<longrightarrow> w \<le> dist (de_data (edge_array g ! e)))"
    and "if S = {} then s = SPECIAL_EDGEID \<and> w = INVALID_EDGE_WEIGHT
         else s \<in> S \<and> dist (de_data (edge_array g ! s)) = w \<and> w < INVALID_EDGE_WEIGHT"
  shows "\<exists>r. find_smallest dist g v es s w = Some r \<and>
    (if S \<union> sg_cands dist g v (set es) = {} then r = SPECIAL_EDGEID
     else lightest dist g (S \<union> sg_cands dist g v (set es)) r)"
  using assms
proof (induction es arbitrary: S s w)
  case Nil
  then show ?case by (auto simp: sg_cands_def lightest_def)
next
  case (Cons e es)
  let ?d = "dist (de_data (edge_array g ! e))"
  have get: "sg_GetTarget g e = Some (de_target (edge_array g ! e))" "sg_GetEdgeData g e = Some (de_data (edge_array g ! e))"
    using Cons.prems(1) by (simp_all add: sg_GetTarget_def sg_GetEdgeData_def vec_simps)
  have w: "w \<le> INVALID_EDGE_WEIGHT" using Cons.prems(3) by (simp split: if_splits)
  have step: "find_smallest dist g v (e # es) s w = (if de_target (edge_array g ! e) = v \<and> ?d < w
      then find_smallest dist g v es e ?d else find_smallest dist g v es s w)"
    by (simp add: get)
  show ?case
  proof (cases "de_target (edge_array g ! e) = v \<and> ?d < w")
    case True
    have cands: "S \<union> sg_cands dist g v (set (e # es)) = insert e S \<union> sg_cands dist g v (set es)"
      using True w by (auto simp: sg_cands_def)
    have "\<exists>r. find_smallest dist g v es e ?d = Some r \<and>
      (if insert e S \<union> sg_cands dist g v (set es) = {} then r = SPECIAL_EDGEID
       else lightest dist g (insert e S \<union> sg_cands dist g v (set es)) r)"
      using Cons.prems True w by (intro Cons.IH) force+
    then show ?thesis unfolding cands step if_P [OF True] .
  next
    case False
    show ?thesis
    proof (cases "e \<in> sg_cands dist g v {e}")
      case True
      then have d: "w \<le> ?d" "?d < INVALID_EDGE_WEIGHT" using False by (auto simp: sg_cands_def)
      have ne: "S \<noteq> {}" using Cons.prems(3) d by auto
      have cands: "S \<union> sg_cands dist g v (set (e # es)) = insert e S \<union> sg_cands dist g v (set es)"
        using True by (auto simp: sg_cands_def)
      have "\<exists>r. find_smallest dist g v es s w = Some r \<and>
        (if insert e S \<union> sg_cands dist g v (set es) = {} then r = SPECIAL_EDGEID
         else lightest dist g (insert e S \<union> sg_cands dist g v (set es)) r)"
        using Cons.prems d ne by (intro Cons.IH) auto
      then show ?thesis unfolding cands step if_not_P [OF False] .
    next
      case out: False
      then have cands: "sg_cands dist g v (set (e # es)) = sg_cands dist g v (set es)"
        by (auto simp: sg_cands_def)
      show ?thesis using Cons.IH [of S w s] Cons.prems unfolding cands step if_not_P [OF False] by simp
    qed
  qed
qed

lemma sg_FindEdge_correct:
  assumes "sg_inv g" "u < sg_number_of_nodes g"
  shows "\<exists>r. sg_FindEdge dist g u v = Some r \<and>
    (if sg_cands dist g v (sg_range g u) = {} then r = SPECIAL_EDGEID
     else lightest dist g (sg_cands dist g v (sg_range g u)) r)"
proof -
  let ?r = "irange (node_array g ! u) (node_array g ! (u + 1))"
  have r: "set ?r = sg_range g u" by (simp add: sg_range_def)
  have "\<forall>e \<in> set ?r. e < length (edge_array g)" using sg_range_valid(1) [OF assms] unfolding r by blast
  from find_smallest_correct [OF this, of "{}" INVALID_EDGE_WEIGHT dist SPECIAL_EDGEID v]
  show ?thesis unfolding r Un_empty_left by (simp add: sg_FindEdge_def sg_Range [OF assms])
qed

section \<open>Construction\<close>

text \<open>What the code relies on of \<^verbatim>\<open>tbb::parallel_sort\<close>.\<close>

definition sorts :: "('d InputEdge list \<Rightarrow> 'd InputEdge list) \<Rightarrow> bool" where
  "sorts f \<longleftrightarrow> (\<forall>xs. mset (f xs) = mset xs \<and> sorted_wrt (\<lambda>a b. \<not> InputEdge_less b a) (f xs))"

lemma sorts_source: "sorts f \<Longrightarrow> sorted (map ie_source (f xs))"
  unfolding sorts_def sorted_map
  by (rule sorted_wrt_mono_rel [of _ "\<lambda>a b. \<not> InputEdge_less b a"])
    (auto simp: InputEdge_less_def not_less split: if_splits)

lemma sg_place_pos:
  assumes "sorted (map ie_source graph)"
  shows "sg_place graph (irange a b) (key_pos ie_source graph a) (key_pos ie_source graph a) =
    (map (key_pos ie_source graph) (irange a b), key_pos ie_source graph (max a b))"
proof (induction "b - a" arbitrary: a)
  case (Suc k)
  then have "a < b" by simp
  then show ?case
    using Suc.hyps(1) [of "Suc a"] Suc.hyps(2) skip_source_pos [OF assms order_refl key_pos_mono, of a]
      key_pos_mono [of a "Suc a" ie_source graph]
    by (simp add: irange_Cons Let_def)
qed (simp add: max_def)

lemma sg_copy_correct:
  assumes "a \<le> b" "b \<le> length graph" "b \<le> length el" "\<forall>ie \<in> set graph. dist (ie_data ie) > 0"
  shows "\<exists>el'. sg_copy dist graph (irange a b) a el = Some (el', b) \<and> length el' = length el \<and>
    (\<forall>i. el' ! i = (if a \<le> i \<and> i < b then edge_of (graph ! i) else el ! i))"
proof -
  have "sg_copy dist graph (irange a b) a el = copy_edges graph (irange a b) a el"
    using assms(1-3)
  proof (induction "b - a" arbitrary: a el)
    case (Suc k)
    then have a: "a < b" by simp
    then have "dist (ie_data (graph ! a)) > 0" using assms(4) Suc.prems by simp
    then show ?case using Suc a by (simp add: irange_Cons vec_simps)
  qed simp
  then show ?thesis using copy_edges_correct [OF assms(1-3)] by simp
qed

lemma sg_fill_correct:
  assumes mono: "\<forall>n. pos n \<le> pos (Suc n)" and len: "pos b \<le> length graph"
    and dist: "\<forall>ie \<in> set graph. dist (ie_data ie) > 0" and na: "\<forall>i \<le> b. vec_at na i = Some (pos i)"
    and "pos b \<le> length el" "a \<le> b"
  shows "\<exists>el'. sg_fill dist graph na (irange a b) (pos a) el = Some el' \<and> length el' = length el \<and>
    (\<forall>i. el' ! i = (if pos a \<le> i \<and> i < pos b then edge_of (graph ! i) else el ! i))"
  using assms(5,6)
proof (induction "b - a" arbitrary: a el)
  case (Suc k)
  have a: "a < b" using Suc.hyps(2) by simp
  have m: "pos a \<le> pos (Suc a)" "pos (Suc a) \<le> pos b"
    using mono a lift_Suc_mono_le [of pos "Suc a" b] by auto
  obtain el1 where el1: "sg_copy dist graph (irange (pos a) (pos (Suc a))) (pos a) el = Some (el1, pos (Suc a))"
    "length el1 = length el" "\<forall>i. el1 ! i = (if pos a \<le> i \<and> i < pos (Suc a) then edge_of (graph ! i) else el ! i)"
    using sg_copy_correct [of "pos a" "pos (Suc a)" graph el dist] m len Suc.prems dist by auto
  obtain el' where el': "sg_fill dist graph na (irange (Suc a) b) (pos (Suc a)) el1 = Some el'"
    "length el' = length el1" "\<forall>i. el' ! i = (if pos (Suc a) \<le> i \<and> i < pos b then edge_of (graph ! i) else el1 ! i)"
    using Suc.hyps(1) [of "Suc a" el1] Suc.hyps(2) Suc.prems a el1(2) by fastforce
  show ?case using el1 el' a m na by (auto simp: irange_Cons)
qed auto

lemma StaticGraph_of_correct:
  assumes sorts: "sorts f" and valid: "\<forall>ie \<in> set graph. ie_source ie < nodes \<and> dist (ie_data ie) > 0"
    and size: "length graph < SPECIAL_EDGEID"
  shows "\<exists>g. StaticGraph_of dist f dflt nodes graph = Some g \<and> sg_inv g \<and> sg_number_of_nodes g = nodes \<and>
    sg_number_of_edges g = length graph \<and>
    (\<forall>n < nodes. sg_out g n = map edge_of (filter (\<lambda>ie. ie_source ie = n) (f graph)))"
proof -
  let ?s = "f graph"
  let ?p = "key_pos ie_source ?s"
  have set: "set ?s = set graph" "length ?s = length graph"
    using sorts unfolding sorts_def by (metis mset_eq_setD, metis mset_eq_length)
  have sorted: "sorted (map ie_source ?s)" by (rule sorts_source [OF sorts])
  have pos: "?p nodes = length graph" "?p (Suc nodes) = length graph"
    using valid set by (auto simp: key_pos_all less_Suc_eq)
  let ?na = "map ?p (irange 0 (nodes + 1))"
  have na: "\<forall>i \<le> nodes. vec_at ?na i = Some (?p i)" by (simp add: vec_at_def irange_def del: upt_Suc)
  obtain el where el: "sg_fill dist ?s ?na (irange 0 nodes) 0 (replicate (length graph) dflt) = Some el"
    "length el = length graph" "\<forall>i. el ! i = (if i < length graph then edge_of (?s ! i) else replicate (length graph) dflt ! i)"
    using sg_fill_correct [of ?p nodes ?s dist ?na "replicate (length graph) dflt" 0] valid set na pos
    by (auto simp: key_pos_mono)
  let ?g = "\<lparr> sg_number_of_nodes = nodes, sg_number_of_edges = length graph, node_array = ?na, edge_array = el \<rparr>"
  have run: "StaticGraph_of dist f dflt nodes graph = Some ?g"
    using el(1) sg_place_pos [OF sorted, of 0 "nodes + 1"] set(2) pos by (simp add: StaticGraph_of_def Let_def)
  have "sorted ?na" by (simp add: irange_def sorted_map key_pos_mono sorted_wrt_iff_nth_less del: upt_Suc)
  then have inv: "sg_inv ?g" using el(2) pos size by (simp add: sg_inv_def irange_def)
  have "sg_out ?g n = map edge_of (filter (\<lambda>ie. ie_source ie = n) ?s)" if "n < nodes" for n
  proof -
    have "sg_out ?g n = seg el (?p n) (?p (Suc n))"
      using that by (simp add: sg_out_def irange_def del: upt_Suc)
    also have "\<dots> = map edge_of (seg ?s (?p n) (?p (Suc n)))"
      using el(3) less_le_trans [OF _ key_pos_le [of ie_source ?s "Suc n"]] set(2) by (auto simp: seg_def)
    finally show ?thesis using filter_key_seg [OF sorted] by simp
  qed
  then show ?thesis using run inv by auto
qed

section \<open>Properties\<close>

text \<open>
  C22: constructing the query graph from any edge list whose sources are nodes and whose distances
  are positive succeeds (no assertion fails, no access is out of range), and the adjacency array
  then holds for every node exactly the edges with that source, for every sorting routine that
  returns a sorted permutation.
\<close>

theorem sg_construction:
  assumes "sorts f" "\<forall>ie \<in> set graph. ie_source ie < nodes \<and> dist (ie_data ie) > 0"
    and "length graph < SPECIAL_EDGEID"
  shows "\<exists>g. StaticGraph_of dist f dflt nodes graph = Some g \<and> sg_inv g \<and> sg_number_of_nodes g = nodes \<and>
    (\<forall>n < nodes. mset (sg_out g n) = mset (map edge_of (filter (\<lambda>ie. ie_source ie = n) graph)))"
proof -
  have "mset (f graph) = mset graph" using assms(1) by (simp add: sorts_def)
  then have "mset (map edge_of (filter (\<lambda>ie. ie_source ie = n) (f graph))) =
      mset (map edge_of (filter (\<lambda>ie. ie_source ie = n) graph))" for n
    by (simp add: mset_filter)
  then show ?thesis using StaticGraph_of_correct [OF assms, of dflt] by metis
qed

text \<open>A sorting routine, to show that the assumption on the parameter can hold.\<close>

definition edge_sort :: "'d InputEdge list \<Rightarrow> 'd InputEdge list" where
  "edge_sort xs = sort_key ie_source (sort_key ie_target xs)"

lemma sorts_edge_sort: "sorts (edge_sort :: 'd InputEdge list \<Rightarrow> 'd InputEdge list)"
proof -
  have "sorted_wrt (\<lambda>a b. \<not> InputEdge_less b a) (edge_sort xs)" for xs :: "'d InputEdge list"
  proof -
    let ?ys = "edge_sort xs"
    have src: "sorted (map ie_source ?ys)" by (simp add: edge_sort_def)
    have tgt: "sorted (map ie_target (filter (\<lambda>x. ie_source x = k) ?ys))" for k
    proof -
      have "filter (\<lambda>x. ie_source x = k) ?ys = filter (\<lambda>x. ie_source x = k) (sort_key ie_target xs)"
        unfolding edge_sort_def by (rule sort_key_stable)
      then show ?thesis by (simp add: sorted_filter)
    qed
    have "sorted_wrt (\<lambda>a b. \<not> InputEdge_less b a) zs"
      if "sorted (map ie_source zs)" "\<forall>k. sorted (map ie_target (filter (\<lambda>x. ie_source x = k) zs))"
      for zs :: "'d InputEdge list"
      using that
    proof (induction zs)
      case (Cons z zs)
      have "\<forall>k. sorted (map ie_target (filter (\<lambda>x. ie_source x = k) zs))"
      proof
        fix k
        from Cons.prems(2) [rule_format, of k]
        show "sorted (map ie_target (filter (\<lambda>x. ie_source x = k) zs))" by (auto split: if_splits)
      qed
      moreover have "\<not> InputEdge_less b z" if "b \<in> set zs" for b
        using that Cons.prems(1) Cons.prems(2) [rule_format, of "ie_source z"]
        by (auto simp: InputEdge_less_def not_less)
      ultimately show ?case using Cons by simp
    qed simp
    then show ?thesis using src tgt by blast
  qed
  then show ?thesis by (simp add: sorts_def edge_sort_def)
qed

theorem sg_construction_witness:
  "\<exists>g. StaticGraph_of id edge_sort \<lparr> de_target = 0, de_data = 0 \<rparr> 3 (rev sample_edges) = Some g \<and>
    mset (sg_out g 0) = mset (map edge_of (take 3 sample_edges))"
proof -
  have "\<forall>ie \<in> set (rev sample_edges). ie_source ie < 3 \<and> id (ie_data ie) > 0" "length (rev sample_edges) < SPECIAL_EDGEID"
    by (simp_all add: sample_edges_def SPECIAL_EDGEID_def)
  from sg_construction [OF sorts_edge_sort this, of "\<lparr> de_target = 0, de_data = 0 \<rparr>"]
  obtain g where "StaticGraph_of id edge_sort \<lparr> de_target = 0, de_data = 0 \<rparr> 3 (rev sample_edges) = Some g"
    "\<forall>n < 3. mset (sg_out g n) = mset (map edge_of (filter (\<lambda>ie. ie_source ie = n) (rev sample_edges)))"
    by blast
  then show ?thesis by (auto simp: sample_edges_def)
qed

text \<open>
  C23: \<open>FindEdge\<close> returns an edge of least distance among all edges from \<open>u\<close> to \<open>v\<close> whose distance
  is a valid weight, and \<open>SPECIAL_EDGEID\<close> exactly when there is no such edge.
\<close>

theorem sg_FindEdge_lightest:
  assumes "sg_inv g" "u < sg_number_of_nodes g"
  shows "\<exists>r. sg_FindEdge dist g u v = Some r \<and>
    (r = SPECIAL_EDGEID \<longleftrightarrow> sg_cands dist g v (sg_range g u) = {}) \<and>
    (r \<noteq> SPECIAL_EDGEID \<longrightarrow> lightest dist g (sg_cands dist g v (sg_range g u)) r)"
proof -
  have "r \<noteq> SPECIAL_EDGEID" if "lightest dist g (sg_cands dist g v (sg_range g u)) r" for r
    using that sg_range_valid(2) [OF assms] by (auto simp: lightest_def sg_cands_def)
  then show ?thesis using sg_FindEdge_correct [OF assms, of dist v] by metis
qed

definition sample_query_graph :: "int StaticGraph" where
  "sample_query_graph = StaticGraph_adopt [0, 3, 3, 4]
     [\<lparr> de_target = 1, de_data = 5 \<rparr>, \<lparr> de_target = 1, de_data = 4 \<rparr>, \<lparr> de_target = 2, de_data = 1 \<rparr>, \<lparr> de_target = 1, de_data = 9 \<rparr>]"

lemma sample_query_graph_inv: "sg_inv sample_query_graph"
  by (simp add: sg_inv_def sample_query_graph_def StaticGraph_adopt_def SPECIAL_EDGEID_def)

lemma sample_nodes: "sg_number_of_nodes sample_query_graph = 3"
  by (simp add: sample_query_graph_def StaticGraph_adopt_def)

theorem sg_FindEdge_lightest_witness:
  "sg_FindEdge id sample_query_graph 0 1 = Some 1"
proof -
  have c: "sg_cands id sample_query_graph 1 (sg_range sample_query_graph 0) = {0, 1}"
    by (auto simp: sg_cands_def sg_range_def sample_query_graph_def StaticGraph_adopt_def INVALID_EDGE_WEIGHT_def
        nth_Cons' numeral_eq_Suc)
  obtain r where r: "sg_FindEdge id sample_query_graph 0 1 = Some r" "lightest id sample_query_graph {0, 1} r"
    using sg_FindEdge_lightest [OF sample_query_graph_inv, of 0 id 1] unfolding c sample_nodes by auto
  moreover have "edge_array sample_query_graph ! 0 = \<lparr> de_target = 1, de_data = 5 \<rparr>"
    "edge_array sample_query_graph ! 1 = \<lparr> de_target = 1, de_data = 4 \<rparr>"
    by (simp_all add: sample_query_graph_def StaticGraph_adopt_def)
  ultimately show ?thesis by (auto simp: lightest_def)
qed

text \<open>
  \<open>FindEdgeIndicateIfReverse\<close>, called with \<open>result = false\<close>, returns a lightest edge from
  \<open>u\<close> to \<open>v\<close> with \<open>result\<close> unchanged when there is one, otherwise a lightest edge from \<open>v\<close> to
  \<open>u\<close> with \<open>result\<close> set, and \<open>SPECIAL_EDGEID\<close> with \<open>result\<close> unchanged when the nodes are not
  adjacent.
\<close>

theorem sg_FindEdgeIndicateIfReverse_spec:
  assumes "sg_inv g" "u < sg_number_of_nodes g" "v < sg_number_of_nodes g"
  shows "\<exists>r rev. sg_FindEdgeIndicateIfReverse dist g u v False = Some (r, rev) \<and>
    (if sg_cands dist g v (sg_range g u) \<noteq> {} then lightest dist g (sg_cands dist g v (sg_range g u)) r \<and> \<not> rev
     else if sg_cands dist g u (sg_range g v) \<noteq> {} then lightest dist g (sg_cands dist g u (sg_range g v)) r \<and> rev
     else r = SPECIAL_EDGEID \<and> \<not> rev)"
proof -
  have ne: "r \<noteq> SPECIAL_EDGEID" if "lightest dist g (sg_cands dist g b (sg_range g a)) r" "a < sg_number_of_nodes g" for r a b
    using that sg_range_valid(2) [OF assms(1)] by (auto simp: lightest_def sg_cands_def)
  have sp: "SPECIAL_NODEID = SPECIAL_EDGEID" by (simp add: SPECIAL_NODEID_def SPECIAL_EDGEID_def)
  obtain r1 where r1: "sg_FindEdge dist g u v = Some r1" "if sg_cands dist g v (sg_range g u) = {} then r1 = SPECIAL_EDGEID
      else lightest dist g (sg_cands dist g v (sg_range g u)) r1"
    using sg_FindEdge_correct [OF assms(1,2), of dist v] by blast
  obtain r2 where r2: "sg_FindEdge dist g v u = Some r2" "if sg_cands dist g u (sg_range g v) = {} then r2 = SPECIAL_EDGEID
      else lightest dist g (sg_cands dist g u (sg_range g v)) r2"
    using sg_FindEdge_correct [OF assms(1,3), of dist u] by blast
  show ?thesis
    using r1 r2 ne [OF _ assms(2), of v] ne [OF _ assms(3), of u]
    by (auto simp: sg_FindEdgeIndicateIfReverse_def sp split: if_splits)
qed

theorem sg_FindEdgeIndicateIfReverse_spec_witness:
  "sg_FindEdgeIndicateIfReverse id sample_query_graph 1 2 False = Some (3, True)"
proof -
  have c: "sg_cands id sample_query_graph 1 (sg_range sample_query_graph 2) = {3}"
    "sg_cands id sample_query_graph 2 (sg_range sample_query_graph 1) = {}"
    by (auto simp: sg_cands_def sg_range_def sample_query_graph_def StaticGraph_adopt_def INVALID_EDGE_WEIGHT_def
        nth_Cons' numeral_eq_Suc)
  show ?thesis
    using sg_FindEdgeIndicateIfReverse_spec [OF sample_query_graph_inv, of 1 2 id]
    unfolding c sample_nodes by (auto simp: lightest_def)
qed

end
