(* ===== verification/Search.thy ===== *)
theory Search
  imports Heap_Refinement Static_Graph
begin

text \<open>
  The bidirectional search on the contracted graph: \<open>RoutingStep\<close> of
  \<^verbatim>\<open>RoutingAlgorithms/BasicRoutingInterface.h\<close>, the same stalling and relaxation loops of
  \<^verbatim>\<open>RoutingAlgorithms/ManyToManyRouting.h\<close> and the loop of
  \<^verbatim>\<open>RoutingAlgorithms/ShortestPathRouting.h\<close> that alternates the two directions.  The facade
  forwards the graph accesses to the query graph.

  The query graph stores an edge at its less important end node only: an edge at \<open>u\<close> to \<open>v\<close> with
  the forward flag is the road arc \<open>u \<rightarrow> v\<close>, with the backward flag the road arc \<open>v \<rightarrow> u\<close>.  Path
  lengths are integers; the program keeps them in \<^verbatim>\<open>int\<close> and relies on routes being shorter than
  \<open>2 ^ 31\<close> deciseconds.
\<close>

section \<open>The search step\<close>

fun stall_loop ::
    "EdgeData StaticGraph \<Rightarrow> bool \<Rightarrow> int \<Rightarrow> EdgeID list \<Rightarrow> QueryHeap \<Rightarrow> (bool \<times> QueryHeap) option" where
  "stall_loop g forward_direction distance [] query_heap = Some (False, query_heap)"
| "stall_loop g forward_direction distance (edge # es) query_heap = do {
     d \<leftarrow> sg_GetEdgeData g edge;
     let reverse_flag = (if \<not> forward_direction then ed_forward d else ed_backward d);
     if reverse_flag then do {
       to \<leftarrow> sg_GetTarget g edge;
       let edge_weight = ed_distance d;
       assert_that (edge_weight > 0);
       (inserted, query_heap) \<leftarrow> heap_WasInserted UnorderedMapStorage query_heap to;
       if inserted then do {
         (key, query_heap) \<leftarrow> heap_GetKey UnorderedMapStorage query_heap to;
         if key + edge_weight < distance then Some (True, query_heap)
         else stall_loop g forward_direction distance es query_heap
       } else stall_loop g forward_direction distance es query_heap
     } else stall_loop g forward_direction distance es query_heap
   }"

definition StallAtNode ::
    "EdgeData StaticGraph \<Rightarrow> bool \<Rightarrow> NodeID \<Rightarrow> int \<Rightarrow> QueryHeap \<Rightarrow> (bool \<times> QueryHeap) option" where
  "StallAtNode g forward_direction node distance query_heap = do {
     es \<leftarrow> sg_GetAdjacentEdgeRange g node;
     stall_loop g forward_direction distance es query_heap
   }"

definition relax_edge ::
    "EdgeData StaticGraph \<Rightarrow> bool \<Rightarrow> NodeID \<Rightarrow> int \<Rightarrow> EdgeID \<Rightarrow> QueryHeap \<Rightarrow> QueryHeap option" where
  "relax_edge g forward_direction node distance edge query_heap = do {
     d \<leftarrow> sg_GetEdgeData g edge;
     let direction_flag = (if forward_direction then ed_forward d else ed_backward d);
     if direction_flag then do {
       to \<leftarrow> sg_GetTarget g edge;
       let edge_weight = ed_distance d;
       assert_that (edge_weight > 0);
       let to_distance = distance + edge_weight;
       (inserted, query_heap) \<leftarrow> heap_WasInserted UnorderedMapStorage query_heap to;
       if \<not> inserted then heap_Insert UnorderedMapStorage query_heap to to_distance \<lparr> parent = node \<rparr>
       else do {
         (key, query_heap) \<leftarrow> heap_GetKey UnorderedMapStorage query_heap to;
         if to_distance < key then do {
           query_heap \<leftarrow> heap_SetData UnorderedMapStorage query_heap to \<lparr> parent = node \<rparr>;
           heap_DecreaseKey UnorderedMapStorage query_heap to to_distance
         } else Some query_heap
       }
     } else Some query_heap
   }"

fun relax_loop ::
    "EdgeData StaticGraph \<Rightarrow> bool \<Rightarrow> NodeID \<Rightarrow> int \<Rightarrow> EdgeID list \<Rightarrow> QueryHeap \<Rightarrow> QueryHeap option" where
  "relax_loop g forward_direction node distance [] query_heap = Some query_heap"
| "relax_loop g forward_direction node distance (edge # es) query_heap = do {
     query_heap \<leftarrow> relax_edge g forward_direction node distance edge query_heap;
     relax_loop g forward_direction node distance es query_heap
   }"

definition RelaxOutgoingEdges ::
    "EdgeData StaticGraph \<Rightarrow> bool \<Rightarrow> NodeID \<Rightarrow> int \<Rightarrow> QueryHeap \<Rightarrow> QueryHeap option" where
  "RelaxOutgoingEdges g forward_direction node distance query_heap = do {
     es \<leftarrow> sg_GetAdjacentEdgeRange g node;
     relax_loop g forward_direction node distance es query_heap
   }"

text \<open>The check for a better meeting node at the start of \<open>RoutingStep\<close>.\<close>

definition meet_check ::
    "QueryHeap \<Rightarrow> NodeID \<Rightarrow> int \<Rightarrow> NodeID \<Rightarrow> int \<Rightarrow> (QueryHeap \<times> NodeID \<times> int) option" where
  "meet_check reverse_heap node distance middle_node_id upper_bound = do {
     (inserted, reverse_heap) \<leftarrow> heap_WasInserted UnorderedMapStorage reverse_heap node;
     if inserted then do {
       (key, reverse_heap) \<leftarrow> heap_GetKey UnorderedMapStorage reverse_heap node;
       let new_distance = key + distance;
       if new_distance < upper_bound then
         if new_distance \<ge> 0 then Some (reverse_heap, node, new_distance)
         else Some (reverse_heap, middle_node_id, upper_bound)
       else Some (reverse_heap, middle_node_id, upper_bound)
     } else Some (reverse_heap, middle_node_id, upper_bound)
   }"

definition RoutingStep ::
    "EdgeData StaticGraph \<Rightarrow> QueryHeap \<Rightarrow> QueryHeap \<Rightarrow> NodeID \<Rightarrow> int \<Rightarrow> int \<Rightarrow> bool \<Rightarrow>
     (QueryHeap \<times> QueryHeap \<times> NodeID \<times> int) option" where
  "RoutingStep g forward_heap reverse_heap middle_node_id upper_bound min_edge_offset forward_direction = do {
     (node, forward_heap) \<leftarrow> heap_DeleteMin forward_heap;
     (distance, forward_heap) \<leftarrow> heap_GetKey UnorderedMapStorage forward_heap node;
     (reverse_heap, middle_node_id, upper_bound) \<leftarrow>
       meet_check reverse_heap node distance middle_node_id upper_bound;
     if distance + min_edge_offset > upper_bound then do {
       forward_heap \<leftarrow> heap_DeleteAll forward_heap;
       Some (forward_heap, reverse_heap, middle_node_id, upper_bound)
     } else do {
       (stalled, forward_heap) \<leftarrow> StallAtNode g forward_direction node distance forward_heap;
       if stalled then Some (forward_heap, reverse_heap, middle_node_id, upper_bound)
       else do {
         forward_heap \<leftarrow> RelaxOutgoingEdges g forward_direction node distance forward_heap;
         Some (forward_heap, reverse_heap, middle_node_id, upper_bound)
       }
     }
   }"

text \<open>One round and the loop: one step per direction until both heaps are empty.\<close>

definition search_round ::
    "EdgeData StaticGraph \<Rightarrow> int \<Rightarrow> QueryHeap \<times> QueryHeap \<times> NodeID \<times> int \<Rightarrow>
     (QueryHeap \<times> QueryHeap \<times> NodeID \<times> int) option" where
  "search_round g min_edge_offset = (\<lambda>(forward_heap, reverse_heap, middle, upper_bound). do {
     (forward_heap, reverse_heap, middle, upper_bound) \<leftarrow>
       (if \<not> heap_Empty forward_heap
        then RoutingStep g forward_heap reverse_heap middle upper_bound min_edge_offset True
        else Some (forward_heap, reverse_heap, middle, upper_bound));
     (reverse_heap, forward_heap, middle, upper_bound) \<leftarrow>
       (if \<not> heap_Empty reverse_heap
        then RoutingStep g reverse_heap forward_heap middle upper_bound min_edge_offset False
        else Some (reverse_heap, forward_heap, middle, upper_bound));
     Some (forward_heap, reverse_heap, middle, upper_bound)
   })"

partial_function (option) search_loop ::
    "EdgeData StaticGraph \<Rightarrow> int \<Rightarrow> QueryHeap \<times> QueryHeap \<times> NodeID \<times> int \<Rightarrow>
     (QueryHeap \<times> QueryHeap \<times> NodeID \<times> int) option" where
  "search_loop g min_edge_offset s =
     (if 0 < heap_Size (fst s) + heap_Size (fst (snd s)) then do {
        s \<leftarrow> search_round g min_edge_offset s;
        search_loop g min_edge_offset s
      } else Some s)"

section \<open>The search graph\<close>

text \<open>The arcs that a search in direction \<open>fwd\<close> relaxes at a node, with their weights.\<close>

definition flagged :: "EdgeData StaticGraph \<Rightarrow> bool \<Rightarrow> EdgeID \<Rightarrow> bool" where
  "flagged g fwd e = (if fwd then ed_forward (de_data (edge_array g ! e)) else ed_backward (de_data (edge_array g ! e)))"

definition arcs_at :: "EdgeData StaticGraph \<Rightarrow> bool \<Rightarrow> EdgeID list \<Rightarrow> (NodeID \<times> int) list" where
  "arcs_at g fwd es = map (\<lambda>e. (de_target (edge_array g ! e), ed_distance (de_data (edge_array g ! e))))
     (filter (flagged g fwd) es)"

definition arcs :: "EdgeData StaticGraph \<Rightarrow> bool \<Rightarrow> NodeID \<Rightarrow> (NodeID \<times> int) list" where
  "arcs g fwd u = (if u < sg_number_of_nodes g
     then arcs_at g fwd (irange (node_array g ! u) (node_array g ! (u + 1))) else [])"

text \<open>Well-formed query graphs: edge targets are nodes, distances positive.\<close>

definition query_graph :: "EdgeData StaticGraph \<Rightarrow> bool" where
  "query_graph g \<longleftrightarrow> sg_inv g \<and> (\<forall>u < sg_number_of_nodes g. \<forall>e \<in> sg_range g u.
     de_target (edge_array g ! e) < sg_number_of_nodes g \<and> ed_distance (de_data (edge_array g ! e)) > 0)"

lemma query_graph_arcs:
  assumes "query_graph g" "u < sg_number_of_nodes g" "(v, w) \<in> set (arcs g fwd u)"
  shows "v < sg_number_of_nodes g" "0 < w"
  using assms by (auto simp: query_graph_def arcs_def arcs_at_def sg_range_def)

text \<open>
  A road arc in search direction: stored at its tail with the flag of the direction or at its head
  with the opposite flag.  Walks over road arcs, and the upward walks a search can take.
\<close>

definition dir_arc :: "EdgeData StaticGraph \<Rightarrow> bool \<Rightarrow> NodeID \<Rightarrow> NodeID \<Rightarrow> int \<Rightarrow> bool" where
  "dir_arc g fwd x y w \<longleftrightarrow> (y, w) \<in> set (arcs g fwd x) \<or> (x, w) \<in> set (arcs g (\<not> fwd) y)"

inductive road_walk :: "EdgeData StaticGraph \<Rightarrow> bool \<Rightarrow> NodeID \<Rightarrow> NodeID \<Rightarrow> int \<Rightarrow> bool"
  for g fwd s where
  road_refl: "road_walk g fwd s s 0"
| road_step: "road_walk g fwd s x w \<Longrightarrow> dir_arc g fwd x y c \<Longrightarrow> road_walk g fwd s y (w + c)"

inductive up_walk :: "EdgeData StaticGraph \<Rightarrow> bool \<Rightarrow> NodeID \<Rightarrow> NodeID \<Rightarrow> int \<Rightarrow> bool"
  for g fwd s where
  up_refl: "up_walk g fwd s s 0"
| up_step: "up_walk g fwd s x w \<Longrightarrow> (y, c) \<in> set (arcs g fwd x) \<Longrightarrow> up_walk g fwd s y (w + c)"

lemma up_walk_road: "up_walk g fwd s x w \<Longrightarrow> road_walk g fwd s x w"
  by (induction rule: up_walk.induct) (auto intro: road_walk.intros simp: dir_arc_def)

text \<open>
  \<open>S\<close> maps the start nodes of a search to their offsets.  \<open>d\<close> is optimal for \<open>v\<close> when no road walk
  from a start node reaches \<open>v\<close> earlier; a node is exact when an upward walk of optimal nodes
  leads to it.
\<close>

definition optimal :: "EdgeData StaticGraph \<Rightarrow> bool \<Rightarrow> (NodeID \<rightharpoonup> int) \<Rightarrow> NodeID \<Rightarrow> int \<Rightarrow> bool" where
  "optimal g fwd S v d \<longleftrightarrow> (\<forall>s off w. S s = Some off \<longrightarrow> road_walk g fwd s v w \<longrightarrow> d \<le> off + w)"

inductive exact :: "EdgeData StaticGraph \<Rightarrow> bool \<Rightarrow> (NodeID \<rightharpoonup> int) \<Rightarrow> NodeID \<Rightarrow> int \<Rightarrow> bool"
  for g fwd S where
  exact_source: "S s = Some off \<Longrightarrow> optimal g fwd S s off \<Longrightarrow> exact g fwd S s off"
| exact_arc: "exact g fwd S u d \<Longrightarrow> (v, w) \<in> set (arcs g fwd u) \<Longrightarrow> optimal g fwd S v (d + w) \<Longrightarrow>
    exact g fwd S v (d + w)"

lemma exact_optimal: "exact g fwd S v d \<Longrightarrow> optimal g fwd S v d"
  by (induction rule: exact.induct)

section \<open>The step on abstract queues\<close>

text \<open>The relaxation of one arc and the stalling test, on the abstract heap.\<close>

definition abs_relax :: "NodeID \<Rightarrow> int \<Rightarrow> NodeID \<times> int \<Rightarrow> (NodeID, HeapData) abs_heap \<Rightarrow> (NodeID, HeapData) abs_heap" where
  "abs_relax node d arc a = (case ah_key a (fst arc) of
      None \<Rightarrow> abs_insert a (fst arc) (d + snd arc) \<lparr> parent = node \<rparr>
    | Some k \<Rightarrow> if d + snd arc < k
        then abs_decrease (abs_set_data a (fst arc) \<lparr> parent = node \<rparr>) (fst arc) (d + snd arc) else a)"

definition abs_stalled :: "(NodeID \<times> int) list \<Rightarrow> int \<Rightarrow> (NodeID, 'd) abs_heap \<Rightarrow> bool" where
  "abs_stalled xs d a \<longleftrightarrow> (\<exists>(v, w) \<in> set xs. \<exists>k. ah_key a v = Some k \<and> k + w < d)"

abbreviation settled :: "('n, 'd) abs_heap \<Rightarrow> 'n set" where
  "settled a \<equiv> dom (ah_key a) - ah_queue a"

definition refines :: "QueryHeap \<Rightarrow> (NodeID, HeapData) abs_heap \<Rightarrow> bool" where
  "refines h a \<longleftrightarrow> query_inv h \<and> abs_of h = a"

lemma refines_key_min:
  assumes "refines h a" "ah_key a n = Some k"
  shows "INT_MIN \<le> k"
proof -
  obtain hn where "hn \<in> set (inserted_nodes h)" "hn_weight hn = k"
    using assms by (auto simp: refines_def abs_of_def abs_nodes_def dest!: map_of_SomeD)
  then show ?thesis using assms by (auto simp: refines_def heap_inv_def tree_inv_def)
qed

lemma refines_WasInserted:
  "refines h a \<Longrightarrow> \<exists>h'. heap_WasInserted UnorderedMapStorage h n = Some (n \<in> dom (ah_key a), h') \<and> refines h' a"
  using unordered_map_storage.WasInserted_correct [of h n] by (auto simp: refines_def)

lemma refines_GetKey:
  "refines h a \<Longrightarrow> ah_key a n = Some k \<Longrightarrow>
   \<exists>h'. heap_GetKey UnorderedMapStorage h n = Some (k, h') \<and> refines h' a"
  using unordered_map_storage.GetKey_correct [of h n k] by (auto simp: refines_def)

lemma refines_Insert:
  "refines h a \<Longrightarrow> ah_key a n = None \<Longrightarrow> INT_MIN \<le> w \<Longrightarrow>
   \<exists>h'. heap_Insert UnorderedMapStorage h n w d = Some h' \<and> refines h' (abs_insert a n w d)"
  using unordered_map_storage.Insert_correct [of h n w d] by (auto simp: refines_def)

lemma refines_SetData:
  "refines h a \<Longrightarrow> ah_key a n = Some k \<Longrightarrow>
   \<exists>h'. heap_SetData UnorderedMapStorage h n d = Some h' \<and> refines h' (abs_set_data a n d)"
  using unordered_map_storage.SetData_correct [of h n k d] by (auto simp: refines_def)

lemma refines_DecreaseKey:
  "refines h a \<Longrightarrow> ah_key a n = Some k \<Longrightarrow> n \<in> ah_queue a \<Longrightarrow> INT_MIN \<le> w \<Longrightarrow> w \<le> k \<Longrightarrow>
   \<exists>h'. heap_DecreaseKey UnorderedMapStorage h n w = Some h' \<and> refines h' (abs_decrease a n w)"
  using unordered_map_storage.DecreaseKey_correct [of h n k w] by (auto simp: refines_def)

lemma refines_DeleteMin:
  "refines h a \<Longrightarrow> ah_queue a \<noteq> {} \<Longrightarrow>
   \<exists>n h'. heap_DeleteMin h = Some (n, h') \<and> is_min a n \<and> refines h' (abs_remove a n)"
  using unordered_map_storage.DeleteMin_correct [of h] by (auto simp: refines_def)

lemma refines_DeleteAll:
  "refines h a \<Longrightarrow> \<exists>h'. heap_DeleteAll h = Some h' \<and> refines h' (a\<lparr> ah_queue := {} \<rparr>)"
  using unordered_map_storage.DeleteAll_correct [of h] by (auto simp: refines_def)

lemma refines_Empty: "refines h a \<Longrightarrow> heap_Empty h \<longleftrightarrow> ah_queue a = {}"
  using unordered_map_storage.Empty_correct [of h] by (auto simp: refines_def)

lemma stall_loop_refines:
  assumes "refines h a" "\<forall>e \<in> set es. e < length (edge_array g) \<and> ed_distance (de_data (edge_array g ! e)) > 0"
  shows "\<exists>h'. stall_loop g fwd d es h = Some (abs_stalled (arcs_at g (\<not> fwd) es) d a, h') \<and> refines h' a"
  using assms
proof (induction es arbitrary: h)
  case (Cons e es)
  let ?x = "edge_array g ! e"
  have get: "sg_GetEdgeData g e = Some (de_data ?x)" "sg_GetTarget g e = Some (de_target ?x)"
    using Cons.prems(2) by (simp_all add: sg_GetEdgeData_def sg_GetTarget_def vec_simps)
  have pos: "ed_distance (de_data ?x) > 0" using Cons.prems(2) by simp
  have IH: "refines h' a \<Longrightarrow> \<exists>h''. stall_loop g fwd d es h' = Some (abs_stalled (arcs_at g (\<not> fwd) es) d a, h'') \<and> refines h'' a" for h'
    using Cons.IH Cons.prems(2) by simp
  show ?case
  proof (cases "flagged g (\<not> fwd) e")
    case False
    then have "stall_loop g fwd d (e # es) h = stall_loop g fwd d es h"
      by (auto simp: get flagged_def Let_def split: if_splits)
    then show ?thesis using IH [OF Cons.prems(1)] False by (simp add: arcs_at_def)
  next
    case True
    obtain h1 where h1: "heap_WasInserted UnorderedMapStorage h (de_target ?x) = Some (de_target ?x \<in> dom (ah_key a), h1)" "refines h1 a"
      using refines_WasInserted [OF Cons.prems(1)] by blast
    have flag: "(if \<not> fwd then ed_forward (de_data ?x) else ed_backward (de_data ?x))"
      using True by (auto simp: flagged_def split: if_splits)
    have arcs: "arcs_at g (\<not> fwd) (e # es) = (de_target ?x, ed_distance (de_data ?x)) # arcs_at g (\<not> fwd) es"
      using True by (simp add: arcs_at_def)
    show ?thesis
    proof (cases "ah_key a (de_target ?x)")
      case None
      then have "stall_loop g fwd d (e # es) h = stall_loop g fwd d es h1"
        using h1 flag pos by (simp add: get Let_def dom_def)
      then show ?thesis using IH [OF h1(2)] None by (simp add: arcs abs_stalled_def)
    next
      case (Some k)
      obtain h2 where h2: "heap_GetKey UnorderedMapStorage h1 (de_target ?x) = Some (k, h2)" "refines h2 a"
        using refines_GetKey [OF h1(2) Some] by blast
      have "stall_loop g fwd d (e # es) h =
          (if k + ed_distance (de_data ?x) < d then Some (True, h2) else stall_loop g fwd d es h2)"
        using h1 h2 flag pos Some by (simp add: get Let_def dom_def)
      then show ?thesis using IH [OF h2(2)] h2(2) Some by (simp add: arcs abs_stalled_def)
    qed
  qed
qed (simp add: arcs_at_def abs_stalled_def)

text \<open>Settled nodes have keys of at most \<open>d\<close>: a relaxation never touches them.\<close>

definition settled_le :: "int \<Rightarrow> ('n, 'd) abs_heap \<Rightarrow> bool" where
  "settled_le d a \<longleftrightarrow> (\<forall>v k. ah_key a v = Some k \<longrightarrow> v \<notin> ah_queue a \<longrightarrow> k \<le> d)"

lemma settled_leD: "settled_le d a \<Longrightarrow> ah_key a v = Some k \<Longrightarrow> d < k \<Longrightarrow> v \<in> ah_queue a"
  unfolding settled_le_def by (meson leD)

lemma relax_edge_refines:
  assumes h: "refines h a" and e: "e < length (edge_array g)" and pos: "ed_distance (de_data (edge_array g ! e)) > 0"
    and le: "settled_le d a" and d: "INT_MIN \<le> d"
  shows "\<exists>h'. relax_edge g fwd n d e h = Some h' \<and> refines h' (fold (abs_relax n d) (arcs_at g fwd [e]) a)"
proof -
  let ?v = "de_target (edge_array g ! e)" and ?w = "ed_distance (de_data (edge_array g ! e))"
  have get: "sg_GetEdgeData g e = Some (de_data (edge_array g ! e))" "sg_GetTarget g e = Some ?v"
    using e by (simp_all add: sg_GetEdgeData_def sg_GetTarget_def vec_simps)
  show ?thesis
  proof (cases "flagged g fwd e")
    case False
    then show ?thesis using h by (auto simp: relax_edge_def get flagged_def arcs_at_def)
  next
    case True
    have flag: "(if fwd then ed_forward (de_data (edge_array g ! e)) else ed_backward (de_data (edge_array g ! e)))"
      using True by (simp add: flagged_def)
    obtain h1 where h1: "heap_WasInserted UnorderedMapStorage h ?v = Some (?v \<in> dom (ah_key a), h1)" "refines h1 a"
      using refines_WasInserted [OF h] by blast
    show ?thesis
    proof (cases "ah_key a ?v")
      case None
      obtain h2 where "heap_Insert UnorderedMapStorage h1 ?v (d + ?w) \<lparr> parent = n \<rparr> = Some h2"
        "refines h2 (abs_insert a ?v (d + ?w) \<lparr> parent = n \<rparr>)"
        using refines_Insert [OF h1(2) None, of "d + ?w" "\<lparr> parent = n \<rparr>"] d pos by auto
      then show ?thesis using h1 flag pos None True
        by (simp add: relax_edge_def get Let_def dom_def arcs_at_def abs_relax_def)
    next
      case (Some k)
      obtain h2 where h2: "heap_GetKey UnorderedMapStorage h1 ?v = Some (k, h2)" "refines h2 a"
        using refines_GetKey [OF h1(2) Some] by blast
      show ?thesis
      proof (cases "d + ?w < k")
        case False
        then show ?thesis using h1 h2 flag pos Some True
          by (simp add: relax_edge_def get Let_def dom_def arcs_at_def abs_relax_def)
      next
        case lt: True
        then have q: "?v \<in> ah_queue a" using settled_leD [OF le Some] pos by simp
        let ?a = "abs_set_data a ?v \<lparr> parent = n \<rparr>"
        obtain h3 where h3: "heap_SetData UnorderedMapStorage h2 ?v \<lparr> parent = n \<rparr> = Some h3" "refines h3 ?a"
          using refines_SetData [OF h2(2) Some] by blast
        have "ah_key ?a ?v = Some k" "?v \<in> ah_queue ?a" using Some q by (simp_all add: abs_set_data_def)
        then obtain h4 where "heap_DecreaseKey UnorderedMapStorage h3 ?v (d + ?w) = Some h4"
          "refines h4 (abs_decrease ?a ?v (d + ?w))"
          using refines_DecreaseKey [OF h3(2), of ?v k "d + ?w"] lt pos d by auto
        then show ?thesis using h1 h2 h3 flag pos Some lt True
          by (simp add: relax_edge_def get Let_def dom_def arcs_at_def abs_relax_def)
      qed
    qed
  qed
qed

lemma abs_relax_settled_le:
  assumes "settled_le d a" "0 < snd arc"
  shows "settled_le d (abs_relax n d arc a)"
proof (cases "ah_key a (fst arc)")
  case (Some k)
  then have "d + snd arc < k \<Longrightarrow> fst arc \<in> ah_queue a" using settled_leD [OF assms(1) Some] assms(2) by simp
  then show ?thesis using assms(1) Some
    by (auto simp: settled_le_def abs_relax_def abs_decrease_def abs_set_data_def)
qed (use assms(1) in \<open>auto simp: settled_le_def abs_relax_def abs_insert_def\<close>)

lemma relax_loop_refines:
  assumes "refines h a" "\<forall>e \<in> set es. e < length (edge_array g) \<and> ed_distance (de_data (edge_array g ! e)) > 0"
    and "settled_le d a" "INT_MIN \<le> d"
  shows "\<exists>h'. relax_loop g fwd n d es h = Some h' \<and> refines h' (fold (abs_relax n d) (arcs_at g fwd es) a)"
  using assms
proof (induction es arbitrary: h a)
  case (Cons e es)
  obtain h1 where h1: "relax_edge g fwd n d e h = Some h1" "refines h1 (fold (abs_relax n d) (arcs_at g fwd [e]) a)"
    using relax_edge_refines [OF Cons.prems(1), of e g d fwd n] Cons.prems by auto
  have "settled_le d (fold (abs_relax n d) (arcs_at g fwd [e]) a)"
    using Cons.prems(2,3) by (auto simp: arcs_at_def abs_relax_settled_le)
  then obtain h2 where "relax_loop g fwd n d es h1 = Some h2"
    "refines h2 (fold (abs_relax n d) (arcs_at g fwd es) (fold (abs_relax n d) (arcs_at g fwd [e]) a))"
    using Cons.IH [OF h1(2)] Cons.prems by auto
  moreover have "arcs_at g fwd (e # es) = arcs_at g fwd [e] @ arcs_at g fwd es" by (simp add: arcs_at_def)
  ultimately show ?case using h1(1) by simp
qed (simp add: arcs_at_def)

definition abs_meet :: "(NodeID, HeapData) abs_heap \<Rightarrow> NodeID \<Rightarrow> int \<Rightarrow> NodeID \<Rightarrow> int \<Rightarrow> NodeID \<times> int" where
  "abs_meet b n d mid ub = (case ah_key b n of None \<Rightarrow> (mid, ub)
     | Some k \<Rightarrow> if k + d < ub \<and> 0 \<le> k + d then (n, k + d) else (mid, ub))"

lemma meet_check_refines:
  assumes "refines h b"
  shows "\<exists>h'. meet_check h n d mid ub = Some (h', abs_meet b n d mid ub) \<and> refines h' b"
proof -
  obtain h1 where h1: "heap_WasInserted UnorderedMapStorage h n = Some (n \<in> dom (ah_key b), h1)" "refines h1 b"
    using refines_WasInserted [OF assms] by blast
  show ?thesis
  proof (cases "ah_key b n")
    case None
    then show ?thesis using h1 by (simp add: meet_check_def abs_meet_def dom_def)
  next
    case (Some k)
    obtain h2 where "heap_GetKey UnorderedMapStorage h1 n = Some (k, h2)" "refines h2 b"
      using refines_GetKey [OF h1(2) Some] by blast
    then show ?thesis using h1 Some by (auto simp: meet_check_def abs_meet_def dom_def Let_def)
  qed
qed

definition abs_expand ::
    "EdgeData StaticGraph \<Rightarrow> bool \<Rightarrow> NodeID \<Rightarrow> int \<Rightarrow> (NodeID, HeapData) abs_heap \<Rightarrow> (NodeID, HeapData) abs_heap" where
  "abs_expand g fwd n d a =
     (if abs_stalled (arcs g (\<not> fwd) n) d a then a else fold (abs_relax n d) (arcs g fwd n) a)"

text \<open>What is popped: smaller than every queued node and no smaller than every settled one.\<close>

definition ordered :: "('n, 'd) abs_heap \<Rightarrow> bool" where
  "ordered a \<longleftrightarrow> ah_queue a \<subseteq> dom (ah_key a) \<and>
     (\<forall>v k m l. ah_key a v = Some k \<longrightarrow> v \<notin> ah_queue a \<longrightarrow> m \<in> ah_queue a \<longrightarrow> ah_key a m = Some l \<longrightarrow> k \<le> l)"

lemma ordered_min:
  assumes "ordered a" "is_min a n"
  obtains d where "ah_key a n = Some d" "settled_le d (abs_remove a n)"
    "\<And>m l. m \<in> ah_queue a \<Longrightarrow> ah_key a m = Some l \<Longrightarrow> d \<le> l"
proof -
  obtain d where d: "ah_key a n = Some d" using assms by (auto simp: ordered_def is_min_def)
  have "settled_le d (abs_remove a n)"
    using assms d by (auto simp: settled_le_def abs_remove_def ordered_def is_min_def)
  moreover have "d \<le> l" if "m \<in> ah_queue a" "ah_key a m = Some l" for m l
    using assms(2) that d by (auto simp: is_min_def)
  ultimately show thesis using that d by blast
qed

lemma pop_refines:
  assumes F: "refines F a" and ord: "ordered a" and ne: "ah_queue a \<noteq> {}"
  obtains n d F1 F2 where "heap_DeleteMin F = Some (n, F1)" "heap_GetKey UnorderedMapStorage F1 n = Some (d, F2)"
    "refines F2 (abs_remove a n)" "is_min a n" "ah_key a n = Some d"
proof -
  obtain n F1 where F1: "heap_DeleteMin F = Some (n, F1)" "is_min a n" "refines F1 (abs_remove a n)"
    using refines_DeleteMin [OF F ne] by blast
  obtain d where d: "ah_key a n = Some d" using ordered_min [OF ord F1(2)] by blast
  then have "ah_key (abs_remove a n) n = Some d" by (simp add: abs_remove_def)
  then obtain F2 where "heap_GetKey UnorderedMapStorage F1 n = Some (d, F2)" "refines F2 (abs_remove a n)"
    using refines_GetKey [OF F1(3)] by blast
  then show thesis using that F1(1,2) d by blast
qed

text \<open>Stalling and relaxation after the pop.\<close>

lemma expand_refines:
  assumes h: "refines h (abs_remove a n)" and ord: "ordered a" and min: "is_min a n" and d: "ah_key a n = Some d"
    and g: "query_graph g" and nodes: "ah_queue a \<subseteq> {..<sg_number_of_nodes g}"
  obtains st h1 where "StallAtNode g fwd n d h = Some (st, h1)" "st \<longrightarrow> refines h1 (abs_expand g fwd n d (abs_remove a n))"
    "\<not> st \<longrightarrow> (\<exists>h2. RelaxOutgoingEdges g fwd n d h1 = Some h2 \<and> refines h2 (abs_expand g fwd n d (abs_remove a n)))"
proof -
  have n: "n < sg_number_of_nodes g" using min nodes by (auto simp: is_min_def)
  have inv: "sg_inv g" using g by (simp add: query_graph_def)
  have le: "settled_le d (abs_remove a n)" using ordered_min [OF ord min] d by fastforce
  let ?es = "irange (node_array g ! n) (node_array g ! (n + 1))"
  have es: "\<forall>e \<in> set ?es. e < length (edge_array g) \<and> ed_distance (de_data (edge_array g ! e)) > 0"
    using g n sg_range_valid(1) [OF inv n] by (auto simp: query_graph_def sg_range_def)
  let ?st = "abs_stalled (arcs g (\<not> fwd) n) d (abs_remove a n)"
  obtain h1 where h1: "stall_loop g fwd d ?es h = Some (?st, h1)" "refines h1 (abs_remove a n)"
    using stall_loop_refines [OF h es, of fwd d] n by (auto simp: arcs_def)
  have "INT_MIN \<le> d" using refines_key_min [OF h, of n d] d by (simp add: abs_remove_def)
  then obtain h2 where "relax_loop g fwd n d ?es h1 = Some h2"
    "refines h2 (fold (abs_relax n d) (arcs g fwd n) (abs_remove a n))"
    using relax_loop_refines [OF h1(2) es le, of fwd n] n by (auto simp: arcs_def)
  then show thesis using that [of ?st h1] h1
    by (simp add: StallAtNode_def RelaxOutgoingEdges_def sg_Range [OF inv n] abs_expand_def)
qed

lemma RoutingStep_refines:
  assumes F: "refines F a" and R: "refines R b" and ord: "ordered a" and ne: "ah_queue a \<noteq> {}"
    and g: "query_graph g" and nodes: "ah_queue a \<subseteq> {..<sg_number_of_nodes g}"
  shows "\<exists>n d F' R' mid' ub'. is_min a n \<and> ah_key a n = Some d \<and> abs_meet b n d mid ub = (mid', ub') \<and>
    RoutingStep g F R mid ub meo fwd = Some (F', R', mid', ub') \<and> refines R' b \<and>
    refines F' (if d + meo > ub' then a\<lparr> ah_queue := {} \<rparr> else abs_expand g fwd n d (abs_remove a n))"
proof -
  obtain n d F1 F2 where F1: "heap_DeleteMin F = Some (n, F1)" "heap_GetKey UnorderedMapStorage F1 n = Some (d, F2)"
    "refines F2 (abs_remove a n)" and n: "is_min a n" "ah_key a n = Some d"
    by (rule pop_refines [OF F ord ne])
  obtain mid' ub' where m: "abs_meet b n d mid ub = (mid', ub')" by fastforce
  obtain R' where R': "meet_check R n d mid ub = Some (R', mid', ub')" "refines R' b"
    using meet_check_refines [OF R, of n d mid ub] m by auto
  show ?thesis
  proof (cases "d + meo > ub'")
    case True
    obtain F3 where "heap_DeleteAll F2 = Some F3" "refines F3 ((abs_remove a n)\<lparr> ah_queue := {} \<rparr>)"
      using refines_DeleteAll [OF F1(3)] by blast
    moreover have "(abs_remove a n)\<lparr> ah_queue := {} \<rparr> = a\<lparr> ah_queue := {} \<rparr>" by (simp add: abs_remove_def)
    ultimately show ?thesis using F1(1,2) R' m n True by (auto simp: RoutingStep_def)
  next
    case False
    obtain st F3 where st: "StallAtNode g fwd n d F2 = Some (st, F3)" "st \<longrightarrow> refines F3 (abs_expand g fwd n d (abs_remove a n))"
      "\<not> st \<longrightarrow> (\<exists>h2. RelaxOutgoingEdges g fwd n d F3 = Some h2 \<and> refines h2 (abs_expand g fwd n d (abs_remove a n)))"
      by (rule expand_refines [OF F1(3) ord n g nodes])
    obtain F4 where "RoutingStep g F R mid ub meo fwd = Some (F4, R', mid', ub')"
      "refines F4 (abs_expand g fwd n d (abs_remove a n))"
    proof (cases st)
      case True
      then show thesis using that [of F3] st F1(1,2) R'(1) False by (simp add: RoutingStep_def)
    next
      case relax: False
      then obtain h2 where "RelaxOutgoingEdges g fwd n d F3 = Some h2" "refines h2 (abs_expand g fwd n d (abs_remove a n))"
        using st(3) by blast
      then show thesis using that [of h2] st(1) F1(1,2) R'(1) False relax by (simp add: RoutingStep_def)
    qed
    then show ?thesis using n m R'(2) False by auto
  qed
qed

end
