(* ===== verification/Search_Correct.thy ===== *)
theory Search_Correct
  imports Search
begin

text \<open>
  Correctness of the bidirectional search.  The invariants are stated on the abstract queues of the
  two heaps; \<open>RoutingStep_refines\<close> carries them over to the code.  Shown are: the search ends; its
  bound is the length of a road walk through the meeting node; and the bound is at most the length
  of every route that climbs from both ends over optimal nodes, which is what a contraction
  hierarchy guarantees for a shortest route.
\<close>

section \<open>Invariant of one direction\<close>

text \<open>
  The parent of a node is the node itself with its offset, or a settled node with an arc to it that
  accounts for the key.
\<close>

definition parent_ok :: "EdgeData StaticGraph \<Rightarrow> bool \<Rightarrow> (NodeID \<rightharpoonup> int) \<Rightarrow> (NodeID, HeapData) abs_heap \<Rightarrow> NodeID \<Rightarrow> int \<Rightarrow> bool" where
  "parent_ok g fwd S a n k \<longleftrightarrow> (\<exists>p. ah_data a n = Some \<lparr> parent = p \<rparr> \<and>
     (p = n \<and> S n = Some k \<or>
      p \<in> settled a \<and> (\<exists>l w. ah_key a p = Some l \<and> (n, w) \<in> set (arcs g fwd p) \<and> k = l + w)))"

definition core :: "EdgeData StaticGraph \<Rightarrow> bool \<Rightarrow> (NodeID \<rightharpoonup> int) \<Rightarrow> (NodeID, HeapData) abs_heap \<Rightarrow> bool" where
  "core g fwd S a \<longleftrightarrow> ordered a \<and> dom (ah_key a) \<subseteq> {..<sg_number_of_nodes g} \<and>
     (\<forall>s off. S s = Some off \<longrightarrow> (\<exists>k \<le> off. ah_key a s = Some k)) \<and>
     (\<forall>n k. ah_key a n = Some k \<longrightarrow> (\<exists>s off w. S s = Some off \<and> up_walk g fwd s n w \<and> k = off + w)) \<and>
     (\<forall>n k. ah_key a n = Some k \<longrightarrow> parent_ok g fwd S a n k)"

text \<open>Every settled node was stalled or has relaxed its arcs.\<close>

definition done_at :: "EdgeData StaticGraph \<Rightarrow> bool \<Rightarrow> (NodeID, HeapData) abs_heap \<Rightarrow> NodeID \<Rightarrow> int \<Rightarrow> bool" where
  "done_at g fwd a u k \<longleftrightarrow> abs_stalled (arcs g (\<not> fwd) u) k a \<or>
     (\<forall>(v, w) \<in> set (arcs g fwd u). \<exists>l \<le> k + w. ah_key a v = Some l)"

definition relaxed :: "EdgeData StaticGraph \<Rightarrow> bool \<Rightarrow> (NodeID, HeapData) abs_heap \<Rightarrow> bool" where
  "relaxed g fwd a \<longleftrightarrow> (\<forall>u k. ah_key a u = Some k \<longrightarrow> u \<notin> ah_queue a \<longrightarrow> done_at g fwd a u k)"

text \<open>What a relaxation may change: keys of queued nodes go down, new nodes join the queue.\<close>

definition improves :: "(NodeID, HeapData) abs_heap \<Rightarrow> (NodeID, HeapData) abs_heap \<Rightarrow> bool" where
  "improves a a' \<longleftrightarrow> (\<forall>v k. ah_key a v = Some k \<longrightarrow> (\<exists>k' \<le> k. ah_key a' v = Some k')) \<and>
     settled a' = settled a \<and> (\<forall>v \<in> settled a. ah_key a' v = ah_key a v \<and> ah_data a' v = ah_data a v)"

lemma improves_refl: "improves a a"
  by (auto simp: improves_def)

lemma improvesD:
  assumes "improves a a'"
  shows "ah_key a v = Some k \<Longrightarrow> \<exists>k' \<le> k. ah_key a' v = Some k'" "settled a' = settled a"
    "v \<in> settled a \<Longrightarrow> ah_key a' v = ah_key a v" "v \<in> settled a \<Longrightarrow> ah_data a' v = ah_data a v"
  using assms unfolding improves_def by blast+

lemma improves_trans:
  assumes "improves a b" "improves b c"
  shows "improves a c"
proof -
  have "\<exists>k' \<le> k. ah_key c v = Some k'" if v: "ah_key a v = Some k" for v k
  proof -
    obtain l where l: "l \<le> k" "ah_key b v = Some l" using improvesD(1) [OF assms(1) v] by blast
    then show ?thesis using improvesD(1) [OF assms(2) l(2)] by (auto intro: order_trans)
  qed
  moreover have "settled c = settled a" using improvesD(2) [OF assms(1)] improvesD(2) [OF assms(2)] by simp
  moreover have "ah_key c v = ah_key a v \<and> ah_data c v = ah_data a v" if v: "v \<in> settled a" for v
  proof -
    have "v \<in> settled b" using v improvesD(2) [OF assms(1)] by simp
    then show ?thesis
      using improvesD(3,4) [OF assms(1) v] improvesD(3,4) [OF assms(2)] by simp
  qed
  ultimately show ?thesis unfolding improves_def by blast
qed

lemma done_at_improves: "done_at g fwd a u k \<Longrightarrow> improves a a' \<Longrightarrow> done_at g fwd a' u k"
proof -
  assume d: "done_at g fwd a u k" and i: "improves a a'"
  have imp: "\<exists>l' \<le> l. ah_key a' v = Some l'" if "ah_key a v = Some l" for v l
    using i that unfolding improves_def by blast
  show ?thesis
  proof (cases "abs_stalled (arcs g (\<not> fwd) u) k a")
    case True
    then obtain v w l where "(v, w) \<in> set (arcs g (\<not> fwd) u)" "ah_key a v = Some l" "l + w < k"
      by (auto simp: abs_stalled_def)
    moreover from this obtain l' where "l' \<le> l" "ah_key a' v = Some l'" using imp by blast
    ultimately show ?thesis unfolding done_at_def abs_stalled_def by force
  next
    case False
    then have "\<forall>(v, w) \<in> set (arcs g fwd u). \<exists>l \<le> k + w. ah_key a v = Some l" using d by (simp add: done_at_def)
    then have "\<forall>(v, w) \<in> set (arcs g fwd u). \<exists>l \<le> k + w. ah_key a' v = Some l"
      using imp by (fastforce intro: order_trans)
    then show ?thesis by (simp add: done_at_def)
  qed
qed

text \<open>During a step: the popped node is settled with key \<open>d\<close>, which separates settled and queued keys.\<close>

definition frontier :: "int \<Rightarrow> ('n, 'd) abs_heap \<Rightarrow> bool" where
  "frontier d a \<longleftrightarrow> ah_queue a \<subseteq> dom (ah_key a) \<and> settled_le d a \<and>
     (\<forall>m \<in> ah_queue a. \<forall>l. ah_key a m = Some l \<longrightarrow> d \<le> l)"

lemma frontier_ordered:
  assumes "frontier d a"
  shows "ordered a"
proof -
  have "k \<le> l" if "ah_key a v = Some k" "v \<notin> ah_queue a" "m \<in> ah_queue a" "ah_key a m = Some l" for v k m l
  proof -
    have "k \<le> d" using assms that(1,2) unfolding frontier_def settled_le_def by blast
    moreover have "d \<le> l" using assms that(3,4) unfolding frontier_def by blast
    ultimately show ?thesis by simp
  qed
  then show ?thesis using assms unfolding ordered_def frontier_def by blast
qed

text \<open>The two ways a relaxation changes the queue, as one.\<close>

lemma abs_relax_cases:
  assumes "frontier d a" "0 < w"
  obtains (skip) k where "ah_key a v = Some k" "k \<le> d + w" "abs_relax n d (v, w) a = a"
    | (set) "\<And>k. ah_key a v = Some k \<Longrightarrow> d + w < k" "v \<notin> settled a"
        "ah_key (abs_relax n d (v, w) a) = (ah_key a)(v \<mapsto> d + w)"
        "ah_data (abs_relax n d (v, w) a) = (ah_data a)(v \<mapsto> \<lparr> parent = n \<rparr>)"
        "ah_queue (abs_relax n d (v, w) a) = insert v (ah_queue a)"
proof (cases "ah_key a v")
  case None
  then show thesis using set by (auto simp: abs_relax_def abs_insert_def)
next
  case (Some k)
  show thesis
  proof (cases "d + w < k")
    case True
    then have "v \<in> ah_queue a"
      using settled_leD [of d a v k] assms Some by (simp add: frontier_def)
    then show thesis using set Some True
      by (auto simp: abs_relax_def abs_decrease_def abs_set_data_def insert_absorb)
  next
    case False
    then show thesis using skip [of k] Some by (simp add: abs_relax_def)
  qed
qed

lemma abs_relax_improves:
  assumes "frontier d a" "0 < w"
  shows "improves a (abs_relax n d (v, w) a)" "frontier d (abs_relax n d (v, w) a)"
    "\<exists>k \<le> d + w. ah_key (abs_relax n d (v, w) a) v = Some k"
proof -
  have "improves a (abs_relax n d (v, w) a) \<and> frontier d (abs_relax n d (v, w) a) \<and>
    (\<exists>k \<le> d + w. ah_key (abs_relax n d (v, w) a) v = Some k)"
    using assms
  proof (cases rule: abs_relax_cases [of d a w v n, case_names skip set])
    case (skip k)
    then show ?thesis using assms by (auto intro: improves_refl)
  next
    case set
    have "improves a (abs_relax n d (v, w) a)"
      using set by (auto simp: improves_def)
    moreover have "frontier d (abs_relax n d (v, w) a)"
      using set assms by (auto simp: frontier_def settled_le_def)
    ultimately show ?thesis using set by auto
  qed
  then show "improves a (abs_relax n d (v, w) a)" "frontier d (abs_relax n d (v, w) a)"
    "\<exists>k \<le> d + w. ah_key (abs_relax n d (v, w) a) v = Some k" by blast+
qed

lemma parent_ok_improves:
  assumes "parent_ok g fwd S a n k" "improves a a'" "ah_data a' n = ah_data a n"
  shows "parent_ok g fwd S a' n k"
proof -
  obtain p where p: "ah_data a n = Some \<lparr> parent = p \<rparr>" "p = n \<and> S n = Some k \<or>
      p \<in> settled a \<and> (\<exists>l w. ah_key a p = Some l \<and> (n, w) \<in> set (arcs g fwd p) \<and> k = l + w)"
    using assms(1) by (auto simp: parent_ok_def)
  have "p \<in> settled a \<Longrightarrow> p \<in> settled a' \<and> ah_key a' p = ah_key a p" using assms(2) by (simp add: improves_def)
  then show ?thesis using p assms(3) unfolding parent_ok_def by metis
qed

lemma abs_relax_core:
  assumes core: "core g fwd S a" and fr: "frontier d a" and n: "n \<in> settled a" "ah_key a n = Some d"
    and arc: "(v, w) \<in> set (arcs g fwd n)" and g: "query_graph g"
  shows "core g fwd S (abs_relax n d (v, w) a)"
proof -
  let ?a = "abs_relax n d (v, w) a"
  have "n < sg_number_of_nodes g" using core n by (auto simp: core_def)
  then have vw: "v < sg_number_of_nodes g" "0 < w" using query_graph_arcs [OF g _ arc] by blast+
  note imp = abs_relax_improves [OF fr vw(2), of n v]
  from fr vw(2) show ?thesis
  proof (cases rule: abs_relax_cases [of d a w v n, case_names skip set])
    case (skip k)
    then show ?thesis using core by simp
  next
    case set
    have "\<exists>s off x. S s = Some off \<and> up_walk g fwd s m x \<and> k = off + x" if k: "ah_key ?a m = Some k" for m k
    proof (cases "m = v")
      case True
      obtain s off x where s: "S s = Some off" "up_walk g fwd s n x" "d = off + x"
        using core n(2) unfolding core_def by blast
      have "up_walk g fwd s v (x + w)" using up_step [OF s(2) arc] .
      then show ?thesis using s True k set(3) by (intro exI [of _ s] exI [of _ off] exI [of _ "x + w"]) simp
    qed (use core k set(3) in \<open>simp add: core_def\<close>)
    moreover have "parent_ok g fwd S ?a m k" if k: "ah_key ?a m = Some k" for m k
    proof (cases "m = v")
      case True
      have "n \<in> settled ?a" "ah_key ?a n = Some d" using imp(1) n by (auto simp: improves_def)
      then show ?thesis using True k set(3,4) arc unfolding parent_ok_def by auto
    next
      case False
      then have "ah_key a m = Some k" "ah_data ?a m = ah_data a m" using k set(3,4) by auto
      then show ?thesis using core imp(1) parent_ok_improves unfolding core_def by blast
    qed
    moreover have "\<exists>k \<le> off. ah_key ?a s = Some k" if "S s = Some off" for s off
      using core imp(1) that unfolding core_def improves_def by (meson order_trans)
    moreover have "dom (ah_key ?a) \<subseteq> {..<sg_number_of_nodes g}" using core set(3) vw(1) by (auto simp: core_def)
    ultimately show ?thesis using frontier_ordered [OF imp(2)] unfolding core_def by blast
  qed
qed

text \<open>All arcs of the popped node.\<close>

lemma fold_relax:
  assumes "core g fwd S a" "frontier d a" "n \<in> settled a" "ah_key a n = Some d" "query_graph g"
    and "set xs \<subseteq> set (arcs g fwd n)"
  shows "core g fwd S (fold (abs_relax n d) xs a) \<and> frontier d (fold (abs_relax n d) xs a) \<and>
    improves a (fold (abs_relax n d) xs a) \<and> (\<forall>(v, w) \<in> set xs. \<exists>l \<le> d + w. ah_key (fold (abs_relax n d) xs a) v = Some l)"
  using assms
proof (induction xs arbitrary: a)
  case Nil
  then show ?case by (simp add: improves_refl)
next
  case (Cons x xs)
  obtain v w where x: "x = (v, w)" by (cases x)
  let ?a = "abs_relax n d (v, w) a" and ?b = "fold (abs_relax n d) xs (abs_relax n d (v, w) a)"
  have arc: "(v, w) \<in> set (arcs g fwd n)" "n < sg_number_of_nodes g"
    using Cons.prems x by (auto simp: core_def)
  have w: "0 < w" using query_graph_arcs(2) [OF Cons.prems(5) arc(2,1)] .
  note imp = abs_relax_improves [OF Cons.prems(2) w, of n v]
  have n: "n \<in> settled ?a" "ah_key ?a n = Some d" using imp(1) Cons.prems(3,4) by (auto simp: improves_def)
  have IH: "core g fwd S ?b \<and> frontier d ?b \<and> improves ?a ?b \<and> (\<forall>(v, w) \<in> set xs. \<exists>l \<le> d + w. ah_key ?b v = Some l)"
    using Cons.IH [OF abs_relax_core [OF Cons.prems(1-4) arc(1) Cons.prems(5)] imp(2) n Cons.prems(5)] Cons.prems(6) by simp
  moreover have "\<exists>l \<le> d + w. ah_key ?b v = Some l"
    using imp(3) IH unfolding improves_def by (meson order_trans)
  ultimately show ?case using x improves_trans [OF imp(1)] by auto
qed

section \<open>One step\<close>

lemma remove_core:
  assumes core: "core g fwd S a" and min: "is_min a n" and d: "ah_key a n = Some d"
  shows "core g fwd S (abs_remove a n)" "frontier d (abs_remove a n)" "n \<in> settled (abs_remove a n)"
    "settled (abs_remove a n) = insert n (settled a)"
proof -
  let ?b = "abs_remove a n"
  have q: "n \<in> ah_queue a" "ordered a" using min core by (simp_all add: is_min_def core_def)
  have same: "ah_key ?b = ah_key a" "ah_data ?b = ah_data a" "ah_queue ?b = ah_queue a - {n}"
    by (simp_all add: abs_remove_def)
  obtain d' where d': "ah_key a n = Some d'" "settled_le d' ?b" "\<And>m l. m \<in> ah_queue a \<Longrightarrow> ah_key a m = Some l \<Longrightarrow> d' \<le> l"
    using ordered_min [OF q(2) min] by blast
  show st: "n \<in> settled ?b" "settled ?b = insert n (settled a)" using d same q by auto
  show fr: "frontier d ?b" unfolding frontier_def using d' d q(2) same by (auto simp: ordered_def)
  have "parent_ok g fwd S ?b m k" if "ah_key a m = Some k" for m k
  proof -
    have "parent_ok g fwd S a m k" using core that by (simp add: core_def)
    then show ?thesis unfolding parent_ok_def same st(2) by blast
  qed
  then show "core g fwd S ?b" using core frontier_ordered [OF fr] unfolding core_def same by blast
qed

lemma expand_step:
  assumes core: "core g fwd S a" and rel: "relaxed g fwd a" and min: "is_min a n" and d: "ah_key a n = Some d"
    and g: "query_graph g"
  shows "core g fwd S (abs_expand g fwd n d (abs_remove a n))" "relaxed g fwd (abs_expand g fwd n d (abs_remove a n))"
    "improves (abs_remove a n) (abs_expand g fwd n d (abs_remove a n))"
proof -
  let ?b = "abs_remove a n" and ?c = "abs_expand g fwd n d (abs_remove a n)"
  note rm = remove_core [OF core min d]
  have key: "ah_key ?b = ah_key a" by (simp add: abs_remove_def)
  have fold: "core g fwd S (fold (abs_relax n d) (arcs g fwd n) ?b) \<and>
      improves ?b (fold (abs_relax n d) (arcs g fwd n) ?b) \<and>
      (\<forall>(v, w) \<in> set (arcs g fwd n). \<exists>l \<le> d + w. ah_key (fold (abs_relax n d) (arcs g fwd n) ?b) v = Some l)"
    using fold_relax [OF rm(1-3) _ g order_refl] d key by simp
  show c: "core g fwd S ?c" and i: "improves ?b ?c"
    using fold rm(1) by (auto simp: abs_expand_def improves_refl)
  have n: "done_at g fwd ?c n d" using fold by (auto simp: abs_expand_def done_at_def)
  have "done_at g fwd ?c u k" if u: "ah_key ?c u = Some k" "u \<notin> ah_queue ?c" for u k
  proof (cases "u = n")
    case True
    then show ?thesis using n improvesD(3) [OF i rm(3)] u d key by simp
  next
    case False
    have sb: "u \<in> settled ?b" using u improvesD(2) [OF i] by blast
    then have "u \<in> settled a" using rm(4) False by auto
    moreover have "ah_key a u = Some k" using improvesD(3) [OF i sb] u key by simp
    ultimately have "done_at g fwd a u k" using rel by (simp add: relaxed_def)
    then have "done_at g fwd ?b u k" by (simp add: done_at_def abs_stalled_def key)
    then show ?thesis using done_at_improves i by blast
  qed
  then show "relaxed g fwd ?c" by (simp add: relaxed_def)
qed

lemma prune_core:
  assumes "core g fwd S a"
  shows "core g fwd S (a\<lparr> ah_queue := {} \<rparr>)"
proof -
  have "parent_ok g fwd S (a\<lparr> ah_queue := {} \<rparr>) m k" if "parent_ok g fwd S a m k" for m k
    using that unfolding parent_ok_def by auto
  then show ?thesis using assms unfolding core_def ordered_def by simp
qed

section \<open>Exact nodes are found\<close>

lemma up_walk_nodes:
  assumes "up_walk g fwd s v w" "query_graph g" "s < sg_number_of_nodes g"
  shows "v < sg_number_of_nodes g \<and> 0 \<le> w"
  using assms
proof (induction rule: up_walk.induct)
  case (up_step x w y c)
  then show ?case using query_graph_arcs [of g x y c fwd] by auto
qed simp

lemma exact_node:
  assumes "exact g fwd S v d" "query_graph g" "dom S \<subseteq> {..<sg_number_of_nodes g}"
  shows "v < sg_number_of_nodes g"
  using assms
proof (induction rule: exact.induct)
  case (exact_arc u d v w)
  then show ?case using query_graph_arcs [of g u v w fwd] by auto
qed auto

lemma core_key_optimal:
  assumes "core g fwd S a" "ah_key a v = Some k" "optimal g fwd S v d"
  shows "d \<le> k"
  using assms up_walk_road unfolding core_def optimal_def by blast

lemma not_stalled:
  assumes core: "core g fwd S a" and opt: "optimal g fwd S u d"
  shows "\<not> abs_stalled (arcs g (\<not> fwd) u) d a"
proof
  assume "abs_stalled (arcs g (\<not> fwd) u) d a"
  then obtain v w k where v: "(v, w) \<in> set (arcs g (\<not> fwd) u)" "ah_key a v = Some k" "k + w < d"
    by (auto simp: abs_stalled_def)
  obtain s off x where s: "S s = Some off" "up_walk g fwd s v x" "k = off + x"
    using core v(2) unfolding core_def by blast
  have "road_walk g fwd s u (x + w)"
    using road_step [OF up_walk_road [OF s(2)], of u w] v(1) by (simp add: dir_arc_def)
  then have "d \<le> off + (x + w)" using opt s(1) by (simp add: optimal_def)
  then show False using v(3) s(3) by simp
qed

lemma relaxed_exact:
  assumes "exact g fwd S v d" "core g fwd S a" "relaxed g fwd a" "query_graph g" "dom S \<subseteq> {..<sg_number_of_nodes g}"
  shows "v \<in> settled a \<and> ah_key a v = Some d \<or> (\<exists>u \<in> ah_queue a. \<exists>k \<le> d. ah_key a u = Some k)"
  using assms
proof (induction rule: exact.induct)
  case (exact_source s off)
  obtain k where k: "k \<le> off" "ah_key a s = Some k" using exact_source unfolding core_def by blast
  moreover have "off \<le> k" using core_key_optimal [OF exact_source.prems(1) k(2) exact_source.hyps(2)] .
  ultimately show ?case by auto
next
  case (exact_arc u d v w)
  have w: "0 < w"
    using query_graph_arcs(2) [OF exact_arc.prems(3) exact_node [OF exact_arc.hyps(1) exact_arc.prems(3,4)] exact_arc.hyps(2)] .
  from exact_arc.IH [OF exact_arc.prems] show ?case
  proof
    assume u: "u \<in> settled a \<and> ah_key a u = Some d"
    then have "done_at g fwd a u d" using exact_arc.prems(2) by (simp add: relaxed_def)
    then have "\<exists>l \<le> d + w. ah_key a v = Some l"
      using not_stalled [OF exact_arc.prems(1) exact_optimal [OF exact_arc.hyps(1)]] exact_arc.hyps(2)
      by (auto simp: done_at_def)
    then obtain l where l: "l \<le> d + w" "ah_key a v = Some l" by blast
    moreover have "d + w \<le> l" using core_key_optimal [OF exact_arc.prems(1) l(2) exact_arc.hyps(3)] .
    ultimately show ?thesis by auto
  next
    assume "\<exists>u \<in> ah_queue a. \<exists>k \<le> d. ah_key a u = Some k"
    then show ?thesis using w by force
  qed
qed

section \<open>Both directions\<close>

text \<open>
  A direction is still complete, or it was cut off by the bound: then it found every exact node
  except those too far away to improve the bound.
\<close>

definition dir_inv ::
    "EdgeData StaticGraph \<Rightarrow> bool \<Rightarrow> (NodeID \<rightharpoonup> int) \<Rightarrow> int \<Rightarrow> int \<Rightarrow> (NodeID, HeapData) abs_heap \<Rightarrow> bool" where
  "dir_inv g fwd S meo ub a \<longleftrightarrow> relaxed g fwd a \<or> ah_queue a = {} \<and>
     (\<forall>v d. exact g fwd S v d \<longrightarrow> v \<in> settled a \<and> ah_key a v = Some d \<or> ub < d + meo)"

definition meet_inv :: "int \<Rightarrow> (NodeID, HeapData) abs_heap \<Rightarrow> (NodeID, HeapData) abs_heap \<Rightarrow> bool" where
  "meet_inv ub a b \<longleftrightarrow> (\<forall>v k l. v \<in> settled a \<longrightarrow> v \<in> settled b \<longrightarrow> ah_key a v = Some k \<longrightarrow> ah_key b v = Some l \<longrightarrow>
     ub \<le> k + l \<or> k + l < 0)"

text \<open>The bound is the initial one, or the length of a route over the middle node.\<close>

definition route_len ::
    "EdgeData StaticGraph \<Rightarrow> bool \<Rightarrow> (NodeID \<rightharpoonup> int) \<Rightarrow> (NodeID \<rightharpoonup> int) \<Rightarrow> NodeID \<Rightarrow> int \<Rightarrow> bool" where
  "route_len g fwd S T mid ub \<longleftrightarrow> (\<exists>s off x t off' y. S s = Some off \<and> up_walk g fwd s mid x \<and>
     T t = Some off' \<and> up_walk g (\<not> fwd) t mid y \<and> ub = (off + x) + (off' + y))"

definition bound_inv ::
    "EdgeData StaticGraph \<Rightarrow> bool \<Rightarrow> (NodeID \<rightharpoonup> int) \<Rightarrow> (NodeID \<rightharpoonup> int) \<Rightarrow> NodeID \<times> int \<Rightarrow>
     (NodeID, HeapData) abs_heap \<Rightarrow> (NodeID, HeapData) abs_heap \<Rightarrow> NodeID \<times> int \<Rightarrow> bool" where
  "bound_inv g fwd S T init a b cur \<longleftrightarrow> cur = init \<or> snd cur < snd init \<and> 0 \<le> snd cur \<and> route_len g fwd S T (fst cur) (snd cur) \<and>
     (\<exists>k l. ah_key a (fst cur) = Some k \<and> ah_key b (fst cur) = Some l \<and> k + l \<le> snd cur)"

definition search_inv ::
    "EdgeData StaticGraph \<Rightarrow> bool \<Rightarrow> int \<Rightarrow> (NodeID \<rightharpoonup> int) \<Rightarrow> (NodeID \<rightharpoonup> int) \<Rightarrow> NodeID \<times> int \<Rightarrow>
     (NodeID, HeapData) abs_heap \<Rightarrow> (NodeID, HeapData) abs_heap \<Rightarrow> NodeID \<times> int \<Rightarrow> bool" where
  "search_inv g fwd meo S T init a b cur \<longleftrightarrow> core g fwd S a \<and> core g (\<not> fwd) T b \<and>
     dir_inv g fwd S meo (snd cur) a \<and> dir_inv g (\<not> fwd) T meo (snd cur) b \<and> meet_inv (snd cur) a b \<and>
     bound_inv g fwd S T init a b cur"

text \<open>The setting of a search: start nodes are nodes and the edge offset is below all offsets.\<close>

definition start_ok :: "EdgeData StaticGraph \<Rightarrow> int \<Rightarrow> (NodeID \<rightharpoonup> int) \<Rightarrow> bool" where
  "start_ok g meo S \<longleftrightarrow> dom S \<subseteq> {..<sg_number_of_nodes g} \<and> (\<forall>s off. S s = Some off \<longrightarrow> meo \<le> off)"

lemma search_inv_flip:
  assumes "search_inv g fwd meo S T init a b cur"
  shows "search_inv g (\<not> fwd) meo T S init b a cur"
proof -
  have "route_len g (\<not> fwd) T S m u" if "route_len g fwd S T m u" for m u
    using that unfolding route_len_def not_not by (metis add.commute)
  then have "bound_inv g (\<not> fwd) T S init b a cur"
    using assms unfolding search_inv_def bound_inv_def by (metis add.commute)
  moreover have "meet_inv (snd cur) b a"
    using assms unfolding search_inv_def meet_inv_def by (metis add.commute)
  ultimately show ?thesis using assms by (simp add: search_inv_def)
qed

lemma key_lower_bound:
  assumes "core g fwd S a" "start_ok g meo S" "query_graph g" "ah_key a v = Some k"
  shows "meo \<le> k"
proof -
  obtain s off w where s: "S s = Some off" "up_walk g fwd s v w" "k = off + w"
    using assms(1,4) unfolding core_def by blast
  moreover have "0 \<le> w" using up_walk_nodes [OF s(2) assms(3)] s(1) assms(2) by (auto simp: start_ok_def)
  moreover have "meo \<le> off" using s(1) assms(2) by (simp add: start_ok_def)
  ultimately show ?thesis by simp
qed

lemma exact_lower_bound:
  assumes "exact g fwd S v d" "start_ok g meo S" "query_graph g"
  shows "meo \<le> d"
  using assms
proof (induction rule: exact.induct)
  case (exact_arc u d v w)
  then show ?case
    using query_graph_arcs(2) [of g u v w fwd] exact_node [OF exact_arc.hyps(1)] by (auto simp: start_ok_def)
qed (auto simp: start_ok_def)

lemma abs_meet_cases:
  assumes "abs_meet b n d mid ub = (mid', ub')"
  shows "ub' \<le> ub \<and> (ah_key b n = Some l \<longrightarrow> ub' \<le> l + d \<or> l + d < 0) \<and>
    ((mid', ub') = (mid, ub) \<or> mid' = n \<and> ub' < ub \<and> 0 \<le> ub' \<and> (\<exists>l. ah_key b n = Some l \<and> ub' = l + d))"
  using assms by (auto simp: abs_meet_def split: option.splits if_splits)

section \<open>The step keeps the invariant\<close>

lemma dir_inv_mono: "dir_inv g fwd S meo ub a \<Longrightarrow> ub' \<le> ub \<Longrightarrow> dir_inv g fwd S meo ub' a"
  unfolding dir_inv_def by (meson le_less_trans)

lemma meet_inv_mono: "meet_inv ub a b \<Longrightarrow> ub' \<le> ub \<Longrightarrow> meet_inv ub' a b"
  unfolding meet_inv_def by (meson order_trans)

lemma core_route_len:
  assumes "core g fwd S a" "core g (\<not> fwd) T b" "ah_key a n = Some k" "ah_key b n = Some l"
  shows "route_len g fwd S T n (k + l)"
proof -
  obtain s off x where "S s = Some off" "up_walk g fwd s n x" "k = off + x"
    using assms(1,3) unfolding core_def by blast
  moreover obtain t off' y where "T t = Some off'" "up_walk g (\<not> fwd) t n y" "l = off' + y"
    using assms(2,4) unfolding core_def by blast
  ultimately show ?thesis unfolding route_len_def by blast
qed

lemma bound_inv_step:
  assumes inv: "search_inv g fwd meo S T init a b (mid, ub)" and d: "ah_key a n = Some d"
    and m: "abs_meet b n d mid ub = (mid', ub')"
    and keys: "\<And>v k. ah_key a v = Some k \<Longrightarrow> \<exists>k' \<le> k. ah_key a' v = Some k'"
  shows "bound_inv g fwd S T init a' b (mid', ub')"
proof -
  have up: "\<exists>k' l. ah_key a' v = Some k' \<and> ah_key b v = Some l \<and> k' + l \<le> u"
    if kl: "ah_key a v = Some k" "ah_key b v = Some l" "k + l \<le> u" for v k l u
  proof -
    obtain k' where "k' \<le> k" "ah_key a' v = Some k'" using keys [OF kl(1)] by blast
    then show ?thesis using kl by (intro exI [of _ k'] exI [of _ l]) simp
  qed
  consider (same) "(mid', ub') = (mid, ub)"
    | (new) l where "mid' = n" "0 \<le> ub'" "ah_key b n = Some l" "ub' = l + d" "ub' < ub"
    using abs_meet_cases [OF m] by blast
  then show ?thesis
  proof cases
    case same
    then show ?thesis using inv up unfolding search_inv_def bound_inv_def by (metis fst_conv snd_conv)
  next
    case new
    have "route_len g fwd S T n (d + l)"
      using core_route_len [OF _ _ d new(3)] inv by (simp add: search_inv_def)
    moreover have "ub \<le> snd init" using inv by (auto simp: search_inv_def bound_inv_def)
    ultimately show ?thesis using new up [OF d new(3), of ub'] unfolding bound_inv_def by (simp add: add.commute)
  qed
qed

lemma prune_inv:
  assumes inv: "search_inv g fwd meo S T init a b (mid, ub)" and min: "is_min a n" and d: "ah_key a n = Some d"
    and m: "abs_meet b n d mid ub = (mid', ub')" and cut: "d + meo > ub'"
    and g: "query_graph g" and S: "start_ok g meo S" and T: "start_ok g meo T"
  shows "search_inv g fwd meo S T init (a\<lparr> ah_queue := {} \<rparr>) b (mid', ub')"
proof -
  let ?a = "a\<lparr> ah_queue := {} \<rparr>"
  have c: "core g fwd S a" "core g (\<not> fwd) T b" "dir_inv g (\<not> fwd) T meo ub b" "meet_inv ub a b"
    using inv by (simp_all add: search_inv_def)
  have ub: "ub' \<le> ub" using abs_meet_cases [OF m] by blast
  have ord: "ordered a" using c(1) by (simp add: core_def)
  have q: "d \<le> k" if "u \<in> ah_queue a" "ah_key a u = Some k" for u k
    using min d that by (auto simp: is_min_def)
  have rel: "relaxed g fwd a" using inv min by (auto simp: search_inv_def dir_inv_def is_min_def)
  have "v \<in> settled a \<and> ah_key a v = Some e \<or> ub' < e + meo" if v: "exact g fwd S v e" for v e
    using relaxed_exact [OF v c(1) rel g] S q cut by (fastforce simp: start_ok_def)
  then have "dir_inv g fwd S meo ub' ?a" unfolding dir_inv_def by auto
  moreover have "meet_inv ub' ?a b"
  proof -
    have "ub' \<le> k + l \<or> k + l < 0" if v: "v \<in> settled b" "ah_key a v = Some k" "ah_key b v = Some l" for v k l
    proof (cases "v \<in> ah_queue a")
      case True
      then show ?thesis using q [OF _ v(2)] cut key_lower_bound [OF c(2) T g v(3)] by simp
    next
      case False
      then show ?thesis using meet_inv_mono [OF c(4) ub] v unfolding meet_inv_def by blast
    qed
    then show ?thesis by (simp add: meet_inv_def)
  qed
  moreover have "bound_inv g fwd S T init ?a b (mid', ub')"
    using bound_inv_step [OF inv d m, of ?a] by simp
  ultimately show ?thesis using prune_core [OF c(1)] c(2) dir_inv_mono [OF c(3) ub] by (simp add: search_inv_def)
qed

lemma expand_inv:
  assumes inv: "search_inv g fwd meo S T init a b (mid, ub)" and min: "is_min a n" and d: "ah_key a n = Some d"
    and m: "abs_meet b n d mid ub = (mid', ub')" and g: "query_graph g"
  shows "search_inv g fwd meo S T init (abs_expand g fwd n d (abs_remove a n)) b (mid', ub')"
    "settled (abs_expand g fwd n d (abs_remove a n)) = insert n (settled a)"
proof -
  let ?b = "abs_remove a n" and ?c = "abs_expand g fwd n d (abs_remove a n)"
  have c: "core g fwd S a" "core g (\<not> fwd) T b" "dir_inv g (\<not> fwd) T meo ub b" "meet_inv ub a b"
    using inv by (simp_all add: search_inv_def)
  have ub: "ub' \<le> ub" using abs_meet_cases [OF m] by blast
  have rel: "relaxed g fwd a" using inv min by (auto simp: search_inv_def dir_inv_def is_min_def)
  note st = expand_step [OF c(1) rel min d g] and rm = remove_core [OF c(1) min d]
  have key: "ah_key ?b = ah_key a" by (simp add: abs_remove_def)
  show set: "settled ?c = insert n (settled a)" using improvesD(2) [OF st(3)] rm(4) by simp
  have same: "ah_key ?c v = ah_key a v" if "v \<in> settled ?c" for v
  proof -
    have "v \<in> settled ?b" using that improvesD(2) [OF st(3)] by blast
    from improvesD(3) [OF st(3) this] show ?thesis by (simp only: key)
  qed
  have "ub' \<le> k + l \<or> k + l < 0" if v: "v \<in> settled ?c" "v \<in> settled b" "ah_key ?c v = Some k" "ah_key b v = Some l" for v k l
  proof (cases "v = n")
    case True
    then show ?thesis using abs_meet_cases [OF m, of l] same [OF v(1)] d v(3,4) by (auto simp: add.commute)
  next
    case False
    then have "v \<in> settled a" "ah_key a v = Some k" using v(1,3) set same by auto
    then show ?thesis using meet_inv_mono [OF c(4) ub] v(2,4) unfolding meet_inv_def by blast
  qed
  then have "meet_inv ub' ?c b" unfolding meet_inv_def by blast
  moreover have "bound_inv g fwd S T init ?c b (mid', ub')"
    using bound_inv_step [OF inv d m, of ?c] improvesD(1) [OF st(3)] key by simp
  ultimately show "search_inv g fwd meo S T init ?c b (mid', ub')"
    using st(1,2) c(2) dir_inv_mono [OF c(3) ub] by (simp add: search_inv_def dir_inv_def)
qed

text \<open>A step on the code's heaps; the popped direction settles at least one more node.\<close>

lemma RoutingStep_inv:
  assumes F: "refines F a" and R: "refines R b" and inv: "search_inv g fwd meo S T init a b (mid, ub)"
    and ne: "ah_queue a \<noteq> {}" and g: "query_graph g" and S: "start_ok g meo S" and T: "start_ok g meo T"
  obtains F' R' cur a' where "RoutingStep g F R mid ub meo fwd = Some (F', R', cur)" "refines F' a'" "refines R' b"
    "search_inv g fwd meo S T init a' b cur" "settled a \<subset> settled a'"
proof -
  have c: "ordered a" "dom (ah_key a) \<subseteq> {..<sg_number_of_nodes g}" using inv by (simp_all add: search_inv_def core_def)
  then have "ah_queue a \<subseteq> {..<sg_number_of_nodes g}" unfolding ordered_def by (meson subset_trans)
  from RoutingStep_refines [OF F R c(1) ne g this, of mid ub meo fwd]
  obtain n d F' R' mid' ub' where r: "is_min a n" "ah_key a n = Some d" "abs_meet b n d mid ub = (mid', ub')"
    "RoutingStep g F R mid ub meo fwd = Some (F', R', mid', ub')" "refines R' b"
    "refines F' (if d + meo > ub' then a\<lparr> ah_queue := {} \<rparr> else abs_expand g fwd n d (abs_remove a n))" by blast
  have n: "n \<in> ah_queue a" using r(1) by (simp add: is_min_def)
  show thesis
  proof (cases "d + meo > ub'")
    case True
    show thesis
    proof (rule that [OF r(4)])
      show "search_inv g fwd meo S T init (a\<lparr> ah_queue := {} \<rparr>) b (mid', ub')"
        using prune_inv [OF inv r(1-3) True g S T] .
    qed (use True r n in auto)
  next
    case False
    show thesis
    proof (rule that [OF r(4)])
      show "search_inv g fwd meo S T init (abs_expand g fwd n d (abs_remove a n)) b (mid', ub')"
        using expand_inv(1) [OF inv r(1-3) g] .
      show "settled a \<subset> settled (abs_expand g fwd n d (abs_remove a n))"
        using expand_inv(2) [OF inv r(1-3) g] n by auto
    qed (use False r in auto)
  qed
qed

section \<open>The whole search\<close>

lemma settled_finite: "core g fwd S a \<Longrightarrow> finite (settled a)"
  by (meson Diff_subset core_def finite_lessThan finite_subset)

definition unsettled :: "EdgeData StaticGraph \<Rightarrow> ('n, 'd) abs_heap \<Rightarrow> nat" where
  "unsettled g a = sg_number_of_nodes g - card (settled a)"

lemma unsettled_mono:
  assumes "core g fwd S a'" "settled a \<subseteq> settled a'"
  shows "unsettled g a' \<le> unsettled g a"
  using card_mono [OF settled_finite [OF assms(1)] assms(2)] by (simp add: unsettled_def)

lemma unsettled_less:
  assumes "core g fwd S a'" "settled a \<subset> settled a'"
  shows "unsettled g a' < unsettled g a"
proof -
  have "settled a' \<subseteq> {..<sg_number_of_nodes g}" using assms(1) by (auto simp: core_def)
  then have "card (settled a') \<le> sg_number_of_nodes g" using card_mono [OF finite_lessThan] by fastforce
  then show ?thesis using psubset_card_mono [OF settled_finite [OF assms(1)] assms(2)] by (simp add: unsettled_def)
qed

text \<open>A step of one direction, or none when its queue is empty.\<close>

definition step_if ::
    "EdgeData StaticGraph \<Rightarrow> QueryHeap \<Rightarrow> QueryHeap \<Rightarrow> NodeID \<times> int \<Rightarrow> int \<Rightarrow> bool \<Rightarrow>
     (QueryHeap \<times> QueryHeap \<times> NodeID \<times> int) option" where
  "step_if g F R cur meo fwd = (if \<not> heap_Empty F then RoutingStep g F R (fst cur) (snd cur) meo fwd else Some (F, R, cur))"

lemma step_if_inv:
  assumes F: "refines F a" and R: "refines R b" and inv: "search_inv g fwd meo S T init a b cur"
    and g: "query_graph g" and S: "start_ok g meo S" and T: "start_ok g meo T"
  obtains F' R' cur' a' where "step_if g F R cur meo fwd = Some (F', R', cur')" "refines F' a'" "refines R' b"
    "search_inv g fwd meo S T init a' b cur'" "unsettled g a' \<le> unsettled g a"
    "ah_queue a \<noteq> {} \<Longrightarrow> unsettled g a' < unsettled g a"
proof (cases "ah_queue a = {}")
  case True
  then have "step_if g F R cur meo fwd = Some (F, R, cur)" using refines_Empty [OF F] by (simp add: step_if_def)
  then show thesis using that [of F R cur a] F R inv True by simp
next
  case False
  have inv': "search_inv g fwd meo S T init a b (fst cur, snd cur)" using inv by simp
  obtain F' R' cur' a' where r: "RoutingStep g F R (fst cur) (snd cur) meo fwd = Some (F', R', cur')" "refines F' a'"
    "refines R' b" "search_inv g fwd meo S T init a' b cur'" "settled a \<subset> settled a'"
    using RoutingStep_inv [OF F R inv' False g S T] by metis
  have less: "unsettled g a' < unsettled g a"
    using unsettled_less [OF _ r(5)] r(4) unfolding search_inv_def by blast
  have "step_if g F R cur meo fwd = Some (F', R', cur')" using r(1) False refines_Empty [OF F] by (simp add: step_if_def)
  then show thesis using that r(2-4) less by simp
qed

lemma search_round_step_if:
  "search_round g meo (F, R, cur) = do { (F, R, cur) \<leftarrow> step_if g F R cur meo True;
     (R, F, cur) \<leftarrow> step_if g R F cur meo False; Some (F, R, cur) }"
  by (cases cur) (auto simp: search_round_def step_if_def split: option.splits intro!: Option.bind_cong)

lemma search_round_inv:
  assumes F: "refines F a" and R: "refines R b" and inv: "search_inv g True meo S T init a b cur"
    and ne: "ah_queue a \<noteq> {} \<or> ah_queue b \<noteq> {}"
    and g: "query_graph g" and S: "start_ok g meo S" and T: "start_ok g meo T"
  obtains F' R' cur' a' b' where "search_round g meo (F, R, cur) = Some (F', R', cur')" "refines F' a'" "refines R' b'"
    "search_inv g True meo S T init a' b' cur'" "unsettled g a' + unsettled g b' < unsettled g a + unsettled g b"
proof -
  obtain F1 R1 c1 a1 where s1: "step_if g F R cur meo True = Some (F1, R1, c1)" "refines F1 a1" "refines R1 b"
    "search_inv g True meo S T init a1 b c1" "unsettled g a1 \<le> unsettled g a"
    "ah_queue a \<noteq> {} \<Longrightarrow> unsettled g a1 < unsettled g a"
    using step_if_inv [OF F R inv g S T] by metis
  have flip: "search_inv g False meo T S init b a1 c1" using search_inv_flip [OF s1(4)] by simp
  obtain R2 F2 c2 b2 where s2: "step_if g R1 F1 c1 meo False = Some (R2, F2, c2)" "refines R2 b2" "refines F2 a1"
    "search_inv g False meo T S init b2 a1 c2" "unsettled g b2 \<le> unsettled g b"
    "ah_queue b \<noteq> {} \<Longrightarrow> unsettled g b2 < unsettled g b"
    using step_if_inv [OF s1(3) s1(2) flip g T S] by metis
  have "search_inv g True meo S T init a1 b2 c2" using search_inv_flip [OF s2(4)] by simp
  moreover have "search_round g meo (F, R, cur) = Some (F2, R2, c2)"
    using s1(1) s2(1) by (simp add: search_round_step_if)
  moreover have "unsettled g a1 + unsettled g b2 < unsettled g a + unsettled g b"
    using ne s1(5,6) s2(5,6) by linarith
  ultimately show thesis using that s2(2,3) by blast
qed

lemma refines_Size: "refines h a \<Longrightarrow> 0 < heap_Size h \<longleftrightarrow> ah_queue a \<noteq> {}"
  using refines_Empty [of h a] by (auto simp: heap_Empty_def heap_Size_def)

theorem search_loop_inv:
  assumes "refines F a" "refines R b" "search_inv g True meo S T init a b cur"
    and g: "query_graph g" and S: "start_ok g meo S" and T: "start_ok g meo T"
  shows "\<exists>F' R' cur' a' b'. search_loop g meo (F, R, cur) = Some (F', R', cur') \<and> refines F' a' \<and> refines R' b' \<and>
    search_inv g True meo S T init a' b' cur' \<and> ah_queue a' = {} \<and> ah_queue b' = {}"
  using assms(1-3)
proof (induction "unsettled g a + unsettled g b" arbitrary: F R cur a b rule: less_induct)
  case less
  show ?case
  proof (cases "ah_queue a = {} \<and> ah_queue b = {}")
    case True
    then have "search_loop g meo (F, R, cur) = Some (F, R, cur)"
      using refines_Size [OF less.prems(1)] refines_Size [OF less.prems(2)] by (subst search_loop.simps) simp
    then show ?thesis using less.prems True by blast
  next
    case False
    obtain F' R' cur' a' b' where r: "search_round g meo (F, R, cur) = Some (F', R', cur')" "refines F' a'" "refines R' b'"
      "search_inv g True meo S T init a' b' cur'" "unsettled g a' + unsettled g b' < unsettled g a + unsettled g b"
      using search_round_inv [OF less.prems _ g S T] False by metis
    have "search_loop g meo (F, R, cur) = search_loop g meo (F', R', cur')"
      using refines_Size [OF less.prems(1)] refines_Size [OF less.prems(2)] False r(1)
      by (subst search_loop.simps) auto
    then show ?thesis using less.hyps [OF r(5,2-4)] by simp
  qed
qed

text \<open>At the end the bound is optimal.\<close>

lemma search_inv_optimal:
  assumes inv: "search_inv g fwd meo S T init a b cur" and empty: "ah_queue a = {}" "ah_queue b = {}"
    and g: "query_graph g" and S: "start_ok g meo S" and T: "start_ok g meo T"
    and v: "exact g fwd S v d" "exact g (\<not> fwd) T v e" "0 \<le> d + e"
  shows "snd cur \<le> d + e"
proof -
  have found: "v \<in> settled a \<and> ah_key a v = Some d \<or> snd cur < d + meo"
    if "dir_inv g fwd S meo (snd cur) a" "core g fwd S a" "ah_queue a = {}" "exact g fwd S v d" "start_ok g meo S"
    for fwd S a d
    using that relaxed_exact [OF that(4,2) _ g] unfolding dir_inv_def start_ok_def by blast
  have low: "meo \<le> d" "meo \<le> e" using exact_lower_bound v S T g by blast+
  have "v \<in> settled a \<and> ah_key a v = Some d \<or> snd cur < d + meo"
    using found [OF _ _ empty(1) v(1) S] inv by (simp add: search_inv_def)
  moreover have "v \<in> settled b \<and> ah_key b v = Some e \<or> snd cur < e + meo"
    using found [OF _ _ empty(2) v(2) T] inv by (simp add: search_inv_def)
  moreover have "snd cur \<le> d + e" if "v \<in> settled a" "ah_key a v = Some d" "v \<in> settled b" "ah_key b v = Some e"
  proof -
    have "snd cur \<le> d + e \<or> d + e < 0" using inv that unfolding search_inv_def meet_inv_def by blast
    then show ?thesis using v(3) by simp
  qed
  ultimately show ?thesis using low by linarith
qed

section \<open>Hierarchies\<close>

lemma dir_arc_flip: "dir_arc g (\<not> fwd) y x w \<longleftrightarrow> dir_arc g fwd x y w"
  by (auto simp: dir_arc_def)

lemma road_walk_trans:
  assumes "road_walk g fwd y z v" "road_walk g fwd x y w"
  shows "road_walk g fwd x z (w + v)"
  using assms
proof (induction rule: road_walk.induct)
  case (road_step z v u c)
  then show ?case using road_walk.road_step [OF road_step.IH [OF road_step.prems] road_step.hyps(2)] by (simp add: add.assoc)
qed simp

lemma road_walk_flip: "road_walk g (\<not> fwd) x y w \<Longrightarrow> road_walk g fwd y x w"
proof (induction rule: road_walk.induct)
  case (road_step y w z c)
  have "road_walk g fwd z y (0 + c)"
    by (rule road_walk.road_step [OF road_refl]) (use road_step.hyps(2) dir_arc_flip in blast)
  then show ?case using road_walk_trans [OF road_step.IH] by (simp add: add.commute)
qed (rule road_refl)

text \<open>
  A complete hierarchy: every road walk can be replaced by a walk that first climbs and then
  descends and is not longer.
\<close>

definition hierarchy :: "EdgeData StaticGraph \<Rightarrow> bool" where
  "hierarchy g \<longleftrightarrow> (\<forall>s t w. road_walk g True s t w \<longrightarrow>
     (\<exists>m x y. up_walk g True s m x \<and> up_walk g False t m y \<and> x + y \<le> w))"

text \<open>The lengths of the routes from the start nodes \<open>S\<close> to the end nodes \<open>T\<close>.\<close>

definition route :: "EdgeData StaticGraph \<Rightarrow> (NodeID \<rightharpoonup> int) \<Rightarrow> (NodeID \<rightharpoonup> int) \<Rightarrow> int \<Rightarrow> bool" where
  "route g S T l \<longleftrightarrow> (\<exists>s off t off' w. S s = Some off \<and> T t = Some off' \<and> road_walk g True s t w \<and> l = off + w + off')"

lemma routeI:
  assumes "S s = Some off" "T t = Some off'" "road_walk g True s t w" "l = off + w + off'"
  shows "route g S T l"
  using assms unfolding route_def by blast

lemma route_len_route:
  assumes "route_len g True S T mid ub"
  shows "route g S T ub"
proof -
  obtain s off x t off' y where r: "S s = Some off" "up_walk g True s mid x" "T t = Some off'"
    "up_walk g False t mid y" "ub = (off + x) + (off' + y)" using assms by (auto simp: route_len_def)
  have "road_walk g True mid t y" using road_walk_flip [of g True] up_walk_road [OF r(4)] by simp
  then have "road_walk g True s t (x + y)" using road_walk_trans up_walk_road [OF r(2)] by blast
  with r(1,3) show ?thesis by (rule routeI) (simp add: r(5))
qed

lemma up_walk_exact:
  assumes "up_walk g fwd s m x" "S s = Some off" "optimal g fwd S m (off + x)"
  shows "exact g fwd S m (off + x)"
  using assms
proof (induction rule: up_walk.induct)
  case (up_step u w v c)
  have "optimal g fwd S u (off + w)"
    unfolding optimal_def
  proof (intro allI impI)
    fix s' off' w' assume w': "S s' = Some off'" "road_walk g fwd s' u w'"
    have "road_walk g fwd s' v (w' + c)" using road_walk.road_step [OF w'(2)] up_step.hyps(2) by (simp add: dir_arc_def)
    then have "off + (w + c) \<le> off' + (w' + c)" using up_step.prems(2) w'(1) unfolding optimal_def by blast
    then show "off + w \<le> off' + w'" by simp
  qed
  then have "exact g fwd S u (off + w)" using up_step by blast
  moreover have "optimal g fwd S v (off + w + c)" using up_step.prems(2) by (simp add: add.assoc)
  ultimately have "exact g fwd S v (off + w + c)" using exact_arc up_step.hyps(2) by blast
  then show ?case by (simp add: add.assoc)
qed (auto intro: exact_source)

text \<open>The top of a shortest route that climbs and descends is exact in both directions.\<close>

lemma shortest_exact:
  assumes min: "\<And>l. route g S T l \<Longrightarrow> (off + x) + (off' + y) \<le> l"
    and s: "S s = Some off" "up_walk g True s m x" and t: "T t = Some off'" "up_walk g False t m y"
  shows "exact g True S m (off + x)" "exact g False T m (off' + y)"
proof -
  have mt: "road_walk g True m t y" using road_walk_flip [of g True] up_walk_road [OF t(2)] by simp
  have "optimal g True S m (off + x)" unfolding optimal_def
  proof (intro allI impI)
    fix s' o' w assume w: "S s' = Some o'" "road_walk g True s' m w"
    have "route g S T (o' + (w + y) + off')" using w t(1) road_walk_trans [OF mt w(2)] unfolding route_def by blast
    then show "off + x \<le> o' + w" using min by fastforce
  qed
  then show "exact g True S m (off + x)" by (intro up_walk_exact [OF s(2)] s(1))
  have "optimal g False T m (off' + y)" unfolding optimal_def
  proof (intro allI impI)
    fix t' o' w assume w: "T t' = Some o'" "road_walk g False t' m w"
    have "road_walk g True m t' w" using road_walk_flip [of g True] w(2) by simp
    then have "route g S T (off + (x + w) + o')"
      using w(1) s(1) road_walk_trans up_walk_road [OF s(2)] unfolding route_def by blast
    then show "off' + y \<le> o' + w" using min by fastforce
  qed
  then show "exact g False T m (off' + y)" by (intro up_walk_exact [OF t(2)] t(1))
qed

lemma shortest_route_exists:
  assumes "route g S T l" "\<And>l. route g S T l \<Longrightarrow> 0 \<le> l"
  obtains m where "route g S T m" "\<And>l. route g S T l \<Longrightarrow> m \<le> l"
proof -
  let ?P = "\<lambda>n. route g S T (int n)"
  have P: "?P (nat l)" using assms by simp
  define m where "m = (LEAST n. ?P n)"
  have "?P m" unfolding m_def by (rule LeastI [of ?P, OF P])
  moreover have "int m \<le> l" if r: "route g S T l" for l
  proof -
    have "m \<le> nat l" unfolding m_def by (rule Least_le) (use r assms(2) in simp)
    then show ?thesis using assms(2) [OF r] by simp
  qed
  ultimately show thesis by (rule that)
qed

lemma hierarchy_shortest:
  assumes h: "hierarchy g" and r: "route g S T l" and nonneg: "\<And>l. route g S T l \<Longrightarrow> 0 \<le> l"
  obtains m d e where "exact g True S m d" "exact g False T m e" "0 \<le> d + e" "d + e \<le> l"
proof -
  obtain k where k: "route g S T k" "\<And>l. route g S T l \<Longrightarrow> k \<le> l"
    using shortest_route_exists [OF r nonneg] by blast
  obtain s off t off' w where w: "S s = Some off" "T t = Some off'" "road_walk g True s t w" "k = off + w + off'"
    using k(1) unfolding route_def by blast
  obtain m x y where m: "up_walk g True s m x" "up_walk g False t m y" "x + y \<le> w"
    using h w(3) unfolding hierarchy_def by blast
  have "route_len g True S T m ((off + x) + (off' + y))"
    using w(1,2) m(1,2) unfolding route_len_def not_True_eq_False by blast
  then have top: "route g S T ((off + x) + (off' + y))" by (rule route_len_route)
  have "(off + x) + (off' + y) \<le> l" if "route g S T l" for l using k(2) [OF that] w(4) m(3) by simp
  note min = this
  show thesis
    using that [OF shortest_exact(1) [of g S T off x off' y, OF min w(1) m(1) w(2) m(2)]
      shortest_exact(2) [of g S T off x off' y, OF min w(1) m(1) w(2) m(2)] nonneg [OF top] min [OF r]] .
qed

section \<open>Starting the search\<close>

definition start_heap :: "(NodeID \<rightharpoonup> int) \<Rightarrow> (NodeID, HeapData) abs_heap" where
  "start_heap S = \<lparr> ah_key = S, ah_data = (\<lambda>n. map_option (\<lambda>_. \<lparr> parent = n \<rparr>) (S n)), ah_queue = dom S \<rparr>"

lemma start_core:
  assumes "dom S \<subseteq> {..<sg_number_of_nodes g}"
  shows "core g fwd S (start_heap S)" "relaxed g fwd (start_heap S)"
proof -
  have "\<exists>s off w. S s = Some off \<and> up_walk g fwd s n w \<and> k = off + w" if "S n = Some k" for n k
    using that up_refl [of g fwd n] by (intro exI [of _ n] exI [of _ k] exI [of _ 0]) simp
  then show "core g fwd S (start_heap S)" using assms
    by (auto simp: core_def start_heap_def ordered_def parent_ok_def)
qed (auto simp: relaxed_def start_heap_def)

lemma search_inv_start:
  assumes "start_ok g meo S" "start_ok g meo T"
  shows "search_inv g True meo S T init (start_heap S) (start_heap T) init"
proof -
  have "meet_inv ub (start_heap S) b" for ub b by (simp add: meet_inv_def start_heap_def)
  then show ?thesis using assms
    by (simp add: search_inv_def start_ok_def start_core dir_inv_def bound_inv_def)
qed

lemma search_loop_result:
  assumes g: "query_graph g" "hierarchy g" and F: "refines F (start_heap S)" and R: "refines R (start_heap T)"
    and S: "start_ok g meo S" and T: "start_ok g meo T" and nonneg: "\<forall>l. route g S T l \<longrightarrow> 0 \<le> l"
  obtains F' R' cur a b where "search_loop g meo (F, R, init) = Some (F', R', cur)" "refines F' a" "refines R' b"
    "search_inv g True meo S T init a b cur" "ah_queue a = {}" "ah_queue b = {}" "\<And>l. route g S T l \<Longrightarrow> snd cur \<le> l"
proof -
  obtain F' R' cur a b where r: "search_loop g meo (F, R, init) = Some (F', R', cur)" "refines F' a" "refines R' b"
    "search_inv g True meo S T init a b cur" "ah_queue a = {}" "ah_queue b = {}"
    using search_loop_inv [OF F R search_inv_start [OF S T] g(1) S T] by blast
  have "snd cur \<le> l" if l: "route g S T l" for l
  proof -
    obtain m d e where "exact g True S m d" "exact g False T m e" "0 \<le> d + e" "d + e \<le> l"
      using hierarchy_shortest [OF g(2) l] nonneg by blast
    then show ?thesis using search_inv_optimal [OF r(4-6) g(1) S T, of m d e] by simp
  qed
  with r show thesis by (rule that)
qed


text \<open>A hierarchy of two arcs that meet in node 2, and the heaps of a search from 0 to 1.\<close>

definition sample_hierarchy :: "EdgeData StaticGraph" where
  "sample_hierarchy = \<lparr> sg_number_of_nodes = 3, sg_number_of_edges = 2, node_array = [0, 1, 2, 2],
     edge_array = [\<lparr> de_target = 2, de_data = \<lparr> ed_id = 0, ed_shortcut = False, ed_distance = 5, ed_forward = True, ed_backward = False \<rparr> \<rparr>,
       \<lparr> de_target = 2, de_data = \<lparr> ed_id = 1, ed_shortcut = False, ed_distance = 7, ed_forward = False, ed_backward = True \<rparr> \<rparr>] \<rparr>"

lemma sample_arcs_at:
  "arcs sample_hierarchy True 0 = [(2, 5)]" "arcs sample_hierarchy True 1 = []" "arcs sample_hierarchy True 2 = []"
  "arcs sample_hierarchy False 0 = []" "arcs sample_hierarchy False 1 = [(2, 7)]" "arcs sample_hierarchy False 2 = []"
  by code_simp+

lemma sample_arcs:
  "arcs sample_hierarchy True u = (if u = 0 then [(2, 5)] else [])"
  "arcs sample_hierarchy False u = (if u = 1 then [(2, 7)] else [])"
proof -
  consider "u = 0" | "u = 1" | "u = 2" | "\<not> u < sg_number_of_nodes sample_hierarchy"
    unfolding sample_hierarchy_def by fastforce
  then have "arcs sample_hierarchy True u = (if u = 0 then [(2, 5)] else []) \<and>
      arcs sample_hierarchy False u = (if u = 1 then [(2, 7)] else [])"
  proof cases
    case 4
    then have "arcs sample_hierarchy b u = []" for b by (simp add: arcs_def)
    moreover have "u \<noteq> 0" "u \<noteq> 1" using 4 by (auto simp: sample_hierarchy_def)
    ultimately show ?thesis by simp
  qed (use sample_arcs_at in simp_all)
  then show "arcs sample_hierarchy True u = (if u = 0 then [(2, 5)] else [])"
    "arcs sample_hierarchy False u = (if u = 1 then [(2, 7)] else [])" by simp_all
qed

lemma sample_dir_arc: "dir_arc sample_hierarchy True x y w \<longleftrightarrow> (x, y, w) = (0, 2, 5) \<or> (x, y, w) = (2, 1, 7)"
  by (auto simp: dir_arc_def sample_arcs split: if_splits)

lemma sample_walks:
  assumes "road_walk sample_hierarchy True s t w"
  shows "s = t \<and> w = 0 \<or> (s, t, w) \<in> {(0, 2, 5), (0, 1, 12), (2, 1, 7)}"
  using assms by induction (auto simp: sample_dir_arc)

lemma sample_up:
  "up_walk sample_hierarchy fwd s s 0" "up_walk sample_hierarchy True 0 2 5" "up_walk sample_hierarchy False 1 2 7"
  using up_step [OF up_refl, of 2 5 sample_hierarchy True 0] up_step [OF up_refl, of 2 7 sample_hierarchy False 1]
  by (simp_all add: sample_arcs up_refl del: One_nat_def)

lemma sample_hierarchy_ok: "query_graph sample_hierarchy" "hierarchy sample_hierarchy"
proof -
  have "e \<in> sg_range sample_hierarchy u \<Longrightarrow> u < 3 \<Longrightarrow> e = 0 \<or> e = 1" for u e
    by (auto simp: sg_range_def sample_hierarchy_def numeral_3_eq_3 less_Suc_eq)
  then show "query_graph sample_hierarchy"
    by (fastforce simp: query_graph_def sg_inv_def sample_hierarchy_def SPECIAL_EDGEID_def)
  show "hierarchy sample_hierarchy" unfolding hierarchy_def
  proof (intro allI impI)
    fix s t w assume "road_walk sample_hierarchy True s t w"
    then consider "s = t" "w = 0" | "s = 0" "t = 2" "w = 5" | "s = 0" "t = 1" "w = 12" | "s = 2" "t = 1" "w = 7"
      using sample_walks by fastforce
    then show "\<exists>m x y. up_walk sample_hierarchy True s m x \<and> up_walk sample_hierarchy False t m y \<and> x + y \<le> w"
    proof cases
      case 1
      then show ?thesis using sample_up(1) by fastforce
    next
      case 2
      then show ?thesis using sample_up by (intro exI [of _ 2] exI [of _ 5] exI [of _ 0]) simp
    next
      case 3
      then show ?thesis using sample_up by (intro exI [of _ 2] exI [of _ 5] exI [of _ 7]) simp
    next
      case 4
      then show ?thesis using sample_up by (intro exI [of _ 2] exI [of _ 0] exI [of _ 7]) simp
    qed
  qed
qed

lemma refines_start:
  "refines (InitializeOrClear h) (start_heap Map.empty)"
  by (simp add: refines_def InitializeOrClear_correct abs_empty_def start_heap_def)

lemma refines_start_Insert:
  assumes "refines h (start_heap S)" "n \<notin> dom S" "INT_MIN \<le> w"
  shows "\<exists>h'. heap_Insert UnorderedMapStorage h n w \<lparr> parent = n \<rparr> = Some h' \<and> refines h' (start_heap (S(n \<mapsto> w)))"
proof -
  have "abs_insert (start_heap S) n w \<lparr> parent = n \<rparr> = start_heap (S(n \<mapsto> w))"
    by (auto simp: abs_insert_def start_heap_def)
  then show ?thesis using refines_Insert [OF assms(1), of n w "\<lparr> parent = n \<rparr>"] assms(2,3)
    by (auto simp: start_heap_def dom_def)
qed

lemma sample_route: "route sample_hierarchy [0 \<mapsto> 0] [1 \<mapsto> 3] l \<longleftrightarrow> l = 15"
proof
  assume "route sample_hierarchy [0 \<mapsto> 0] [1 \<mapsto> 3] l"
  then obtain w where "road_walk sample_hierarchy True 0 1 w" "l = w + 3"
    by (auto simp: route_def split: if_splits)
  then show "l = 15" using sample_walks [of 0 1 w] by auto
next
  assume "l = 15"
  moreover have "route_len sample_hierarchy True [0 \<mapsto> 0] [1 \<mapsto> 3] 2 ((0 + 5) + (3 + 7))"
    unfolding route_len_def using sample_up by fastforce
  ultimately show "route sample_hierarchy [0 \<mapsto> 0] [1 \<mapsto> 3] l" using route_len_route by fastforce
qed

lemma sample_start:
  obtains F R where "heap_Insert UnorderedMapStorage (InitializeOrClear None) 0 0 \<lparr> parent = 0 \<rparr> = Some F"
    "refines F (start_heap [0 \<mapsto> 0])"
    "heap_Insert UnorderedMapStorage (InitializeOrClear None) 1 3 \<lparr> parent = 1 \<rparr> = Some R"
    "refines R (start_heap [1 \<mapsto> 3])"
proof -
  have "INT_MIN \<le> 0" "INT_MIN \<le> 3" by (simp_all add: INT_MIN_def)
  then show thesis
    using that refines_start_Insert [OF refines_start, of 0 0] refines_start_Insert [OF refines_start, of 1 3]
    unfolding dom_empty by blast
qed

lemma sample_start_ok:
  "start_ok sample_hierarchy 0 [0 \<mapsto> 0]" "start_ok sample_hierarchy 0 [1 \<mapsto> 3]"
  "\<forall>l. route sample_hierarchy [0 \<mapsto> 0] [1 \<mapsto> 3] l \<longrightarrow> 0 \<le> l"
proof -
  show "\<forall>l. route sample_hierarchy [0 \<mapsto> 0] [1 \<mapsto> 3] l \<longrightarrow> 0 \<le> l" unfolding sample_route by simp
qed (auto simp: start_ok_def sample_hierarchy_def split: if_splits)


end
