(* ===== verification/Path_Retrieval.thy ===== *)
theory Path_Retrieval
  imports Search_Correct
begin

text \<open>
  Reading the packed path off the two heaps after the search
  (\<open>RetrievePackedPathFromSingleHeap\<close> and \<open>RetrievePackedPathFromHeap\<close> of
  \<^verbatim>\<open>RoutingAlgorithms/BasicRoutingInterface.h\<close>).  The parent pointers of a heap end at a start
  node because keys strictly decrease along them; the path read off is a road walk whose length
  is the bound of the search.
\<close>

text \<open>The \<^verbatim>\<open>const\<close> overload of \<^verbatim>\<open>BinaryHeap::GetData\<close>, which reads the storage without inserting.\<close>

definition heap_const_GetData :: "QueryHeap \<Rightarrow> NodeID \<Rightarrow> HeapData option" where
  "heap_const_GetData h node = do {
     index \<leftarrow> UnorderedMapStorage_const_at (node_index h) node;
     hn \<leftarrow> vec_at (inserted_nodes h) index;
     Some (hn_data hn)
   }"

partial_function (option) RetrievePackedPathFromSingleHeap ::
    "QueryHeap \<Rightarrow> NodeID \<Rightarrow> NodeID list \<Rightarrow> NodeID list option" where
  "RetrievePackedPathFromSingleHeap search_heap current_node_id packed_path = do {
     d \<leftarrow> heap_const_GetData search_heap current_node_id;
     if current_node_id \<noteq> parent d
     then RetrievePackedPathFromSingleHeap search_heap (parent d) (packed_path @ [parent d])
     else Some packed_path
   }"

definition RetrievePackedPathFromHeap ::
    "QueryHeap \<Rightarrow> QueryHeap \<Rightarrow> NodeID \<Rightarrow> NodeID list \<Rightarrow> NodeID list option" where
  "RetrievePackedPathFromHeap forward_heap reverse_heap middle_node_id packed_path = do {
     packed_path \<leftarrow> RetrievePackedPathFromSingleHeap forward_heap middle_node_id packed_path;
     let packed_path = rev packed_path;
     let packed_path = packed_path @ [middle_node_id];
     RetrievePackedPathFromSingleHeap reverse_heap middle_node_id packed_path
   }"

section \<open>Walks along a list of nodes\<close>

fun walk_along :: "EdgeData StaticGraph \<Rightarrow> bool \<Rightarrow> NodeID list \<Rightarrow> int \<Rightarrow> bool" where
  "walk_along g fwd [] w \<longleftrightarrow> False"
| "walk_along g fwd [x] w \<longleftrightarrow> w = 0"
| "walk_along g fwd (x # y # xs) w \<longleftrightarrow> (\<exists>c. dir_arc g fwd x y c \<and> walk_along g fwd (y # xs) (w - c))"

lemma walk_along_append:
  "walk_along g fwd (xs @ [x]) v \<Longrightarrow> walk_along g fwd (x # ys) w \<Longrightarrow> walk_along g fwd (xs @ x # ys) (v + w)"
proof (induction xs arbitrary: v)
  case (Cons a xs)
  show ?case
  proof (cases xs)
    case Nil
    then show ?thesis using Cons.prems by (auto intro!: exI [of _ v])
  next
    case (Cons b zs)
    then obtain c where c: "dir_arc g fwd a b c" "walk_along g fwd (xs @ [x]) (v - c)"
      using Cons.prems(1) by auto
    then have "walk_along g fwd (xs @ x # ys) (v + w - c)"
      using Cons.IH [OF c(2) Cons.prems(2)] by (simp add: algebra_simps)
    then show ?thesis using c(1) Cons by auto
  qed
qed simp

lemma walk_along_rev: "walk_along g (\<not> fwd) xs w \<Longrightarrow> walk_along g fwd (rev xs) w"
proof (induction xs arbitrary: w rule: induct_list012)
  case (3 x y xs)
  then obtain c where c: "dir_arc g (\<not> fwd) x y c" "walk_along g (\<not> fwd) (y # xs) (w - c)" by auto
  then have "walk_along g fwd (rev xs @ [y]) (w - c)" using 3 by simp
  moreover have "walk_along g fwd [y, x] c" using c(1) dir_arc_flip [of g fwd x y] by simp
  ultimately show ?case using walk_along_append [of g fwd "rev xs" y "w - c" "[x]" c] by simp
qed auto

lemma walk_along_road: "walk_along g fwd (x # xs) w \<Longrightarrow> road_walk g fwd x (last (x # xs)) w"
proof (induction xs arbitrary: x w)
  case (Cons y xs)
  then obtain c where c: "dir_arc g fwd x y c" "walk_along g fwd (y # xs) (w - c)" by auto
  have "road_walk g fwd x y (0 + c)" by (rule road_step [OF road_refl c(1)])
  then show ?case using road_walk_trans [OF Cons.IH [OF c(2)]] by fastforce
qed (simp add: road_refl)

section \<open>Following the parents\<close>

lemma const_GetData:
  assumes "refines h a" "ah_data a n = Some d"
  shows "heap_const_GetData h n = Some d"
proof -
  have inv: "query_inv h" "abs_of h = a" using assms(1) by (simp_all add: refines_def)
  obtain hn where hn: "hn \<in> set (inserted_nodes h)" "hn_node hn = n" "hn_data hn = d"
    using assms(2) inv(2) by (auto simp: abs_of_def abs_nodes_def dest!: map_of_SomeD)
  then obtain j where j: "j < length (inserted_nodes h)" "inserted_nodes h ! j = hn" by (auto simp: in_set_conv_nth)
  then have "node_index h n = Some j" using inv(1) hn(2) by (auto simp: heap_inv_def)
  then show ?thesis using j hn(3) by (simp add: heap_const_GetData_def UnorderedMapStorage_const_at_def vec_simps)
qed

lemma retrieve_single:
  assumes core: "core g fwd S a" and h: "refines h a" and g: "query_graph g" and S: "start_ok g meo S"
    and k: "ah_key a n = Some k"
  shows "\<exists>ps off. RetrievePackedPathFromSingleHeap h n acc = Some (acc @ ps) \<and> S (last (n # ps)) = Some off \<and>
    walk_along g (\<not> fwd) (n # ps) (k - off)"
  using k
proof (induction "nat (k - meo)" arbitrary: n k acc rule: less_induct)
  case less
  obtain p where p: "ah_data a n = Some \<lparr> parent = p \<rparr>" "p = n \<and> S n = Some k \<or>
      p \<in> settled a \<and> (\<exists>l w. ah_key a p = Some l \<and> (n, w) \<in> set (arcs g fwd p) \<and> k = l + w)"
    using core less.prems unfolding core_def parent_ok_def by blast
  note step = RetrievePackedPathFromSingleHeap.simps [of h n acc]
  note data = const_GetData [OF h p(1)]
  show ?case
  proof (cases "p = n \<and> S n = Some k")
    case True
    then show ?thesis using data by (intro exI [of _ "[]"] exI [of _ k]) (simp add: step)
  next
    case False
    then obtain l w where l: "ah_key a p = Some l" "(n, w) \<in> set (arcs g fwd p)" "k = l + w" using p(2) by blast
    have "p < sg_number_of_nodes g" using core l(1) unfolding core_def by blast
    then have w: "0 < w" using query_graph_arcs(2) [OF g _ l(2)] by blast
    then have "p \<noteq> n" using l less.prems by auto
    moreover have "nat (l - meo) < nat (k - meo)" using w l(3) key_lower_bound [OF core S g l(1)] by simp
    from less.hyps [OF this l(1), of "acc @ [p]"]
    obtain ps off where ps: "RetrievePackedPathFromSingleHeap h p (acc @ [p]) = Some ((acc @ [p]) @ ps)"
      "S (last (p # ps)) = Some off" "walk_along g (\<not> fwd) (p # ps) (l - off)" by blast
    moreover have "dir_arc g (\<not> fwd) n p w" using l(2) by (simp add: dir_arc_def)
    moreover have "walk_along g (\<not> fwd) (p # ps) (k - off - w)" using ps(3) l(3) by (simp add: algebra_simps)
    ultimately show ?thesis using data
      by (intro exI [of _ "p # ps"] exI [of _ off]) (auto simp: step intro!: exI [of _ w])
  qed
qed

text \<open>Both directions: from a start node over the middle node to an end node.\<close>

lemma retrieve_both:
  assumes core: "core g True S a" "core g False T b" and h: "refines F a" "refines R b" and g: "query_graph g"
    and S: "start_ok g meo S" "start_ok g meo T" and k: "ah_key a n = Some k" "ah_key b n = Some l"
  obtains p off off' w where "RetrievePackedPathFromHeap F R n [] = Some p" "p \<noteq> []" "S (hd p) = Some off"
    "T (last p) = Some off'" "walk_along g True p w" "off + w + off' = k + l"
proof -
  obtain ps off where ps: "RetrievePackedPathFromSingleHeap F n [] = Some ps" "S (last (n # ps)) = Some off"
    "walk_along g False (n # ps) (k - off)"
    using retrieve_single [OF core(1) h(1) g S(1) k(1), of "[]"] by auto
  obtain qs off' where qs: "RetrievePackedPathFromSingleHeap R n (rev ps @ [n]) = Some ((rev ps @ [n]) @ qs)"
    "T (last (n # qs)) = Some off'" "walk_along g True (n # qs) (l - off')"
    using retrieve_single [OF core(2) h(2) g S(2) k(2), of "rev ps @ [n]"] by auto
  let ?p = "rev ps @ n # qs"
  have "RetrievePackedPathFromHeap F R n [] = Some ?p"
    using ps(1) qs(1) by (simp add: RetrievePackedPathFromHeap_def)
  moreover have "hd ?p = last (n # ps)" by (cases ps rule: rev_cases) auto
  moreover have "last ?p = last (n # qs)" by simp
  moreover have "walk_along g True ?p ((k - off) + (l - off'))"
    using walk_along_append walk_along_rev [of g True "n # ps"] ps(3) qs(3) by simp
  ultimately show thesis using that [of ?p off off' "(k - off) + (l - off')"] ps(2) qs(2) by simp
qed

text \<open>A finished search has found a shortest route and its path, or there is no route below the initial bound.\<close>

lemma search_path:
  assumes g: "query_graph g" "hierarchy g" and F: "refines F (start_heap S)" and R: "refines R (start_heap T)"
    and S: "start_ok g meo S" and T: "start_ok g meo T" and nonneg: "\<forall>l. route g S T l \<longrightarrow> 0 \<le> l"
  obtains (none) F' R' where "search_loop g meo (F, R, mid0, ub0) = Some (F', R', mid0, ub0)" "\<And>l. route g S T l \<Longrightarrow> ub0 \<le> l"
  | (found) F' R' mid ub p off off' w where "search_loop g meo (F, R, mid0, ub0) = Some (F', R', mid, ub)" "ub < ub0"
    "mid < sg_number_of_nodes g" "RetrievePackedPathFromHeap F' R' mid [] = Some p" "p \<noteq> []" "S (hd p) = Some off"
    "T (last p) = Some off'" "walk_along g True p w" "off + w + off' = ub" "\<And>l. route g S T l \<Longrightarrow> ub \<le> l"
proof -
  obtain F' R' cur a b where r: "search_loop g meo (F, R, mid0, ub0) = Some (F', R', cur)" "refines F' a" "refines R' b"
    "search_inv g True meo S T (mid0, ub0) a b cur" "\<And>l. route g S T l \<Longrightarrow> snd cur \<le> l"
    using search_loop_result [OF g F R S T nonneg] by metis
  have core: "core g True S a" "core g False T b" using r(4) by (simp_all add: search_inv_def)
  show thesis
  proof (cases "cur = (mid0, ub0)")
    case True
    then show thesis using none r(1,5) by simp
  next
    case False
    obtain mid ub where cur: "cur = (mid, ub)" by fastforce
    obtain k l where k: "ah_key a mid = Some k" "ah_key b mid = Some l" "k + l \<le> ub" "ub < ub0"
      using r(4) False cur by (auto simp: search_inv_def bound_inv_def)
    have "k + l = ub"
      using r(5) [OF route_len_route [OF core_route_len [OF core(1) _ k(1,2)]]] core(2) k(3) cur by simp
    moreover have "mid < sg_number_of_nodes g" using core(1) k(1) unfolding core_def by blast
    ultimately show thesis
      using found [OF _ k(4)] r(1,5) unfolding cur by (metis retrieve_both [OF core r(2,3) g(1) S T k(1,2)] snd_conv)
  qed
qed

lemma route_walk:
  assumes "p \<noteq> []" "S (hd p) = Some off" "T (last p) = Some off'" "walk_along g True p w" "off + w + off' = l"
  shows "route g S T l"
  by (rule routeI [of _ "hd p" off _ "last p" off' _ w])
    (use walk_along_road [of g True "hd p" "tl p" w] assms in auto)



end
