(* ===== verification/Range_Table.thy ===== *)
theory Range_Table
  imports OSRM_Prelude
begin

text \<open>
  \<^verbatim>\<open>DataStructures/RangeTable.h\<close>: consecutive ranges of a string table, stored as one absolute
  offset per block and \<open>B\<close> one-byte lengths (\<open>B\<close> is the template parameter \<^verbatim>\<open>BLOCK_SIZE\<close>).
  Offsets are \<^verbatim>\<open>unsigned\<close>, sums are written with their wrap-around.  The theory shows that
  \<open>GetRange\<close> returns the ranges of the length vector and that the stream operators round-trip.
\<close>

section \<open>The table\<close>

type_synonym BlockT = "nat list"

record RangeTable =
  block_offsets :: "nat list"
  diff_blocks :: "BlockT list"
  sum_lengths :: nat

definition uadd :: "nat \<Rightarrow> nat \<Rightarrow> nat" where
  "uadd x y = (x + y) mod 2 ^ 32"

definition number_of_blocks :: "nat \<Rightarrow> nat list \<Rightarrow> nat" where
  "number_of_blocks B lengths =
     (length lengths + 1) div (B + 1) + (if (length lengths + 1) mod (B + 1) \<noteq> 0 then 1 else 0)"

text \<open>The local variables of the constructor.\<close>

record RT_State =
  rt_offsets :: "nat list"
  rt_blocks :: "BlockT list"
  last_length :: nat
  lengths_prefix_sum :: nat
  block_idx :: nat
  block_counter :: nat
  block :: BlockT
  block_sum :: nat

text \<open>One iteration of the loop over the lengths.\<close>

definition rt_enter :: "RT_State \<Rightarrow> RT_State option" where
  "rt_enter s =
     (if block_idx s = 0
      then Some (s\<lparr> rt_offsets := rt_offsets s @ [lengths_prefix_sum s], block_sum := 0 \<rparr>)
      else do {
        b \<leftarrow> vec_upd (block s) (block_idx s - 1) (\<lambda>_. last_length s mod 256);
        Some (s\<lparr> block := b, block_sum := uadd (block_sum s) (last_length s) \<rparr>)
      })"

definition rt_step :: "nat \<Rightarrow> RT_State \<Rightarrow> nat \<Rightarrow> RT_State option" where
  "rt_step B s l = do {
     s \<leftarrow> rt_enter s;
     off \<leftarrow> vec_at (rt_offsets s) (block_counter s);
     assert_that (block_idx s = 0 \<and> off = lengths_prefix_sum s \<or>
                  lengths_prefix_sum s = uadd off (block_sum s));
     let s = (if B = block_idx s
              then s\<lparr> rt_blocks := rt_blocks s @ [block s], block_counter := block_counter s + 1 \<rparr>
              else s);
     assert_that (l \<le> 255);
     Some (s\<lparr> lengths_prefix_sum := uadd (lengths_prefix_sum s) l, last_length := l,
              block_idx := (block_idx s + 1) mod (B + 1) \<rparr>)
   }"

fun rt_loop :: "nat \<Rightarrow> nat list \<Rightarrow> RT_State \<Rightarrow> RT_State option" where
  "rt_loop B [] s = Some s"
| "rt_loop B (l # ls) s = do { s \<leftarrow> rt_step B s l; rt_loop B ls s }"

text \<open>The final \<open>while\<close>: pad the last block with zeros.\<close>

function rt_pad :: "nat \<Rightarrow> nat \<Rightarrow> nat \<Rightarrow> BlockT \<Rightarrow> BlockT option" where
  "rt_pad B idx lastlen blk =
     (if idx = 0 then Some blk
      else do {
        blk \<leftarrow> vec_upd blk (idx - 1) (\<lambda>_. lastlen mod 256);
        if idx < B + 1 then rt_pad B ((idx + 1) mod (B + 1)) 0 blk else None
      })"
  by pat_completeness auto
termination
proof (relation "measure (\<lambda>(B, idx, _, _). if idx = 0 then 0 else B + 2 - idx)", goal_cases)
  case (2 B idx lastlen blk x)
  then show ?case by (cases "idx = B") auto
qed simp

declare rt_pad.simps [simp del]

definition RangeTable_of :: "nat \<Rightarrow> BlockT \<Rightarrow> nat list \<Rightarrow> RangeTable option" where
  "RangeTable_of B junk lengths = do {
     s \<leftarrow> rt_loop B lengths
       \<lparr> rt_offsets = [], rt_blocks = [], last_length = 0, lengths_prefix_sum = 0, block_idx = 0,
         block_counter = 0, block = junk, block_sum = 0 \<rparr>;
     assert_that (block_counter s = number_of_blocks B lengths - 1);
     let s = (if block_idx s = 0
              then s\<lparr> rt_offsets := rt_offsets s @ [lengths_prefix_sum s], block_idx := 1, last_length := 0 \<rparr>
              else s);
     b \<leftarrow> rt_pad B (block_idx s) (last_length s) (block s);
     let blocks = rt_blocks s @ [b];
     assert_that (length blocks = number_of_blocks B lengths \<and> length (rt_offsets s) = number_of_blocks B lengths);
     Some \<lparr> block_offsets = rt_offsets s, diff_blocks = blocks, sum_lengths = lengths_prefix_sum s \<rparr>
   }"

fun prefix_sum_loop :: "BlockT \<Rightarrow> nat list \<Rightarrow> nat \<Rightarrow> nat option" where
  "prefix_sum_loop blk [] acc = Some acc"
| "prefix_sum_loop blk (i # is) acc = do { x \<leftarrow> vec_at blk i; prefix_sum_loop blk is (uadd acc x) }"

definition PrefixSumAtIndex :: "nat \<Rightarrow> BlockT \<Rightarrow> nat option" where
  "PrefixSumAtIndex index blk = prefix_sum_loop blk (irange 0 (index + 1)) 0"

definition GetRange :: "nat \<Rightarrow> RangeTable \<Rightarrow> nat \<Rightarrow> nat list option" where
  "GetRange B t rid = do {
     assert_that (rid < length (block_offsets t) + length (diff_blocks t) * B);
     let internal_idx = rid mod (B + 1);
     let block_idx = rid div (B + 1);
     assert_that (block_idx < length (diff_blocks t));
     off \<leftarrow> vec_at (block_offsets t) block_idx;
     blk \<leftarrow> vec_at (diff_blocks t) block_idx;
     begin_idx \<leftarrow> (if internal_idx > 0
                    then do { s \<leftarrow> PrefixSumAtIndex (internal_idx - 1) blk; Some (uadd off s) }
                    else Some off);
     end_idx \<leftarrow> (if internal_idx < B
                  then do { x \<leftarrow> vec_at blk internal_idx; Some (uadd begin_idx x) }
                  else do {
                    assert_that (block_idx < length (block_offsets t) - 1);
                    vec_at (block_offsets t) (block_idx + 1)
                  });
     assert_that (begin_idx < sum_lengths t \<and> end_idx \<le> sum_lengths t);
     assert_that (begin_idx \<le> end_idx);
     Some (irange begin_idx end_idx)
   }"

section \<open>Stream operators\<close>

text \<open>
  The operators copy the memory of the fields.  An \<^verbatim>\<open>unsigned\<close> is four bytes, least significant
  first, as on the platforms the program runs on.
\<close>

definition bytes32 :: "nat \<Rightarrow> nat list" where
  "bytes32 n = [n mod 256, n div 256 mod 256, n div 65536 mod 256, n div 16777216 mod 256]"

fun read32 :: "nat list \<Rightarrow> (nat \<times> nat list) option" where
  "read32 (a # b # c # d # rest) = Some (a + 256 * b + 65536 * c + 16777216 * d, rest)"
| "read32 _ = None"

definition RangeTable_write :: "RangeTable \<Rightarrow> nat list" where
  "RangeTable_write t = bytes32 (length (diff_blocks t)) @ bytes32 (sum_lengths t) @
     concat (map bytes32 (block_offsets t)) @ concat (diff_blocks t)"

fun read_offsets :: "nat \<Rightarrow> nat list \<Rightarrow> (nat list \<times> nat list) option" where
  "read_offsets 0 inp = Some ([], inp)"
| "read_offsets (Suc k) inp = do {
     (x, inp) \<leftarrow> read32 inp;
     (xs, inp) \<leftarrow> read_offsets k inp;
     Some (x # xs, inp)
   }"

fun read_blocks :: "nat \<Rightarrow> nat \<Rightarrow> nat list \<Rightarrow> (BlockT list \<times> nat list) option" where
  "read_blocks B 0 inp = Some ([], inp)"
| "read_blocks B (Suc k) inp = do {
     assert_that (B \<le> length inp);
     (bs, rest) \<leftarrow> read_blocks B k (drop B inp);
     Some (take B inp # bs, rest)
   }"

definition RangeTable_read :: "nat \<Rightarrow> nat list \<Rightarrow> (RangeTable \<times> nat list) option" where
  "RangeTable_read B inp = do {
     (k, inp) \<leftarrow> read32 inp;
     (total, inp) \<leftarrow> read32 inp;
     (offs, inp) \<leftarrow> read_offsets k inp;
     (blks, inp) \<leftarrow> read_blocks B k inp;
     Some (\<lparr> block_offsets = offs, diff_blocks = blks, sum_lengths = total \<rparr>, inp)
   }"

section \<open>The loop\<close>

definition len_at :: "nat list \<Rightarrow> nat \<Rightarrow> nat" where
  "len_at ls i = (if i < length ls then ls ! i else 0)"

definition psum :: "nat list \<Rightarrow> nat \<Rightarrow> nat" where
  "psum ls i = sum_list (take i ls)"

lemma psum_0 [simp]: "psum ls 0 = 0"
  by (simp add: psum_def)

lemma psum_Suc: "psum ls (Suc i) = psum ls i + len_at ls i"
  by (simp add: psum_def len_at_def take_Suc_conv_app_nth)

lemma psum_mono: "i \<le> j \<Longrightarrow> psum ls i \<le> psum ls j"
  by (induction rule: dec_induct) (simp_all add: psum_Suc)

lemma psum_le: "psum ls i \<le> sum_list ls"
  using psum_mono [of i "max i (length ls)" ls] by (simp add: psum_def)

lemma psum_add: "psum ls (a + k) = psum ls a + (\<Sum>i<k. len_at ls (a + i))"
  by (induction k) (simp_all add: psum_Suc)

text \<open>The closed form of block \<open>q\<close>, and the state after \<open>k\<close> lengths.\<close>

definition block_of :: "nat \<Rightarrow> nat list \<Rightarrow> nat \<Rightarrow> BlockT" where
  "block_of B ls q = map (\<lambda>i. len_at ls (q * (B + 1) + i)) [0..<B]"

definition rt_inv :: "nat \<Rightarrow> nat list \<Rightarrow> nat \<Rightarrow> RT_State \<Rightarrow> bool" where
  "rt_inv B ls k s \<longleftrightarrow>
     block_idx s = k mod (B + 1) \<and> block_counter s = k div (B + 1) \<and> lengths_prefix_sum s = psum ls k \<and>
     rt_offsets s = map (\<lambda>q. psum ls (q * (B + 1)))
       [0..<k div (B + 1) + (if k mod (B + 1) = 0 then 0 else 1)] \<and>
     rt_blocks s = map (block_of B ls) [0..<k div (B + 1)] \<and> length (block s) = B \<and>
     (k mod (B + 1) > 0 \<longrightarrow> last_length s = len_at ls (k - 1) \<and>
       psum ls (k div (B + 1) * (B + 1)) + block_sum s = psum ls (k - 1) \<and>
       (\<forall>i < k mod (B + 1) - 1. block s ! i = len_at ls (k div (B + 1) * (B + 1) + i)))"

lemma len_at_le: "\<forall>l \<in> set ls. l \<le> 255 \<Longrightarrow> len_at ls i \<le> 255"
  by (simp add: len_at_def)

lemma rt_step_correct:
  assumes B: "0 < B" and inv: "rt_inv B ls k s" and k: "k < length ls"
    and small: "\<forall>l \<in> set ls. l \<le> 255" and sum: "sum_list ls < 2 ^ 32"
  shows "\<exists>s'. rt_step B s (ls ! k) = Some s' \<and> rt_inv B ls (Suc k) s'"
proof -
  let ?q = "k div (B + 1)" and ?r = "k mod (B + 1)" and ?l = "ls ! k"
  have wrap: "psum ls j mod 2 ^ 32 = psum ls j" for j
    using psum_le [of ls j] sum by simp
  have kq: "k = ?q * (B + 1) + ?r" by (simp only: div_mult_mod_eq)
  have pk: "psum ls (Suc k) = psum ls k + ?l" using k by (simp add: psum_Suc len_at_def)
  have pfx: "uadd (psum ls k) ?l = psum ls (Suc k)" unfolding uadd_def pk [symmetric] by (rule wrap)
  have l: "?l \<le> 255" using small k by simp
  have rB: "?r \<le> B" using mod_less_divisor [of "B + 1" k] by simp
  show ?thesis
  proof (cases "?r = 0")
    case True
    then have nxt: "Suc k mod (B + 1) = 1" "Suc k div (B + 1) = ?q" using B by (auto simp: mod_Suc div_Suc)
    have kq0: "k = ?q * (B + 1)" using kq True by linarith
    let ?s = "s\<lparr> rt_offsets := rt_offsets s @ [lengths_prefix_sum s], block_sum := 0,
      lengths_prefix_sum := psum ls (Suc k), last_length := ?l, block_idx := 1 \<rparr>"
    have "rt_step B s ?l = Some ?s"
      using inv True B l pfx by (simp add: rt_step_def rt_enter_def rt_inv_def vec_at_def nth_append)
    moreover have "rt_inv B ls (Suc k) ?s"
      using inv True nxt kq0 [symmetric] k by (simp add: rt_inv_def len_at_def)
    ultimately show ?thesis by blast
  next
    case False
    let ?b = "(block s)[?r - 1 := len_at ls (k - 1)]" and ?bs = "uadd (block_sum s) (len_at ls (k - 1))"
    have inv': "last_length s = len_at ls (k - 1)" "psum ls (?q * (B + 1)) + block_sum s = psum ls (k - 1)"
      "\<forall>i < ?r - 1. block s ! i = len_at ls (?q * (B + 1) + i)" "length (block s) = B"
      "block_idx s = ?r" "block_counter s = ?q" "lengths_prefix_sum s = psum ls k"
      using inv False by (auto simp: rt_inv_def)
    have k1: "Suc (k - 1) = k" using False by (cases k) auto
    have bs: "psum ls (?q * (B + 1)) + (block_sum s + len_at ls (k - 1)) = psum ls k"
      using inv'(2) psum_Suc [of ls "k - 1"] k1 by simp
    then have "block_sum s + len_at ls (k - 1) < 2 ^ 32" using psum_le [of ls k] sum by linarith
    then have bs': "psum ls (?q * (B + 1)) + ?bs = psum ls k" using bs by (simp add: uadd_def)
    have lt: "?r - 1 < length (block s)" using rB False inv'(4) B by linarith
    have entries: "?b ! i = len_at ls (?q * (B + 1) + i)" if "i < ?r" for i
    proof (cases "i = ?r - 1")
      case True
      then have "?q * (B + 1) + i = k - 1" using kq False by linarith
      then show ?thesis using True lt by simp
    next
      case False
      then show ?thesis using that inv'(3) by simp
    qed
    have enter: "rt_enter s = Some (s\<lparr> block := ?b, block_sum := ?bs \<rparr>)"
      using inv'(1,5) False lt le_less_trans [OF len_at_le [OF small, of "k - 1"], of 256]
      by (simp add: rt_enter_def vec_simps)
    have off: "vec_at (rt_offsets s) ?q = Some (psum ls (?q * (B + 1)))"
      using inv False by (simp add: rt_inv_def vec_at_def nth_append)
    have chk: "uadd (psum ls (?q * (B + 1))) ?bs = psum ls k" using bs' wrap by (simp add: uadd_def)
    show ?thesis
    proof (cases "?r = B")
      case True
      then have nxt: "Suc k mod (B + 1) = 0" "Suc k div (B + 1) = Suc ?q" by (auto simp: mod_Suc div_Suc)
      have "?b = block_of B ls ?q"
        using entries True inv'(4) by (intro nth_equalityI) (simp_all add: block_of_def)
      moreover have "rt_step B s ?l = Some (s\<lparr> block := ?b, block_sum := ?bs, rt_blocks := rt_blocks s @ [?b],
          block_counter := Suc ?q, lengths_prefix_sum := psum ls (Suc k), last_length := ?l, block_idx := 0 \<rparr>)"
        using enter off chk l pfx inv'(5-7) True by (simp add: rt_step_def)
      ultimately show ?thesis using inv nxt False inv'(4) by (simp add: rt_inv_def block_of_def)
    next
      case False
      then have nxt: "Suc k mod (B + 1) = Suc ?r" "Suc k div (B + 1) = ?q" using rB by (auto simp: mod_Suc div_Suc)
      have m: "Suc ?r mod (B + 1) = Suc ?r" using False rB by (intro mod_less) linarith
      have "rt_step B s ?l = Some (s\<lparr> block := ?b, block_sum := ?bs,
          lengths_prefix_sum := psum ls (Suc k), last_length := ?l, block_idx := Suc ?r \<rparr>)"
        using enter off chk l pfx inv'(5-7) False m by (simp add: rt_step_def)
      then show ?thesis using inv nxt \<open>?r \<noteq> 0\<close> inv'(4) entries bs' k by (simp add: rt_inv_def len_at_def)
    qed
  qed
qed

lemma rt_loop_correct:
  assumes "0 < B" "\<forall>l \<in> set ls. l \<le> 255" "sum_list ls < 2 ^ 32" "rt_inv B ls k s" "k \<le> length ls"
  shows "\<exists>s'. rt_loop B (drop k ls) s = Some s' \<and> rt_inv B ls (length ls) s'"
  using assms(4,5)
proof (induction "length ls - k" arbitrary: k s)
  case (Suc n)
  then have "k < length ls" by simp
  then have "drop k ls = ls ! k # drop (Suc k) ls" by (simp add: Cons_nth_drop_Suc)
  moreover obtain s' where "rt_step B s (ls ! k) = Some s'" "rt_inv B ls (Suc k) s'"
    using rt_step_correct [OF assms(1) Suc.prems(1) \<open>k < length ls\<close> assms(2,3)] by blast
  ultimately show ?case using Suc.hyps(1) [of "Suc k" s'] Suc.hyps(2) \<open>k < length ls\<close> by simp
qed simp

lemma rt_pad_correct:
  assumes "0 < idx" "idx \<le> B" "length blk = B"
  shows "\<exists>b. rt_pad B idx lastlen blk = Some b \<and> length b = B \<and>
    (\<forall>i < B. b ! i = (if i < idx - 1 then blk ! i else if i = idx - 1 then lastlen mod 256 else 0))"
  using assms
proof (induction "B - idx" arbitrary: idx lastlen blk)
  case 0
  then have "idx = B" by simp
  then show ?case using 0 by (auto simp: rt_pad.simps [of B B] rt_pad.simps [of B 0] vec_simps nth_list_update)
next
  case (Suc n)
  let ?b = "blk[idx - 1 := lastlen mod 256]"
  have run: "rt_pad B idx lastlen blk = rt_pad B (Suc idx) 0 ?b"
    using Suc.hyps(2) Suc.prems by (subst rt_pad.simps) (simp add: vec_simps)
  obtain b where b: "rt_pad B (Suc idx) 0 ?b = Some b" "length b = B"
    "\<forall>i < B. b ! i = (if i < Suc idx - 1 then ?b ! i else if i = Suc idx - 1 then 0 mod 256 else 0)"
    using Suc.hyps(1) [of "Suc idx" ?b 0] Suc.hyps(2) Suc.prems by fastforce
  have "b ! i = (if i < idx - 1 then blk ! i else if i = idx - 1 then lastlen mod 256 else 0)" if "i < B" for i
    using b(3) that Suc.prems by (auto simp: nth_list_update)
  then show ?case using run b(1,2) by simp
qed

definition table_of :: "nat \<Rightarrow> nat list \<Rightarrow> RangeTable" where
  "table_of B ls = \<lparr> block_offsets = map (\<lambda>q. psum ls (q * (B + 1))) [0..<Suc (length ls div (B + 1))],
     diff_blocks = map (block_of B ls) [0..<Suc (length ls div (B + 1))], sum_lengths = sum_list ls \<rparr>"

lemma number_of_blocks_eq: "number_of_blocks B ls = Suc (length ls div (B + 1))"
  by (auto simp: number_of_blocks_def div_Suc mod_Suc)

lemma RangeTable_of_correct:
  assumes B: "0 < B" and small: "\<forall>l \<in> set ls. l \<le> 255" and sum: "sum_list ls < 2 ^ 32" and junk: "length junk = B"
  shows "RangeTable_of B junk ls = Some (table_of B ls)"
proof -
  let ?s0 = "\<lparr> rt_offsets = [], rt_blocks = [], last_length = 0, lengths_prefix_sum = 0, block_idx = 0,
         block_counter = 0, block = junk, block_sum = 0 \<rparr>"
  let ?n = "length ls"
  let ?q = "?n div (B + 1)" and ?r = "?n mod (B + 1)"
  have "rt_inv B ls 0 ?s0" using junk by (simp add: rt_inv_def)
  then obtain s where s: "rt_loop B ls ?s0 = Some s" "rt_inv B ls ?n s"
    using rt_loop_correct [OF B small sum, of 0] by auto
  have tot: "psum ls ?n = sum_list ls" by (simp add: psum_def)
  have nq: "?q * (B + 1) + ?r = ?n" by (simp only: div_mult_mod_eq)
  have rB: "?r \<le> B" using mod_less_divisor [of "B + 1" ?n] by simp
  show ?thesis
  proof (cases "?r = 0")
    case True
    obtain b where b: "rt_pad B 1 0 (block s) = Some b" "length b = B" "\<forall>i < B. b ! i = 0"
      using rt_pad_correct [of 1 B "block s" 0] B s(2) by (auto simp: rt_inv_def)
    have "b = block_of B ls ?q"
      using b(2,3) nq True by (intro nth_equalityI) (auto simp: block_of_def len_at_def)
    moreover have "psum ls (?q * (B + 1)) = sum_list ls" using nq True tot by simp
    ultimately show ?thesis using s b(1) True
      by (simp add: RangeTable_of_def rt_inv_def number_of_blocks_eq table_of_def tot)
  next
    case False
    obtain b where b: "rt_pad B ?r (last_length s) (block s) = Some b" "length b = B"
      "\<forall>i < B. b ! i = (if i < ?r - 1 then block s ! i else if i = ?r - 1 then last_length s mod 256 else 0)"
      using rt_pad_correct [of ?r B "block s" "last_length s"] rB False s(2) by (auto simp: rt_inv_def)
    have "b ! i = len_at ls (?q * (B + 1) + i)" if "i < B" for i
    proof -
      consider "i < ?r - 1" | "i = ?r - 1" | "?r \<le> i" by linarith
      then show ?thesis
      proof cases
        case 2
        then have "?q * (B + 1) + i = ?n - 1" using nq False by linarith
        then show ?thesis
          using 2 b(3) that s(2) False le_less_trans [OF len_at_le [OF small, of "?n - 1"], of 256] by (simp add: rt_inv_def)
      next
        case 3
        then have "\<not> ?q * (B + 1) + i < ?n" using nq by linarith
        moreover have "\<not> i < ?r - 1" "i \<noteq> ?r - 1" using 3 False by linarith+
        ultimately show ?thesis using b(3) that unfolding len_at_def by presburger
      qed (use b(3) that s(2) False in \<open>simp add: rt_inv_def\<close>)
    qed
    then have "b = block_of B ls ?q" using b(2) by (intro nth_equalityI) (simp_all add: block_of_def)
    then show ?thesis using s b(1) False
      by (simp add: RangeTable_of_def rt_inv_def number_of_blocks_eq table_of_def tot)
  qed
qed

lemma prefix_sum_loop_correct:
  assumes "k \<le> length blk" "a \<le> k" "acc + sum_list (take k blk) < 2 ^ 32 + sum_list (take a blk)" "acc < 2 ^ 32"
  shows "\<exists>r. prefix_sum_loop blk (irange a k) acc = Some r \<and> r + sum_list (take a blk) = acc + sum_list (take k blk)"
  using assms(2-4)
proof (induction "k - a" arbitrary: a acc)
  case (Suc n)
  then have a: "a < k" by simp
  have t: "sum_list (take (Suc a) blk) = sum_list (take a blk) + blk ! a"
    using a assms(1) by (simp add: take_Suc_conv_app_nth)
  have "sum_list (take (Suc a) blk) \<le> sum_list (take k blk)"
    using a psum_mono [of "Suc a" k blk] by (simp add: psum_def)
  then have u: "uadd acc (blk ! a) = acc + blk ! a" "acc + blk ! a < 2 ^ 32"
    using Suc.prems(2) t by (simp_all add: uadd_def)
  then show ?case
    using Suc.hyps(1) [of "Suc a" "acc + blk ! a"] Suc.hyps(2) Suc.prems a t assms(1)
    by (simp add: irange_Cons vec_simps)
qed simp

lemma GetRange_correct:
  assumes B: "0 < B" and sum: "sum_list ls < 2 ^ 32" and i: "i < length ls" and ne: "psum ls i < sum_list ls"
  shows "GetRange B (table_of B ls) i = Some (irange (psum ls i) (psum ls (Suc i)))"
proof -
  let ?q = "i div (B + 1)" and ?r = "i mod (B + 1)" and ?nb = "Suc (length ls div (B + 1))"
  let ?blk = "block_of B ls ?q"
  have iq: "?q * (B + 1) + ?r = i" by (simp only: div_mult_mod_eq)
  have rB: "?r \<le> B" using mod_less_divisor [of "B + 1" i] by simp
  have q: "?q < ?nb" using div_le_mono [of i "length ls" "B + 1"] i by simp
  have "length ls < ?nb * (B + 1)" using dividend_less_div_times [of "B + 1" "length ls"] by simp
  then have size: "i < ?nb + ?nb * B" using i by simp
  have take_blk: "sum_list (take k ?blk) = (\<Sum>j<k. len_at ls (?q * (B + 1) + j))" if "k \<le> B" for k
    using that by (simp add: block_of_def take_map interv_sum_list_conv_sum_set_nat atLeast0LessThan min_def)
  have psum_i: "psum ls i = psum ls (?q * (B + 1)) + sum_list (take ?r ?blk)"
    using psum_add [of ls "?q * (B + 1)" ?r] take_blk [OF rB] iq by simp
  have wrap: "psum ls j < 2 ^ 32" for j using psum_le [of ls j] sum by simp
  have begin_idx: "(if ?r > 0 then do { s \<leftarrow> PrefixSumAtIndex (?r - 1) ?blk; Some (uadd (psum ls (?q * (B + 1))) s) }
      else Some (psum ls (?q * (B + 1)))) = Some (psum ls i)"
  proof (cases "?r > 0")
    case True
    have "\<exists>s. prefix_sum_loop ?blk (irange 0 ?r) 0 = Some s \<and> s = sum_list (take ?r ?blk)"
      using prefix_sum_loop_correct [of ?r ?blk 0 0] rB psum_i wrap [of i] by (auto simp: block_of_def)
    moreover have "?r - 1 + 1 = ?r" using True by simp
    ultimately show ?thesis using True psum_i wrap [of i] by (simp add: PrefixSumAtIndex_def uadd_def)
  qed (use psum_i in simp)
  have end_idx: "(if ?r < B then do { x \<leftarrow> vec_at ?blk ?r; Some (uadd (psum ls i) x) }
      else do { assert_that (?q < ?nb - 1); vec_at (map (\<lambda>q. psum ls (q * (B + 1))) [0..<?nb]) (?q + 1) }) =
      Some (psum ls (Suc i))"
  proof (cases "?r < B")
    case True
    then show ?thesis using iq wrap [of "Suc i"]
      by (simp add: vec_at_def block_of_def psum_Suc uadd_def)
  next
    case False
    then have "?r = B" using rB by linarith
    then have "Suc i = ?q * (B + 1) + (B + 1)" using iq by linarith
    then have "Suc i = (?q + 1) * (B + 1)" by (metis add_mult_distrib mult_1)
    moreover from this have "?q + 1 \<le> length ls div (B + 1)"
      using i by (metis Suc_leI div_le_mono nonzero_mult_div_cancel_right add_is_0 one_neq_zero)
    ultimately show ?thesis using False by (simp add: vec_at_def del: upt_Suc)
  qed
  let ?t = "table_of B ls"
  have t: "block_offsets ?t = map (\<lambda>q. psum ls (q * (B + 1))) [0..<?nb]" "length (block_offsets ?t) = ?nb"
    "length (diff_blocks ?t) = ?nb" "sum_lengths ?t = sum_list ls"
    by (simp_all add: table_of_def del: upt_Suc)
  have at: "vec_at (block_offsets ?t) ?q = Some (psum ls (?q * (B + 1)))" "vec_at (diff_blocks ?t) ?q = Some ?blk"
    using q by (simp_all add: table_of_def vec_simps del: upt_Suc)
  have le: "psum ls (Suc i) \<le> sum_list ls" "psum ls i \<le> psum ls (Suc i)" by (simp_all add: psum_le psum_mono)
  show ?thesis
    unfolding GetRange_def Let_def t(2-4) at
    by (simp only: size q begin_idx end_idx [folded t(1)] ne le assert_that_True Option.bind.simps simp_thms)
qed

section \<open>Streams\<close>

lemma read32_bytes32: "n < 2 ^ 32 \<Longrightarrow> read32 (bytes32 n @ rest) = Some (n, rest)"
proof -
  assume n: "n < 2 ^ 32"
  have "n div 16777216 mod 256 = n div 16777216" using n by (simp add: less_mult_imp_div_less)
  moreover have "n mod 256 + 256 * (n div 256) = n" "n div 256 = n div 256 mod 256 + 256 * (n div 65536)"
    "n div 65536 = n div 65536 mod 256 + 256 * (n div 16777216)"
    using div_mult2_eq [of n 256 256] div_mult2_eq [of n 65536 256] by simp_all
  ultimately have "n mod 256 + 256 * (n div 256 mod 256) + 65536 * (n div 65536 mod 256) +
      16777216 * (n div 16777216 mod 256) = n" by linarith
  then show ?thesis unfolding bytes32_def append.simps read32.simps by (simp only:)
qed

lemma read_offsets_bytes:
  "\<forall>x \<in> set xs. x < 2 ^ 32 \<Longrightarrow> read_offsets (length xs) (concat (map bytes32 xs) @ rest) = Some (xs, rest)"
  by (induction xs) (simp_all add: read32_bytes32)

lemma read_blocks_bytes:
  "\<forall>b \<in> set bs. length b = B \<Longrightarrow> read_blocks B (length bs) (concat bs @ rest) = Some (bs, rest)"
  by (induction bs) simp_all

section \<open>Properties\<close>

text \<open>
  For every vector of lengths that fit one byte, the constructor succeeds (all its assertions
  hold, whatever the uninitialised block holds) and \<open>GetRange(i)\<close> on the table returns the range
  from the sum of the lengths before \<open>i\<close> to the sum including \<open>i\<close>, for every \<open>i\<close> whose range
  starts before the end of the data.
\<close>

theorem RangeTable_GetRange:
  assumes "0 < B" "length junk = B" "\<forall>l \<in> set lengths. l \<le> 255" "sum_list lengths < 2 ^ 32"
    and "i < length lengths" "sum_list (take i lengths) < sum_list lengths"
  shows "do { t \<leftarrow> RangeTable_of B junk lengths; GetRange B t i } =
    Some (irange (sum_list (take i lengths)) (sum_list (take (Suc i) lengths)))"
  using RangeTable_of_correct [OF assms(1,3,4,2)] GetRange_correct [OF assms(1,4,5)] assms(6)
  by (simp add: psum_def)

theorem RangeTable_GetRange_witness:
  "do { t \<leftarrow> RangeTable_of 2 [7, 7] [3, 0, 2, 5]; GetRange 2 t 2 } = Some (irange 3 5)"
proof -
  have "take 2 [3, 0, 2, 5] = [3, 0 :: nat]" "take (Suc 2) [3, 0, 2, 5] = [3, 0, 2 :: nat]" by (simp_all add: numeral_2_eq_2)
  then show ?thesis using RangeTable_GetRange [of 2 "[7, 7]" "[3, 0, 2, 5]" 2] by simp
qed

text \<open>
  Reading a table back from the bytes that \<open>operator<<\<close> wrote, followed by anything, returns
  the table and leaves the rest of the stream.
\<close>

theorem RangeTable_stream_roundtrip:
  assumes "length (block_offsets t) = length (diff_blocks t)" "length (diff_blocks t) < 2 ^ 32"
    and "sum_lengths t < 2 ^ 32" "\<forall>x \<in> set (block_offsets t). x < 2 ^ 32" "\<forall>b \<in> set (diff_blocks t). length b = B"
  shows "RangeTable_read B (RangeTable_write t @ rest) = Some (t, rest)"
  using assms read_offsets_bytes [OF assms(4), of "concat (diff_blocks t) @ rest"] read_blocks_bytes [OF assms(5), of rest]
  by (simp add: RangeTable_read_def RangeTable_write_def read32_bytes32)

theorem RangeTable_stream_roundtrip_witness:
  "RangeTable_read 2 (RangeTable_write (table_of 2 [3, 0, 2, 5]) @ [1]) = Some (table_of 2 [3, 0, 2, 5], [1])"
  by (rule RangeTable_stream_roundtrip) (simp_all add: table_of_def psum_def block_of_def)

end
