(* ===== verification/Coordinates.thy ===== *)
theory Coordinates
  imports OSRM_Prelude
begin

text \<open>
  Fixed-point coordinates (\<^verbatim>\<open>Include/osrm/Coordinate.h\<close>, the integer parts of
  \<^verbatim>\<open>DataStructures/Coordinate.cpp\<close>) and their conversion to text by the \<open>printInt\<close> of
  \<^verbatim>\<open>Util/StringUtil.h\<close>.  Coordinates are millionths of a degree.  \<open>isValid\<close> compares an
  \<^verbatim>\<open>int\<close> with a product of \<^verbatim>\<open>float\<close>s, that is after rounding the coordinate to a \<^verbatim>\<open>float\<close>; the
  rounding is part of the model.
\<close>

section \<open>Coordinates\<close>

record FixedPointCoordinate =
  lat :: int
  lon :: int

definition FixedPointCoordinate_unset :: FixedPointCoordinate where
  "FixedPointCoordinate_unset = \<lparr> lat = INT_MIN, lon = INT_MIN \<rparr>"

definition coordinate_Reset :: "FixedPointCoordinate \<Rightarrow> FixedPointCoordinate" where
  "coordinate_Reset c = c\<lparr> lat := INT_MIN, lon := INT_MIN \<rparr>"

definition isSet :: "FixedPointCoordinate \<Rightarrow> bool" where
  "isSet c \<longleftrightarrow> INT_MIN \<noteq> lat c \<and> INT_MIN \<noteq> lon c"

text \<open>
  Conversion of an \<^verbatim>\<open>int\<close> to the nearest \<^verbatim>\<open>float\<close>, ties to even: a significand of 24 bits,
  so a number below \<open>2 ^ (24 + e)\<close> becomes a multiple of \<open>2 ^ e\<close>.
\<close>

definition round_even :: "int \<Rightarrow> int \<Rightarrow> int" where
  "round_even m x =
     (if 2 * (x mod m) < m \<or> 2 * (x mod m) = m \<and> even (x div m) then x div m * m else (x div m + 1) * m)"

definition float_of_int :: "int \<Rightarrow> int" where
  "float_of_int x =
     (if \<bar>x\<bar> < 2 ^ 24 then x else if \<bar>x\<bar> < 2 ^ 25 then round_even 2 x
      else if \<bar>x\<bar> < 2 ^ 26 then round_even 4 x else if \<bar>x\<bar> < 2 ^ 27 then round_even 8 x
      else if \<bar>x\<bar> < 2 ^ 28 then round_even 16 x else if \<bar>x\<bar> < 2 ^ 29 then round_even 32 x
      else if \<bar>x\<bar> < 2 ^ 30 then round_even 64 x else round_even 128 x)"

definition isValid :: "FixedPointCoordinate \<Rightarrow> bool" where
  "isValid c \<longleftrightarrow>
     \<not> (float_of_int (lat c) > 90 * 1000000 \<or> float_of_int (lat c) < - 90 * 1000000 \<or>
        float_of_int (lon c) > 180 * 1000000 \<or> float_of_int (lon c) < - 180 * 1000000)"

definition coordinate_eq :: "FixedPointCoordinate \<Rightarrow> FixedPointCoordinate \<Rightarrow> bool" where
  "coordinate_eq c d \<longleftrightarrow> lat c = lat d \<and> lon c = lon d"

section \<open>Printing\<close>

text \<open>
  \<open>printInt<length, precision>\<close> writes from the end of a buffer of \<open>length\<close> characters towards its
  front.  The model returns the characters written, front first, and the number of characters
  still free in front of them: writing in front of the buffer has no defined result.  C++ division
  truncates, so for the negated value \<open>- (- v mod 10)\<close> is \<open>v % 10\<close> with \<open>- v\<close> not negative.
\<close>

definition digit :: "int \<Rightarrow> char" where
  "digit v = char_of (nat (48 - (- (- v mod 10))))"

fun print_decimals :: "nat \<Rightarrow> int \<Rightarrow> string \<Rightarrow> int \<times> string" where
  "print_decimals 0 v out = (v, out)"
| "print_decimals (Suc k) v out = print_decimals k (- (- v div 10)) (digit v # out)"

text \<open>The second loop, at most \<open>k\<close> digits; \<open>room\<close> counts the characters in front of \<open>buffer\<close>.\<close>

fun print_integral :: "nat \<Rightarrow> int \<Rightarrow> nat \<Rightarrow> string \<Rightarrow> (nat \<times> string) option" where
  "print_integral 0 v room out = Some (room, out)"
| "print_integral (Suc k) v room out =
     (let v' = - (- v div 10)
      in if v' = 0 then Some (room, digit v # out)
         else do {
           assert_that (0 < room);
           print_integral k v' (room - 1) (digit v # out)
         })"

definition printInt :: "nat \<Rightarrow> nat \<Rightarrow> int \<Rightarrow> string option" where
  "printInt len precision value = do {
     let minus = \<not> value > 0;
     let value = (if value > 0 then - value else value);
     let (value, out) = print_decimals precision value [];
     let out = CHR ''.'' # out;
     (room, out) \<leftarrow> print_integral (len - (precision + 1)) value (len - 2 - precision) out;
     if minus then do { assert_that (0 < room); Some (CHR ''-'' # out) } else Some out
   }"

definition convertInternalLatLonToString :: "int \<Rightarrow> string option" where
  "convertInternalLatLonToString value = printInt 11 6 value"

definition convertInternalCoordinateToString :: "FixedPointCoordinate \<Rightarrow> string option" where
  "convertInternalCoordinateToString c = do {
     a \<leftarrow> convertInternalLatLonToString (lon c);
     b \<leftarrow> convertInternalLatLonToString (lat c);
     Some (a @ '','' @ b)
   }"

definition convertInternalReversedCoordinateToString :: "FixedPointCoordinate \<Rightarrow> string option" where
  "convertInternalReversedCoordinateToString c = do {
     a \<leftarrow> convertInternalLatLonToString (lat c);
     b \<leftarrow> convertInternalLatLonToString (lon c);
     Some (a @ '','' @ b)
   }"

section \<open>Validity\<close>

lemma round_even_near: "0 < m \<Longrightarrow> \<bar>2 * (round_even m x - x)\<bar> \<le> m"
proof -
  assume "0 < m"
  then have r: "0 \<le> x mod m" "x mod m < m" by simp_all
  have "x div m * m - x = - (x mod m)" by (simp add: minus_div_mult_eq_mod [symmetric])
  moreover from this have "(x div m + 1) * m - x = m - x mod m" by (simp add: distrib_right)
  ultimately show ?thesis using r unfolding round_even_def by (auto simp: abs_le_iff)
qed

lemma round_even_le: "0 < m \<Longrightarrow> m \<le> 2 * k \<Longrightarrow> \<bar>round_even m x - x\<bar> \<le> k"
  using round_even_near [of m x] by (simp add: abs_le_iff)

lemma float_of_int_near:
  "\<bar>x\<bar> < 2 ^ 27 \<Longrightarrow> \<bar>float_of_int x - x\<bar> \<le> 4" "\<bar>x\<bar> < 2 ^ 28 \<Longrightarrow> \<bar>float_of_int x - x\<bar> \<le> 8"
  "\<bar>float_of_int x - x\<bar> \<le> 64"
  by (simp_all add: float_of_int_def round_even_le)

lemma isValid_bounds:
  assumes "isValid c"
  shows "\<bar>lat c\<bar> \<le> 90000004" "\<bar>lon c\<bar> \<le> 180000008"
proof -
  have "\<bar>float_of_int (lat c)\<bar> \<le> 90000000" "\<bar>float_of_int (lon c)\<bar> \<le> 180000000"
    using assms by (auto simp: isValid_def)
  note v = this
  have "\<bar>lat c\<bar> < 2 ^ 27" using v(1) float_of_int_near(3) [of "lat c"] by (simp add: abs_le_iff abs_less_iff)
  from float_of_int_near(1) [OF this] v(1) show "\<bar>lat c\<bar> \<le> 90000004" by (simp add: abs_le_iff)
  have "\<bar>lon c\<bar> < 2 ^ 28" using v(2) float_of_int_near(3) [of "lon c"] by (simp add: abs_le_iff abs_less_iff)
  from float_of_int_near(2) [OF this] v(2) show "\<bar>lon c\<bar> \<le> 180000008" by (simp add: abs_le_iff)
qed

lemma round_even_bounds:
  assumes "0 < m" "m dvd b"
  shows "x \<le> b \<Longrightarrow> round_even m x \<le> b" "b \<le> x \<Longrightarrow> b \<le> round_even m x"
proof -
  obtain k where k: "b = k * m" using assms(2) by (metis dvd_def mult.commute)
  have x: "x = x div m * m + x mod m" "0 \<le> x mod m" using assms(1) by simp_all
  show "round_even m x \<le> b" if "x \<le> b"
  proof (cases "x mod m = 0")
    case True
    then show ?thesis using x that assms(1) by (simp add: round_even_def)
  next
    case False
    have "x div m < k"
    proof (rule ccontr)
      assume "\<not> x div m < k"
      then have "k * m \<le> x div m * m" using assms(1) by (intro mult_right_mono) auto
      then show False using x that k False by linarith
    qed
    then have "(x div m + 1) * m \<le> k * m" using assms(1) by (intro mult_right_mono) auto
    moreover have "x div m * m \<le> k * m" using \<open>x div m < k\<close> assms(1) by (intro mult_right_mono) auto
    ultimately show ?thesis unfolding round_even_def k by simp
  qed
  show "b \<le> round_even m x" if "b \<le> x"
  proof -
    have "k \<le> x div m" using that k assms(1) by (metis nonzero_mult_div_cancel_right zdiv_mono1 less_irrefl)
    then have "k * m \<le> x div m * m" "k * m \<le> (x div m + 1) * m" using assms(1) by (auto intro!: mult_right_mono)
    then show ?thesis unfolding round_even_def k by simp
  qed
qed

lemma float_of_int_bounds:
  assumes "128 dvd b"
  shows "x \<le> b \<Longrightarrow> float_of_int x \<le> b" "b \<le> x \<Longrightarrow> b \<le> float_of_int x"
proof -
  have "m dvd b" if "m dvd 128" for m using assms that by (rule dvd_trans [rotated])
  then have d: "2 dvd b" "4 dvd b" "8 dvd b" "16 dvd b" "32 dvd b" "64 dvd b" by simp_all
  show "x \<le> b \<Longrightarrow> float_of_int x \<le> b" "b \<le> x \<Longrightarrow> b \<le> float_of_int x"
    using d assms by (simp_all add: float_of_int_def round_even_bounds)
qed

section \<open>Reading the printed text\<close>

text \<open>
  The value of a printed number: an optional sign, digits, a point and digits, read as one integer
  with the point dropped.
\<close>

definition digit_val :: "char \<Rightarrow> int" where
  "digit_val c = int (of_char c) - 48"

definition digits_val :: "string \<Rightarrow> int" where
  "digits_val ds = foldl (\<lambda>acc c. 10 * acc + digit_val c) 0 ds"

definition fixed_val :: "string \<Rightarrow> int" where
  "fixed_val s = (let ds = filter (\<lambda>c. c \<noteq> CHR ''.'') (if hd s = CHR ''-'' then tl s else s)
     in if hd s = CHR ''-'' then - digits_val ds else digits_val ds)"

lemma digits_val_append: "digits_val (xs @ ys) = digits_val xs * 10 ^ length ys + digits_val ys"
proof (induction ys rule: rev_induct)
  case (snoc y ys)
  then show ?case by (simp add: digits_val_def algebra_simps)
qed (simp add: digits_val_def)

lemma digit_val_digit: "v \<le> 0 \<Longrightarrow> digit_val (digit v) = - v mod 10"
  by (simp add: digit_val_def digit_def nat_add_distrib)

lemma digit_neq:
  assumes "v \<le> 0"
  shows "digit v \<noteq> CHR ''.''" "digit v \<noteq> CHR ''-''"
proof -
  have "digit_val (digit v) \<ge> 0" using digit_val_digit [OF assms] by simp
  then show "digit v \<noteq> CHR ''.''" "digit v \<noteq> CHR ''-''" by (auto simp: digit_val_def)
qed

lemma digits_val_Cons_digit:
  "v \<le> 0 \<Longrightarrow> digits_val (digit v # out) = (- v mod 10) * 10 ^ length out + digits_val out"
  using digits_val_append [of "[digit v]" out] digit_val_digit [of v] by (simp add: digits_val_def)

lemma neg_div10: "(v :: int) \<le> 0 \<Longrightarrow> 0 \<le> - v div 10"
  by (simp add: pos_imp_zdiv_nonneg_iff)

lemma div10_less: "(a :: int) < 10 * b \<Longrightarrow> a div 10 < b"
  by presburger

lemma print_decimals_correct:
  assumes "v \<le> 0" "print_decimals k v out = (v', out')"
  shows "v' \<le> 0 \<and> (\<exists>ds. out' = ds @ out \<and> length ds = k \<and> CHR ''.'' \<notin> set ds \<and> 0 \<le> digits_val ds \<and>
    - v = - v' * 10 ^ k + digits_val ds)"
  using assms
proof (induction k arbitrary: v out)
  case (Suc k)
  obtain ds where ds: "v' \<le> 0" "out' = ds @ digit v # out" "length ds = k" "CHR ''.'' \<notin> set ds" "0 \<le> digits_val ds"
    "- (- (- v div 10)) = - v' * 10 ^ k + digits_val ds"
    using Suc.IH [of "- (- v div 10)" "digit v # out"] Suc.prems neg_div10 [of v] by auto
  have "- v = 10 * (- v div 10) + - v mod 10" by simp
  also have "\<dots> = - v' * 10 ^ Suc k + digits_val (ds @ [digit v])"
    using ds(6) digit_val_digit [OF Suc.prems(1)] by (simp add: digits_val_append digits_val_def)
  finally have val: "- v = - v' * 10 ^ Suc k + digits_val (ds @ [digit v])" .
  have "0 \<le> digits_val (ds @ [digit v])"
    using ds(5) digit_val_digit [OF Suc.prems(1)] by (simp add: digits_val_append digits_val_def)
  then show ?case
    using ds val digit_neq [OF Suc.prems(1)] by (intro conjI exI [of _ "ds @ [digit v]"]) auto
qed (auto simp: digits_val_def)

lemma print_integral_correct:
  assumes "v \<le> 0" "- v < 10 ^ Suc k" "k \<le> room"
  shows "\<exists>ds room'. print_integral (Suc k) v room out = Some (room', ds @ out) \<and> ds \<noteq> [] \<and>
    length ds + room' = Suc room \<and> CHR ''.'' \<notin> set ds \<and> CHR ''-'' \<notin> set ds \<and> digits_val ds = - v \<and>
    (\<forall>j. - v < 10 ^ Suc j \<longrightarrow> length ds \<le> Suc j)"
  using assms
proof (induction k arbitrary: v room out)
  case 0
  then have "- v div 10 = 0" "- v mod 10 = - v" by auto
  then show ?case using 0 digit_neq [OF 0(1)] digit_val_digit [OF 0(1)]
    by (intro exI [of _ "[digit v]"] exI [of _ room]) (auto simp: digits_val_def)
next
  case (Suc k)
  show ?case
  proof (cases "- v div 10 = 0")
    case True
    then have "- v mod 10 = - v" using Suc.prems(1) by (metis div_mult_mod_eq add_0 mult_zero_left)
    then show ?thesis using True digit_neq [OF Suc.prems(1)] digit_val_digit [OF Suc.prems(1)]
      by (intro exI [of _ "[digit v]"] exI [of _ room]) (auto simp: digits_val_def)
  next
    case False
    have step: "print_integral (Suc (Suc k)) v room out = print_integral (Suc k) (- (- v div 10)) (room - 1) (digit v # out)"
      using False Suc.prems(3) by (subst print_integral.simps(2)) (simp add: Let_def)
    have "- (- (- v div 10)) < 10 ^ Suc k" "- (- v div 10) \<le> 0" "k \<le> room - 1"
      using Suc.prems neg_div10 [of v] div10_less [of "- v" "10 ^ Suc k"] by auto
    then obtain ds room' where r: "print_integral (Suc k) (- (- v div 10)) (room - 1) (digit v # out) = Some (room', ds @ digit v # out)"
      "ds \<noteq> []" "length ds + room' = Suc (room - 1)" "CHR ''.'' \<notin> set ds" "CHR ''-'' \<notin> set ds"
      "digits_val ds = - v div 10" "\<forall>j. - v div 10 < 10 ^ Suc j \<longrightarrow> length ds \<le> Suc j"
      using Suc.IH [of "- (- v div 10)" "room - 1" "digit v # out"] by auto
    have len: "length (ds @ [digit v]) \<le> Suc j" if j: "- v < 10 ^ Suc j" for j
    proof (cases j)
      case 0
      then show ?thesis using j False Suc.prems(1) by (auto simp: div_pos_pos_trivial)
    next
      case (Suc i)
      then have "- v div 10 < 10 ^ Suc i" using j div10_less [of "- v" "10 ^ Suc i"] by simp
      then show ?thesis using r(7) Suc by auto
    qed
    have "digits_val (ds @ [digit v]) = - v"
      using r(6) digit_val_digit [OF Suc.prems(1)] by (simp add: digits_val_append digits_val_def)
    then show ?thesis using step r(1-5) len digit_neq [OF Suc.prems(1)] Suc.prems(3)
      by (intro exI [of _ "ds @ [digit v]"] exI [of _ room']) auto
  qed
qed

lemma printInt_correct:
  assumes "\<bar>v\<bar> < 10 ^ 10" "- (10 ^ 9) < v"
  shows "\<exists>s. printInt 11 6 v = Some s \<and> fixed_val s = v \<and> (hd s = CHR ''-'' \<longleftrightarrow> v \<le> 0) \<and> length s \<le> 11"
proof -
  define w where "w = (if v > 0 then - v else v)"
  have w: "w \<le> 0" "- w = \<bar>v\<bar>" by (auto simp: w_def)
  obtain w' out where d: "print_decimals 6 w [] = (w', out)" by (cases "print_decimals 6 w []")
  then have d': "w' \<le> 0" "length out = 6" "CHR ''.'' \<notin> set out" "0 \<le> digits_val out"
    "- w = - w' * 10 ^ 6 + digits_val out"
    using print_decimals_correct [OF w(1) d] by auto
  have "- w' < 10 ^ Suc 3" using d'(4,5) w(2) assms(1) by simp
  then obtain ds room where i: "print_integral (Suc 3) w' 3 (CHR ''.'' # out) = Some (room, ds @ CHR ''.'' # out)" "ds \<noteq> []"
    "length ds + room = Suc 3" "CHR ''.'' \<notin> set ds" "CHR ''-'' \<notin> set ds" "digits_val ds = - w'"
    "\<forall>j. - w' < 10 ^ Suc j \<longrightarrow> length ds \<le> Suc j"
    using print_integral_correct [OF d'(1), of 3 3 "CHR ''.'' # out"] by auto
  have four: "(4 :: nat) = Suc 3" by simp
  have i4: "print_integral 4 w' 3 (CHR ''.'' # out) = Some (room, ds @ CHR ''.'' # out)" unfolding four by (rule i(1))
  have val: "digits_val (ds @ out) = \<bar>v\<bar>" using d'(2,5) i(6) w(2) by (simp add: digits_val_append)
  have flt: "filter (\<lambda>c. c \<noteq> CHR ''.'') (ds @ CHR ''.'' # out) = ds @ out"
  proof -
    have "filter (\<lambda>c. c \<noteq> CHR ''.'') ds = ds" "filter (\<lambda>c. c \<noteq> CHR ''.'') out = out"
      using i(4) d'(3) by (auto simp: filter_id_conv)
    then show ?thesis by simp
  qed
  have hd: "hd (ds @ CHR ''.'' # out) \<noteq> CHR ''-''" using i(2,5) by (cases ds) auto
  show ?thesis
  proof (cases "v > 0")
    case True
    then have "printInt 11 6 v = Some (ds @ CHR ''.'' # out)"
      using d i4 by (simp add: printInt_def w_def)
    then show ?thesis using True hd flt val i(3) d'(2) by (simp add: fixed_val_def)
  next
    case False
    then have "- w' < 10 ^ Suc 2" using d'(4,5) w_def assms(2) by simp
    then have "0 < room" using i(3,7) by fastforce
    then have "printInt 11 6 v = Some (CHR ''-'' # ds @ CHR ''.'' # out)"
      using False d i4 by (simp add: printInt_def w_def)
    then show ?thesis using False flt val i(3) d'(2) \<open>0 < room\<close> by (simp add: fixed_val_def)
  qed
qed

section \<open>Properties\<close>




text \<open>
  \<open>isValid\<close> accepts every coordinate on the globe, and what it accepts exceeds the globe by at
  most four (latitude) and eight (longitude) millionths of a degree, the rounding of the comparison.
\<close>

theorem isValid_sound_complete:
  "(\<bar>lat c\<bar> \<le> 90000000 \<and> \<bar>lon c\<bar> \<le> 180000000 \<longrightarrow> isValid c) \<and>
   (isValid c \<longrightarrow> \<bar>lat c\<bar> \<le> 90000004 \<and> \<bar>lon c\<bar> \<le> 180000008)"
proof -
  have "isValid c" if "\<bar>lat c\<bar> \<le> 90000000" "\<bar>lon c\<bar> \<le> 180000000"
    using that float_of_int_bounds [of 90000000 "lat c"] float_of_int_bounds [of "- 90000000" "lat c"]
      float_of_int_bounds [of 180000000 "lon c"] float_of_int_bounds [of "- 180000000" "lon c"]
    by (simp add: isValid_def abs_le_iff)
  then show ?thesis using isValid_bounds by blast
qed

theorem isValid_sound_complete_witness:
  "isValid \<lparr> lat = 90000000, lon = - 180000000 \<rparr> \<and> isValid \<lparr> lat = 90000004, lon = 0 \<rparr> \<and>
   \<not> isValid \<lparr> lat = 90000005, lon = 0 \<rparr>"
proof -
  have "isValid \<lparr> lat = 90000004, lon = 0 \<rparr>" by code_simp
  then show ?thesis
    using isValid_sound_complete [of "\<lparr> lat = 90000000, lon = - 180000000 \<rparr>"]
      isValid_sound_complete [of "\<lparr> lat = 90000005, lon = 0 \<rparr>"] by auto
qed

end
