(* ===== verification/Facade.thy ===== *)
theory Facade
  imports Complex_Main Static_Graph Range_Table Coordinates
begin

text \<open>
  The data a query works on: turn instructions (\<^verbatim>\<open>DataStructures/TurnInstructions.h\<close>), phantom
  nodes (\<^verbatim>\<open>DataStructures/PhantomNodes.h\<close>), route data (\<^verbatim>\<open>DataStructures/RawRouteData.h\<close>) and
  the tables of \<^verbatim>\<open>Server/DataStructures/InternalDataFacade.h\<close> with their accessors and the loaders
  of geometries and street names.  \<^verbatim>\<open>at\<close> throws out of range, which is \<^const>\<open>None\<close>; streams are lists of bytes
  and a truncated stream has no result.
\<close>

section \<open>Turn instructions\<close>

datatype TurnInstruction =
    NoTurn | GoStraight | TurnSlightRight | TurnRight | TurnSharpRight | UTurn
  | TurnSharpLeft | TurnLeft | TurnSlightLeft | ReachViaLocation | HeadOn | EnterRoundAbout
  | LeaveRoundAbout | StayOnRoundAbout | StartAtEndOfStreet | ReachedYourDestination
  | EnterAgainstAllowedDirection | LeaveAgainstAllowedDirection
  | InverseAccessRestrictionFlag | AccessRestrictionFlag | AccessRestrictionPenalty

text \<open>Angles are finite doubles, hence rational numbers.\<close>

definition GetTurnDirectionOfInstruction :: "rat \<Rightarrow> TurnInstruction" where
  "GetTurnDirectionOfInstruction angle =
     (if angle \<ge> 23 \<and> angle < 67 then TurnSharpRight
      else if angle \<ge> 67 \<and> angle < 113 then TurnRight
      else if angle \<ge> 113 \<and> angle < 158 then TurnSlightRight
      else if angle \<ge> 158 \<and> angle < 202 then GoStraight
      else if angle \<ge> 202 \<and> angle < 248 then TurnSlightLeft
      else if angle \<ge> 248 \<and> angle < 292 then TurnLeft
      else if angle \<ge> 292 \<and> angle < 336 then TurnSharpLeft
      else UTurn)"

definition TurnIsNecessary :: "TurnInstruction \<Rightarrow> bool" where
  "TurnIsNecessary turn_instruction =
     (if NoTurn = turn_instruction \<or> StayOnRoundAbout = turn_instruction then False else True)"

section \<open>Phantom nodes\<close>

type_synonym TravelMode = nat

definition TRAVEL_MODE_INACCESSIBLE :: TravelMode where
  "TRAVEL_MODE_INACCESSIBLE = 0"

record PhantomNode =
  forward_node_id :: NodeID
  reverse_node_id :: NodeID
  pn_name_id :: nat
  forward_weight :: int
  reverse_weight :: int
  forward_offset :: int
  reverse_offset :: int
  packed_geometry_id :: nat
  location :: FixedPointCoordinate
  fwd_segment_position :: nat
  forward_travel_mode :: TravelMode
  backward_travel_mode :: TravelMode

definition PhantomNode_new :: PhantomNode where
  "PhantomNode_new = \<lparr> forward_node_id = SPECIAL_NODEID, reverse_node_id = SPECIAL_NODEID, pn_name_id = 2 ^ 32 - 1,
     forward_weight = INVALID_EDGE_WEIGHT, reverse_weight = INVALID_EDGE_WEIGHT, forward_offset = 0,
     reverse_offset = 0, packed_geometry_id = SPECIAL_EDGEID, location = FixedPointCoordinate_unset,
     fwd_segment_position = 0, forward_travel_mode = TRAVEL_MODE_INACCESSIBLE,
     backward_travel_mode = TRAVEL_MODE_INACCESSIBLE \<rparr>"

text \<open>The travel modes are bit fields of four bits.\<close>

definition PhantomNode_of ::
    "NodeID \<Rightarrow> NodeID \<Rightarrow> nat \<Rightarrow> int \<Rightarrow> int \<Rightarrow> int \<Rightarrow> int \<Rightarrow> nat \<Rightarrow> FixedPointCoordinate \<Rightarrow> nat \<Rightarrow>
     TravelMode \<Rightarrow> TravelMode \<Rightarrow> PhantomNode" where
  "PhantomNode_of fwd rvs nam fw rw fo ro geo loc pos fm bm =
     \<lparr> forward_node_id = fwd, reverse_node_id = rvs, pn_name_id = nam, forward_weight = fw,
       reverse_weight = rw, forward_offset = fo, reverse_offset = ro, packed_geometry_id = geo,
       location = loc, fwd_segment_position = pos, forward_travel_mode = fm mod 16,
       backward_travel_mode = bm mod 16 \<rparr>"

definition GetForwardWeightPlusOffset :: "PhantomNode \<Rightarrow> int" where
  "GetForwardWeightPlusOffset p =
     (if SPECIAL_NODEID = forward_node_id p then 0 else forward_offset p + forward_weight p)"

definition GetReverseWeightPlusOffset :: "PhantomNode \<Rightarrow> int" where
  "GetReverseWeightPlusOffset p =
     (if SPECIAL_NODEID = reverse_node_id p then 0 else reverse_offset p + reverse_weight p)"

definition isBidirected :: "PhantomNode \<Rightarrow> bool" where
  "isBidirected p \<longleftrightarrow> forward_node_id p \<noteq> SPECIAL_NODEID \<and> reverse_node_id p \<noteq> SPECIAL_NODEID"

definition IsCompressed :: "PhantomNode \<Rightarrow> bool" where
  "IsCompressed p \<longleftrightarrow> forward_offset p \<noteq> 0 \<or> reverse_offset p \<noteq> 0"

definition PhantomNode_isValid_for :: "PhantomNode \<Rightarrow> nat \<Rightarrow> bool" where
  "PhantomNode_isValid_for p numberOfNodes \<longleftrightarrow>
     isValid (location p) \<and>
     (forward_node_id p < numberOfNodes \<or> reverse_node_id p < numberOfNodes) \<and>
     (forward_weight p \<noteq> INVALID_EDGE_WEIGHT \<or> reverse_weight p \<noteq> INVALID_EDGE_WEIGHT) \<and>
     pn_name_id p \<noteq> 2 ^ 32 - 1"

definition PhantomNode_isValid :: "PhantomNode \<Rightarrow> bool" where
  "PhantomNode_isValid p \<longleftrightarrow> isValid (location p) \<and> pn_name_id p \<noteq> 2 ^ 32 - 1"

definition PhantomNode_eq :: "PhantomNode \<Rightarrow> PhantomNode \<Rightarrow> bool" where
  "PhantomNode_eq p other \<longleftrightarrow> coordinate_eq (location p) (location other)"

record PhantomNodes =
  source_phantom :: PhantomNode
  target_phantom :: PhantomNode

section \<open>Route data\<close>

record PathData =
  pd_node :: NodeID
  pd_name_id :: nat
  segment_duration :: EdgeWeight
  turn_instruction :: TurnInstruction
  pd_travel_mode :: TravelMode

definition PathData_new :: PathData where
  "PathData_new = \<lparr> pd_node = SPECIAL_NODEID, pd_name_id = nat INVALID_EDGE_WEIGHT,
     segment_duration = INVALID_EDGE_WEIGHT, turn_instruction = NoTurn,
     pd_travel_mode = TRAVEL_MODE_INACCESSIBLE \<rparr>"

definition PathData_of :: "NodeID \<Rightarrow> nat \<Rightarrow> TurnInstruction \<Rightarrow> EdgeWeight \<Rightarrow> TravelMode \<Rightarrow> PathData" where
  "PathData_of nd nam instr dur mode =
     \<lparr> pd_node = nd, pd_name_id = nam, segment_duration = dur, turn_instruction = instr,
       pd_travel_mode = mode mod 16 \<rparr>"

record RawRouteData =
  unpacked_path_segments :: "PathData list list"
  unpacked_alternative :: "PathData list"
  segment_end_coordinates :: "PhantomNodes list"
  raw_via_node_coordinates :: "FixedPointCoordinate list"
  source_traversed_in_reverse :: "bool list"
  target_traversed_in_reverse :: "bool list"
  alt_source_traversed_in_reverse :: "bool list"
  alt_target_traversed_in_reverse :: "bool list"
  check_sum :: nat
  shortest_path_length :: int
  alternative_path_length :: int

definition RawRouteData_new :: RawRouteData where
  "RawRouteData_new = \<lparr> unpacked_path_segments = [], unpacked_alternative = [], segment_end_coordinates = [],
     raw_via_node_coordinates = [], source_traversed_in_reverse = [], target_traversed_in_reverse = [],
     alt_source_traversed_in_reverse = [], alt_target_traversed_in_reverse = [],
     check_sum = SPECIAL_NODEID, shortest_path_length = INVALID_EDGE_WEIGHT,
     alternative_path_length = INVALID_EDGE_WEIGHT \<rparr>"

text \<open>\<^verbatim>\<open>size() - 1\<close> is unsigned and wraps around for an empty vector.\<close>

definition is_via_leg :: "RawRouteData \<Rightarrow> nat \<Rightarrow> bool" where
  "is_via_leg r leg \<longleftrightarrow> leg \<noteq> (length (unpacked_path_segments r) + (2 ^ 64 - 1)) mod 2 ^ 64"

section \<open>Tables of the facade\<close>

record Facade =
  m_check_sum :: nat
  m_query_graph :: "EdgeData StaticGraph"
  m_timestamp :: string
  m_coordinate_list :: "FixedPointCoordinate list"
  m_via_node_list :: "NodeID list"
  m_name_ID_list :: "nat list"
  m_turn_instruction_list :: "TurnInstruction list"
  m_travel_mode_list :: "TravelMode list"
  m_names_char_list :: "nat list"
  m_edge_is_compressed :: "bool list"
  m_geometry_indices :: "nat list"
  m_geometry_list :: "nat list"
  m_name_table :: RangeTable

definition GetCoordinateOfNode :: "Facade \<Rightarrow> nat \<Rightarrow> FixedPointCoordinate option" where
  "GetCoordinateOfNode f n = vec_at (m_coordinate_list f) n"

definition EdgeIsCompressed :: "Facade \<Rightarrow> nat \<Rightarrow> bool option" where
  "EdgeIsCompressed f n = vec_at (m_edge_is_compressed f) n"

definition GetTurnInstructionForEdgeID :: "Facade \<Rightarrow> nat \<Rightarrow> TurnInstruction option" where
  "GetTurnInstructionForEdgeID f n = vec_at (m_turn_instruction_list f) n"

definition GetTravelModeForEdgeID :: "Facade \<Rightarrow> nat \<Rightarrow> TravelMode option" where
  "GetTravelModeForEdgeID f n = vec_at (m_travel_mode_list f) n"

definition GetNameIndexFromEdgeID :: "Facade \<Rightarrow> nat \<Rightarrow> nat option" where
  "GetNameIndexFromEdgeID f n = vec_at (m_name_ID_list f) n"

definition GetGeometryIndexForEdgeID :: "Facade \<Rightarrow> nat \<Rightarrow> NodeID option" where
  "GetGeometryIndexForEdgeID f n = vec_at (m_via_node_list f) n"

text \<open>A copy of \<open>[begin, end)\<close>, both positions inside the vector.\<close>

definition copy_range :: "'a list \<Rightarrow> nat \<Rightarrow> nat \<Rightarrow> 'a list option" where
  "copy_range xs b e = do { assert_that (b \<le> e \<and> e \<le> length xs); Some (seg xs b e) }"

definition GetUncompressedGeometry :: "Facade \<Rightarrow> nat \<Rightarrow> nat list option" where
  "GetUncompressedGeometry f n = do {
     begin \<leftarrow> vec_at (m_geometry_indices f) n;
     end \<leftarrow> vec_at (m_geometry_indices f) (uadd n 1);
     copy_range (m_geometry_list f) begin end
   }"

definition GetName :: "Facade \<Rightarrow> nat \<Rightarrow> nat list option" where
  "GetName f name_id =
     (if 2 ^ 32 - 1 = name_id then Some []
      else do {
        range \<leftarrow> GetRange 16 (m_name_table f) name_id;
        if range \<noteq> [] then copy_range (m_names_char_list f) (hd range) (last range + 1) else Some []
      })"

section \<open>Loading\<close>

text \<open>The first line of the timestamp file, if the file exists.\<close>

definition LoadTimestamp :: "string option \<Rightarrow> Facade \<Rightarrow> Facade" where
  "LoadTimestamp line f =
     (let t = (case line of Some l \<Rightarrow> l | None \<Rightarrow> m_timestamp f);
          t = (if t = '''' then ''n/a'' else t);
          t = (if 25 < length t then take 25 t else t)
      in f\<lparr> m_timestamp := t \<rparr>)"

definition LoadGeometries :: "nat list \<Rightarrow> Facade \<Rightarrow> Facade option" where
  "LoadGeometries geometry_stream f = do {
     (number_of_indices, geometry_stream) \<leftarrow> read32 geometry_stream;
     (indices, geometry_stream) \<leftarrow> read_offsets number_of_indices geometry_stream;
     (number_of_compressed_geometries, geometry_stream) \<leftarrow> read32 geometry_stream;
     assert_that (indices \<noteq> [] \<and> last indices = number_of_compressed_geometries);
     (geometries, geometry_stream) \<leftarrow> read_offsets number_of_compressed_geometries geometry_stream;
     Some (f\<lparr> m_geometry_indices := indices, m_geometry_list := geometries \<rparr>)
   }"

definition LoadStreetNames :: "nat list \<Rightarrow> Facade \<Rightarrow> Facade option" where
  "LoadStreetNames name_stream f = do {
     (table, name_stream) \<leftarrow> RangeTable_read 16 name_stream;
     (number_of_chars, name_stream) \<leftarrow> read32 name_stream;
     assert_that (0 \<noteq> number_of_chars);
     assert_that (number_of_chars \<le> length name_stream);
     Some (f\<lparr> m_name_table := table, m_names_char_list := take number_of_chars name_stream @ [0] \<rparr>)
   }"

end
