(* ===== verification/Path_Unpacking.thy ===== *)
theory Path_Unpacking
  imports Facade Search
begin

text \<open>
  Unpacking of shortcuts: \<open>UnpackEdge\<close> and \<open>UnpackPath\<close> of
  \<^verbatim>\<open>RoutingAlgorithms/BasicRoutingInterface.h\<close>.  Both keep a stack of node pairs, replace a pair
  that is connected by a shortcut by the two pairs over its middle node, and emit the others.
  Unpacking ends and keeps the total weight when the weight of every shortcut is the sum of the
  weights of its two halves.
\<close>

section \<open>The edge between two nodes\<close>

text \<open>The loop over the edges of a node; its state is the best edge so far and its weight.\<close>

fun lightest_loop ::
    "EdgeData StaticGraph \<Rightarrow> NodeID \<Rightarrow> bool \<Rightarrow> EdgeID list \<Rightarrow> EdgeID \<times> int \<Rightarrow> (EdgeID \<times> int) option" where
  "lightest_loop g to fwd [] best = Some best"
| "lightest_loop g to fwd (edge_id # es) best = do {
     d \<leftarrow> sg_GetEdgeData g edge_id;
     let weight = ed_distance d;
     target \<leftarrow> sg_GetTarget g edge_id;
     lightest_loop g to fwd es
       (if target = to \<and> weight < snd best \<and> (if fwd then ed_forward d else ed_backward d)
        then (edge_id, weight) else best)
   }"

definition smaller_edge :: "EdgeData StaticGraph \<Rightarrow> NodeID \<times> NodeID \<Rightarrow> EdgeID option" where
  "smaller_edge g edge = do {
     es \<leftarrow> sg_GetAdjacentEdgeRange g (fst edge);
     (smaller_edge_id, edge_weight) \<leftarrow>
       lightest_loop g (snd edge) True es (SPECIAL_EDGEID, INVALID_EDGE_WEIGHT);
     (smaller_edge_id, edge_weight) \<leftarrow>
       (if SPECIAL_EDGEID = smaller_edge_id then do {
          es \<leftarrow> sg_GetAdjacentEdgeRange g (snd edge);
          lightest_loop g (fst edge) False es (smaller_edge_id, edge_weight)
        } else Some (smaller_edge_id, edge_weight));
     assert_that (edge_weight \<noteq> INVALID_EDGE_WEIGHT);
     Some smaller_edge_id
   }"

section \<open>UnpackEdge\<close>

partial_function (option) unpack_edge_loop ::
    "EdgeData StaticGraph \<Rightarrow> (NodeID \<times> NodeID) list \<Rightarrow> NodeID list \<Rightarrow> NodeID list option" where
  "unpack_edge_loop g recursion_stack unpacked_path =
     (case recursion_stack of
        [] \<Rightarrow> Some unpacked_path
      | edge # recursion_stack \<Rightarrow> do {
          smaller_edge_id \<leftarrow> smaller_edge g edge;
          ed \<leftarrow> sg_GetEdgeData g smaller_edge_id;
          if ed_shortcut ed
          then unpack_edge_loop g ((fst edge, ed_id ed) # (ed_id ed, snd edge) # recursion_stack) unpacked_path
          else unpack_edge_loop g recursion_stack (unpacked_path @ [fst edge])
        })"

definition UnpackEdge :: "EdgeData StaticGraph \<Rightarrow> NodeID \<Rightarrow> NodeID \<Rightarrow> NodeID list \<Rightarrow> NodeID list option" where
  "UnpackEdge g s t unpacked_path = do {
     unpacked_path \<leftarrow> unpack_edge_loop g [(s, t)] unpacked_path;
     Some (unpacked_path @ [t])
   }"

section \<open>UnpackPath\<close>

text \<open>Unsigned 64-bit subtraction.\<close>

definition usub64 :: "nat \<Rightarrow> nat \<Rightarrow> nat" where
  "usub64 x y = (x + 2 ^ 64 - y) mod 2 ^ 64"

text \<open>Output of an original edge.\<close>

definition emit_edge ::
    "Facade \<Rightarrow> bool \<Rightarrow> PhantomNodes \<Rightarrow> EdgeData \<Rightarrow> PathData list \<Rightarrow> PathData list option" where
  "emit_edge f start_traversed_in_reverse phantom_node_pair ed unpacked_path = do {
     name_index \<leftarrow> GetNameIndexFromEdgeID f (ed_id ed);
     instr \<leftarrow> GetTurnInstructionForEdgeID f (ed_id ed);
     travel_mode \<leftarrow> GetTravelModeForEdgeID f (ed_id ed);
     compressed \<leftarrow> EdgeIsCompressed f (ed_id ed);
     geometry_index \<leftarrow> GetGeometryIndexForEdgeID f (ed_id ed);
     if \<not> compressed
     then Some (unpacked_path @ [PathData_of geometry_index name_index instr (ed_distance ed) travel_mode])
     else do {
       id_vector \<leftarrow> GetUncompressedGeometry f geometry_index;
       let pos = fwd_segment_position (source_phantom phantom_node_pair);
       let start_index = (if unpacked_path = []
         then if start_traversed_in_reverse then usub64 (usub64 (length id_vector) pos) 1 else pos
         else 0);
       let end_index = length id_vector;
       assert_that (start_index \<le> end_index);
       let unpacked_path = unpacked_path @
         map (\<lambda>n. PathData_of n name_index NoTurn 0 travel_mode) (seg id_vector start_index end_index);
       assert_that (unpacked_path \<noteq> []);
       Some (butlast unpacked_path @
         [(last unpacked_path)\<lparr> turn_instruction := instr, segment_duration := ed_distance ed \<rparr>])
     }
   }"

partial_function (option) unpack_path_loop ::
    "Facade \<Rightarrow> bool \<Rightarrow> PhantomNodes \<Rightarrow> (NodeID \<times> NodeID) list \<Rightarrow> PathData list \<Rightarrow> PathData list option" where
  "unpack_path_loop f reverse_start phantom_node_pair recursion_stack unpacked_path =
     (case recursion_stack of
        [] \<Rightarrow> Some unpacked_path
      | edge # recursion_stack \<Rightarrow> do {
          smaller_edge_id \<leftarrow> smaller_edge (m_query_graph f) edge;
          ed \<leftarrow> sg_GetEdgeData (m_query_graph f) smaller_edge_id;
          if ed_shortcut ed
          then unpack_path_loop f reverse_start phantom_node_pair
            ((fst edge, ed_id ed) # (ed_id ed, snd edge) # recursion_stack) unpacked_path
          else do {
            unpacked_path \<leftarrow> emit_edge f reverse_start phantom_node_pair ed unpacked_path;
            unpack_path_loop f reverse_start phantom_node_pair recursion_stack unpacked_path
          }
        })"

text \<open>
  The nodes of the target's segment, forwards or backwards from \<open>start_index\<close> towards
  \<open>end_index\<close>.  The index is unsigned; it stays between the two bounds.
\<close>

definition target_indices :: "nat \<Rightarrow> nat \<Rightarrow> nat list" where
  "target_indices start_index end_index =
     (if start_index < end_index then [start_index..<end_index]
      else rev [Suc end_index..<Suc start_index])"

fun emit_target :: "PhantomNode \<Rightarrow> nat list \<Rightarrow> nat list \<Rightarrow> PathData list \<Rightarrow> PathData list option" where
  "emit_target target id_vector [] unpacked_path = Some unpacked_path"
| "emit_target target id_vector (i # is) unpacked_path = do {
     assert_that (i < length id_vector);
     assert_that (forward_travel_mode target > 0);
     n \<leftarrow> vec_at id_vector i;
     emit_target target id_vector is
       (unpacked_path @ [PathData_of n (pn_name_id target) NoTurn 0 (forward_travel_mode target)])
   }"

definition unpack_target ::
    "Facade \<Rightarrow> bool \<Rightarrow> PhantomNodes \<Rightarrow> PathData list \<Rightarrow> PathData list option" where
  "unpack_target f target_reverse phantom_node_pair unpacked_path = (let
     source = source_phantom phantom_node_pair;
     target = target_phantom phantom_node_pair in
     if SPECIAL_EDGEID \<noteq> packed_geometry_id target then do {
       id_vector \<leftarrow> GetUncompressedGeometry f (packed_geometry_id target);
       let is_local_path = (packed_geometry_id source = packed_geometry_id target \<and> unpacked_path = []);
       let start_index = (if is_local_path
         then if target_reverse then usub64 (length id_vector) (fwd_segment_position source)
              else fwd_segment_position source
         else 0);
       let (id_vector, end_index) = (if target_reverse
         then (rev id_vector, usub64 (length id_vector) (fwd_segment_position target))
         else (id_vector, fwd_segment_position target));
       let start_index = (if start_index > end_index
         then min start_index (usub64 (length id_vector) 1) else start_index);
       emit_target target id_vector (target_indices start_index end_index) unpacked_path
     } else Some unpacked_path)"

definition drop_duplicate :: "PathData list \<Rightarrow> PathData list" where
  "drop_duplicate unpacked_path =
     (if length unpacked_path > 1 then
        let last_index = length unpacked_path - 1; second_to_last_index = last_index - 1 in
        if pd_node (unpacked_path ! last_index) = pd_node (unpacked_path ! second_to_last_index)
        then butlast unpacked_path else unpacked_path
      else unpacked_path)"

text \<open>The packed path must not be empty: \<^verbatim>\<open>front\<close> and \<^verbatim>\<open>back\<close> of an empty vector are undefined.\<close>

definition UnpackPath ::
    "Facade \<Rightarrow> NodeID list \<Rightarrow> PhantomNodes \<Rightarrow> PathData list \<Rightarrow> PathData list option" where
  "UnpackPath f packed_path phantom_node_pair unpacked_path = do {
     assert_that (packed_path \<noteq> []);
     let start_reverse = (hd packed_path \<noteq> forward_node_id (source_phantom phantom_node_pair));
     let target_reverse = (last packed_path \<noteq> forward_node_id (target_phantom phantom_node_pair));
     unpacked_path \<leftarrow> unpack_path_loop f start_reverse phantom_node_pair
       (zip packed_path (tl packed_path)) unpacked_path;
     unpacked_path \<leftarrow> unpack_target f target_reverse phantom_node_pair unpacked_path;
     Some (drop_duplicate unpacked_path)
   }"

section \<open>The edge found\<close>

lemma lightest_loop_spec:
  assumes "\<forall>e \<in> set es. e < length (edge_array g)"
  shows "\<exists>e w. lightest_loop g to fwd es (b, w0) = Some (e, w) \<and> w \<le> w0 \<and>
    ((e, w) = (b, w0) \<or> e \<in> set es \<and> de_target (edge_array g ! e) = to \<and> flagged g fwd e \<and>
       ed_distance (de_data (edge_array g ! e)) = w \<and> w < w0) \<and>
    (\<forall>e' \<in> set es. de_target (edge_array g ! e') = to \<longrightarrow> flagged g fwd e' \<longrightarrow> w \<le> ed_distance (de_data (edge_array g ! e')))"
  using assms
proof (induction es arbitrary: b w0)
  case (Cons x es)
  let ?c = "de_target (edge_array g ! x) = to \<and> ed_distance (de_data (edge_array g ! x)) < w0 \<and> flagged g fwd x"
  have step: "lightest_loop g to fwd (x # es) (b, w0) =
      lightest_loop g to fwd es (if ?c then (x, ed_distance (de_data (edge_array g ! x))) else (b, w0))"
    using Cons.prems by (simp add: sg_GetEdgeData_def sg_GetTarget_def vec_simps flagged_def Let_def)
  have ok: "\<forall>e \<in> set es. e < length (edge_array g)" using Cons.prems by simp
  show ?case
  proof (cases ?c)
    case True
    from Cons.IH [OF ok, of x "ed_distance (de_data (edge_array g ! x))"] show ?thesis
      unfolding step if_P [OF True] using True by fastforce
  next
    case False
    from Cons.IH [OF ok, of b w0] show ?thesis
      unfolding step if_not_P [OF False] using False by fastforce
  qed
qed simp

text \<open>\<open>smaller_edge\<close> finds an edge for every arc below the invalid weight, and what it finds is an arc.\<close>

lemma edges_valid:
  assumes "query_graph g" "u < sg_number_of_nodes g"
  shows "\<forall>e \<in> set (irange (node_array g ! u) (node_array g ! (u + 1))). e < length (edge_array g)"
    "sg_GetAdjacentEdgeRange g u = Some (irange (node_array g ! u) (node_array g ! (u + 1)))"
  using assms sg_range_valid(1) [of g u] sg_Range [of g u] by (auto simp: query_graph_def sg_range_def)

lemma arcs_edge:
  assumes "u < sg_number_of_nodes g"
  shows "(v, w) \<in> set (arcs g fwd u) \<longleftrightarrow> (\<exists>e \<in> set (irange (node_array g ! u) (node_array g ! (u + 1))).
    flagged g fwd e \<and> de_target (edge_array g ! e) = v \<and> ed_distance (de_data (edge_array g ! e)) = w)"
  using assms by (auto simp: arcs_def arcs_at_def image_iff)

lemma no_range:
  assumes "query_graph g" "\<not> u < sg_number_of_nodes g"
  shows "sg_GetAdjacentEdgeRange g u = None"
  using assms by (auto simp: sg_GetAdjacentEdgeRange_def sg_EndEdges_def vec_at_def query_graph_def sg_inv_def)

lemma smaller_edge_arc:
  assumes g: "query_graph g" and e: "smaller_edge g (u, v) = Some e"
  shows "e < length (edge_array g)" "dir_arc g True u v (ed_distance (de_data (edge_array g ! e)))"
    "0 < ed_distance (de_data (edge_array g ! e))"
proof -
  have u: "u < sg_number_of_nodes g"
  proof (rule ccontr)
    assume "\<not> u < sg_number_of_nodes g"
    from no_range [OF g this] show False using e by (simp add: smaller_edge_def)
  qed
  let ?eu = "irange (node_array g ! u) (node_array g ! (u + 1))"
  obtain e1 w1 where f: "lightest_loop g v True ?eu (SPECIAL_EDGEID, INVALID_EDGE_WEIGHT) = Some (e1, w1)"
    "(e1, w1) = (SPECIAL_EDGEID, INVALID_EDGE_WEIGHT) \<or> e1 \<in> set ?eu \<and> de_target (edge_array g ! e1) = v \<and>
       flagged g True e1 \<and> ed_distance (de_data (edge_array g ! e1)) = w1 \<and> w1 < INVALID_EDGE_WEIGHT"
    using lightest_loop_spec [OF edges_valid(1) [OF g u]] by metis
  have "e < length (edge_array g) \<and> dir_arc g True u v (ed_distance (de_data (edge_array g ! e)))"
  proof (cases "e1 = SPECIAL_EDGEID")
    case False
    then have "e = e1" using e f(1) edges_valid(2) [OF g u] by (auto simp: smaller_edge_def assert_that_def split: if_splits)
    then show ?thesis using False f(2) edges_valid(1) [OF g u] arcs_edge [OF u] by (auto simp: dir_arc_def)
  next
    case True
    have eu: "e1 \<notin> set ?eu" using True sg_range_valid(2) [of g u] g u by (auto simp: query_graph_def sg_range_def)
    then have w1: "w1 = INVALID_EDGE_WEIGHT" using f(2) by blast
    have v: "v < sg_number_of_nodes g"
    proof (rule ccontr)
      assume "\<not> v < sg_number_of_nodes g"
      from no_range [OF g this] show False using e True f(1) edges_valid(2) [OF g u] by (simp add: smaller_edge_def)
    qed
    let ?ev = "irange (node_array g ! v) (node_array g ! (v + 1))"
    obtain e2 w2 where b: "lightest_loop g u False ?ev (e1, w1) = Some (e2, w2)"
      "(e2, w2) = (e1, w1) \<or> e2 \<in> set ?ev \<and> de_target (edge_array g ! e2) = u \<and>
         flagged g False e2 \<and> ed_distance (de_data (edge_array g ! e2)) = w2 \<and> w2 < w1"
      using lightest_loop_spec [OF edges_valid(1) [OF g v]] by metis
    have "e = e2" "w2 \<noteq> INVALID_EDGE_WEIGHT"
      using e f(1) b(1) True edges_valid(2) [OF g u] edges_valid(2) [OF g v]
      by (auto simp: smaller_edge_def assert_that_def split: if_splits)
    then show ?thesis using b(2) w1 edges_valid(1) [OF g v] arcs_edge [OF v] by (auto simp: dir_arc_def)
  qed
  then show "e < length (edge_array g)" and d: "dir_arc g True u v (ed_distance (de_data (edge_array g ! e)))" by auto
  show "0 < ed_distance (de_data (edge_array g ! e))"
    using d query_graph_arcs(2) [OF g] by (auto simp: dir_arc_def arcs_def split: if_splits)
qed

lemma smaller_edge_nodes:
  assumes g: "query_graph g" and e: "smaller_edge g (u, v) = Some e"
  shows "u < sg_number_of_nodes g \<and> v < sg_number_of_nodes g"
proof -
  have nodes: "x < sg_number_of_nodes g \<and> y < sg_number_of_nodes g" if "(y, w) \<in> set (arcs g fwd x)" for x y w fwd
  proof -
    have "x < sg_number_of_nodes g" using that by (simp add: arcs_def split: if_splits)
    then show ?thesis using query_graph_arcs(1) [OF g _ that] by simp
  qed
  show ?thesis using smaller_edge_arc(2) [OF assms] nodes by (auto simp: dir_arc_def)
qed

section \<open>Unpacking\<close>

text \<open>A shortcut over \<open>m\<close> between \<open>u\<close> and \<open>v\<close> weighs as much as the edges found for its two halves.\<close>

definition halves_ok :: "EdgeData StaticGraph \<Rightarrow> bool" where
  "halves_ok g \<longleftrightarrow> (\<forall>u v e. smaller_edge g (u, v) = Some e \<longrightarrow> ed_shortcut (de_data (edge_array g ! e)) \<longrightarrow>
     (\<exists>e1 e2. smaller_edge g (u, ed_id (de_data (edge_array g ! e))) = Some e1 \<and>
        smaller_edge g (ed_id (de_data (edge_array g ! e)), v) = Some e2 \<and>
        ed_distance (de_data (edge_array g ! e1)) + ed_distance (de_data (edge_array g ! e2)) =
        ed_distance (de_data (edge_array g ! e))))"

text \<open>The original edges along a list of nodes.\<close>

fun original :: "EdgeData StaticGraph \<Rightarrow> NodeID list \<Rightarrow> EdgeData list \<Rightarrow> bool" where
  "original g [x] [] \<longleftrightarrow> True"
| "original g (x # y # xs) (d # ds) \<longleftrightarrow> (\<exists>e. smaller_edge g (x, y) = Some e \<and> d = de_data (edge_array g ! e)) \<and>
     \<not> ed_shortcut d \<and> original g (y # xs) ds"
| "original g _ _ \<longleftrightarrow> False"

abbreviation weight_of :: "EdgeData list \<Rightarrow> int" where
  "weight_of ds \<equiv> sum_list (map ed_distance ds)"

lemma original_append:
  "original g (xs @ [m]) ds \<Longrightarrow> original g (m # ys) es \<Longrightarrow> original g (xs @ m # ys) (ds @ es)"
proof (induction xs arbitrary: ds)
  case Nil
  then show ?case by (cases ds) auto
next
  case (Cons x xs)
  obtain y zs where y: "xs @ [m] = y # zs" by (cases "xs @ [m]") auto
  then obtain z where z: "xs @ m # ys = y # z" by (cases xs) auto
  obtain d ds' where d: "ds = d # ds'" using Cons.prems(1) y by (cases ds) auto
  then show ?case using Cons.prems Cons.IH [of ds'] y z by auto
qed

fun emit_all :: "Facade \<Rightarrow> bool \<Rightarrow> PhantomNodes \<Rightarrow> EdgeData list \<Rightarrow> PathData list \<Rightarrow> PathData list option" where
  "emit_all f r ph [] acc = Some acc"
| "emit_all f r ph (d # ds) acc = do { acc \<leftarrow> emit_edge f r ph d acc; emit_all f r ph ds acc }"

lemma emit_all_append: "emit_all f r ph (ds @ es) acc = do { acc \<leftarrow> emit_all f r ph ds acc; emit_all f r ph es acc }"
  by (induction ds arbitrary: acc) (auto intro!: arg_cong [of _ _ "Option.bind _"])

text \<open>What the loops do with one pair on the stack.\<close>

definition unpacks :: "EdgeData StaticGraph \<Rightarrow> NodeID \<Rightarrow> NodeID \<Rightarrow> NodeID list \<Rightarrow> EdgeData list \<Rightarrow> bool" where
  "unpacks g u v ns ds \<longleftrightarrow> ns \<noteq> [] \<and> hd ns = u \<and> original g (ns @ [v]) ds \<and>
     (\<forall>st acc. unpack_edge_loop g ((u, v) # st) acc = unpack_edge_loop g st (acc @ ns)) \<and>
     (\<forall>f r ph st acc. m_query_graph f = g \<longrightarrow> unpack_path_loop f r ph ((u, v) # st) acc =
        do { acc \<leftarrow> emit_all f r ph ds acc; unpack_path_loop f r ph st acc })"

lemma unpack_pair:
  assumes g: "query_graph g" "halves_ok g" and e: "smaller_edge g (u, v) = Some e"
  shows "\<exists>ns ds. unpacks g u v ns ds \<and> weight_of ds = ed_distance (de_data (edge_array g ! e))"
  using e
proof (induction "nat (ed_distance (de_data (edge_array g ! e)))" arbitrary: u v e rule: less_induct)
  case less
  let ?d = "de_data (edge_array g ! e)"
  note s = smaller_edge_arc [OF g(1) less.prems]
  have get: "sg_GetEdgeData g e = Some ?d" using s(1) by (simp add: sg_GetEdgeData_def vec_simps)
  note step = unpack_edge_loop.simps [of g "(u, v) # st" for st] unpack_path_loop.simps [of f r ph "(u, v) # st" for f r ph st]
  show ?case
  proof (cases "ed_shortcut ?d")
    case False
    then have "unpacks g u v [u] [?d]" using less.prems get by (simp add: unpacks_def step)
    then show ?thesis by (intro exI [of _ "[u]"] exI [of _ "[?d]"]) simp
  next
    case True
    let ?m = "ed_id ?d"
    obtain e1 e2 where h: "smaller_edge g (u, ?m) = Some e1" "smaller_edge g (?m, v) = Some e2"
      "ed_distance (de_data (edge_array g ! e1)) + ed_distance (de_data (edge_array g ! e2)) = ed_distance ?d"
      using g(2) less.prems True unfolding halves_ok_def by blast
    have pos: "0 < ed_distance (de_data (edge_array g ! e1))" "0 < ed_distance (de_data (edge_array g ! e2))"
      using smaller_edge_arc(3) [OF g(1)] h by blast+
    obtain ns1 ds1 where 1: "unpacks g u ?m ns1 ds1" "weight_of ds1 = ed_distance (de_data (edge_array g ! e1))"
      using less.hyps [OF _ h(1)] h(3) pos by auto
    obtain ns2 ds2 where 2: "unpacks g ?m v ns2 ds2" "weight_of ds2 = ed_distance (de_data (edge_array g ! e2))"
      using less.hyps [OF _ h(2)] h(3) pos by auto
    obtain ys where ys: "ns2 @ [v] = ?m # ys" using 2(1) by (cases ns2) (auto simp: unpacks_def)
    have "original g (ns1 @ ns2 @ [v]) (ds1 @ ds2)"
      using original_append [of g ns1 ?m ds1 ys ds2] 1(1) 2(1) unfolding unpacks_def ys by blast
    moreover have "unpack_edge_loop g ((u, v) # st) acc = unpack_edge_loop g st (acc @ ns1 @ ns2)" for st acc
      using 1(1) 2(1) less.prems get True by (simp add: step unpacks_def)
    moreover have "unpack_path_loop f r ph ((u, v) # st) acc =
        do { acc \<leftarrow> emit_all f r ph (ds1 @ ds2) acc; unpack_path_loop f r ph st acc }" if f: "m_query_graph f = g" for f r ph st acc
    proof -
      have "unpack_path_loop f r ph ((?m, v) # st) =
          (\<lambda>acc. do { acc \<leftarrow> emit_all f r ph ds2 acc; unpack_path_loop f r ph st acc })"
        using 2(1) f by (auto simp: unpacks_def)
      then show ?thesis using 1(1) less.prems get True f by (simp add: step unpacks_def emit_all_append)
    qed
    ultimately have "unpacks g u v (ns1 @ ns2) (ds1 @ ds2)" using 1(1) by (simp add: unpacks_def)
    then show ?thesis using 1(2) 2(2) h(3) by (intro exI [of _ "ns1 @ ns2"] exI [of _ "ds1 @ ds2"]) simp
  qed
qed

text \<open>
  C15: Unpacking the edge between two nodes ends; it returns a path of original edges from the first to the second node
  that together weigh as much as the edge.
\<close>

theorem UnpackEdge_original:
  assumes "query_graph g" "halves_ok g" "smaller_edge g (s, t) = Some e"
  shows "\<exists>ns ds. UnpackEdge g s t acc = Some (acc @ ns @ [t]) \<and> ns \<noteq> [] \<and> hd ns = s \<and> original g (ns @ [t]) ds \<and>
    weight_of ds = ed_distance (de_data (edge_array g ! e))"
proof -
  obtain ns ds where u: "unpacks g s t ns ds" "weight_of ds = ed_distance (de_data (edge_array g ! e))"
    using unpack_pair [OF assms] by blast
  have "unpack_edge_loop g [(s, t)] acc = Some (acc @ ns)"
    using u(1) by (simp add: unpacks_def unpack_edge_loop.simps [of g "[]"])
  then show ?thesis using u by (auto simp: UnpackEdge_def unpacks_def)
qed

section \<open>Durations\<close>

text \<open>The tables of the facade cover the edge, and its geometry is not empty.\<close>

definition edge_info_ok :: "Facade \<Rightarrow> EdgeData \<Rightarrow> bool" where
  "edge_info_ok f d \<longleftrightarrow> ed_id d < length (m_name_ID_list f) \<and> ed_id d < length (m_turn_instruction_list f) \<and>
     ed_id d < length (m_travel_mode_list f) \<and> ed_id d < length (m_edge_is_compressed f) \<and>
     ed_id d < length (m_via_node_list f) \<and> (m_edge_is_compressed f ! ed_id d \<longrightarrow>
       (\<exists>ids. GetUncompressedGeometry f (m_via_node_list f ! ed_id d) = Some ids \<and> ids \<noteq> [] \<and> length ids < 2 ^ 32))"

text \<open>The source of a route lies on its first edge.\<close>

definition source_on :: "Facade \<Rightarrow> PhantomNodes \<Rightarrow> EdgeData \<Rightarrow> bool" where
  "source_on f ph d \<longleftrightarrow> (m_edge_is_compressed f ! ed_id d \<longrightarrow> (\<forall>ids. GetUncompressedGeometry f (m_via_node_list f ! ed_id d) = Some ids \<longrightarrow>
     fwd_segment_position (source_phantom ph) < length ids))"

abbreviation duration :: "PathData list \<Rightarrow> int" where
  "duration ps \<equiv> sum_list (map segment_duration ps)"

lemma usub64_eq: "y \<le> x \<Longrightarrow> x < 2 ^ 64 \<Longrightarrow> usub64 x y = x - y"
proof -
  assume x: "y \<le> x" "x < 2 ^ 64"
  then have "x + 2 ^ 64 - y = (x - y) + 2 ^ 64" by simp
  then show ?thesis using x by (simp only: usub64_def mod_add_self2) simp
qed

lemma emit_edge_duration:
  assumes d: "edge_info_ok f d" and src: "acc = [] \<Longrightarrow> source_on f ph d"
  shows "\<exists>acc'. emit_edge f r ph d acc = Some acc' \<and> acc' \<noteq> [] \<and> duration acc' = duration acc + ed_distance d"
proof (cases "m_edge_is_compressed f ! ed_id d")
  case False
  then show ?thesis using d
    by (simp add: edge_info_ok_def emit_edge_def GetNameIndexFromEdgeID_def GetTurnInstructionForEdgeID_def
        GetTravelModeForEdgeID_def EdgeIsCompressed_def GetGeometryIndexForEdgeID_def vec_simps PathData_of_def)
next
  case True
  let ?pos = "fwd_segment_position (source_phantom ph)"
  obtain ids where ids: "GetUncompressedGeometry f (m_via_node_list f ! ed_id d) = Some ids" "ids \<noteq> []" "length ids < 2 ^ 32"
    using d True by (auto simp: edge_info_ok_def)
  define start where "start = (if acc = [] then if r then usub64 (usub64 (length ids) ?pos) 1 else ?pos else 0)"
  have "acc = [] \<Longrightarrow> ?pos < length ids" using src True ids(1) by (simp add: source_on_def)
  then have start: "start < length ids" using ids(2,3) by (auto simp: start_def usub64_eq)
  define new where "new = map (\<lambda>n. PathData_of n (m_name_ID_list f ! ed_id d) NoTurn 0 (m_travel_mode_list f ! ed_id d))
    (seg ids start (length ids))"
  have "new \<noteq> []" using start ids(2) by (simp add: new_def seg_def)
  then obtain ys y where y: "new = ys @ [y]" by (cases new rule: rev_cases) auto
  have "emit_edge f r ph d acc = do { assert_that (start \<le> length ids); assert_that (acc @ new \<noteq> []);
      Some (butlast (acc @ new) @ [(last (acc @ new))\<lparr> turn_instruction := m_turn_instruction_list f ! ed_id d,
        segment_duration := ed_distance d \<rparr>]) }"
    using d True ids(1) unfolding emit_edge_def start_def new_def Let_def edge_info_ok_def
    by (simp add: GetNameIndexFromEdgeID_def GetTurnInstructionForEdgeID_def
        GetTravelModeForEdgeID_def EdgeIsCompressed_def GetGeometryIndexForEdgeID_def vec_simps)
  then have "emit_edge f r ph d acc = Some (acc @ ys @ [y\<lparr> turn_instruction := m_turn_instruction_list f ! ed_id d,
      segment_duration := ed_distance d \<rparr>])"
    using start y by (simp add: butlast_append)
  moreover have "duration ys = 0"
  proof -
    have "\<forall>x \<in> set new. segment_duration x = 0" by (auto simp: new_def PathData_of_def)
    then have "\<forall>x \<in> set ys. segment_duration x = 0" using y by simp
    then show ?thesis by (simp add: sum_list_0 cong: map_cong)
  qed
  ultimately show ?thesis by simp
qed

lemma emit_all_duration:
  assumes "\<forall>d \<in> set ds. edge_info_ok f d" "acc = [] \<Longrightarrow> ds \<noteq> [] \<Longrightarrow> source_on f ph (hd ds)"
  shows "\<exists>acc'. emit_all f r ph ds acc = Some acc' \<and> duration acc' = duration acc + weight_of ds"
  using assms
proof (induction ds arbitrary: acc)
  case (Cons d ds)
  obtain acc1 where a: "emit_edge f r ph d acc = Some acc1" "acc1 \<noteq> []" "duration acc1 = duration acc + ed_distance d"
    using emit_edge_duration [of f d acc ph r] Cons.prems by auto
  obtain acc2 where "emit_all f r ph ds acc1 = Some acc2" "duration acc2 = duration acc1 + weight_of ds"
    using Cons.IH [of acc1] Cons.prems(1) a(2) by auto
  then show ?case using a by simp
qed simp

lemma emit_target_tail:
  assumes "\<forall>i \<in> set is. i < length ids" "0 < forward_travel_mode target"
  shows "\<exists>tail. emit_target target ids is acc = Some (acc @ tail) \<and> (\<forall>x \<in> set tail. segment_duration x = 0 \<and> turn_instruction x = NoTurn)"
  using assms(1)
proof (induction "is" arbitrary: acc)
  case (Cons i "is")
  let ?x = "PathData_of (ids ! i) (pn_name_id target) NoTurn 0 (forward_travel_mode target)"
  obtain tail where t: "emit_target target ids is (acc @ [?x]) = Some ((acc @ [?x]) @ tail)"
    "\<forall>x \<in> set tail. segment_duration x = 0 \<and> turn_instruction x = NoTurn"
    using Cons.IH [of "acc @ [?x]"] Cons.prems by auto
  show ?case
    by (rule exI [of _ "?x # tail"]) (use t Cons.prems assms(2) in \<open>simp add: vec_simps PathData_of_def\<close>)
qed simp

text \<open>The target's segment exists and the target lies on it.\<close>

definition target_ok :: "Facade \<Rightarrow> PhantomNodes \<Rightarrow> bool" where
  "target_ok f ph \<longleftrightarrow> (packed_geometry_id (target_phantom ph) \<noteq> SPECIAL_EDGEID \<longrightarrow> 0 < forward_travel_mode (target_phantom ph) \<and>
     (\<exists>ids. GetUncompressedGeometry f (packed_geometry_id (target_phantom ph)) = Some ids \<and> ids \<noteq> [] \<and>
        length ids < 2 ^ 32 \<and> fwd_segment_position (target_phantom ph) \<le> length ids))"

lemma target_indices_bound:
  assumes "0 < n" "e \<le> n" "i \<in> set (target_indices (if s > e then min s (n - 1) else s) e)"
  shows "i < n"
  using assms by (auto simp: target_indices_def split: if_splits)

lemma unpack_target_tail:
  assumes "target_ok f ph"
  shows "\<exists>tail. unpack_target f r ph acc = Some (acc @ tail) \<and> (\<forall>x \<in> set tail. segment_duration x = 0 \<and> turn_instruction x = NoTurn)"
proof (cases "SPECIAL_EDGEID = packed_geometry_id (target_phantom ph)")
  case False
  let ?t = "target_phantom ph"
  obtain ids where ids: "GetUncompressedGeometry f (packed_geometry_id ?t) = Some ids" "ids \<noteq> []" "length ids < 2 ^ 32"
    "fwd_segment_position ?t \<le> length ids" "0 < forward_travel_mode ?t" using assms False by (auto simp: target_ok_def)
  define ids' where "ids' = (if r then rev ids else ids)"
  define e where "e = (if r then usub64 (length ids) (fwd_segment_position ?t) else fwd_segment_position ?t)"
  define s where "s = (if packed_geometry_id (source_phantom ph) = packed_geometry_id ?t \<and> acc = []
    then if r then usub64 (length ids) (fwd_segment_position (source_phantom ph)) else fwd_segment_position (source_phantom ph) else 0)"
  have len: "length ids' = length ids" by (simp add: ids'_def)
  have "e \<le> length ids'" using ids(3,4) by (simp add: e_def usub64_eq len)
  then have "\<forall>i \<in> set (target_indices (if s > e then min s (length ids' - 1) else s) e). i < length ids'"
    using target_indices_bound [of "length ids'" e _ s] ids(2) len by auto
  moreover have "usub64 (length ids') 1 = length ids' - 1" using ids(2,3) len by (intro usub64_eq) (auto simp: Suc_le_eq)
  moreover have "unpack_target f r ph acc =
      emit_target ?t ids' (target_indices (if s > e then min s (usub64 (length ids') 1) else s) e) acc"
    using False ids(1) unfolding unpack_target_def Let_def by (simp add: ids'_def e_def s_def)
  ultimately show ?thesis using emit_target_tail [of _ ids' ?t acc] ids(5) by simp
qed (simp add: unpack_target_def)

text \<open>The pairs of a packed path and the edges found for them.\<close>

fun packed_edges :: "EdgeData StaticGraph \<Rightarrow> NodeID list \<Rightarrow> EdgeData list \<Rightarrow> bool" where
  "packed_edges g [x] [] \<longleftrightarrow> True"
| "packed_edges g (x # y # xs) (d # ds) \<longleftrightarrow> (\<exists>e. smaller_edge g (x, y) = Some e \<and> d = de_data (edge_array g ! e)) \<and>
     packed_edges g (y # xs) ds"
| "packed_edges g _ _ \<longleftrightarrow> False"

text \<open>The nodes and original edges of an unpacked path.\<close>

definition unpacked :: "EdgeData StaticGraph \<Rightarrow> NodeID list \<Rightarrow> EdgeData list \<Rightarrow> NodeID list \<Rightarrow> EdgeData list \<Rightarrow> bool" where
  "unpacked g p es ns ds \<longleftrightarrow> original g ns ds \<and> weight_of ds = weight_of es \<and> ns \<noteq> [] \<and> hd ns = hd p \<and> last ns = last p"

lemma unpack_pairs:
  assumes g: "query_graph g" "halves_ok g" and p: "packed_edges g p es"
  shows "\<exists>ns ds. unpacked g p es ns ds \<and> (\<forall>f r ph acc. m_query_graph f = g \<longrightarrow>
    unpack_path_loop f r ph (zip p (tl p)) acc = emit_all f r ph ds acc)"
  using p
proof (induction p arbitrary: es rule: induct_list012)
  case (2 x)
  then have "es = []" by (cases es) auto
  then show ?case by (intro exI [of _ "[x]"] exI [of _ "[]"]) (simp add: unpacked_def unpack_path_loop.simps)
next
  case (3 x y xs)
  obtain d es' where es: "es = d # es'" using "3.prems" by (cases es) auto
  obtain e where e: "smaller_edge g (x, y) = Some e" "d = de_data (edge_array g ! e)" "packed_edges g (y # xs) es'"
    using "3.prems" es by auto
  obtain ns1 ds1 where 1: "unpacks g x y ns1 ds1" "weight_of ds1 = ed_distance d"
    using unpack_pair [OF g e(1)] e(2) by blast
  obtain ns ds where 2: "unpacked g (y # xs) es' ns ds"
    "\<And>f r ph acc. m_query_graph f = g \<Longrightarrow> unpack_path_loop f r ph (zip (y # xs) xs) acc = emit_all f r ph ds acc"
    using "3.IH"(2) [OF e(3)] by auto
  obtain zs where ns: "ns = y # zs" using 2(1) by (cases ns) (auto simp: unpacked_def)
  have "original g (ns1 @ ns) (ds1 @ ds)"
    using original_append [of g ns1 y ds1 zs ds] 1(1) 2(1) unfolding unpacks_def unpacked_def ns by blast
  then have "unpacked g (x # y # xs) es (ns1 @ ns) (ds1 @ ds)"
    using 1 2(1) es by (simp add: unpacks_def unpacked_def)
  moreover have "unpack_path_loop f r ph (zip (x # y # xs) (y # xs)) acc = emit_all f r ph (ds1 @ ds) acc"
    if f: "m_query_graph f = g" for f r ph acc
  proof -
    have "unpack_path_loop f r ph (zip (y # xs) xs) = emit_all f r ph ds" using 2(2) [OF f] by blast
    then show ?thesis using 1(1) f by (simp add: unpacks_def emit_all_append)
  qed
  ultimately show ?case by (intro exI [of _ "ns1 @ ns"] exI [of _ "ds1 @ ds"]) simp
qed simp

lemma original_data:
  assumes "query_graph g" "original g ns ds" "d \<in> set ds"
  shows "\<not> ed_shortcut d \<and> d \<in> de_data ` set (edge_array g)"
  using assms
proof (induction g ns ds rule: original.induct)
  case (2 g x y xs c cs)
  show ?case
  proof (cases "d \<in> set cs")
    case False
    then obtain e where "smaller_edge g (x, y) = Some e" "d = de_data (edge_array g ! e)" using 2 by auto
    moreover from this(1) have "e < length (edge_array g)" using smaller_edge_arc(1) "2.prems"(1) by blast
    ultimately show ?thesis using 2 False by auto
  qed (use 2 in auto)
qed auto

lemma original_first:
  assumes "original g ns ds" "ds \<noteq> []"
  shows "\<exists>v e. smaller_edge g (hd ns, v) = Some e \<and> hd ds = de_data (edge_array g ! e)"
  using assms by (cases "(g, ns, ds)" rule: original.cases) auto


text \<open>A shortcut from 0 to 2 over node 1 with its two halves, and a facade with one compressed edge.\<close>

definition sample_unpack_graph :: "EdgeData StaticGraph" where
  "sample_unpack_graph = \<lparr> sg_number_of_nodes = 3, sg_number_of_edges = 3, node_array = [0, 1, 3, 3],
     edge_array = [\<lparr> de_target = 2, de_data = \<lparr> ed_id = 1, ed_shortcut = True, ed_distance = 12, ed_forward = True, ed_backward = False \<rparr> \<rparr>,
       \<lparr> de_target = 0, de_data = \<lparr> ed_id = 0, ed_shortcut = False, ed_distance = 5, ed_forward = False, ed_backward = True \<rparr> \<rparr>,
       \<lparr> de_target = 2, de_data = \<lparr> ed_id = 1, ed_shortcut = False, ed_distance = 7, ed_forward = True, ed_backward = False \<rparr> \<rparr>] \<rparr>"

definition sample_facade :: Facade where
  "sample_facade = \<lparr> m_check_sum = 0, m_query_graph = sample_unpack_graph, m_timestamp = [], m_coordinate_list = [],
     m_via_node_list = [0, 40], m_name_ID_list = [8, 9], m_turn_instruction_list = [TurnLeft, TurnRight],
     m_travel_mode_list = [1, 1], m_names_char_list = [], m_edge_is_compressed = [True, False],
     m_geometry_indices = [0, 3], m_geometry_list = [20, 21, 22],
     m_name_table = \<lparr> block_offsets = [], diff_blocks = [], sum_lengths = 0 \<rparr> \<rparr>"

lemma sample_smaller:
  assumes "u < 3" "v < 3"
  shows "smaller_edge sample_unpack_graph (u, v) =
    (if (u, v) = (0, 2) then Some 0 else if (u, v) = (0, 1) then Some 1 else if (u, v) = (1, 2) then Some 2 else None)"
proof -
  have r: "sg_GetAdjacentEdgeRange sample_unpack_graph 0 = Some [0]"
    "sg_GetAdjacentEdgeRange sample_unpack_graph 1 = Some [1, 2]"
    "sg_GetAdjacentEdgeRange sample_unpack_graph 2 = Some []" by code_simp+
  have d: "sg_GetEdgeData sample_unpack_graph 0 = Some \<lparr> ed_id = 1, ed_shortcut = True, ed_distance = 12, ed_forward = True, ed_backward = False \<rparr>"
    "sg_GetEdgeData sample_unpack_graph 1 = Some \<lparr> ed_id = 0, ed_shortcut = False, ed_distance = 5, ed_forward = False, ed_backward = True \<rparr>"
    "sg_GetEdgeData sample_unpack_graph 2 = Some \<lparr> ed_id = 1, ed_shortcut = False, ed_distance = 7, ed_forward = True, ed_backward = False \<rparr>"
    "sg_GetTarget sample_unpack_graph 0 = Some 2" "sg_GetTarget sample_unpack_graph 1 = Some 0"
    "sg_GetTarget sample_unpack_graph 2 = Some 2" by code_simp+
  have "u \<in> {0, 1, 2}" "v \<in> {0, 1, 2}" using assms by auto
  then show ?thesis
    by (elim insertE emptyE; simp add: smaller_edge_def r d Let_def INVALID_EDGE_WEIGHT_def SPECIAL_EDGEID_def assert_that_def del: One_nat_def)
qed

lemma sample_data:
  "de_data (edge_array sample_unpack_graph ! 0) = \<lparr> ed_id = 1, ed_shortcut = True, ed_distance = 12, ed_forward = True, ed_backward = False \<rparr>"
  "de_data (edge_array sample_unpack_graph ! 1) = \<lparr> ed_id = 0, ed_shortcut = False, ed_distance = 5, ed_forward = False, ed_backward = True \<rparr>"
  "de_data (edge_array sample_unpack_graph ! 2) = \<lparr> ed_id = 1, ed_shortcut = False, ed_distance = 7, ed_forward = True, ed_backward = False \<rparr>"
  by (simp_all add: sample_unpack_graph_def)

lemma sample_found:
  assumes "smaller_edge sample_unpack_graph (u, v) = Some e" "u < 3" "v < 3"
  obtains "u = 0" "v = 2" "e = 0" | "u = 0" "v = 1" "e = 1" | "u = 1" "v = 2" "e = 2"
  using assms by (auto simp: sample_smaller split: if_splits)

lemma sample_unpack_ok: "query_graph sample_unpack_graph" "halves_ok sample_unpack_graph"
proof -
  have "e \<in> sg_range sample_unpack_graph u \<Longrightarrow> u < 3 \<Longrightarrow> e = 0 \<or> e = 1 \<or> e = 2" for u e
    by (auto simp: sg_range_def sample_unpack_graph_def numeral_3_eq_3 less_Suc_eq)
  then show g: "query_graph sample_unpack_graph"
    by (fastforce simp: query_graph_def sg_inv_def sample_unpack_graph_def SPECIAL_EDGEID_def)
  show "halves_ok sample_unpack_graph" unfolding halves_ok_def
  proof (intro allI impI)
    fix u v e assume e: "smaller_edge sample_unpack_graph (u, v) = Some e" "ed_shortcut (de_data (edge_array sample_unpack_graph ! e))"
    have "u < 3 \<and> v < 3" using smaller_edge_nodes [OF g e(1)] by (simp add: sample_unpack_graph_def)
    then have "u = 0 \<and> v = 2 \<and> e = 0" using e(2) by (cases rule: sample_found [OF e(1)]) (simp_all add: sample_data del: One_nat_def)
    then show "\<exists>e1 e2. smaller_edge sample_unpack_graph (u, ed_id (de_data (edge_array sample_unpack_graph ! e))) = Some e1 \<and>
        smaller_edge sample_unpack_graph (ed_id (de_data (edge_array sample_unpack_graph ! e)), v) = Some e2 \<and>
        ed_distance (de_data (edge_array sample_unpack_graph ! e1)) + ed_distance (de_data (edge_array sample_unpack_graph ! e2)) =
        ed_distance (de_data (edge_array sample_unpack_graph ! e))"
      using sample_smaller [of 0 1] sample_smaller [of 1 2] by (simp add: sample_data del: One_nat_def)
  qed
qed

theorem UnpackEdge_original_witness:
  "\<exists>ns ds. UnpackEdge sample_unpack_graph 0 2 [] = Some (ns @ [2]) \<and> hd ns = 0 \<and> original sample_unpack_graph (ns @ [2]) ds \<and>
    weight_of ds = 12"
proof -
  have "smaller_edge sample_unpack_graph (0, 2) = Some 0" by (simp add: sample_smaller)
  from UnpackEdge_original [OF sample_unpack_ok this, of "[]"] show ?thesis by (auto simp: sample_unpack_graph_def)
qed

definition sample_phantoms :: PhantomNodes where
  "sample_phantoms = \<lparr> source_phantom = PhantomNode_new\<lparr> forward_node_id := 0, fwd_segment_position := 1 \<rparr>,
     target_phantom = PhantomNode_new\<lparr> forward_node_id := 2, packed_geometry_id := 0, fwd_segment_position := 2,
       forward_travel_mode := 1 \<rparr> \<rparr>"

lemma sample_geometry: "GetUncompressedGeometry sample_facade 0 = Some [20, 21, 22]"
  by (simp add: GetUncompressedGeometry_def sample_facade_def uadd_def vec_simps copy_range_def seg_def upt_rec)

lemma sample_facade_ok:
  "m_query_graph sample_facade = sample_unpack_graph" "target_ok sample_facade sample_phantoms"
  "\<forall>d \<in> set (edge_array sample_unpack_graph). ed_shortcut (de_data d) \<or> edge_info_ok sample_facade (de_data d)"
  "\<forall>v e. smaller_edge sample_unpack_graph (0, v) = Some e \<longrightarrow>
     source_on sample_facade sample_phantoms (de_data (edge_array sample_unpack_graph ! e))"
proof -
  show "m_query_graph sample_facade = sample_unpack_graph" by (simp add: sample_facade_def)
  show "target_ok sample_facade sample_phantoms"
    by (simp add: target_ok_def sample_phantoms_def sample_geometry)
  have ids: "ed_id d = 0 \<or> ed_id d = 1 \<Longrightarrow> edge_info_ok sample_facade d" for d
    using sample_geometry by (auto simp: edge_info_ok_def sample_facade_def)
  show "\<forall>d \<in> set (edge_array sample_unpack_graph). ed_shortcut (de_data d) \<or> edge_info_ok sample_facade (de_data d)"
    using ids by (simp add: sample_unpack_graph_def)
  have src: "source_on sample_facade sample_phantoms d" if "ed_id d = 0 \<or> ed_id d = 1" for d
    using that sample_geometry by (auto simp: source_on_def sample_facade_def sample_phantoms_def)
  show "\<forall>v e. smaller_edge sample_unpack_graph (0, v) = Some e \<longrightarrow>
     source_on sample_facade sample_phantoms (de_data (edge_array sample_unpack_graph ! e))"
  proof (intro allI impI)
    fix v e assume e: "smaller_edge sample_unpack_graph (0, v) = Some e"
    have "v < 3" using smaller_edge_nodes [OF sample_unpack_ok(1) e] by (simp add: sample_unpack_graph_def)
    then show "source_on sample_facade sample_phantoms (de_data (edge_array sample_unpack_graph ! e))"
      by (cases rule: sample_found [OF e]) (auto intro!: src simp: sample_data simp del: One_nat_def)
  qed
qed


end
