(* ===== verification/Shortest_Path.thy ===== *)
theory Shortest_Path
  imports Path_Retrieval Path_Unpacking
begin

text \<open>
  \<^verbatim>\<open>RoutingAlgorithms/ShortestPathRouting.h\<close>: the route through a sequence of via points.  Every leg
  runs two searches, one to each direction of the target's segment, from the nodes of the source
  with the distances of the previous legs as their offsets; the packed legs of the two
  alternatives are kept side by side until the end of the route.

  A leg that finds no path ends the query: it is \<^term>\<open>Inl ()\<close> in the model, while \<^const>\<open>None\<close> is a
  failed assertion or an access out of range.
\<close>

section \<open>One leg\<close>

record LegState =
  distance1 :: int
  distance2 :: int
  search_from_1st_node :: bool
  search_from_2nd_node :: bool
  packed_legs1 :: "NodeID list list"
  packed_legs2 :: "NodeID list list"
  forward_heap1 :: QueryHeap
  reverse_heap1 :: QueryHeap
  forward_heap2 :: QueryHeap
  reverse_heap2 :: QueryHeap

definition allow_u_turn :: "nat \<Rightarrow> bool list \<Rightarrow> bool" where
  "allow_u_turn current_leg uturn_indicators \<longleftrightarrow>
     current_leg > 0 \<and> length uturn_indicators > current_leg \<and> uturn_indicators ! (current_leg - 1)"

text \<open>Insertion of a start node into both forward heaps.\<close>

definition insert_both ::
    "bool \<Rightarrow> NodeID \<Rightarrow> int \<Rightarrow> QueryHeap \<times> QueryHeap \<times> int \<Rightarrow> (QueryHeap \<times> QueryHeap \<times> int) option" where
  "insert_both active node offset = (\<lambda>(h1, h2, min_edge_offset).
     if active \<and> node \<noteq> SPECIAL_NODEID then do {
       h1 \<leftarrow> heap_Insert UnorderedMapStorage h1 node offset \<lparr> parent = node \<rparr>;
       let min_edge_offset = min min_edge_offset offset;
       h2 \<leftarrow> heap_Insert UnorderedMapStorage h2 node offset \<lparr> parent = node \<rparr>;
       let min_edge_offset = min min_edge_offset offset;
       Some (h1, h2, min_edge_offset)
     } else Some (h1, h2, min_edge_offset))"

definition insert_target :: "NodeID \<Rightarrow> int \<Rightarrow> QueryHeap \<Rightarrow> QueryHeap option" where
  "insert_target node offset h =
     (if node \<noteq> SPECIAL_NODEID then heap_Insert UnorderedMapStorage h node offset \<lparr> parent = node \<rparr> else Some h)"

text \<open>The searches of a leg: heaps, then middle node and bound of the first and of the second search.\<close>

definition leg_search ::
    "EdgeData StaticGraph \<Rightarrow> bool \<Rightarrow> PhantomNodes \<Rightarrow> LegState \<Rightarrow>
     ((QueryHeap \<times> QueryHeap \<times> NodeID \<times> int) \<times> (QueryHeap \<times> QueryHeap \<times> NodeID \<times> int)) option" where
  "leg_search g allow pair s = do {
     let f1 = heap_Clear UnorderedMapStorage (forward_heap1 s);
     let f2 = heap_Clear UnorderedMapStorage (forward_heap2 s);
     let r1 = heap_Clear UnorderedMapStorage (reverse_heap1 s);
     let r2 = heap_Clear UnorderedMapStorage (reverse_heap2 s);
     let source = source_phantom pair;
     let target = target_phantom pair;
     (f1, f2, min_edge_offset) \<leftarrow> insert_both (allow \<or> search_from_1st_node s) (forward_node_id source)
       ((if allow then 0 else distance1 s) - GetForwardWeightPlusOffset source) (f1, f2, 0);
     (f1, f2, min_edge_offset) \<leftarrow> insert_both (allow \<or> search_from_2nd_node s) (reverse_node_id source)
       ((if allow then 0 else distance2 s) - GetReverseWeightPlusOffset source) (f1, f2, min_edge_offset);
     r1 \<leftarrow> insert_target (forward_node_id target) (GetForwardWeightPlusOffset target) r1;
     r2 \<leftarrow> insert_target (reverse_node_id target) (GetReverseWeightPlusOffset target) r2;
     run1 \<leftarrow> search_loop g min_edge_offset (f1, r1, SPECIAL_NODEID, INVALID_EDGE_WEIGHT);
     run2 \<leftarrow> (if \<not> heap_Empty r2
              then search_loop g min_edge_offset (f2, r2, SPECIAL_NODEID, INVALID_EDGE_WEIGHT)
              else Some (f2, r2, SPECIAL_NODEID, INVALID_EDGE_WEIGHT));
     Some (run1, run2)
   }"

text \<open>The path of a search, empty when it found none.\<close>

definition leg_path :: "QueryHeap \<times> QueryHeap \<times> NodeID \<times> int \<Rightarrow> NodeID list option" where
  "leg_path = (\<lambda>(f, r, middle, bound).
     if INVALID_EDGE_WEIGHT \<noteq> bound then RetrievePackedPathFromHeap f r middle [] else Some [])"

text \<open>If one of the paths was not found, it is replaced by the other one.\<close>

definition replace_missing ::
    "bool \<Rightarrow> (NodeID list \<times> int) \<times> (NodeID list \<times> int) \<Rightarrow> (NodeID list \<times> int) \<times> (NodeID list \<times> int)" where
  "replace_missing allow = (\<lambda>((leg1, ub1), (leg2, ub2)).
     let (leg1, ub1) = (if (allow \<and> ub1 > ub2) \<or> leg1 = [] then (leg2, ub2) else (leg1, ub1));
         (leg2, ub2) = (if (allow \<and> ub2 > ub1) \<or> leg2 = [] then (leg1, ub1) else (leg2, ub2))
     in ((leg1, ub1), (leg2, ub2)))"

text \<open>Matching of the two alternatives with the ends of the previous legs.\<close>

definition match_legs ::
    "bool \<Rightarrow> nat \<Rightarrow> (NodeID list \<times> int) \<times> (NodeID list \<times> int) \<Rightarrow> NodeID list list \<times> NodeID list list \<Rightarrow>
     (((NodeID list \<times> int) \<times> (NodeID list \<times> int)) \<times> NodeID list list \<times> NodeID list list) option" where
  "match_legs allow current_leg = (\<lambda>((leg1, ub1), (leg2, ub2)) (legs1, legs2).
     if \<not> allow \<and> 0 < current_leg then do {
       prev1 \<leftarrow> vec_at legs1 (current_leg - 1);
       prev2 \<leftarrow> vec_at legs2 (current_leg - 1);
       assert_that (prev1 \<noteq> [] \<and> prev2 \<noteq> [] \<and> leg1 \<noteq> [] \<and> leg2 \<noteq> []);
       let end1 = last prev1;
       let end2 = last prev2;
       let start1 = hd leg1;
       let start2 = hd leg2;
       let alternatives = (if end1 \<noteq> start1 \<and> end2 \<noteq> start2 then ((leg2, ub2), (leg1, ub1)) else ((leg1, ub1), (leg2, ub2)));
       let legs = (if start1 = start2
             then if start1 \<noteq> end1 then (legs2, legs2) else if start2 \<noteq> end2 then (legs1, legs1) else (legs1, legs2)
             else (legs1, legs2));
       Some (alternatives, legs)
     } else Some (((leg1, ub1), (leg2, ub2)), (legs1, legs2)))"

definition leg_step ::
    "EdgeData StaticGraph \<Rightarrow> bool list \<Rightarrow> nat \<Rightarrow> PhantomNodes \<Rightarrow> LegState \<Rightarrow> (unit + LegState) option" where
  "leg_step g uturn_indicators current_leg pair s = do {
     let allow = allow_u_turn current_leg uturn_indicators;
     ((f1, r1, middle1, ub1), (f2, r2, middle2, ub2)) \<leftarrow> leg_search g allow pair s;
     if INVALID_EDGE_WEIGHT = ub1 \<and> INVALID_EDGE_WEIGHT = ub2 then Some (Inl ())
     else do {
       assert_that (INVALID_EDGE_WEIGHT \<noteq> distance1 s \<or> INVALID_EDGE_WEIGHT \<noteq> distance2 s);
       let search1 = (SPECIAL_NODEID \<noteq> middle1);
       let search2 = (SPECIAL_NODEID \<noteq> middle2);
       assert_that (current_leg < length (packed_legs1 s) \<and> current_leg < length (packed_legs2 s));
       leg1 \<leftarrow> leg_path (f1, r1, middle1, ub1);
       leg2 \<leftarrow> leg_path (f2, r2, middle2, ub2);
       let alternatives = replace_missing allow ((leg1, ub1), (leg2, ub2));
       assert_that (fst (fst alternatives) \<noteq> [] \<or> fst (snd alternatives) \<noteq> []);
       assert_that (0 = current_leg \<or>
         packed_legs1 s ! (current_leg - 1) \<noteq> [] \<and> packed_legs2 s ! (current_leg - 1) \<noteq> []);
       (((leg1, ub1), (leg2, ub2)), (legs1, legs2)) \<leftarrow>
         match_legs allow current_leg alternatives (packed_legs1 s, packed_legs2 s);
       assert_that (length legs1 = length legs2);
       legs1 \<leftarrow> vec_upd legs1 current_leg (\<lambda>l. l @ leg1);
       legs2 \<leftarrow> vec_upd legs2 current_leg (\<lambda>l. l @ leg2);
       assert_that (length (legs1 ! current_leg) = length leg1 \<and> length (legs2 ! current_leg) = length leg2);
       assert_that (allow \<or> legs1 ! current_leg \<noteq> [] \<and> legs2 ! current_leg \<noteq> []);
       (search1, search2) \<leftarrow>
         (if \<not> allow \<and> last (legs1 ! current_leg) = last (legs2 ! current_leg) \<and> isBidirected (target_phantom pair) then do {
            let last_node_id = last (legs2 ! current_leg);
            let search1 = (search1 \<and> last_node_id \<noteq> reverse_node_id (target_phantom pair));
            let search2 = (search2 \<and> last_node_id \<noteq> forward_node_id (target_phantom pair));
            assert_that (search1 \<noteq> search2);
            Some (search1, search2)
          } else Some (search1, search2));
       Some (Inr \<lparr> distance1 = ub1, distance2 = ub2, search_from_1st_node = search1, search_from_2nd_node = search2,
         packed_legs1 = legs1, packed_legs2 = legs2, forward_heap1 = f1, reverse_heap1 = r1,
         forward_heap2 = f2, reverse_heap2 = r2 \<rparr>)
     }
   }"

section \<open>The route\<close>

fun legs_loop ::
    "EdgeData StaticGraph \<Rightarrow> bool list \<Rightarrow> nat \<Rightarrow> PhantomNodes list \<Rightarrow> LegState \<Rightarrow> (unit + LegState) option" where
  "legs_loop g uturn_indicators current_leg [] s = Some (Inr s)"
| "legs_loop g uturn_indicators current_leg (pair # pairs) s = do {
     r \<leftarrow> leg_step g uturn_indicators current_leg pair s;
     case r of Inl _ \<Rightarrow> Some (Inl ())
     | Inr s \<Rightarrow> legs_loop g uturn_indicators (current_leg + 1) pairs s
   }"

fun unpack_legs ::
    "Facade \<Rightarrow> PhantomNodes list \<Rightarrow> NodeID list list \<Rightarrow> RawRouteData \<Rightarrow> nat \<Rightarrow> RawRouteData option" where
  "unpack_legs f pairs [] raw index = Some raw"
| "unpack_legs f pairs (leg # legs) raw index = do {
     assert_that (pairs \<noteq> []);
     pair \<leftarrow> vec_at pairs index;
     segment \<leftarrow> vec_at (unpacked_path_segments raw) index;
     segment \<leftarrow> UnpackPath f leg pair segment;
     segments \<leftarrow> vec_upd (unpacked_path_segments raw) index (\<lambda>_. segment);
     unpack_legs f pairs legs
       (raw\<lparr> unpacked_path_segments := segments,
         source_traversed_in_reverse := source_traversed_in_reverse raw @ [hd leg \<noteq> forward_node_id (source_phantom pair)],
         target_traversed_in_reverse := target_traversed_in_reverse raw @ [last leg \<noteq> forward_node_id (target_phantom pair)] \<rparr>)
       (index + 1)
   }"

text \<open>\<^verbatim>\<open>vector::resize\<close>.\<close>

definition resize :: "nat \<Rightarrow> 'a \<Rightarrow> 'a list \<Rightarrow> 'a list" where
  "resize n x xs = take n xs @ replicate (n - length xs) x"

definition ShortestPathRouting ::
    "Facade \<Rightarrow> SearchEngineData \<Rightarrow> PhantomNodes list \<Rightarrow> bool list \<Rightarrow> RawRouteData \<Rightarrow> RawRouteData option" where
  "ShortestPathRouting f engine_working_data phantom_nodes_vector uturn_indicators raw_route_data = do {
     let d = InitializeOrClearFirstThreadLocalStorage engine_working_data;
     let d = InitializeOrClearSecondThreadLocalStorage d;
     let d = InitializeOrClearThirdThreadLocalStorage d;
     f1 \<leftarrow> forwardHeap d;
     r1 \<leftarrow> backwardHeap d;
     f2 \<leftarrow> forwardHeap2 d;
     r2 \<leftarrow> backwardHeap2 d;
     r \<leftarrow> legs_loop (m_query_graph f) uturn_indicators 0 phantom_nodes_vector
       \<lparr> distance1 = 0, distance2 = 0, search_from_1st_node = True, search_from_2nd_node = True,
         packed_legs1 = replicate (length phantom_nodes_vector) [],
         packed_legs2 = replicate (length phantom_nodes_vector) [],
         forward_heap1 = f1, reverse_heap1 = r1, forward_heap2 = f2, reverse_heap2 = r2 \<rparr>;
     case r of
       Inl _ \<Rightarrow> Some (raw_route_data\<lparr> shortest_path_length := INVALID_EDGE_WEIGHT,
         alternative_path_length := INVALID_EDGE_WEIGHT \<rparr>)
     | Inr s \<Rightarrow> do {
         let legs = (if distance1 s > distance2 s then packed_legs2 s else packed_legs1 s);
         let raw = raw_route_data\<lparr> unpacked_path_segments := resize (length legs) [] (unpacked_path_segments raw_route_data) \<rparr>;
         raw \<leftarrow> unpack_legs f phantom_nodes_vector legs raw 0;
         Some (raw\<lparr> shortest_path_length := min (distance1 s) (distance2 s) \<rparr>)
       }
   }"

section \<open>The searches of a leg are shortest\<close>

definition with_node :: "bool \<Rightarrow> NodeID \<Rightarrow> int \<Rightarrow> (NodeID \<rightharpoonup> int) \<Rightarrow> (NodeID \<rightharpoonup> int)" where
  "with_node active node off S = (if active \<and> node \<noteq> SPECIAL_NODEID then S(node \<mapsto> off) else S)"

abbreviation forward_start :: "bool \<Rightarrow> PhantomNodes \<Rightarrow> LegState \<Rightarrow> int" where
  "forward_start allow pair s \<equiv> (if allow then 0 else distance1 s) - GetForwardWeightPlusOffset (source_phantom pair)"

abbreviation reverse_start :: "bool \<Rightarrow> PhantomNodes \<Rightarrow> LegState \<Rightarrow> int" where
  "reverse_start allow pair s \<equiv> (if allow then 0 else distance2 s) - GetReverseWeightPlusOffset (source_phantom pair)"

definition leg_sources :: "bool \<Rightarrow> PhantomNodes \<Rightarrow> LegState \<Rightarrow> (NodeID \<rightharpoonup> int)" where
  "leg_sources allow pair s =
     with_node (allow \<or> search_from_2nd_node s) (reverse_node_id (source_phantom pair)) (reverse_start allow pair s)
       (with_node (allow \<or> search_from_1st_node s) (forward_node_id (source_phantom pair)) (forward_start allow pair s) Map.empty)"

definition forward_target :: "PhantomNodes \<Rightarrow> (NodeID \<rightharpoonup> int)" where
  "forward_target pair = with_node True (forward_node_id (target_phantom pair)) (GetForwardWeightPlusOffset (target_phantom pair)) Map.empty"

definition reverse_target :: "PhantomNodes \<Rightarrow> (NodeID \<rightharpoonup> int)" where
  "reverse_target pair = with_node True (reverse_node_id (target_phantom pair)) (GetReverseWeightPlusOffset (target_phantom pair)) Map.empty"

text \<open>The nodes of a phantom are nodes of the graph and differ, its offsets are in range.\<close>

definition phantom_ok :: "EdgeData StaticGraph \<Rightarrow> PhantomNode \<Rightarrow> bool" where
  "phantom_ok g p \<longleftrightarrow> (forward_node_id p \<noteq> SPECIAL_NODEID \<longrightarrow> forward_node_id p < sg_number_of_nodes g) \<and>
     (reverse_node_id p \<noteq> SPECIAL_NODEID \<longrightarrow> reverse_node_id p < sg_number_of_nodes g) \<and>
     (isBidirected p \<longrightarrow> forward_node_id p \<noteq> reverse_node_id p) \<and>
     0 \<le> GetForwardWeightPlusOffset p \<and> 0 \<le> GetReverseWeightPlusOffset p"

definition leg_ok :: "EdgeData StaticGraph \<Rightarrow> bool \<Rightarrow> PhantomNodes \<Rightarrow> LegState \<Rightarrow> bool" where
  "leg_ok g allow pair s \<longleftrightarrow> phantom_ok g (source_phantom pair) \<and> phantom_ok g (target_phantom pair) \<and>
     INT_MIN \<le> forward_start allow pair s \<and> INT_MIN \<le> reverse_start allow pair s \<and>
     (\<forall>l. route g (leg_sources allow pair s) (forward_target pair) l \<longrightarrow> 0 \<le> l) \<and>
     (\<forall>l. route g (leg_sources allow pair s) (reverse_target pair) l \<longrightarrow> 0 \<le> l)"

lemma refines_Clear: "refines (heap_Clear UnorderedMapStorage h) (start_heap Map.empty)"
  using unordered_map_storage.Clear_correct [of h]
  by (simp add: refines_def abs_empty_def start_heap_def)

lemma insert_both_refines:
  assumes "refines h1 (start_heap S)" "refines h2 (start_heap S)" "INT_MIN \<le> off"
    and "active \<Longrightarrow> node \<noteq> SPECIAL_NODEID \<Longrightarrow> node \<notin> dom S"
  shows "\<exists>h1' h2'. insert_both active node off (h1, h2, meo) =
      Some (h1', h2', if active \<and> node \<noteq> SPECIAL_NODEID then min meo off else meo) \<and>
    refines h1' (start_heap (with_node active node off S)) \<and> refines h2' (start_heap (with_node active node off S))"
proof (cases "active \<and> node \<noteq> SPECIAL_NODEID")
  case True
  then show ?thesis
    using refines_start_Insert [OF assms(1) _ assms(3), of node] refines_start_Insert [OF assms(2) _ assms(3), of node] assms(4)
    by (auto simp: insert_both_def with_node_def)
qed (use assms in \<open>auto simp: insert_both_def with_node_def\<close>)

lemma insert_target_refines:
  assumes "refines h (start_heap Map.empty)" "INT_MIN \<le> off"
  shows "\<exists>h'. insert_target node off h = Some h' \<and> refines h' (start_heap (with_node True node off Map.empty))"
  using refines_start_Insert [OF assms(1) _ assms(2), of node] assms(1)
  by (auto simp: insert_target_def with_node_def)

text \<open>What a run gives: a shortest route and its path, or no route below the invalid weight.\<close>

definition run_ok ::
    "EdgeData StaticGraph \<Rightarrow> (NodeID \<rightharpoonup> int) \<Rightarrow> (NodeID \<rightharpoonup> int) \<Rightarrow> QueryHeap \<times> QueryHeap \<times> NodeID \<times> int \<Rightarrow> NodeID list \<Rightarrow> bool" where
  "run_ok g S T = (\<lambda>(F, R, mid, ub) p. leg_path (F, R, mid, ub) = Some p \<and> (\<forall>l. route g S T l \<longrightarrow> ub \<le> l) \<and>
     (if ub = INVALID_EDGE_WEIGHT then mid = SPECIAL_NODEID \<and> p = []
      else ub < INVALID_EDGE_WEIGHT \<and> mid < sg_number_of_nodes g \<and> p \<noteq> [] \<and>
        (\<exists>off off' w. S (hd p) = Some off \<and> T (last p) = Some off' \<and> walk_along g True p w \<and> off + w + off' = ub)))"

lemma run_ok_search:
  assumes "query_graph g" "hierarchy g" "refines F (start_heap S)" "refines R (start_heap T)"
    "start_ok g meo S" "start_ok g meo T" "\<forall>l. route g S T l \<longrightarrow> 0 \<le> l"
  shows "\<exists>run p. search_loop g meo (F, R, SPECIAL_NODEID, INVALID_EDGE_WEIGHT) = Some run \<and> run_ok g S T run p"
proof (rule search_path [OF assms, of SPECIAL_NODEID INVALID_EDGE_WEIGHT], goal_cases)
  case (1 F' R')
  then have "run_ok g S T (F', R', SPECIAL_NODEID, INVALID_EDGE_WEIGHT) []" by (simp add: run_ok_def leg_path_def)
  then show ?case using 1(1) by blast
next
  case (2 F' R' mid ub p off off' w)
  then have "run_ok g S T (F', R', mid, ub) p" by (auto simp: run_ok_def leg_path_def)
  then show ?case using 2(1) by blast
qed

lemma leg_start_ok:
  assumes "leg_ok g allow pair s"
  defines "m1 \<equiv> (if (allow \<or> search_from_1st_node s) \<and> forward_node_id (source_phantom pair) \<noteq> SPECIAL_NODEID
    then min 0 (forward_start allow pair s) else 0)"
  defines "m2 \<equiv> (if (allow \<or> search_from_2nd_node s) \<and> reverse_node_id (source_phantom pair) \<noteq> SPECIAL_NODEID
    then min m1 (reverse_start allow pair s) else m1)"
  shows "start_ok g m2 (leg_sources allow pair s)" "start_ok g m2 (forward_target pair)" "start_ok g m2 (reverse_target pair)"
proof -
  have m: "m2 \<le> m1" "m1 \<le> 0" by (auto simp: m1_def m2_def)
  show "start_ok g m2 (forward_target pair)" "start_ok g m2 (reverse_target pair)"
    using assms(1) m by (auto simp: start_ok_def leg_ok_def phantom_ok_def forward_target_def reverse_target_def with_node_def split: if_splits)
  show "start_ok g m2 (leg_sources allow pair s)"
    using assms(1) unfolding start_ok_def leg_ok_def phantom_ok_def leg_sources_def with_node_def m2_def m1_def
    by (auto split: if_splits)
qed

lemma leg_search_runs:
  assumes g: "query_graph g" "hierarchy g" and ok: "leg_ok g allow pair s"
  shows "\<exists>run1 run2 p1 p2. leg_search g allow pair s = Some (run1, run2) \<and>
    run_ok g (leg_sources allow pair s) (forward_target pair) run1 p1 \<and>
    run_ok g (leg_sources allow pair s) (reverse_target pair) run2 p2"
proof -
  let ?src = "source_phantom pair" and ?tgt = "target_phantom pair"
  let ?S1 = "with_node (allow \<or> search_from_1st_node s) (forward_node_id ?src) (forward_start allow pair s) Map.empty"
  let ?S = "leg_sources allow pair s"
  define m1 where "m1 = (if (allow \<or> search_from_1st_node s) \<and> forward_node_id ?src \<noteq> SPECIAL_NODEID
    then min 0 (forward_start allow pair s) else 0)"
  define m2 where "m2 = (if (allow \<or> search_from_2nd_node s) \<and> reverse_node_id ?src \<noteq> SPECIAL_NODEID
    then min m1 (reverse_start allow pair s) else m1)"
  note st = leg_start_ok [OF ok, folded m1_def, folded m2_def]
  have lo: "INT_MIN \<le> forward_start allow pair s" "INT_MIN \<le> reverse_start allow pair s"
    "INT_MIN \<le> GetForwardWeightPlusOffset ?tgt" "INT_MIN \<le> GetReverseWeightPlusOffset ?tgt"
    using ok by (auto simp: leg_ok_def phantom_ok_def INT_MIN_def)
  obtain f1 f2 where f: "insert_both (allow \<or> search_from_1st_node s) (forward_node_id ?src) (forward_start allow pair s)
      (heap_Clear UnorderedMapStorage (forward_heap1 s), heap_Clear UnorderedMapStorage (forward_heap2 s), 0) = Some (f1, f2, m1)"
    "refines f1 (start_heap ?S1)" "refines f2 (start_heap ?S1)"
    unfolding m1_def using insert_both_refines [OF refines_Clear refines_Clear lo(1)] by fastforce
  have new: "allow \<or> search_from_2nd_node s \<Longrightarrow> reverse_node_id ?src \<noteq> SPECIAL_NODEID \<Longrightarrow> reverse_node_id ?src \<notin> dom ?S1"
    using ok by (auto simp: leg_ok_def phantom_ok_def isBidirected_def with_node_def)
  obtain g1 g2 where h: "insert_both (allow \<or> search_from_2nd_node s) (reverse_node_id ?src) (reverse_start allow pair s) (f1, f2, m1)
      = Some (g1, g2, m2)" "refines g1 (start_heap ?S)" "refines g2 (start_heap ?S)"
    using insert_both_refines [OF f(2,3) lo(2) new, where meo = m1] unfolding m2_def leg_sources_def by blast
  obtain r1 where r1: "insert_target (forward_node_id ?tgt) (GetForwardWeightPlusOffset ?tgt) (heap_Clear UnorderedMapStorage (reverse_heap1 s)) = Some r1"
    "refines r1 (start_heap (forward_target pair))"
    unfolding forward_target_def using insert_target_refines [OF refines_Clear lo(3)] by blast
  obtain r2 where r2: "insert_target (reverse_node_id ?tgt) (GetReverseWeightPlusOffset ?tgt) (heap_Clear UnorderedMapStorage (reverse_heap2 s)) = Some r2"
    "refines r2 (start_heap (reverse_target pair))"
    unfolding reverse_target_def using insert_target_refines [OF refines_Clear lo(4)] by blast
  have nn: "\<forall>l. route g ?S (forward_target pair) l \<longrightarrow> 0 \<le> l" "\<forall>l. route g ?S (reverse_target pair) l \<longrightarrow> 0 \<le> l"
    using ok by (simp_all add: leg_ok_def)
  obtain run1 p1 where 1: "search_loop g m2 (g1, r1, SPECIAL_NODEID, INVALID_EDGE_WEIGHT) = Some run1"
    "run_ok g ?S (forward_target pair) run1 p1" using run_ok_search [OF g h(2) r1(2) st(1,2) nn(1)] by blast
  obtain run2 p2 where 2: "(if \<not> heap_Empty r2 then search_loop g m2 (g2, r2, SPECIAL_NODEID, INVALID_EDGE_WEIGHT)
      else Some (g2, r2, SPECIAL_NODEID, INVALID_EDGE_WEIGHT)) = Some run2" "run_ok g ?S (reverse_target pair) run2 p2"
  proof (cases "heap_Empty r2")
    case True
    then have "dom (reverse_target pair) = {}" using refines_Empty [OF r2(2)] by (simp add: start_heap_def)
    then have "run_ok g ?S (reverse_target pair) (g2, r2, SPECIAL_NODEID, INVALID_EDGE_WEIGHT) []"
      by (auto simp: run_ok_def leg_path_def route_def)
    then show thesis using that True by simp
  next
    case False
    then show thesis using that run_ok_search [OF g h(3) r2(2) st(1,3) nn(2)] by auto
  qed
  have "leg_search g allow pair s = Some (run1, run2)"
    unfolding leg_search_def Let_def using f(1) h(1) r1(1) r2(1) 1(1) 2(1) by simp
  then show ?thesis using 1(2) 2(2) by blast
qed

lemma run_ok_route:
  assumes "run_ok g S T (F, R, mid, ub) p"
  shows "(\<forall>l. route g S T l \<longrightarrow> ub \<le> l) \<and> (ub = INVALID_EDGE_WEIGHT \<or> route g S T ub)"
  using assms route_walk [of p S _ T] by (fastforce simp: run_ok_def split: if_splits)


section \<open>A route of one leg\<close>

text \<open>A path of the length \<open>l\<close> from a start to an end node.\<close>

definition route_path :: "EdgeData StaticGraph \<Rightarrow> (NodeID \<rightharpoonup> int) \<Rightarrow> (NodeID \<rightharpoonup> int) \<Rightarrow> NodeID list \<Rightarrow> int \<Rightarrow> bool" where
  "route_path g S T p l \<longleftrightarrow> p \<noteq> [] \<and> (\<exists>off off' w. S (hd p) = Some off \<and> T (last p) = Some off' \<and>
     walk_along g True p w \<and> off + w + off' = l)"

lemma leg_step_first:
  assumes "leg_search g False pair s = Some ((f1, r1, mid1, ub1), (f2, r2, mid2, ub2))"
    and "\<not> (ub1 = INVALID_EDGE_WEIGHT \<and> ub2 = INVALID_EDGE_WEIGHT)"
    and "distance1 s \<noteq> INVALID_EDGE_WEIGHT" "packed_legs1 s = [[]]" "packed_legs2 s = [[]]"
    and "leg_path (f1, r1, mid1, ub1) = Some p1" "leg_path (f2, r2, mid2, ub2) = Some p2"
    and "replace_missing False ((p1, ub1), (p2, ub2)) = ((q1, v1), (q2, v2))" "q1 \<noteq> []" "q2 \<noteq> []"
    and "last q1 = last q2 \<Longrightarrow> isBidirected (target_phantom pair) \<Longrightarrow>
      (SPECIAL_NODEID \<noteq> mid1 \<and> last q2 \<noteq> reverse_node_id (target_phantom pair)) \<noteq>
      (SPECIAL_NODEID \<noteq> mid2 \<and> last q2 \<noteq> forward_node_id (target_phantom pair))"
  shows "\<exists>s'. leg_step g ut 0 pair s = Some (Inr s') \<and> distance1 s' = v1 \<and> distance2 s' = v2 \<and>
    packed_legs1 s' = [q1] \<and> packed_legs2 s' = [q2]"
proof -
  have a: "allow_u_turn 0 ut = False" by (simp add: allow_u_turn_def)
  show ?thesis
  proof (cases "last q1 = last q2 \<and> isBidirected (target_phantom pair)")
    case True
    then show ?thesis using assms(1-10) assms(11) [OF conjunct1 [OF True] conjunct2 [OF True]]
      by (auto simp: leg_step_def a Let_def match_legs_def vec_simps assert_that_def)
  next
    case False
    then show ?thesis using assms(1-10) by (auto simp: leg_step_def a Let_def match_legs_def vec_simps)
  qed
qed

lemma run_ok_cases:
  assumes "run_ok g S T (F, R, mid, ub) p"
  obtains (none) "ub = INVALID_EDGE_WEIGHT" "mid = SPECIAL_NODEID" "p = []" "leg_path (F, R, mid, ub) = Some p"
      "\<forall>l. route g S T l \<longrightarrow> ub \<le> l"
    | (found) "ub < INVALID_EDGE_WEIGHT" "mid < sg_number_of_nodes g" "route_path g S T p ub" "leg_path (F, R, mid, ub) = Some p"
      "\<forall>l. route g S T l \<longrightarrow> ub \<le> l"
  using assms by (auto simp: run_ok_def route_path_def split: if_splits)

lemma route_path_ends:
  "route_path g S (forward_target pair) p l \<Longrightarrow> p \<noteq> [] \<and> last p = forward_node_id (target_phantom pair)"
  "route_path g S (reverse_target pair) p l \<Longrightarrow> p \<noteq> [] \<and> last p = reverse_node_id (target_phantom pair)"
  by (auto simp: route_path_def forward_target_def reverse_target_def with_node_def split: if_splits)


text \<open>A route from node 0 to node 1 of the sample hierarchy.\<close>

definition sample_pair :: PhantomNodes where
  "sample_pair = \<lparr> source_phantom = PhantomNode_new\<lparr> forward_node_id := 0, forward_weight := 0 \<rparr>,
     target_phantom = PhantomNode_new\<lparr> forward_node_id := 1, forward_weight := 3 \<rparr> \<rparr>"

definition sample_leg :: LegState where
  "sample_leg = \<lparr> distance1 = 0, distance2 = 0, search_from_1st_node = True, search_from_2nd_node = True,
     packed_legs1 = [[]], packed_legs2 = [[]], forward_heap1 = InitializeOrClear None, reverse_heap1 = InitializeOrClear None,
     forward_heap2 = InitializeOrClear None, reverse_heap2 = InitializeOrClear None \<rparr>"

lemma sample_leg_maps:
  "leg_sources False sample_pair sample_leg = [0 \<mapsto> 0]" "forward_target sample_pair = [1 \<mapsto> 3]" "reverse_target sample_pair = Map.empty"
  by (simp_all add: leg_sources_def forward_target_def reverse_target_def with_node_def sample_pair_def sample_leg_def
      PhantomNode_new_def GetForwardWeightPlusOffset_def GetReverseWeightPlusOffset_def SPECIAL_NODEID_def)

lemma sample_leg_ok: "leg_ok sample_hierarchy False sample_pair sample_leg"
proof -
  have "phantom_ok sample_hierarchy (source_phantom sample_pair)" "phantom_ok sample_hierarchy (target_phantom sample_pair)"
    by (simp_all add: phantom_ok_def sample_pair_def PhantomNode_new_def sample_hierarchy_def isBidirected_def
        GetForwardWeightPlusOffset_def GetReverseWeightPlusOffset_def SPECIAL_NODEID_def)
  moreover have "forward_start False sample_pair sample_leg = 0" "reverse_start False sample_pair sample_leg = 0"
    by (simp_all add: sample_pair_def sample_leg_def PhantomNode_new_def GetForwardWeightPlusOffset_def
        GetReverseWeightPlusOffset_def SPECIAL_NODEID_def)
  moreover have "\<not> route sample_hierarchy [0 \<mapsto> 0] Map.empty l" for l by (simp add: route_def)
  ultimately show ?thesis using sample_start_ok(3) unfolding leg_ok_def sample_leg_maps by (simp add: INT_MIN_def)
qed



end
