(* ===== verification/Many_To_Many.thy ===== *)
theory Many_To_Many
  imports Search_Correct Facade
begin

text \<open>
  \<^verbatim>\<open>RoutingAlgorithms/ManyToManyRouting.h\<close>: the distance table of a set of locations.  One backward
  search per location leaves in a bucket of every settled node the location and the distance to
  it; one forward search per location combines its distances with the buckets of the nodes it
  settles.
\<close>

section \<open>Buckets and steps\<close>

record NodeBucket =
  nb_target_id :: nat
  nb_distance :: EdgeWeight

type_synonym SearchSpaceWithBuckets = "NodeID \<rightharpoonup> NodeBucket list"

definition bucket :: "SearchSpaceWithBuckets \<Rightarrow> NodeID \<Rightarrow> NodeBucket list" where
  "bucket b node = (case b node of Some l \<Rightarrow> l | None \<Rightarrow> [])"

definition BackwardRoutingStep ::
    "EdgeData StaticGraph \<Rightarrow> nat \<Rightarrow> QueryHeap \<Rightarrow> SearchSpaceWithBuckets \<Rightarrow>
     (QueryHeap \<times> SearchSpaceWithBuckets) option" where
  "BackwardRoutingStep g target_id query_heap search_space_with_buckets = do {
     (node, query_heap) \<leftarrow> heap_DeleteMin query_heap;
     (target_distance, query_heap) \<leftarrow> heap_GetKey UnorderedMapStorage query_heap node;
     let search_space_with_buckets = search_space_with_buckets(node \<mapsto>
       bucket search_space_with_buckets node @ [\<lparr> nb_target_id = target_id, nb_distance = target_distance \<rparr>]);
     (stalled, query_heap) \<leftarrow> StallAtNode g False node target_distance query_heap;
     if stalled then Some (query_heap, search_space_with_buckets)
     else do {
       query_heap \<leftarrow> RelaxOutgoingEdges g False node target_distance query_heap;
       Some (query_heap, search_space_with_buckets)
     }
   }"

text \<open>The table index is an unsigned 32-bit product.\<close>

definition table_index :: "nat \<Rightarrow> nat \<Rightarrow> nat \<Rightarrow> nat" where
  "table_index number_of_locations source_id target_id = (source_id * number_of_locations + target_id) mod 2 ^ 32"

fun scan_bucket :: "nat \<Rightarrow> nat \<Rightarrow> int \<Rightarrow> NodeBucket list \<Rightarrow> EdgeWeight list \<Rightarrow> EdgeWeight list option" where
  "scan_bucket source_id number_of_locations source_distance [] result_table = Some result_table"
| "scan_bucket source_id number_of_locations source_distance (current_bucket # bs) result_table = do {
     let target_id = nb_target_id current_bucket;
     let target_distance = nb_distance current_bucket;
     current_distance \<leftarrow> vec_at result_table (table_index number_of_locations source_id target_id);
     let new_distance = source_distance + target_distance;
     result_table \<leftarrow> (if new_distance \<ge> 0 \<and> new_distance < current_distance
       then vec_upd result_table (table_index number_of_locations source_id target_id) (\<lambda>_. source_distance + target_distance)
       else Some result_table);
     scan_bucket source_id number_of_locations source_distance bs result_table
   }"

definition ForwardRoutingStep ::
    "EdgeData StaticGraph \<Rightarrow> nat \<Rightarrow> nat \<Rightarrow> SearchSpaceWithBuckets \<Rightarrow> QueryHeap \<Rightarrow> EdgeWeight list \<Rightarrow>
     (QueryHeap \<times> EdgeWeight list) option" where
  "ForwardRoutingStep g source_id number_of_locations search_space_with_buckets query_heap result_table = do {
     (node, query_heap) \<leftarrow> heap_DeleteMin query_heap;
     (source_distance, query_heap) \<leftarrow> heap_GetKey UnorderedMapStorage query_heap node;
     result_table \<leftarrow> (case search_space_with_buckets node of
         Some bucket_list \<Rightarrow> scan_bucket source_id number_of_locations source_distance bucket_list result_table
       | None \<Rightarrow> Some result_table);
     (stalled, query_heap) \<leftarrow> StallAtNode g True node source_distance query_heap;
     if stalled then Some (query_heap, result_table)
     else do {
       query_heap \<leftarrow> RelaxOutgoingEdges g True node source_distance query_heap;
       Some (query_heap, result_table)
     }
   }"

section \<open>The table\<close>

partial_function (option) backward_loop ::
    "EdgeData StaticGraph \<Rightarrow> nat \<Rightarrow> QueryHeap \<Rightarrow> SearchSpaceWithBuckets \<Rightarrow>
     (QueryHeap \<times> SearchSpaceWithBuckets) option" where
  "backward_loop g target_id query_heap b =
     (if \<not> heap_Empty query_heap then do {
        (query_heap, b) \<leftarrow> BackwardRoutingStep g target_id query_heap b;
        backward_loop g target_id query_heap b
      } else Some (query_heap, b))"

partial_function (option) forward_loop ::
    "EdgeData StaticGraph \<Rightarrow> nat \<Rightarrow> nat \<Rightarrow> SearchSpaceWithBuckets \<Rightarrow> QueryHeap \<Rightarrow> EdgeWeight list \<Rightarrow>
     (QueryHeap \<times> EdgeWeight list) option" where
  "forward_loop g source_id number_of_locations b query_heap result_table =
     (if \<not> heap_Empty query_heap then do {
        (query_heap, result_table) \<leftarrow> ForwardRoutingStep g source_id number_of_locations b query_heap result_table;
        forward_loop g source_id number_of_locations b query_heap result_table
      } else Some (query_heap, result_table))"

text \<open>The start nodes of a location; \<open>sign\<close> is 1 for targets and -1 for sources.\<close>

fun insert_phantoms :: "int \<Rightarrow> PhantomNode list \<Rightarrow> QueryHeap \<Rightarrow> QueryHeap option" where
  "insert_phantoms sign [] query_heap = Some query_heap"
| "insert_phantoms sign (phantom_node # ps) query_heap = do {
     query_heap \<leftarrow> (if SPECIAL_NODEID \<noteq> forward_node_id phantom_node
       then heap_Insert UnorderedMapStorage query_heap (forward_node_id phantom_node)
         (sign * GetForwardWeightPlusOffset phantom_node) \<lparr> parent = forward_node_id phantom_node \<rparr>
       else Some query_heap);
     query_heap \<leftarrow> (if SPECIAL_NODEID \<noteq> reverse_node_id phantom_node
       then heap_Insert UnorderedMapStorage query_heap (reverse_node_id phantom_node)
         (sign * GetReverseWeightPlusOffset phantom_node) \<lparr> parent = reverse_node_id phantom_node \<rparr>
       else Some query_heap);
     insert_phantoms sign ps query_heap
   }"

fun targets_loop ::
    "EdgeData StaticGraph \<Rightarrow> PhantomNode list list \<Rightarrow> nat \<Rightarrow> QueryHeap \<Rightarrow> SearchSpaceWithBuckets \<Rightarrow>
     (nat \<times> QueryHeap \<times> SearchSpaceWithBuckets) option" where
  "targets_loop g [] target_id query_heap b = Some (target_id, query_heap, b)"
| "targets_loop g (phantom_node_vector # rest) target_id query_heap b = do {
     query_heap \<leftarrow> insert_phantoms 1 phantom_node_vector (heap_Clear UnorderedMapStorage query_heap);
     (query_heap, b) \<leftarrow> backward_loop g target_id query_heap b;
     targets_loop g rest (target_id + 1) query_heap b
   }"

fun sources_loop ::
    "EdgeData StaticGraph \<Rightarrow> nat \<Rightarrow> SearchSpaceWithBuckets \<Rightarrow> PhantomNode list list \<Rightarrow> nat \<Rightarrow> QueryHeap \<Rightarrow>
     EdgeWeight list \<Rightarrow> (nat \<times> EdgeWeight list) option" where
  "sources_loop g number_of_locations b [] source_id query_heap result_table = Some (source_id, result_table)"
| "sources_loop g number_of_locations b (phantom_node_vector # rest) source_id query_heap result_table = do {
     query_heap \<leftarrow> insert_phantoms (- 1) phantom_node_vector (heap_Clear UnorderedMapStorage query_heap);
     (query_heap, result_table) \<leftarrow> forward_loop g source_id number_of_locations b query_heap result_table;
     sources_loop g number_of_locations b rest (source_id + 1) query_heap result_table
   }"

definition ManyToManyRouting ::
    "EdgeData StaticGraph \<Rightarrow> SearchEngineData \<Rightarrow> PhantomNode list list \<Rightarrow> EdgeWeight list option" where
  "ManyToManyRouting g engine_working_data phantom_nodes_array = do {
     let number_of_locations = length phantom_nodes_array;
     let result_table = replicate ((number_of_locations * number_of_locations) mod 2 ^ 32) INVALID_EDGE_WEIGHT;
     query_heap \<leftarrow> forwardHeap (InitializeOrClearFirstThreadLocalStorage engine_working_data);
     (target_id, query_heap, b) \<leftarrow> targets_loop g phantom_nodes_array 0 query_heap Map.empty;
     (source_id, result_table) \<leftarrow> sources_loop g number_of_locations b phantom_nodes_array 0 query_heap result_table;
     assert_that (source_id = target_id);
     Some result_table
   }"

section \<open>One direction to the end\<close>

text \<open>A search that is being extended, and the one that has ended.\<close>

definition running :: "EdgeData StaticGraph \<Rightarrow> bool \<Rightarrow> (NodeID \<rightharpoonup> int) \<Rightarrow> (NodeID, HeapData) abs_heap \<Rightarrow> bool" where
  "running g fwd S a \<longleftrightarrow> core g fwd S a \<and> relaxed g fwd a"

lemma running_nodes:
  assumes "running g fwd S a"
  shows "ordered a" "ah_queue a \<subseteq> {..<sg_number_of_nodes g}"
proof -
  show "ordered a" using assms by (simp add: running_def core_def)
  then show "ah_queue a \<subseteq> {..<sg_number_of_nodes g}"
    using assms unfolding running_def core_def ordered_def by (meson subset_trans)
qed

text \<open>The part that the steps of both directions share.\<close>

lemma running_step:
  assumes h: "refines h a" and run: "running g fwd S a" and ne: "ah_queue a \<noteq> {}" and g: "query_graph g"
  obtains n d h1 h2 st h3 h4 a' where "heap_DeleteMin h = Some (n, h1)" "heap_GetKey UnorderedMapStorage h1 n = Some (d, h2)"
    "StallAtNode g fwd n d h2 = Some (st, h3)" "(if st then Some h3 else RelaxOutgoingEdges g fwd n d h3) = Some h4"
    "refines h4 a'" "running g fwd S a'" "settled a' = insert n (settled a)" "n \<notin> settled a" "ah_key a' n = Some d"
    "\<forall>v \<in> settled a. ah_key a' v = ah_key a v" "unsettled g a' < unsettled g a"
proof -
  note ord = running_nodes [OF run]
  obtain n d h1 h2 where p: "heap_DeleteMin h = Some (n, h1)" "heap_GetKey UnorderedMapStorage h1 n = Some (d, h2)"
    "refines h2 (abs_remove a n)" "is_min a n" "ah_key a n = Some d" by (rule pop_refines [OF h ord(1) ne])
  obtain st h3 where st: "StallAtNode g fwd n d h2 = Some (st, h3)" "st \<longrightarrow> refines h3 (abs_expand g fwd n d (abs_remove a n))"
    "\<not> st \<longrightarrow> (\<exists>h2. RelaxOutgoingEdges g fwd n d h3 = Some h2 \<and> refines h2 (abs_expand g fwd n d (abs_remove a n)))"
    by (rule expand_refines [OF p(3) ord(1) p(4,5) g ord(2)])
  obtain h4 where h4: "(if st then Some h3 else RelaxOutgoingEdges g fwd n d h3) = Some h4"
    "refines h4 (abs_expand g fwd n d (abs_remove a n))" using st(2,3) by (cases st) auto
  let ?a = "abs_expand g fwd n d (abs_remove a n)"
  have core: "core g fwd S a" "relaxed g fwd a" using run by (simp_all add: running_def)
  note rm = remove_core [OF core(1) p(4,5)] and ex = expand_step [OF core p(4,5) g]
  have key: "ah_key (abs_remove a n) = ah_key a" by (simp add: abs_remove_def)
  have set: "settled ?a = insert n (settled a)" using improvesD(2) [OF ex(3)] rm(4) by simp
  have n: "n \<notin> settled a" using p(4) by (simp add: is_min_def)
  have same: "ah_key ?a v = ah_key a v" if "v \<in> insert n (settled a)" for v
  proof -
    have "v \<in> settled (abs_remove a n)" using that rm(4) by blast
    from improvesD(3) [OF ex(3) this] show ?thesis by (simp only: key)
  qed
  have less: "unsettled g ?a < unsettled g a"
    by (rule unsettled_less [OF ex(1)]) (simp only: set, use n in auto)
  have "running g fwd S ?a" using ex(1,2) by (simp add: running_def)
  moreover have "ah_key ?a n = Some d" "\<forall>v \<in> settled a. ah_key ?a v = ah_key a v" using same p(5) by simp_all
  ultimately show thesis using that [OF p(1,2) st(1) h4] set n less by blast
qed

section \<open>The backward searches\<close>

text \<open>The entry a finished search leaves in the bucket of a node.\<close>

definition entry :: "nat \<Rightarrow> (NodeID \<rightharpoonup> int) \<Rightarrow> NodeID \<Rightarrow> NodeBucket list" where
  "entry j K v = (case K v of Some d \<Rightarrow> [\<lparr> nb_target_id = j, nb_distance = d \<rparr>] | None \<Rightarrow> [])"

abbreviation settled_keys :: "(NodeID, HeapData) abs_heap \<Rightarrow> (NodeID \<rightharpoonup> int)" where
  "settled_keys a \<equiv> ah_key a |` settled a"

lemma settled_keys_insert:
  assumes "settled a' = insert n (settled a)" "ah_key a' n = Some d" "\<forall>v \<in> settled a. ah_key a' v = ah_key a v"
  shows "settled_keys a' = (settled_keys a)(n \<mapsto> d)"
proof
  fix v
  show "settled_keys a' v = ((settled_keys a)(n \<mapsto> d)) v"
    using assms(2,3) unfolding assms(1) by (auto simp: restrict_map_def)
qed

lemma backward_loop_entries:
  assumes g: "query_graph g"
  shows "refines h a \<Longrightarrow> running g False T a \<Longrightarrow> \<forall>v. bucket b v = B v @ entry j (settled_keys a) v \<Longrightarrow>
    \<exists>h' b' a'. backward_loop g j h b = Some (h', b') \<and> refines h' a' \<and> running g False T a' \<and> ah_queue a' = {} \<and>
      (\<forall>v. bucket b' v = B v @ entry j (ah_key a') v)"
proof (induction "unsettled g a" arbitrary: h a b rule: less_induct)
  case less
  show ?case
  proof (cases "ah_queue a = {}")
    case True
    moreover have "ah_key a |` dom (ah_key a) = ah_key a" by (rule ext) (simp add: restrict_map_def domIff)
    ultimately show ?thesis using less.prems refines_Empty [OF less.prems(1)]
      by (subst backward_loop.simps) auto
  next
    case False
    obtain n d h1 h2 st h3 h4 a' where s: "heap_DeleteMin h = Some (n, h1)" "heap_GetKey UnorderedMapStorage h1 n = Some (d, h2)"
      "StallAtNode g False n d h2 = Some (st, h3)" "(if st then Some h3 else RelaxOutgoingEdges g False n d h3) = Some h4"
      "refines h4 a'" "running g False T a'" "settled a' = insert n (settled a)" "n \<notin> settled a" "ah_key a' n = Some d"
      "\<forall>v \<in> settled a. ah_key a' v = ah_key a v" "unsettled g a' < unsettled g a"
      by (rule running_step [OF less.prems(1,2) False g])
    let ?b = "b(n \<mapsto> bucket b n @ [\<lparr> nb_target_id = j, nb_distance = d \<rparr>])"
    have "\<forall>v. bucket ?b v = B v @ entry j (settled_keys a') v"
      using less.prems(3) s(8) unfolding settled_keys_insert [OF s(7,9,10)]
      by (auto simp: bucket_def entry_def restrict_map_def)
    from less.hyps [OF s(11,5,6) this]
    have *: "\<exists>h' b' a'. backward_loop g j h4 ?b = Some (h', b') \<and> refines h' a' \<and> running g False T a' \<and> ah_queue a' = {} \<and>
      (\<forall>v. bucket b' v = B v @ entry j (ah_key a') v)" .
    have "BackwardRoutingStep g j h b = Some (h4, ?b)" using s(1-4) by (auto simp: BackwardRoutingStep_def split: if_splits)
    then have "backward_loop g j h b = backward_loop g j h4 ?b"
      using False refines_Empty [OF less.prems(1)] by (subst backward_loop.simps) simp
    then show ?thesis using * by simp
  qed
qed

section \<open>Start nodes of a location\<close>

definition add_node :: "NodeID \<Rightarrow> int \<Rightarrow> (NodeID \<rightharpoonup> int) \<Rightarrow> (NodeID \<rightharpoonup> int)" where
  "add_node node off S = (if SPECIAL_NODEID \<noteq> node then S(node \<mapsto> off) else S)"

fun location_map :: "int \<Rightarrow> PhantomNode list \<Rightarrow> (NodeID \<rightharpoonup> int) \<Rightarrow> (NodeID \<rightharpoonup> int)" where
  "location_map sign [] S = S"
| "location_map sign (p # ps) S = location_map sign ps
     (add_node (reverse_node_id p) (sign * GetReverseWeightPlusOffset p)
       (add_node (forward_node_id p) (sign * GetForwardWeightPlusOffset p) S))"

abbreviation sources_of :: "PhantomNode list \<Rightarrow> (NodeID \<rightharpoonup> int)" where
  "sources_of ps \<equiv> location_map (- 1) ps Map.empty"

abbreviation targets_of :: "PhantomNode list \<Rightarrow> (NodeID \<rightharpoonup> int)" where
  "targets_of ps \<equiv> location_map 1 ps Map.empty"

definition location_nodes :: "PhantomNode list \<Rightarrow> NodeID list" where
  "location_nodes ps = filter (\<lambda>n. n \<noteq> SPECIAL_NODEID) (concat (map (\<lambda>p. [forward_node_id p, reverse_node_id p]) ps))"

text \<open>The nodes of a location are distinct nodes of the graph, its weights fit an \<^verbatim>\<open>int\<close> with either sign.\<close>

definition location_ok :: "EdgeData StaticGraph \<Rightarrow> PhantomNode list \<Rightarrow> bool" where
  "location_ok g ps \<longleftrightarrow> distinct (location_nodes ps) \<and> set (location_nodes ps) \<subseteq> {..<sg_number_of_nodes g} \<and>
     (\<forall>p \<in> set ps. \<bar>GetForwardWeightPlusOffset p\<bar> \<le> INVALID_EDGE_WEIGHT \<and> \<bar>GetReverseWeightPlusOffset p\<bar> \<le> INVALID_EDGE_WEIGHT)"

lemma location_map_dom: "dom (location_map sign ps S) \<subseteq> dom S \<union> set (location_nodes ps)"
proof (induction ps arbitrary: S)
  case (Cons p ps)
  have "dom (location_map sign (p # ps) S) \<subseteq>
      dom (add_node (reverse_node_id p) (sign * GetReverseWeightPlusOffset p) (add_node (forward_node_id p) (sign * GetForwardWeightPlusOffset p) S))
      \<union> set (location_nodes ps)" using Cons.IH by simp
  also have "\<dots> \<subseteq> dom S \<union> set (location_nodes (p # ps))" by (auto simp: add_node_def location_nodes_def split: if_splits)
  finally show ?case .
qed simp

lemma add_node_refines:
  assumes "refines h (start_heap S)" "node \<noteq> SPECIAL_NODEID \<longrightarrow> node \<notin> dom S" "INT_MIN \<le> off"
  obtains h' where "(if SPECIAL_NODEID \<noteq> node then heap_Insert UnorderedMapStorage h node off \<lparr> parent = node \<rparr> else Some h) = Some h'"
    "refines h' (start_heap (add_node node off S))"
proof (cases "SPECIAL_NODEID = node")
  case False
  then show thesis using refines_start_Insert [OF assms(1) _ assms(3), of node] assms(2) that by (auto simp: add_node_def)
qed (use assms(1) that in \<open>simp add: add_node_def\<close>)

lemma insert_phantoms_refines:
  assumes "refines h (start_heap S)" "distinct (location_nodes ps)" "set (location_nodes ps) \<inter> dom S = {}"
    and "\<forall>p \<in> set ps. INT_MIN \<le> sign * GetForwardWeightPlusOffset p \<and> INT_MIN \<le> sign * GetReverseWeightPlusOffset p"
  shows "\<exists>h'. insert_phantoms sign ps h = Some h' \<and> refines h' (start_heap (location_map sign ps S))"
  using assms
proof (induction ps arbitrary: h S)
  case (Cons p ps)
  let ?f = "forward_node_id p" and ?r = "reverse_node_id p"
  let ?S1 = "add_node ?f (sign * GetForwardWeightPlusOffset p) S"
  let ?S2 = "add_node ?r (sign * GetReverseWeightPlusOffset p) ?S1"
  have lo: "INT_MIN \<le> sign * GetForwardWeightPlusOffset p" "INT_MIN \<le> sign * GetReverseWeightPlusOffset p"
    using Cons.prems(4) by simp_all
  have new: "?f \<noteq> SPECIAL_NODEID \<longrightarrow> ?f \<notin> dom S" "?r \<noteq> SPECIAL_NODEID \<longrightarrow> ?r \<notin> dom ?S1"
    using Cons.prems(2,3) by (auto simp: location_nodes_def add_node_def split: if_splits)
  obtain h1 where h1: "(if SPECIAL_NODEID \<noteq> ?f then heap_Insert UnorderedMapStorage h ?f (sign * GetForwardWeightPlusOffset p) \<lparr> parent = ?f \<rparr>
      else Some h) = Some h1" "refines h1 (start_heap ?S1)" by (rule add_node_refines [OF Cons.prems(1) new(1) lo(1)])
  obtain h2 where h2: "(if SPECIAL_NODEID \<noteq> ?r then heap_Insert UnorderedMapStorage h1 ?r (sign * GetReverseWeightPlusOffset p) \<lparr> parent = ?r \<rparr>
      else Some h1) = Some h2" "refines h2 (start_heap ?S2)" by (rule add_node_refines [OF h1(2) new(2) lo(2)])
  have "distinct (location_nodes ps)" "set (location_nodes ps) \<inter> dom ?S2 = {}"
    using Cons.prems(2,3) by (auto simp: location_nodes_def add_node_def split: if_splits)
  then obtain h3 where "insert_phantoms sign ps h2 = Some h3" "refines h3 (start_heap (location_map sign ps ?S2))"
    using Cons.IH [OF h2(2)] Cons.prems(4) by auto
  then show ?case using h1(1) h2(1) by (simp del: if_not_P if_P split del: if_split)
qed simp

lemma location_start:
  assumes "location_ok g ps" "\<bar>sign\<bar> = 1"
  shows "\<exists>h'. insert_phantoms sign ps (heap_Clear UnorderedMapStorage h) = Some h' \<and>
      refines h' (start_heap (location_map sign ps Map.empty))"
    "dom (location_map sign ps Map.empty) \<subseteq> {..<sg_number_of_nodes g}"
proof -
  have "refines (heap_Clear UnorderedMapStorage h) (start_heap Map.empty)"
    using unordered_map_storage.Clear_correct [of h] by (simp add: refines_def abs_empty_def start_heap_def)
  moreover have "sign = 1 \<or> sign = - 1" using assms(2) by linarith
  then have "\<forall>p \<in> set ps. INT_MIN \<le> sign * GetForwardWeightPlusOffset p \<and> INT_MIN \<le> sign * GetReverseWeightPlusOffset p"
    using assms(1) by (auto simp: location_ok_def INT_MIN_def INVALID_EDGE_WEIGHT_def)
  ultimately show "\<exists>h'. insert_phantoms sign ps (heap_Clear UnorderedMapStorage h) = Some h' \<and>
      refines h' (start_heap (location_map sign ps Map.empty))"
    using insert_phantoms_refines assms(1) by (simp add: location_ok_def)
  show "dom (location_map sign ps Map.empty) \<subseteq> {..<sg_number_of_nodes g}"
    using location_map_dom [of sign ps Map.empty] assms(1) by (auto simp: location_ok_def)
qed

section \<open>All targets\<close>

text \<open>The keys of a search that has ended.\<close>

definition finished :: "EdgeData StaticGraph \<Rightarrow> bool \<Rightarrow> (NodeID \<rightharpoonup> int) \<Rightarrow> (NodeID \<rightharpoonup> int) \<Rightarrow> bool" where
  "finished g fwd S K \<longleftrightarrow> (\<forall>v d. exact g fwd S v d \<longrightarrow> K v = Some d) \<and>
     (\<forall>v k. K v = Some k \<longrightarrow> (\<exists>s off w. S s = Some off \<and> up_walk g fwd s v w \<and> k = off + w))"

lemma running_start: "dom S \<subseteq> {..<sg_number_of_nodes g} \<Longrightarrow> running g fwd S (start_heap S)"
  by (simp add: running_def start_core)

lemma running_finished:
  assumes "running g fwd S a" "ah_queue a = {}" "query_graph g" "dom S \<subseteq> {..<sg_number_of_nodes g}"
  shows "finished g fwd S (ah_key a)"
proof -
  have core: "core g fwd S a" "relaxed g fwd a" using assms(1) by (simp_all add: running_def)
  have "ah_key a v = Some d" if "exact g fwd S v d" for v d
    using relaxed_exact [OF that core assms(3,4)] assms(2) by blast
  moreover have "\<exists>s off w. S s = Some off \<and> up_walk g fwd s v w \<and> k = off + w" if "ah_key a v = Some k" for v k
    using core(1) that unfolding core_def by blast
  ultimately show ?thesis unfolding finished_def by blast
qed

lemma targets_loop_buckets:
  assumes g: "query_graph g"
  shows "\<forall>ps \<in> set rest. location_ok g ps \<Longrightarrow>
    \<exists>h' b' K. targets_loop g rest j h b = Some (j + length rest, h', b') \<and>
      (\<forall>i < length rest. finished g False (targets_of (rest ! i)) (K (j + i))) \<and>
      (\<forall>v. set (bucket b' v) = set (bucket b v) \<union>
         {\<lparr> nb_target_id = i, nb_distance = d \<rparr> | i d. j \<le> i \<and> i < j + length rest \<and> K i v = Some d})"
proof (induction rest arbitrary: j h b)
  case (Cons ps rest)
  have ok: "location_ok g ps" "\<forall>ps \<in> set rest. location_ok g ps" using Cons.prems by simp_all
  let ?T = "targets_of ps"
  have dom: "dom ?T \<subseteq> {..<sg_number_of_nodes g}" using location_start(2) [OF ok(1), of 1] by simp
  obtain h1 where h1: "insert_phantoms 1 ps (heap_Clear UnorderedMapStorage h) = Some h1" "refines h1 (start_heap ?T)"
    using location_start(1) [OF ok(1), of 1 h] by auto
  have "\<forall>v. bucket b v = bucket b v @ entry j (settled_keys (start_heap ?T)) v" by (simp add: entry_def start_heap_def)
  from backward_loop_entries [OF g h1(2) running_start [OF dom] this]
  obtain h2 b2 a where s: "backward_loop g j h1 b = Some (h2, b2)" "running g False ?T a" "ah_queue a = {}"
    "\<forall>v. bucket b2 v = bucket b v @ entry j (ah_key a) v" by blast
  obtain h' b' K where r: "targets_loop g rest (j + 1) h2 b2 = Some (j + 1 + length rest, h', b')"
    "\<forall>i < length rest. finished g False (targets_of (rest ! i)) (K (j + 1 + i))"
    "\<forall>v. set (bucket b' v) = set (bucket b2 v) \<union>
      {\<lparr> nb_target_id = i, nb_distance = d \<rparr> | i d. j + 1 \<le> i \<and> i < j + 1 + length rest \<and> K i v = Some d}"
    using Cons.IH [OF ok(2), of "j + 1" h2 b2] by blast
  define K' where "K' = K(j := ah_key a)"
  have "finished g False (targets_of ((ps # rest) ! i)) (K' (j + i))" if "i < length (ps # rest)" for i
    using that r(2) running_finished [OF s(2,3) g dom] by (cases i) (auto simp: K'_def)
  moreover have "set (bucket b' v) = set (bucket b v) \<union>
      {\<lparr> nb_target_id = i, nb_distance = d \<rparr> | i d. j \<le> i \<and> i < j + length (ps # rest) \<and> K' i v = Some d}" for v
  proof -
    have "set (bucket b2 v) = set (bucket b v) \<union> {\<lparr> nb_target_id = j, nb_distance = d \<rparr> | d. ah_key a v = Some d}"
      using s(4) by (auto simp: entry_def split: option.splits)
    moreover have "{\<lparr> nb_target_id = i, nb_distance = d \<rparr> | i d. j \<le> i \<and> i < j + length (ps # rest) \<and> K' i v = Some d} =
        {\<lparr> nb_target_id = j, nb_distance = d \<rparr> | d. ah_key a v = Some d} \<union>
        {\<lparr> nb_target_id = i, nb_distance = d \<rparr> | i d. j + 1 \<le> i \<and> i < j + 1 + length rest \<and> K i v = Some d}"
      (is "?l = ?r")
    proof
      show "?l \<subseteq> ?r" by (auto simp: K'_def split: if_splits)
      show "?r \<subseteq> ?l"
      proof
        fix x assume "x \<in> ?r"
        then consider d where "x = \<lparr> nb_target_id = j, nb_distance = d \<rparr>" "K' j v = Some d"
          | i d where "x = \<lparr> nb_target_id = i, nb_distance = d \<rparr>" "j + 1 \<le> i" "i < j + 1 + length rest" "K' i v = Some d"
          by (auto simp: K'_def)
        then show "x \<in> ?l" by cases fastforce+
      qed
    qed
    ultimately show ?thesis using r(3) by auto
  qed
  moreover have "targets_loop g (ps # rest) j h b = Some (j + length (ps # rest), h', b')"
    using h1(1) s(1) r(1) by simp
  ultimately show ?case by blast
next
  case Nil
  show ?case by (intro exI [of _ h] exI [of _ b] exI [of _ "\<lambda>_. Map.empty"]) simp
qed

section \<open>The forward searches\<close>

lemma table_index_eq:
  assumes "i < n" "j < n" "n * n < 2 ^ 32"
  shows "table_index n i j = i * n + j" "i * n + j < n * n"
proof -
  have "i * n + j < Suc i * n" using assms(2) by simp
  also have "\<dots> \<le> n * n" using assms(1) by (intro mult_le_mono1) simp
  finally show "i * n + j < n * n" .
  then show "table_index n i j = i * n + j" using assms(3) by (simp add: table_index_def)
qed

text \<open>A row of the table improves with the entries of a bucket.\<close>

lemma scan_bucket_spec:
  assumes n: "n * n < 2 ^ 32" "i < n"
  shows "length table = n * n \<Longrightarrow> \<forall>e \<in> set bs. nb_target_id e < n \<Longrightarrow> \<exists>table'. scan_bucket i n d bs table = Some table' \<and> length table' = n * n \<and>
    (\<forall>x < n * n. table' ! x \<le> table ! x \<and> (table' ! x = table ! x \<or>
       (\<exists>e \<in> set bs. x = i * n + nb_target_id e \<and> table' ! x = d + nb_distance e \<and> 0 \<le> d + nb_distance e))) \<and>
    (\<forall>e \<in> set bs. 0 \<le> d + nb_distance e \<longrightarrow> table' ! (i * n + nb_target_id e) \<le> d + nb_distance e)"
proof (induction bs arbitrary: table)
  case (Cons e bs)
  have e: "nb_target_id e < n" "\<forall>e \<in> set bs. nb_target_id e < n" using Cons.prems(2) by simp_all
  note idx = table_index_eq [OF n(2) e(1) n(1)]
  let ?x = "i * n + nb_target_id e" and ?w = "d + nb_distance e"
  define t1 where "t1 = (if ?w \<ge> 0 \<and> ?w < table ! ?x then table[?x := ?w] else table)"
  have len: "length t1 = n * n" using Cons.prems(1) by (simp add: t1_def)
  have step: "scan_bucket i n d (e # bs) table = scan_bucket i n d bs t1"
    using idx Cons.prems(1) by (simp add: t1_def vec_simps Let_def)
  have x1: "t1 ! x \<le> table ! x \<and> (t1 ! x = table ! x \<or> x = ?x \<and> t1 ! x = ?w \<and> 0 \<le> ?w)" for x
    using idx(2) Cons.prems(1) by (cases "x = ?x") (auto simp: t1_def)
  have x2: "0 \<le> ?w \<Longrightarrow> t1 ! ?x \<le> ?w" using idx(2) Cons.prems(1) by (auto simp: t1_def)
  obtain t2 where t2: "scan_bucket i n d bs t1 = Some t2" "length t2 = n * n"
    "\<And>x. x < n * n \<Longrightarrow> t2 ! x \<le> t1 ! x \<and> (t2 ! x = t1 ! x \<or>
       (\<exists>e \<in> set bs. x = i * n + nb_target_id e \<and> t2 ! x = d + nb_distance e \<and> 0 \<le> d + nb_distance e))"
    "\<And>e. e \<in> set bs \<Longrightarrow> 0 \<le> d + nb_distance e \<Longrightarrow> t2 ! (i * n + nb_target_id e) \<le> d + nb_distance e"
    using Cons.IH [OF len e(2)] by blast
  have "t2 ! x \<le> table ! x" if "x < n * n" for x using t2(3) [OF that] x1 [of x] by linarith
  moreover have "t2 ! x = table ! x \<or> (\<exists>e \<in> set (e # bs). x = i * n + nb_target_id e \<and> t2 ! x = d + nb_distance e \<and> 0 \<le> d + nb_distance e)"
    if "x < n * n" for x using t2(3) [OF that] x1 [of x] by auto
  moreover have "t2 ! (i * n + nb_target_id e') \<le> d + nb_distance e'" if "e' \<in> set (e # bs)" "0 \<le> d + nb_distance e'" for e'
  proof (cases "e' \<in> set bs")
    case False
    then have "e' = e" using that(1) by simp
    then show ?thesis using t2(3) [OF idx(2)] x2 that(2) by force
  qed (use t2(4) that(2) in blast)
  ultimately show ?case using t2(1,2) step by (intro exI [of _ t2]) simp
qed simp

text \<open>The row of source \<open>i\<close> while its search has settled the nodes of \<open>K\<close>.\<close>

definition row_inv ::
    "nat \<Rightarrow> nat \<Rightarrow> SearchSpaceWithBuckets \<Rightarrow> EdgeWeight list \<Rightarrow> (NodeID \<rightharpoonup> int) \<Rightarrow> EdgeWeight list \<Rightarrow> bool" where
  "row_inv n i b table0 K table \<longleftrightarrow> length table = n * n \<and>
     (\<forall>x < n * n. x \<notin> {i * n..<i * n + n} \<longrightarrow> table ! x = table0 ! x) \<and>
     (\<forall>v k e. K v = Some k \<longrightarrow> e \<in> set (bucket b v) \<longrightarrow> 0 \<le> k + nb_distance e \<longrightarrow> table ! (i * n + nb_target_id e) \<le> k + nb_distance e) \<and>
     (\<forall>j < n. table ! (i * n + j) = INVALID_EDGE_WEIGHT \<or> (\<exists>v k e. K v = Some k \<and> e \<in> set (bucket b v) \<and> nb_target_id e = j \<and>
        table ! (i * n + j) = k + nb_distance e))"

lemma scan_row:
  assumes n: "n * n < 2 ^ 32" "i < n" and b: "\<forall>v. \<forall>e \<in> set (bucket b v). nb_target_id e < n"
    and row: "row_inv n i b table0 K table" and u: "K u = None"
  obtains table' where "scan_bucket i n d (bucket b u) table = Some table'" "row_inv n i b table0 (K(u \<mapsto> d)) table'"
proof -
  have len: "length table = n * n" using row by (simp add: row_inv_def)
  obtain t where t: "scan_bucket i n d (bucket b u) table = Some t" "length t = n * n"
    "\<And>x. x < n * n \<Longrightarrow> t ! x \<le> table ! x \<and> (t ! x = table ! x \<or>
       (\<exists>e \<in> set (bucket b u). x = i * n + nb_target_id e \<and> t ! x = d + nb_distance e \<and> 0 \<le> d + nb_distance e))"
    "\<And>e. e \<in> set (bucket b u) \<Longrightarrow> 0 \<le> d + nb_distance e \<Longrightarrow> t ! (i * n + nb_target_id e) \<le> d + nb_distance e"
    using scan_bucket_spec [OF n len, of "bucket b u" d] b by blast
  have "t ! x = table0 ! x" if "x < n * n" "x \<notin> {i * n..<i * n + n}" for x
  proof -
    have "t ! x = table ! x" using t(3) [OF that(1)] that(2) b by fastforce
    then show ?thesis using row that unfolding row_inv_def by simp
  qed
  moreover have "t ! (i * n + nb_target_id e) \<le> k + nb_distance e"
    if "(K(u \<mapsto> d)) v = Some k" "e \<in> set (bucket b v)" "0 \<le> k + nb_distance e" for v k e
  proof (cases "v = u")
    case True
    then show ?thesis using that t(4) by simp
  next
    case False
    then have "table ! (i * n + nb_target_id e) \<le> k + nb_distance e" using row that unfolding row_inv_def by auto
    moreover have "i * n + nb_target_id e < n * n" using table_index_eq(2) [OF n(2) _ n(1)] b that(2) by blast
    ultimately show ?thesis using t(3) by fastforce
  qed
  moreover have "t ! (i * n + j) = INVALID_EDGE_WEIGHT \<or> (\<exists>v k e. (K(u \<mapsto> d)) v = Some k \<and> e \<in> set (bucket b v) \<and> nb_target_id e = j \<and>
      t ! (i * n + j) = k + nb_distance e)" if j: "j < n" for j
  proof -
    have x: "i * n + j < n * n" using table_index_eq(2) [OF n(2) j n(1)] .
    consider (same) "t ! (i * n + j) = table ! (i * n + j)"
      | (new) e where "e \<in> set (bucket b u)" "nb_target_id e = j" "t ! (i * n + j) = d + nb_distance e"
      using t(3) [OF x] by auto
    then show ?thesis
    proof cases
      case same
      consider "table ! (i * n + j) = INVALID_EDGE_WEIGHT"
        | v k e where "K v = Some k" "e \<in> set (bucket b v)" "nb_target_id e = j" "table ! (i * n + j) = k + nb_distance e"
        using row j unfolding row_inv_def by blast
      then show ?thesis
      proof cases
        case 2
        then have "(K(u \<mapsto> d)) v = Some k" using u by auto
        then show ?thesis using 2 same by metis
      qed (use same in simp)
    qed (metis fun_upd_same)
  qed
  ultimately have "row_inv n i b table0 (K(u \<mapsto> d)) t" unfolding row_inv_def using t(2) by blast
  then show thesis using that t(1) by blast
qed

lemma forward_loop_row:
  assumes g: "query_graph g" and n: "n * n < 2 ^ 32" "i < n" and b: "\<forall>v. \<forall>e \<in> set (bucket b v). nb_target_id e < n"
  shows "refines h a \<Longrightarrow> running g True S a \<Longrightarrow> row_inv n i b table0 (settled_keys a) table \<Longrightarrow>
    \<exists>h' table' a'. forward_loop g i n b h table = Some (h', table') \<and> running g True S a' \<and> ah_queue a' = {} \<and>
      row_inv n i b table0 (ah_key a') table'"
proof (induction "unsettled g a" arbitrary: h a table rule: less_induct)
  case less
  show ?case
  proof (cases "ah_queue a = {}")
    case True
    moreover have "ah_key a |` dom (ah_key a) = ah_key a" by (rule ext) (simp add: restrict_map_def domIff)
    ultimately show ?thesis using less.prems refines_Empty [OF less.prems(1)]
      by (subst forward_loop.simps) auto
  next
    case False
    obtain u d h1 h2 st h3 h4 a' where s: "heap_DeleteMin h = Some (u, h1)" "heap_GetKey UnorderedMapStorage h1 u = Some (d, h2)"
      "StallAtNode g True u d h2 = Some (st, h3)" "(if st then Some h3 else RelaxOutgoingEdges g True u d h3) = Some h4"
      "refines h4 a'" "running g True S a'" "settled a' = insert u (settled a)" "u \<notin> settled a" "ah_key a' u = Some d"
      "\<forall>v \<in> settled a. ah_key a' v = ah_key a v" "unsettled g a' < unsettled g a"
      by (rule running_step [OF less.prems(1,2) False g])
    have "settled_keys a u = None" using s(8) by (auto simp: restrict_map_def)
    then obtain t where t: "scan_bucket i n d (bucket b u) table = Some t" "row_inv n i b table0 (settled_keys a') t"
      using scan_row [OF n b less.prems(3)] unfolding settled_keys_insert [OF s(7,9,10)] by blast
    from less.hyps [OF s(11,5,6) t(2)]
    have *: "\<exists>h' table' a'. forward_loop g i n b h4 t = Some (h', table') \<and> running g True S a' \<and> ah_queue a' = {} \<and>
      row_inv n i b table0 (ah_key a') table'" .
    have "(case b u of Some bucket_list \<Rightarrow> scan_bucket i n d bucket_list table | None \<Rightarrow> Some table) = Some t"
      using t(1) by (cases "b u") (auto simp: bucket_def)
    then have "ForwardRoutingStep g i n b h table = Some (h4, t)" using s(1-4) by (auto simp: ForwardRoutingStep_def split: if_splits)
    then have "forward_loop g i n b h table = forward_loop g i n b h4 t"
      using False refines_Empty [OF less.prems(1)] by (subst forward_loop.simps) simp
    then show ?thesis using * by simp
  qed
qed

section \<open>The distance table\<close>

text \<open>An entry of the table: the length of a shortest route, or the invalid weight.\<close>

definition good_entry :: "EdgeData StaticGraph \<Rightarrow> (NodeID \<rightharpoonup> int) \<Rightarrow> (NodeID \<rightharpoonup> int) \<Rightarrow> int \<Rightarrow> bool" where
  "good_entry g S T x \<longleftrightarrow> (\<forall>l. route g S T l \<longrightarrow> x \<le> l) \<and> (x = INVALID_EDGE_WEIGHT \<or> route g S T x)"

definition buckets_of :: "nat \<Rightarrow> (nat \<Rightarrow> NodeID \<rightharpoonup> int) \<Rightarrow> SearchSpaceWithBuckets \<Rightarrow> bool" where
  "buckets_of n K b \<longleftrightarrow> (\<forall>v. set (bucket b v) = {\<lparr> nb_target_id = j, nb_distance = d \<rparr> | j d. j < n \<and> K j v = Some d})"

lemma row_good:
  assumes h: "hierarchy g" and nonneg: "\<And>l. route g S T l \<Longrightarrow> 0 \<le> l" and b: "buckets_of n KT b"
    and F: "finished g True S K" and R: "finished g False T (KT j)" and j: "j < n" and row: "row_inv n i b t0 K table"
  shows "good_entry g S T (table ! (i * n + j))"
proof -
  let ?e = "\<lambda>d. \<lparr> nb_target_id = j, nb_distance = d \<rparr>"
  have "table ! (i * n + j) \<le> l" if l: "route g S T l" for l
  proof -
    obtain m d e where m: "exact g True S m d" "exact g False T m e" "0 \<le> d + e" "d + e \<le> l"
      using hierarchy_shortest [OF h l nonneg] by blast
    have K: "K m = Some d" "?e e \<in> set (bucket b m)" using F R m(1,2) b j by (auto simp: finished_def buckets_of_def)
    then have "table ! (i * n + nb_target_id (?e e)) \<le> d + nb_distance (?e e)"
      using row m(3) unfolding row_inv_def by (metis NodeBucket.select_convs(2))
    then show ?thesis using m(4) by simp
  qed
  moreover have "route g S T (table ! (i * n + j))" if ne: "table ! (i * n + j) \<noteq> INVALID_EDGE_WEIGHT"
  proof -
    obtain v k e where e: "K v = Some k" "e \<in> set (bucket b v)" "nb_target_id e = j" "table ! (i * n + j) = k + nb_distance e"
      using row j ne unfolding row_inv_def by blast
    have "KT j v = Some (nb_distance e)" using b e(2,3) by (auto simp: buckets_of_def)
    then obtain t off' y where "T t = Some off'" "up_walk g False t v y" "nb_distance e = off' + y"
      using R unfolding finished_def by blast
    moreover obtain s off x where "S s = Some off" "up_walk g True s v x" "k = off + x"
      using F e(1) unfolding finished_def by blast
    ultimately have "route_len g True S T v (k + nb_distance e)" unfolding route_len_def not_True_eq_False by metis
    then show ?thesis using route_len_route e(4) by simp
  qed
  ultimately show ?thesis unfolding good_entry_def by blast
qed

lemma sources_loop_rows:
  assumes g: "query_graph g" "hierarchy g" and n: "n * n < 2 ^ 32" and b: "buckets_of n KT b"
    and R: "\<And>j. j < n \<Longrightarrow> finished g False (T j) (KT j)"
  shows "\<forall>ps \<in> set rest. location_ok g ps \<and> (\<forall>j < n. \<forall>l. route g (sources_of ps) (T j) l \<longrightarrow> 0 \<le> l) \<Longrightarrow> i + length rest \<le> n \<Longrightarrow>
    length table = n * n \<Longrightarrow> \<forall>x < n * n. i * n \<le> x \<longrightarrow> table ! x = INVALID_EDGE_WEIGHT \<Longrightarrow>
    \<exists>table'. sources_loop g n b rest i h table = Some (i + length rest, table') \<and> length table' = n * n \<and>
      (\<forall>x < i * n. table' ! x = table ! x) \<and>
      (\<forall>k < length rest. \<forall>j < n. good_entry g (sources_of (rest ! k)) (T j) (table' ! ((i + k) * n + j)))"
proof (induction rest arbitrary: i h table)
  case (Cons ps rest)
  let ?S = "sources_of ps"
  have ok: "location_ok g ps" and i: "i < n" using Cons.prems(1,2) by simp_all
  have nn: "\<And>j l. j < n \<Longrightarrow> route g ?S (T j) l \<Longrightarrow> 0 \<le> l" using Cons.prems(1) by simp
  have dom: "dom ?S \<subseteq> {..<sg_number_of_nodes g}" using location_start(2) [OF ok, of "- 1"] by simp
  obtain h1 where h1: "insert_phantoms (- 1) ps (heap_Clear UnorderedMapStorage h) = Some h1" "refines h1 (start_heap ?S)"
    using location_start(1) [OF ok, of "- 1" h] by auto
  have bt: "\<forall>v. \<forall>e \<in> set (bucket b v). nb_target_id e < n" using b by (auto simp: buckets_of_def)
  have inv: "table ! (i * n + j) = INVALID_EDGE_WEIGHT" if "j < n" for j
    using Cons.prems(4) table_index_eq(2) [OF i that n] by simp
  have "settled_keys (start_heap ?S) = Map.empty" by (simp add: start_heap_def)
  then have "row_inv n i b table (settled_keys (start_heap ?S)) table" using Cons.prems(3) inv by (simp add: row_inv_def)
  from forward_loop_row [OF g(1) n i bt h1(2) running_start [OF dom] this]
  obtain h2 t a where s: "forward_loop g i n b h1 table = Some (h2, t)" "running g True ?S a" "ah_queue a = {}"
    "row_inv n i b table (ah_key a) t" by blast
  have len: "length t = n * n" and out: "\<And>x. x < n * n \<Longrightarrow> x \<notin> {i * n..<i * n + n} \<Longrightarrow> t ! x = table ! x"
    using s(4) by (simp_all add: row_inv_def)
  have good: "good_entry g ?S (T j) (t ! (i * n + j))" if "j < n" for j
    using row_good [OF g(2) nn [OF that] b running_finished [OF s(2,3) g(1) dom] R [OF that] that s(4)] .
  have "\<forall>x < n * n. (i + 1) * n \<le> x \<longrightarrow> t ! x = INVALID_EDGE_WEIGHT" using out Cons.prems(4) by (simp add: algebra_simps)
  then obtain t' where t': "sources_loop g n b rest (i + 1) h2 t = Some (i + 1 + length rest, t')" "length t' = n * n"
    "\<forall>x < (i + 1) * n. t' ! x = t ! x"
    "\<forall>k < length rest. \<forall>j < n. good_entry g (sources_of (rest ! k)) (T j) (t' ! ((i + 1 + k) * n + j))"
    using Cons.IH [of "i + 1" t h2] Cons.prems(1,2) len by auto
  have "t' ! x = table ! x" if "x < i * n" for x
  proof -
    have "x < n * n" using that i by (meson less_le_trans mult_le_mono1 less_imp_le_nat)
    then show ?thesis using t'(3) out that by simp
  qed
  moreover have "good_entry g (sources_of ((ps # rest) ! k)) (T j) (t' ! ((i + k) * n + j))" if "k < length (ps # rest)" "j < n" for k j
  proof (cases k)
    case 0
    have "i * n + j < (i + 1) * n" using that(2) by simp
    then show ?thesis using good [OF that(2)] t'(3) 0 by simp
  next
    case (Suc m)
    then show ?thesis using t'(4) that by simp
  qed
  ultimately show ?case using h1(1) s(1) t'(1,2) by (intro exI [of _ t']) simp
qed simp



end
