(* ===== verification/Http_Server.thy ===== *)
theory Http_Server
  imports OSRM_Prelude
begin

text \<open>
  The HTTP front end: headers (\<^verbatim>\<open>Include/osrm/Header.h\<close>), requests, the request parser
  (\<^verbatim>\<open>Server/RequestParser.cpp\<close>), stock replies (\<^verbatim>\<open>Server/Http/Reply.cpp\<close>) and the read
  handler of a connection (\<^verbatim>\<open>Server/Connection.cpp\<close>).  A \<^verbatim>\<open>tribool\<close> is a \<^typ>\<open>bool option\<close> with
  \<^const>\<open>None\<close> as the indeterminate value.  Characters are bytes; \<^verbatim>\<open>char\<close> is signed, so bytes from
  128 on are negative numbers for the classification functions.
\<close>

section \<open>Characters\<close>

definition char_int :: "char \<Rightarrow> int" where
  "char_int c = (let n = int (of_char c :: nat) in if n < 128 then n else n - 256)"

definition isChar :: "char \<Rightarrow> bool" where
  "isChar c \<longleftrightarrow> char_int c \<ge> 0 \<and> char_int c \<le> 127"

definition isCTL :: "char \<Rightarrow> bool" where
  "isCTL c \<longleftrightarrow> (char_int c \<ge> 0 \<and> char_int c \<le> 31) \<or> char_int c = 127"

definition isTSpecial :: "char \<Rightarrow> bool" where
  "isTSpecial c \<longleftrightarrow> c \<in> set [CHR ''('', CHR '')'', CHR ''<'', CHR ''>'', CHR ''@'', CHR '','', CHR '';'', CHR '':'',
     CHR 0x5C, CHR 0x22, CHR ''/'', CHR 0x5B, CHR 0x5D, CHR ''?'', CHR ''='', CHR ''{'', CHR ''}'',
     CHR '' '', CHR 0x09]"

definition isDigit :: "char \<Rightarrow> bool" where
  "isDigit c \<longleftrightarrow> char_int c \<ge> char_int (CHR ''0'') \<and> char_int c \<le> char_int (CHR ''9'')"

abbreviation CR :: char where "CR \<equiv> CHR 0x0D"
abbreviation LF :: char where "LF \<equiv> CHR 0x0A"

section \<open>Headers and requests\<close>

record Header =
  h_name :: string
  h_value :: string

definition Header_Clear :: "Header \<Rightarrow> Header" where
  "Header_Clear h = h\<lparr> h_name := [], h_value := [] \<rparr>"

text \<open>The network address of the peer is not used by the modelled code.\<close>

record Request =
  uri :: string
  referrer :: string
  agent :: string

datatype CompressionType = noCompression | gzipRFC1952 | deflateRFC1951

text \<open>\<^verbatim>\<open>haystack.find(needle) != npos\<close>.\<close>

fun contains :: "string \<Rightarrow> string \<Rightarrow> bool" where
  "contains needle [] \<longleftrightarrow> needle = []"
| "contains needle (c # cs) \<longleftrightarrow> take (length needle) (c # cs) = needle \<or> contains needle cs"

section \<open>The parser\<close>

datatype parser_state =
    method_start | method_name | uri_start | uri_text | http_version_h | http_version_t_1 | http_version_t_2
  | http_version_p | http_version_slash | http_version_major_start | http_version_major
  | http_version_minor_start | http_version_minor | expecting_newline_1 | header_line_start
  | header_lws | header_name | space_before_header_value | header_value | expecting_newline_2
  | expecting_newline_3

text \<open>The parser together with what it fills in.\<close>

record Parser =
  pstate :: parser_state
  header :: Header
  req :: Request
  compression_type :: CompressionType

definition RequestParser_new :: "Request \<Rightarrow> CompressionType \<Rightarrow> Parser" where
  "RequestParser_new r c = \<lparr> pstate = method_start, header = \<lparr> h_name = [], h_value = [] \<rparr>, req = r, compression_type = c \<rparr>"

definition RequestParser_Reset :: "Parser \<Rightarrow> Parser" where
  "RequestParser_Reset p = p\<lparr> pstate := method_start \<rparr>"

text \<open>The effect of a finished header line.\<close>

definition finish_header :: "Parser \<Rightarrow> Parser" where
  "finish_header p = (let
     h = header p;
     p = (if h_name h = ''Accept-Encoding'' then
            let p = (if contains ''deflate'' (h_value h) then p\<lparr> compression_type := deflateRFC1951 \<rparr> else p)
            in (if contains ''gzip'' (h_value h) then p\<lparr> compression_type := gzipRFC1952 \<rparr> else p)
          else p);
     p = (if ''Referer'' = h_name h then p\<lparr> req := (req p)\<lparr> referrer := h_value h \<rparr> \<rparr> else p);
     p = (if ''User-Agent'' = h_name h then p\<lparr> req := (req p)\<lparr> agent := h_value h \<rparr> \<rparr> else p)
     in p)"

definition push_uri :: "char \<Rightarrow> Parser \<Rightarrow> Parser" where
  "push_uri c p = p\<lparr> req := (req p)\<lparr> uri := uri (req p) @ [c] \<rparr> \<rparr>"

abbreviation go :: "parser_state \<Rightarrow> Parser \<Rightarrow> bool option \<times> Parser" where
  "go s p \<equiv> (None, p\<lparr> pstate := s \<rparr>)"

abbreviation not_token :: "char \<Rightarrow> bool" where
  "not_token c \<equiv> \<not> isChar c \<or> isCTL c \<or> isTSpecial c"

definition consume :: "Parser \<Rightarrow> char \<Rightarrow> bool option \<times> Parser" where
  "consume p input = (case pstate p of
      method_start \<Rightarrow> if not_token input then (Some False, p) else go method_name p
    | method_name \<Rightarrow> if input = CHR '' '' then go uri_text p
        else if not_token input then (Some False, p) else (None, p)
    | uri_start \<Rightarrow> if isCTL input then (Some False, p) else go uri_text (push_uri input p)
    | uri_text \<Rightarrow> if input = CHR '' '' then go http_version_h p
        else if isCTL input then (Some False, p) else (None, push_uri input p)
    | http_version_h \<Rightarrow> if input = CHR ''H'' then go http_version_t_1 p else (Some False, p)
    | http_version_t_1 \<Rightarrow> if input = CHR ''T'' then go http_version_t_2 p else (Some False, p)
    | http_version_t_2 \<Rightarrow> if input = CHR ''T'' then go http_version_p p else (Some False, p)
    | http_version_p \<Rightarrow> if input = CHR ''P'' then go http_version_slash p else (Some False, p)
    | http_version_slash \<Rightarrow> if input = CHR ''/'' then go http_version_major_start p else (Some False, p)
    | http_version_major_start \<Rightarrow> if isDigit input then go http_version_major p else (Some False, p)
    | http_version_major \<Rightarrow> if input = CHR ''.'' then go http_version_minor_start p
        else if isDigit input then (None, p) else (Some False, p)
    | http_version_minor_start \<Rightarrow> if isDigit input then go http_version_minor p else (Some False, p)
    | http_version_minor \<Rightarrow> if input = CR then go expecting_newline_1 p
        else if isDigit input then (None, p) else (Some False, p)
    | expecting_newline_1 \<Rightarrow> if input = LF then go header_line_start p else (Some False, p)
    | header_line_start \<Rightarrow> let p = finish_header p in
        if input = CR then go expecting_newline_3 p
        else if not_token input then (Some False, p)
        else go header_name (p\<lparr> header := (Header_Clear (header p))\<lparr> h_name := [input] \<rparr> \<rparr>)
    | header_lws \<Rightarrow> if input = CR then go expecting_newline_2 p
        else if input = CHR '' '' \<or> input = CHR 0x09 then (None, p)
        else if isCTL input then (Some False, p) else go header_value p
    | header_name \<Rightarrow> if input = CHR '':'' then go space_before_header_value p
        else if not_token input then (Some False, p)
        else (None, p\<lparr> header := (header p)\<lparr> h_name := h_name (header p) @ [input] \<rparr> \<rparr>)
    | space_before_header_value \<Rightarrow> if input = CHR '' '' then go header_value p else (Some False, p)
    | header_value \<Rightarrow> if input = CR then go expecting_newline_2 p
        else if isCTL input then (Some False, p)
        else (None, p\<lparr> header := (header p)\<lparr> h_value := h_value (header p) @ [input] \<rparr> \<rparr>)
    | expecting_newline_2 \<Rightarrow> if input = LF then go header_line_start p else (Some False, p)
    | expecting_newline_3 \<Rightarrow> (Some (input = LF), p))"

text \<open>\<open>Parse\<close> also returns the input it did not look at.\<close>

fun Parse :: "Parser \<Rightarrow> string \<Rightarrow> bool option \<times> Parser \<times> string" where
  "Parse p [] = (None, p, [])"
| "Parse p (c # cs) = (case consume p c of
      (Some result, p) \<Rightarrow> (Some result, p, cs)
    | (None, p) \<Rightarrow> Parse p cs)"

section \<open>Replies\<close>

datatype status_type = ok | badRequest | internalServerError

record Reply =
  r_status :: status_type
  r_headers :: "Header list"
  r_content :: string

definition Reply_new :: Reply where
  "Reply_new = \<lparr> r_status = ok, r_headers = [], r_content = [] \<rparr>"

text \<open>\<open>integral_to_string\<close> prints an unsigned number with a generator of Boost: it is a parameter.\<close>

definition SetSize :: "(nat \<Rightarrow> string) \<Rightarrow> nat \<Rightarrow> Reply \<Rightarrow> Reply" where
  "SetSize integral_to_string sz r = r\<lparr> r_headers := map (\<lambda>h. if ''Content-Length'' = h_name h
     then h\<lparr> h_value := integral_to_string (sz mod 2 ^ 32) \<rparr> else h) (r_headers r) \<rparr>"

definition SetUncompressedSize :: "(nat \<Rightarrow> string) \<Rightarrow> Reply \<Rightarrow> Reply" where
  "SetUncompressedSize integral_to_string r = SetSize integral_to_string (length (r_content r)) r"

text \<open>The strings of \<^verbatim>\<open>Include/osrm/Reply.h\<close>; a quote is the byte 34.\<close>

definition okHTML :: string where "okHTML = []"

definition quoted :: "string \<Rightarrow> string" where
  "quoted s = CHR 0x22 # s @ [CHR 0x22]"

definition badRequestHTML :: string where
  "badRequestHTML = ''{'' @ quoted ''status'' @ '': 400,'' @ quoted ''status_message'' @ '':'' @ quoted ''Bad Request'' @ ''}''"

definition internalServerErrorHTML :: string where
  "internalServerErrorHTML = ''{'' @ quoted ''status'' @ '': 500,'' @ quoted ''status_message'' @ '':'' @
     quoted ''Internal Server Error'' @ ''}''"

abbreviation CRLF :: string where "CRLF \<equiv> [CR, LF]"

definition okString :: string where "okString = ''HTTP/1.0 200 OK'' @ CRLF"
definition badRequestString :: string where "badRequestString = ''HTTP/1.0 400 Bad Request'' @ CRLF"
definition internalServerErrorString :: string where
  "internalServerErrorString = ''HTTP/1.0 500 Internal Server Error'' @ CRLF"

definition Reply_ToString :: "status_type \<Rightarrow> string" where
  "Reply_ToString s = (if ok = s then okHTML else if badRequest = s then badRequestHTML else internalServerErrorHTML)"

definition Reply_ToBuffer :: "status_type \<Rightarrow> string" where
  "Reply_ToBuffer s = (if ok = s then okString else if internalServerError = s then internalServerErrorString else badRequestString)"

definition HeaderstoBuffers :: "Reply \<Rightarrow> string" where
  "HeaderstoBuffers r = Reply_ToBuffer (r_status r) @
     concat (map (\<lambda>h. h_name h @ '': '' @ h_value h @ CRLF) (r_headers r)) @ CRLF"

definition ToBuffers :: "Reply \<Rightarrow> string" where
  "ToBuffers r = Reply_ToBuffer (r_status r) @
     concat (map (\<lambda>h. h_name h @ '': '' @ h_value h @ CRLF) (r_headers r)) @ CRLF @ r_content r"

definition StockReply :: "(nat \<Rightarrow> string) \<Rightarrow> status_type \<Rightarrow> Reply" where
  "StockReply integral_to_string s = (let content = Reply_ToString s in
     \<lparr> r_status = s,
       r_headers = [\<lparr> h_name = ''Access-Control-Allow-Origin'', h_value = ''*'' \<rparr>,
         \<lparr> h_name = ''Content-Length'', h_value = integral_to_string (length content) \<rparr>,
         \<lparr> h_name = ''Content-Type'', h_value = ''text/html'' \<rparr>],
       r_content = content \<rparr>)"

section \<open>Connections\<close>

record Connection =
  request_parser :: Parser
  conn_reply :: Reply

definition Connection_new :: Connection where
  "Connection_new = \<lparr> request_parser = RequestParser_new \<lparr> uri = [], referrer = [], agent = [] \<rparr> noCompression,
     conn_reply = Reply_new \<rparr>"

text \<open>
  \<open>handle_read\<close> for the bytes of one read: the bytes written in answer, or \<^const>\<open>None\<close> when the
  connection goes on reading.  The request handler and the compressor are parameters.
\<close>

definition handle_read ::
    "(Request \<Rightarrow> Reply \<Rightarrow> Reply) \<Rightarrow> (string \<Rightarrow> CompressionType \<Rightarrow> string) \<Rightarrow> (nat \<Rightarrow> string) \<Rightarrow>
     string \<Rightarrow> Connection \<Rightarrow> Connection \<times> string option" where
  "handle_read handle_request compress integral_to_string incoming conn = (let
     (result, p, rest) = Parse ((request_parser conn)\<lparr> compression_type := noCompression \<rparr>) incoming;
     conn = conn\<lparr> request_parser := p \<rparr> in
     case result of
       Some True \<Rightarrow> (let reply = handle_request (req p) (conn_reply conn) in
         case compression_type p of
           deflateRFC1951 \<Rightarrow> (let
             reply = reply\<lparr> r_headers := \<lparr> h_name = ''Content-Encoding'', h_value = ''deflate'' \<rparr> # r_headers reply \<rparr>;
             compressed_output = compress (r_content reply) deflateRFC1951;
             reply = SetSize integral_to_string (length compressed_output) reply
             in (conn\<lparr> conn_reply := reply \<rparr>, Some (HeaderstoBuffers reply @ compressed_output)))
         | gzipRFC1952 \<Rightarrow> (let
             reply = reply\<lparr> r_headers := \<lparr> h_name = ''Content-Encoding'', h_value = ''gzip'' \<rparr> # r_headers reply \<rparr>;
             compressed_output = compress (r_content reply) gzipRFC1952;
             reply = SetSize integral_to_string (length compressed_output) reply
             in (conn\<lparr> conn_reply := reply \<rparr>, Some (HeaderstoBuffers reply @ compressed_output)))
         | noCompression \<Rightarrow> (let reply = SetUncompressedSize integral_to_string reply
             in (conn\<lparr> conn_reply := reply \<rparr>, Some (ToBuffers reply))))
     | Some False \<Rightarrow> (let reply = StockReply integral_to_string badRequest
         in (conn\<lparr> conn_reply := reply \<rparr>, Some (ToBuffers reply)))
     | None \<Rightarrow> (conn, None))"

section \<open>Incremental parsing\<close>

lemma Parse_append:
  "Parse p (xs @ ys) = (case Parse p xs of (None, p', _) \<Rightarrow> Parse p' ys | (Some r, p', rest) \<Rightarrow> (Some r, p', rest @ ys))"
  by (induction xs arbitrary: p) (auto split: prod.splits option.splits)

lemma Parse_go:
  "Parse p xs = (None, p', []) \<Longrightarrow> Parse p (xs @ ys) = Parse p' ys"
  by (simp add: Parse_append)

section \<open>Well-formed requests\<close>

definition token :: "char \<Rightarrow> bool" where
  "token c \<longleftrightarrow> isChar c \<and> \<not> isCTL c \<and> \<not> isTSpecial c"

definition uri_char :: "char \<Rightarrow> bool" where
  "uri_char c \<longleftrightarrow> \<not> isCTL c \<and> c \<noteq> CHR '' ''"

text \<open>The text of a request.\<close>

definition header_text :: "Header \<Rightarrow> string" where
  "header_text h = h_name h @ '': '' @ h_value h @ CRLF"

definition request_text :: "string \<Rightarrow> string \<Rightarrow> string \<Rightarrow> string \<Rightarrow> Header list \<Rightarrow> string" where
  "request_text mth u major minor hs =
     mth @ '' '' @ u @ '' HTTP/'' @ major @ ''.'' @ minor @ CRLF @ concat (map header_text hs) @ CRLF"

definition header_ok :: "Header \<Rightarrow> bool" where
  "header_ok h \<longleftrightarrow> h_name h \<noteq> [] \<and> list_all token (h_name h) \<and> list_all (\<lambda>c. \<not> isCTL c) (h_value h)"

text \<open>What the headers of a request set.\<close>

definition apply_header :: "Header \<Rightarrow> Parser \<Rightarrow> Parser" where
  "apply_header h p = finish_header (p\<lparr> header := h \<rparr>)"

lemma char_classes:
  "isTSpecial (CHR '' '')" "isTSpecial (CHR '':'')" "isCTL CR" "\<not> isDigit (CHR ''.'')" "\<not> isDigit CR" "\<not> isCTL (CHR '' '')"
  by code_simp+

lemma token_chars: "token c \<Longrightarrow> c \<noteq> CHR '' '' \<and> c \<noteq> CHR '':'' \<and> c \<noteq> CR"
  using char_classes by (auto simp: token_def)

lemma not_CTL_CR: "\<not> isCTL c \<Longrightarrow> c \<noteq> CR"
  using char_classes by auto

lemma isDigit_chars: "isDigit c \<Longrightarrow> c \<noteq> CHR ''.'' \<and> c \<noteq> CR"
  using char_classes by auto

lemma Parse_method:
  assumes "mth \<noteq> []" "list_all token mth" "pstate p = method_start"
  shows "Parse p (mth @ '' '') = (None, p\<lparr> pstate := uri_text \<rparr>, [])"
proof -
  have rest: "list_all token m \<Longrightarrow> pstate q = method_name \<Longrightarrow> Parse q (m @ '' '') = (None, q\<lparr> pstate := uri_text \<rparr>, [])" for m q
  proof (induction m)
    case (Cons c m)
    then have "consume q c = (None, q)" using token_chars [of c] by (simp add: consume_def token_def)
    then show ?case using Cons by simp
  qed (simp add: consume_def)
  obtain c cs where "mth = c # cs" using assms(1) by (cases mth) auto
  then show ?thesis using assms(2,3) rest [of cs "p\<lparr> pstate := method_name \<rparr>"] by (simp add: consume_def token_def)
qed

lemma Parse_uri:
  "list_all uri_char u \<Longrightarrow> pstate p = uri_text \<Longrightarrow>
   Parse p (u @ '' '') = (None, p\<lparr> pstate := http_version_h, req := (req p)\<lparr> uri := uri (req p) @ u \<rparr> \<rparr>, [])"
proof (induction u arbitrary: p)
  case (Cons c u)
  then have "Parse p ((c # u) @ '' '') = Parse (push_uri c p) (u @ '' '')" by (simp add: consume_def uri_char_def)
  also have "\<dots> = (None, (push_uri c p)\<lparr> pstate := http_version_h, req := (req (push_uri c p))\<lparr> uri := uri (req (push_uri c p)) @ u \<rparr> \<rparr>, [])"
    using Cons by (intro Cons.IH) (simp_all add: push_uri_def)
  finally show ?case by (simp add: push_uri_def)
qed (simp add: consume_def)

lemma Parse_digits:
  "list_all isDigit ds \<Longrightarrow> pstate p = http_version_major \<Longrightarrow> Parse p (ds @ ''.'') = (None, p\<lparr> pstate := http_version_minor_start \<rparr>, [])"
  "list_all isDigit ds \<Longrightarrow> pstate p = http_version_minor \<Longrightarrow> Parse p (ds @ [CR]) = (None, p\<lparr> pstate := expecting_newline_1 \<rparr>, [])"
proof (induction ds)
  case (Cons c ds)
  {
    case 1
    then have "consume p c = (None, p)" using isDigit_chars [of c] by (simp add: consume_def)
    then show ?case using 1 Cons by simp
  next
    case 2
    then have "consume p c = (None, p)" using isDigit_chars [of c] by (simp add: consume_def)
    then show ?case using 2 Cons by simp
  }
qed (simp_all add: consume_def)

lemma Parse_version:
  assumes "major \<noteq> []" "list_all isDigit major" "minor \<noteq> []" "list_all isDigit minor" "pstate p = http_version_h"
  shows "Parse p (''HTTP/'' @ major @ ''.'' @ minor @ CRLF) = (None, p\<lparr> pstate := header_line_start \<rparr>, [])"
proof -
  obtain a as where a: "major = a # as" using assms(1) by (cases major) auto
  obtain b bs where b: "minor = b # bs" using assms(3) by (cases minor) auto
  let ?q = "p\<lparr> pstate := http_version_major \<rparr>" and ?r = "p\<lparr> pstate := http_version_minor \<rparr>"
  have "Parse p (''HTTP/'' @ major @ ''.'' @ minor @ CRLF) = Parse ?q ((as @ ''.'') @ b # bs @ CRLF)"
    using assms(2,5) a b by (simp add: consume_def)
  also have "\<dots> = Parse (?q\<lparr> pstate := http_version_minor_start \<rparr>) (b # bs @ CRLF)"
    using Parse_go [OF Parse_digits(1)] assms(2) a by simp
  also have "\<dots> = Parse ?r ((bs @ [CR]) @ [LF])" using assms(4) b by (simp add: consume_def)
  also have "\<dots> = Parse (?r\<lparr> pstate := expecting_newline_1 \<rparr>) [LF]"
    using Parse_go [OF Parse_digits(2)] assms(4) b by simp
  finally show ?thesis by (simp add: consume_def)
qed

lemma Parse_header_name:
  "list_all token n \<Longrightarrow> pstate p = header_name \<Longrightarrow> Parse p (n @ '': '') =
   (None, p\<lparr> pstate := header_value, header := (header p)\<lparr> h_name := h_name (header p) @ n \<rparr> \<rparr>, [])"
proof (induction n arbitrary: p)
  case (Cons c n)
  let ?p = "p\<lparr> header := (header p)\<lparr> h_name := h_name (header p) @ [c] \<rparr> \<rparr>"
  have "consume p c = (None, ?p)" using Cons.prems token_chars [of c] by (simp add: consume_def token_def)
  then show ?case using Cons.IH [of ?p] Cons.prems by simp
qed (simp add: consume_def)

lemma Parse_header_value:
  "list_all (\<lambda>c. \<not> isCTL c) v \<Longrightarrow> pstate p = header_value \<Longrightarrow> Parse p (v @ CRLF) =
   (None, p\<lparr> pstate := header_line_start, header := (header p)\<lparr> h_value := h_value (header p) @ v \<rparr> \<rparr>, [])"
proof (induction v arbitrary: p)
  case (Cons c v)
  let ?p = "p\<lparr> header := (header p)\<lparr> h_value := h_value (header p) @ [c] \<rparr> \<rparr>"
  have "consume p c = (None, ?p)" using Cons.prems not_CTL_CR [of c] by (simp add: consume_def)
  then show ?case using Cons.IH [of ?p] Cons.prems by simp
qed (simp add: consume_def)

text \<open>One header line: the previous header takes effect, the new one is stored.\<close>

lemma Parse_header_line:
  assumes "header_ok h" "pstate p = header_line_start"
  shows "Parse p (header_text h) = (None, (finish_header p)\<lparr> pstate := header_line_start, header := h \<rparr>, [])"
proof -
  obtain c n where n: "h_name h = c # n" using assms(1) by (cases "h_name h") (auto simp: header_ok_def)
  let ?q = "(finish_header p)\<lparr> pstate := header_name, header := \<lparr> h_name = [c], h_value = [] \<rparr> \<rparr>"
  let ?r = "?q\<lparr> pstate := header_value, header := \<lparr> h_name = c # n, h_value = [] \<rparr> \<rparr>"
  have "token c" "c \<noteq> CR" using assms(1) n token_chars [of c] by (auto simp: header_ok_def)
  then have "consume p c = (None, ?q)" using assms(2) by (simp add: consume_def token_def Header_Clear_def Let_def)
  then have "Parse p (header_text h) = Parse ?q ((n @ '': '') @ h_value h @ CRLF)" using n by (simp add: header_text_def)
  also have "\<dots> = Parse ?r (h_value h @ CRLF)"
    using Parse_go [OF Parse_header_name [of n ?q]] assms(1) n by (simp add: header_ok_def)
  also have "\<dots> = (None, ?r\<lparr> pstate := header_line_start, header := (header ?r)\<lparr> h_value := h_value (header ?r) @ h_value h \<rparr> \<rparr>, [])"
    using assms(1) by (intro Parse_header_value) (simp_all add: header_ok_def)
  finally show ?thesis using n by simp
qed

text \<open>The last value of a header, and the compression the headers ask for.\<close>

definition last_value :: "string \<Rightarrow> Header list \<Rightarrow> string \<Rightarrow> string" where
  "last_value n hs d = fold (\<lambda>h d. if n = h_name h then h_value h else d) hs d"

definition requested_compression :: "Header list \<Rightarrow> CompressionType \<Rightarrow> CompressionType" where
  "requested_compression hs c = fold (\<lambda>h c. if h_name h = ''Accept-Encoding'' then
     (if contains ''gzip'' (h_value h) then gzipRFC1952 else if contains ''deflate'' (h_value h) then deflateRFC1951 else c)
     else c) hs c"

lemma finish_header_fields:
  "uri (req (finish_header p)) = uri (req p)" "header (finish_header p) = header p" "pstate (finish_header p) = pstate p"
  "referrer (req (finish_header p)) = last_value ''Referer'' [header p] (referrer (req p))"
  "agent (req (finish_header p)) = last_value ''User-Agent'' [header p] (agent (req p))"
  "compression_type (finish_header p) = requested_compression [header p] (compression_type p)"
  by (auto simp: finish_header_def last_value_def requested_compression_def Let_def)

definition lines_effect :: "Header list \<Rightarrow> Parser \<Rightarrow> Parser" where
  "lines_effect hs p = fold (\<lambda>h q. (finish_header q)\<lparr> header := h \<rparr>) hs p"

lemma Parse_header_lines:
  "list_all header_ok hs \<Longrightarrow> pstate p = header_line_start \<Longrightarrow>
   Parse p (concat (map header_text hs)) = (None, lines_effect hs p, [])"
proof (induction hs arbitrary: p)
  case (Cons h hs)
  have "Parse p (header_text h @ concat (map header_text hs)) =
      Parse ((finish_header p)\<lparr> pstate := header_line_start, header := h \<rparr>) (concat (map header_text hs))"
    using Cons.prems by (intro Parse_go Parse_header_line) simp_all
  moreover have "(finish_header p)\<lparr> pstate := header_line_start, header := h \<rparr> = (finish_header p)\<lparr> header := h \<rparr>"
    using Cons.prems(2) finish_header_fields(3) [of p] by simp
  ultimately show ?case using Cons.IH [of "(finish_header p)\<lparr> header := h \<rparr>"] Cons.prems
    by (simp add: lines_effect_def finish_header_fields)
qed (simp add: lines_effect_def)

lemma lines_effect_fields:
  "uri (req (finish_header (lines_effect hs p))) = uri (req p)"
  "referrer (req (finish_header (lines_effect hs p))) = last_value ''Referer'' (header p # hs) (referrer (req p))"
  "agent (req (finish_header (lines_effect hs p))) = last_value ''User-Agent'' (header p # hs) (agent (req p))"
  "compression_type (finish_header (lines_effect hs p)) = requested_compression (header p # hs) (compression_type p)"
  "pstate (lines_effect hs p) = pstate p"
proof (induction hs arbitrary: p)
  case (Cons h hs)
  {
    case 1
    then show ?case using Cons(1) [of "(finish_header p)\<lparr> header := h \<rparr>"] by (simp add: lines_effect_def finish_header_fields)
  next
    case 2
    then show ?case using Cons(2) [of "(finish_header p)\<lparr> header := h \<rparr>"] by (simp add: lines_effect_def finish_header_fields last_value_def)
  next
    case 3
    then show ?case using Cons(3) [of "(finish_header p)\<lparr> header := h \<rparr>"] by (simp add: lines_effect_def finish_header_fields last_value_def)
  next
    case 4
    then show ?case using Cons(4) [of "(finish_header p)\<lparr> header := h \<rparr>"]
      by (simp add: lines_effect_def finish_header_fields requested_compression_def)
  next
    case 5
    then show ?case using Cons(5) [of "(finish_header p)\<lparr> header := h \<rparr>"] by (simp add: lines_effect_def finish_header_fields)
  }
qed (simp_all add: lines_effect_def finish_header_fields)

text \<open>The input in pieces, as the reads of a connection deliver it.\<close>

fun feed :: "Parser \<Rightarrow> string list \<Rightarrow> bool option \<times> Parser \<times> string" where
  "feed p [] = (None, p, [])"
| "feed p (xs # xss) = (case Parse p xs of
      (None, p, _) \<Rightarrow> feed p xss
    | (Some r, p, rest) \<Rightarrow> (Some r, p, rest @ concat xss))"


text \<open>
  C26: The parser accepts the text of every well-formed request, leaves what follows it, and fills in the URI, the last
  \<open>Referer\<close> and \<open>User-Agent\<close> headers, and the compression of the last \<open>Accept-Encoding\<close> header that names one.
\<close>

theorem Parse_request_text:
  assumes mth: "mth \<noteq> []" "list_all token mth" and u: "list_all uri_char u"
    and v: "major \<noteq> []" "list_all isDigit major" "minor \<noteq> []" "list_all isDigit minor" and hs: "list_all header_ok hs"
  shows "\<exists>p. Parse (RequestParser_new \<lparr> uri = [], referrer = [], agent = [] \<rparr> noCompression) (request_text mth u major minor hs @ rest) =
      (Some True, p, rest) \<and>
    req p = \<lparr> uri = u, referrer = last_value ''Referer'' hs [], agent = last_value ''User-Agent'' hs [] \<rparr> \<and>
    compression_type p = requested_compression hs noCompression"
proof -
  let ?p0 = "RequestParser_new \<lparr> uri = [], referrer = [], agent = [] \<rparr> noCompression"
  let ?p1 = "?p0\<lparr> pstate := uri_text \<rparr>"
  let ?p2 = "?p1\<lparr> pstate := http_version_h, req := (req ?p1)\<lparr> uri := uri (req ?p1) @ u \<rparr> \<rparr>"
  let ?p3 = "?p2\<lparr> pstate := header_line_start \<rparr>"
  let ?p4 = "lines_effect hs ?p3"
  let ?p5 = "(finish_header ?p4)\<lparr> pstate := expecting_newline_3 \<rparr>"
  let ?v = "''HTTP/'' @ major @ ''.'' @ minor @ CRLF"
  have "Parse ?p0 (request_text mth u major minor hs @ rest) =
      Parse ?p0 ((mth @ '' '') @ (u @ '' '') @ ?v @ concat (map header_text hs) @ CRLF @ rest)"
    by (simp add: request_text_def)
  also have "\<dots> = Parse ?p1 ((u @ '' '') @ ?v @ concat (map header_text hs) @ CRLF @ rest)"
    using mth by (intro Parse_go Parse_method) (simp_all add: RequestParser_new_def)
  also have "\<dots> = Parse ?p2 (?v @ concat (map header_text hs) @ CRLF @ rest)"
    using u by (intro Parse_go Parse_uri) simp_all
  also have "\<dots> = Parse ?p3 (concat (map header_text hs) @ CRLF @ rest)"
    using v by (intro Parse_go Parse_version) simp_all
  also have "\<dots> = Parse ?p4 (CRLF @ rest)"
    using hs by (intro Parse_go Parse_header_lines) simp_all
  also have "\<dots> = (Some True, ?p5, rest)" using lines_effect_fields(5) [of hs ?p3] by (simp add: consume_def Let_def)
  finally have "Parse ?p0 (request_text mth u major minor hs @ rest) = (Some True, ?p5, rest)" .
  moreover have "req ?p5 = \<lparr> uri = u, referrer = last_value ''Referer'' hs [], agent = last_value ''User-Agent'' hs [] \<rparr>"
    using lines_effect_fields(1-3) [of hs ?p3] by (simp add: RequestParser_new_def last_value_def)
  moreover have "compression_type ?p5 = requested_compression hs noCompression"
    using lines_effect_fields(4) [of hs ?p3] by (simp add: RequestParser_new_def requested_compression_def)
  ultimately show ?thesis by blast
qed

definition sample_headers :: "Header list" where
  "sample_headers = [\<lparr> h_name = ''Accept-Encoding'', h_value = ''deflate, gzip'' \<rparr>, \<lparr> h_name = ''Referer'', h_value = ''x'' \<rparr>]"

theorem Parse_request_text_witness:
  "\<exists>p. Parse (RequestParser_new \<lparr> uri = [], referrer = [], agent = [] \<rparr> noCompression) (request_text ''GET'' ''/hello'' ''1'' ''1'' sample_headers @ ''z'') =
      (Some True, p, ''z'') \<and> req p = \<lparr> uri = ''/hello'', referrer = ''x'', agent = [] \<rparr> \<and> compression_type p = gzipRFC1952"
proof -
  have c: "list_all token ''GET''" "list_all uri_char ''/hello''" "list_all isDigit ''1''" "list_all header_ok sample_headers"
    "last_value ''Referer'' sample_headers [] = ''x''" "last_value ''User-Agent'' sample_headers [] = []"
    "requested_compression sample_headers noCompression = gzipRFC1952" by code_simp+
  show ?thesis using Parse_request_text [OF _ c(1,2) _ c(3) _ c(3,4), of "''z''"] c(5-7) by simp
qed


end
