(* ===== verification/Polyline.thy ===== *)
theory Polyline
  imports Facade
begin

text \<open>
  Polyline encoding of route geometries (\<^verbatim>\<open>Algorithms/PolylineCompressor.cpp\<close>).  A number is zigzag
  encoded, cut into groups of five bits with a continuation bit and printed with the offset 63; a
  backslash is doubled.  Numbers are \<^verbatim>\<open>int\<close>s; the encoder is used on differences of coordinates, for
  which doubling does not overflow.
\<close>

section \<open>Segments\<close>

text \<open>Lengths are \<^verbatim>\<open>float\<close>s, of a type \<open>'f\<close>.\<close>

record 'f SegmentInformation =
  si_location :: FixedPointCoordinate
  si_name_id :: NodeID
  si_duration :: EdgeWeight
  si_length :: 'f
  si_bearing :: int
  si_turn_instruction :: TurnInstruction
  si_travel_mode :: TravelMode
  necessary :: bool
  is_via_location :: bool

definition SegmentInformation_via ::
  "FixedPointCoordinate \<Rightarrow> NodeID \<Rightarrow> EdgeWeight \<Rightarrow> 'f \<Rightarrow> TurnInstruction \<Rightarrow> bool \<Rightarrow> bool \<Rightarrow> TravelMode \<Rightarrow> 'f SegmentInformation" where
  "SegmentInformation_via loc n dur len turn nec via mode =
     \<lparr> si_location = loc, si_name_id = n, si_duration = dur, si_length = len, si_bearing = 0,
       si_turn_instruction = turn, si_travel_mode = mode, necessary = nec, is_via_location = via \<rparr>"

definition SegmentInformation_new ::
  "FixedPointCoordinate \<Rightarrow> NodeID \<Rightarrow> EdgeWeight \<Rightarrow> 'f \<Rightarrow> TurnInstruction \<Rightarrow> TravelMode \<Rightarrow> 'f SegmentInformation" where
  "SegmentInformation_new loc n dur len turn mode =
     \<lparr> si_location = loc, si_name_id = n, si_duration = dur, si_length = len, si_bearing = 0,
       si_turn_instruction = turn, si_travel_mode = mode,
       necessary = (turn \<noteq> NoTurn), is_via_location = False \<rparr>"

section \<open>The encoder\<close>

text \<open>\<^verbatim>\<open>number & 0x1f\<close> of a nonnegative number is its remainder, \<^verbatim>\<open>0x20 |\<close> adds the continuation bit.\<close>

function encodeNumber :: "int \<Rightarrow> string \<Rightarrow> string" where
  "encodeNumber number_to_encode output =
     (if number_to_encode \<ge> 32 then
        let next_value = (32 + number_to_encode mod 32) + 63;
            output = output @ [char_of (nat next_value)];
            output = (if 92 = next_value then output @ [char_of (nat next_value)] else output)
        in encodeNumber (number_to_encode div 32) output
      else
        let number_to_encode = number_to_encode + 63;
            output = output @ [char_of (nat number_to_encode)]
        in (if 92 = number_to_encode then output @ [char_of (nat number_to_encode)] else output))"
  by pat_completeness auto
termination by (relation "measure (\<lambda>(n, _). nat n)") auto

declare encodeNumber.simps [simp del]

text \<open>\<^verbatim>\<open><<= 1\<close>, then \<^verbatim>\<open>~\<close> of negative numbers.\<close>

definition zigzag :: "int \<Rightarrow> int" where
  "zigzag n = (let n = sbits 32 (2 * n) in if n < 0 then - n - 1 else n)"

definition encodeVectorSignedNumber :: "int list \<Rightarrow> string \<Rightarrow> string" where
  "encodeVectorSignedNumber numbers output = fold encodeNumber (map zigzag numbers) output"

fun delta_numbers :: "'f SegmentInformation list \<Rightarrow> FixedPointCoordinate \<Rightarrow> int list" where
  "delta_numbers [] last_coordinate = []"
| "delta_numbers (segment # ss) last_coordinate =
     (if necessary segment then
        (lat (si_location segment) - lat last_coordinate) # (lon (si_location segment) - lon last_coordinate) #
        delta_numbers ss (si_location segment)
      else delta_numbers ss last_coordinate)"

definition printEncodedString :: "'f SegmentInformation list \<Rightarrow> string" where
  "printEncodedString polyline =
     (if polyline \<noteq> [] then encodeVectorSignedNumber (delta_numbers polyline \<lparr> lat = 0, lon = 0 \<rparr>) '''' else '''')"

text \<open>
  \<open>printUnencodedString\<close> divides each coordinate by the precision; the floating point quotient is the
  parameter \<open>fdiv\<close>.
\<close>

fun printUnencodedString :: "(int \<Rightarrow> 'r) \<Rightarrow> 'f SegmentInformation list \<Rightarrow> 'r list list" where
  "printUnencodedString fdiv [] = []"
| "printUnencodedString fdiv (segment # ss) =
     (if necessary segment then
        [fdiv (lat (si_location segment)), fdiv (lon (si_location segment))] # printUnencodedString fdiv ss
      else printUnencodedString fdiv ss)"

section \<open>Decoding\<close>

fun unescape :: "string \<Rightarrow> string" where
  "unescape [] = []"
| "unescape [c] = [c]"
| "unescape (c # d # cs) = (if c = CHR 0x5C \<and> d = CHR 0x5C then c # unescape cs else c # unescape (d # cs))"

fun read_number :: "string \<Rightarrow> (int \<times> string) option" where
  "read_number [] = None"
| "read_number (c # cs) = (let v = int (of_char c) - 63 in
     if v < 32 then Some (v, cs)
     else do { (r, rest) \<leftarrow> read_number cs; Some (v - 32 + 32 * r, rest) })"

definition unzigzag :: "int \<Rightarrow> int" where
  "unzigzag n = (if even n then n div 2 else - (n div 2) - 1)"

fun read_points :: "nat \<Rightarrow> int \<times> int \<Rightarrow> string \<Rightarrow> int list list option" where
  "read_points 0 prev cs = (if cs = [] then Some [] else None)"
| "read_points (Suc n) prev cs = do {
     (x, cs) \<leftarrow> read_number cs;
     (y, cs) \<leftarrow> read_number cs;
     let p = (fst prev + unzigzag x, snd prev + unzigzag y);
     ps \<leftarrow> read_points n p cs;
     Some ([fst p, snd p] # ps)
   }"

section \<open>Round trip\<close>

text \<open>The digits of a number without the doubling of backslashes.\<close>

function digits5 :: "int \<Rightarrow> string" where
  "digits5 n = (if n \<ge> 32 then char_of (nat (32 + n mod 32 + 63)) # digits5 (n div 32) else [char_of (nat (n + 63))])"
  by pat_completeness auto
termination by (relation "measure nat") auto

declare digits5.simps [simp del]

fun double :: "string \<Rightarrow> string" where
  "double [] = []"
| "double (c # cs) = (if c = CHR 0x5C then c # c # double cs else c # double cs)"

lemma double_append: "double (xs @ ys) = double xs @ double ys"
  by (induction xs) auto

lemma unescape_double: "unescape (double cs) = cs"
proof (induction cs)
  case (Cons c cs)
  show ?case
  proof (cases "c = CHR 0x5C")
    case False
    then show ?thesis using Cons by (cases "double cs") auto
  qed (use Cons in simp)
qed simp

lemma char_backslash: "0 \<le> n \<Longrightarrow> n < 256 \<Longrightarrow> char_of (nat n) = CHR 0x5C \<longleftrightarrow> n = 92"
proof -
  assume n: "0 \<le> n" "n < 256"
  have "of_char (char_of (nat n) :: char) = nat n" using n by simp
  moreover have "of_char (CHR 0x5C) = (92 :: nat)" by simp
  ultimately have "char_of (nat n) = CHR 0x5C \<longleftrightarrow> nat n = 92" by (metis char_of_char)
  then show ?thesis using n by auto
qed

lemma encodeNumber_digits: "0 \<le> n \<Longrightarrow> encodeNumber n acc = acc @ double (digits5 n)"
proof (induction n acc rule: encodeNumber.induct)
  case (1 n acc)
  show ?case
  proof (cases "n \<ge> 32")
    case True
    let ?v = "32 + n mod 32 + 63"
    have v: "?v < 256" "0 \<le> ?v" "?v \<noteq> 92" using pos_mod_bound [of 32 n] pos_mod_sign [of 32 n] by linarith+
    have "encodeNumber n acc = encodeNumber (n div 32) (acc @ [char_of (nat ?v)])"
      by (subst encodeNumber.simps) (use True v(3) in \<open>simp add: Let_def\<close>)
    also have "\<dots> = (acc @ [char_of (nat ?v)]) @ double (digits5 (n div 32))"
      using 1(1) [OF True refl refl refl] v(3) True by simp
    also have "\<dots> = acc @ double (digits5 n)"
      using char_backslash [OF v(2,1)] v(3) True by (subst (2) digits5.simps) simp
    finally show ?thesis .
  next
    case False
    then have v: "0 \<le> n + 63" "n + 63 < 256" using "1.prems" by simp_all
    show ?thesis
      by (subst encodeNumber.simps, subst digits5.simps) (use False char_backslash [OF v] in \<open>auto simp: Let_def\<close>)
  qed
qed

lemma read_digits: "0 \<le> n \<Longrightarrow> read_number (digits5 n @ rest) = Some (n, rest)"
proof (induction n rule: digits5.induct)
  case (1 n)
  show ?case
  proof (cases "n \<ge> 32")
    case True
    let ?v = "32 + n mod 32 + 63"
    have v: "?v < 256" "0 \<le> ?v" "?v - 63 \<ge> 32" using pos_mod_bound [of 32 n] pos_mod_sign [of 32 n] by linarith+
    have c: "int (of_char (char_of (nat ?v) :: char)) = ?v" using v by simp
    have "read_number (digits5 (n div 32) @ rest) = Some (n div 32, rest)" using 1 True by simp
    moreover have "digits5 n = char_of (nat ?v) # digits5 (n div 32)" using True by (subst digits5.simps) simp
    ultimately show ?thesis using c pos_mod_sign [of 32 n] by (simp add: Let_def not_less del: of_char_of pos_mod_sign)
  next
    case False
    then have "int (of_char (char_of (nat (n + 63)) :: char)) = n + 63" using "1.prems" by simp
    then show ?thesis using False by (subst digits5.simps) (simp add: Let_def)
  qed
qed

lemma zigzag_inverse:
  assumes "- (2 ^ 30) \<le> n" "n < 2 ^ 30"
  shows "0 \<le> zigzag n" "unzigzag (zigzag n) = n"
proof -
  have "sbits 32 (2 * n) = 2 * n" using assms by (simp add: sbits_def)
  then show "0 \<le> zigzag n" "unzigzag (zigzag n) = n" by (auto simp: zigzag_def unzigzag_def Let_def)
qed

lemma encode_digits:
  "\<forall>n \<in> set ns. - (2 ^ 30) \<le> n \<and> n < 2 ^ 30 \<Longrightarrow>
   encodeVectorSignedNumber ns acc = acc @ double (concat (map (digits5 \<circ> zigzag) ns))"
proof (induction ns arbitrary: acc)
  case (Cons n ns)
  have "encodeNumber (zigzag n) acc = acc @ double (digits5 (zigzag n))"
    using Cons.prems zigzag_inverse(1) by (simp add: encodeNumber_digits)
  then show ?case using Cons by (simp add: encodeVectorSignedNumber_def double_append)
qed (simp add: encodeVectorSignedNumber_def)

definition small_point :: "FixedPointCoordinate \<Rightarrow> bool" where
  "small_point c \<longleftrightarrow> \<bar>lat c\<bar> < 2 ^ 29 \<and> \<bar>lon c\<bar> < 2 ^ 29"

lemma delta_numbers_bound:
  assumes "small_point prev" "\<forall>s \<in> set ss. necessary s \<longrightarrow> small_point (si_location s)"
  shows "\<forall>n \<in> set (delta_numbers ss prev). - (2 ^ 30) \<le> n \<and> n < 2 ^ 30"
  using assms by (induction ss prev rule: delta_numbers.induct) (auto simp: small_point_def)

lemma read_points_digits:
  assumes "small_point prev" "\<forall>s \<in> set ss. necessary s \<longrightarrow> small_point (si_location s)"
  shows "read_points (length (printUnencodedString (\<lambda>x. x) ss)) (lat prev, lon prev)
           (concat (map (digits5 \<circ> zigzag) (delta_numbers ss prev))) = Some (printUnencodedString (\<lambda>x. x) ss)"
  using assms
proof (induction ss prev rule: delta_numbers.induct)
  case (2 s ss prev)
  show ?case
  proof (cases "necessary s")
    case True
    have b: "- (2 ^ 30) \<le> lat (si_location s) - lat prev" "lat (si_location s) - lat prev < 2 ^ 30"
      "- (2 ^ 30) \<le> lon (si_location s) - lon prev" "lon (si_location s) - lon prev < 2 ^ 30"
      using 2(3,4) True by (auto simp: small_point_def)
    show ?thesis using 2(1) [OF True] 2(4) True
      by (simp add: read_digits zigzag_inverse [OF b(1,2)] zigzag_inverse [OF b(3,4)] Let_def)
  next
    case False
    then show ?thesis using 2 by simp
  qed
qed simp

lemma valid_small: "isValid c \<Longrightarrow> small_point c"
  using isValid_bounds [of c] by (simp add: small_point_def)

text \<open>C29: the encoded string of a route geometry decodes to exactly the points that the unencoded
  geometry lists: for every list of segments whose necessary points are valid coordinates, undoing
  the doubling of backslashes and reading the zigzag encoded differences back yields the latitudes and
  longitudes whose quotients \<open>printUnencodedString\<close> lists, and nothing is left over.\<close>

theorem printEncodedString_roundtrip:
  assumes "\<forall>s \<in> set polyline. necessary s \<longrightarrow> isValid (si_location s)"
  shows "read_points (length (printUnencodedString (\<lambda>x. x) polyline)) (0, 0) (unescape (printEncodedString polyline)) =
         Some (printUnencodedString (\<lambda>x. x) polyline)"
proof -
  let ?o = "\<lparr> lat = 0, lon = 0 \<rparr>"
  have o: "small_point ?o" by (simp add: small_point_def)
  have ss: "\<forall>s \<in> set polyline. necessary s \<longrightarrow> small_point (si_location s)" using assms valid_small by blast
  have "printEncodedString polyline = double (concat (map (digits5 \<circ> zigzag) (delta_numbers polyline ?o)))"
    using encode_digits [OF delta_numbers_bound [OF o ss], of "''''"] by (auto simp: printEncodedString_def)
  then show ?thesis using read_points_digits [OF o ss] by (simp add: unescape_double)
qed
theorem printEncodedString_roundtrip_witness:
  "let pl = [SegmentInformation_new \<lparr> lat = 43731000, lon = 7419758 \<rparr> 0 1 (1 :: rat) HeadOn 1,
             SegmentInformation_new \<lparr> lat = 43731015, lon = 7419700 \<rparr> 0 1 1 NoTurn 1,
             SegmentInformation_new \<lparr> lat = 43730986, lon = 7419758 \<rparr> 0 1 1 ReachedYourDestination 1]
   in read_points (length (printUnencodedString (\<lambda>x. x) pl)) (0, 0) (unescape (printEncodedString pl)) =
      Some [[43731000, 7419758], [43730986, 7419758]]"
  unfolding Let_def by (subst printEncodedString_roundtrip) (simp_all add: SegmentInformation_new_def isValid_def float_of_int_def round_even_def)

end
