(* ===== verification/Hilbert.thy ===== *)
theory Hilbert
  imports Coordinates "HOL-Library.Word"
begin

text \<open>
  The Hilbert code by which the spatial index orders its elements (\<^verbatim>\<open>DataStructures/HilbertValue.cpp\<close>):
  the transposition of a pair of 32 bit numbers and the interleaving of their bits, on machine words.
\<close>

unbundle bit_operations_syntax

section \<open>The code\<close>


text \<open>One round of the loop of \<open>BitInterleaving\<close>, then the loop for \<open>index = n - 1, \<dots>, 0\<close>.\<close>

definition interleave_step :: "u32 \<Rightarrow> u32 \<Rightarrow> nat \<Rightarrow> u64 \<Rightarrow> u64" where
  "interleave_step latitude longitude index result =
     (let result = result OR ucast ((drop_bit index latitude) AND 1);
          result = push_bit 1 result;
          result = result OR ucast ((drop_bit index longitude) AND 1)
      in if 0 \<noteq> index then push_bit 1 result else result)"

fun interleave_loop :: "u32 \<Rightarrow> u32 \<Rightarrow> nat \<Rightarrow> u64 \<Rightarrow> u64" where
  "interleave_loop latitude longitude 0 result = result"
| "interleave_loop latitude longitude (Suc index) result =
     interleave_loop latitude longitude index (interleave_step latitude longitude index result)"

definition BitInterleaving :: "u32 \<Rightarrow> u32 \<Rightarrow> u64" where
  "BitInterleaving latitude longitude = interleave_loop latitude longitude 32 0"

text \<open>The two rounds \<open>i = 0\<close> and \<open>i = 1\<close> of the inner loop of \<open>TransposeCoordinate\<close>, where \<open>Q\<close> is
  \<open>2 ^ k\<close>.\<close>

definition undo_fst :: "nat \<Rightarrow> u32 \<times> u32 \<Rightarrow> u32 \<times> u32" where
  "undo_fst k X = (let Q = 2 ^ k; P = Q - 1 in
     if fst X AND Q \<noteq> 0 then (fst X XOR P, snd X)
     else let t = (fst X XOR fst X) AND P in (fst X XOR t XOR t, snd X))"

definition undo_snd :: "nat \<Rightarrow> u32 \<times> u32 \<Rightarrow> u32 \<times> u32" where
  "undo_snd k X = (let Q = 2 ^ k; P = Q - 1 in
     if snd X AND Q \<noteq> 0 then (fst X XOR P, snd X)
     else let t = (fst X XOR snd X) AND P in (fst X XOR t, snd X XOR t))"

text \<open>\<open>Q\<close> runs through \<open>2 ^ 31, \<dots>, 2 ^ 1\<close>.\<close>

fun undo_loop :: "nat \<Rightarrow> u32 \<times> u32 \<Rightarrow> u32 \<times> u32" where
  "undo_loop 0 X = X"
| "undo_loop (Suc k) X = undo_loop k (undo_snd (Suc k) (undo_fst (Suc k) X))"

fun gray_mask :: "nat \<Rightarrow> u32 \<Rightarrow> u32 \<Rightarrow> u32" where
  "gray_mask 0 x t = t"
| "gray_mask (Suc k) x t = gray_mask k x (if x AND 2 ^ Suc k \<noteq> 0 then t XOR (2 ^ Suc k - 1) else t)"

definition TransposeCoordinate :: "u32 \<times> u32 \<Rightarrow> u32 \<times> u32" where
  "TransposeCoordinate X =
     (let X = undo_loop 31 X;
          X = (fst X, snd X XOR fst X);
          t = gray_mask 31 (snd X) 0
      in (fst X XOR t, snd X XOR t))"

definition HilbertCode :: "FixedPointCoordinate \<Rightarrow> u64" where
  "HilbertCode c =
     (let location = (word_of_int (lat c + 90 * 1000000), word_of_int (lon c + 180 * 1000000));
          location = TransposeCoordinate location
      in BitInterleaving (fst location) (snd location))"

section \<open>Bits of masks\<close>

lemma bit_and_power: "k < 32 \<Longrightarrow> (x :: u32) AND 2 ^ k \<noteq> 0 \<longleftrightarrow> bit x k"
  by (simp add: and_exp_eq_0_iff_not_bit)

lemma bit_low_mask: "k < 32 \<Longrightarrow> bit (2 ^ k - 1 :: u32) n \<longleftrightarrow> n < k"
  by (auto simp: mask_eq_exp_minus_1 [symmetric] bit_mask_iff)

lemma xor_cancel: "(a :: u32) XOR c = b XOR c \<longleftrightarrow> a = b"
proof
  assume "a XOR c = b XOR c"
  then have "(a XOR c) XOR c = (b XOR c) XOR c" by simp
  then show "a = b" by (simp add: xor.assoc)
qed simp

lemma undo_involution:
  assumes "k < 32"
  shows "undo_fst k (undo_fst k X) = X" "undo_snd k (undo_snd k X) = X"
proof -
  let ?P = "2 ^ k - 1 :: u32"
  have f: "bit (x XOR ?P) k = bit x k" for x :: u32 using assms by (simp add: bit_xor_iff bit_low_mask)
  have g: "bit (x XOR ((x XOR y) AND ?P)) k = bit x k" for x y :: u32
    using assms by (simp add: bit_xor_iff bit_and_iff bit_low_mask)
  have s: "bit (y XOR ((x XOR y) AND ?P)) k = bit y k" for x y :: u32
    using assms by (simp add: bit_xor_iff bit_and_iff bit_low_mask)
  show "undo_fst k (undo_fst k X) = X"
    by (cases X) (auto simp: undo_fst_def Let_def bit_and_power [OF assms] f xor.assoc)
  have swap: "x XOR ((x XOR y) AND ?P) XOR ((x XOR ((x XOR y) AND ?P) XOR (y XOR ((x XOR y) AND ?P))) AND ?P) = x" 
    "y XOR ((x XOR y) AND ?P) XOR ((x XOR ((x XOR y) AND ?P) XOR (y XOR ((x XOR y) AND ?P))) AND ?P) = y" for x y :: u32
    by (auto intro!: bit_eqI simp: bit_xor_iff bit_and_iff)
  show "undo_snd k (undo_snd k X) = X"
    by (cases X) (auto simp: undo_snd_def Let_def bit_and_power [OF assms] s swap xor.assoc)
qed

lemma undo_loop_inj: "k < 32 \<Longrightarrow> undo_loop k X = undo_loop k Y \<Longrightarrow> X = Y"
proof (induction k arbitrary: X Y)
  case (Suc k)
  then have "undo_snd (Suc k) (undo_fst (Suc k) X) = undo_snd (Suc k) (undo_fst (Suc k) Y)" by simp
  then show ?case by (metis undo_involution Suc.prems(1))
qed simp

lemma bit_gray_mask:
  "k < 32 \<Longrightarrow> bit (gray_mask k x t) n \<longleftrightarrow> (bit t n \<noteq> odd (card {j. n < j \<and> j \<le> k \<and> bit x j}))"
proof (induction k arbitrary: t)
  case (Suc k)
  have fin: "finite {j. n < j \<and> j \<le> k \<and> bit x j}" by (rule finite_subset [of _ "{..k}"]) auto
  have "{j. n < j \<and> j \<le> Suc k \<and> bit x j} =
      (if n < Suc k \<and> bit x (Suc k) then insert (Suc k) {j. n < j \<and> j \<le> k \<and> bit x j} else {j. n < j \<and> j \<le> k \<and> bit x j})"
    by (auto simp: le_Suc_eq)
  then have "card {j. n < j \<and> j \<le> Suc k \<and> bit x j} =
      (if n < Suc k \<and> bit x (Suc k) then Suc (card {j. n < j \<and> j \<le> k \<and> bit x j}) else card {j. n < j \<and> j \<le> k \<and> bit x j})"
    using fin by simp
  then show ?case using Suc bit_low_mask [of "Suc k" n] bit_and_power [of "Suc k" x]
    by (auto simp: bit_xor_iff simp del: power_Suc)
next
  case 0
  have "{j. n < j \<and> j \<le> 0 \<and> bit x j} = {}" by auto
  then show ?case by (simp only: gray_mask.simps card.empty) simp
qed

text \<open>The mask is recovered from the masked number: adjacent bits of the result differ by one bit of
  the argument.\<close>

lemma gray_inverse:
  fixes x :: u32
  defines "y \<equiv> x XOR gray_mask 31 x 0"
  shows "x = y XOR drop_bit 1 y"
proof (rule bit_eqI)
  fix n
  have y: "bit y m \<longleftrightarrow> odd (card {j. m \<le> j \<and> j \<le> 31 \<and> bit x j})" if "m < 32" for m
  proof -
    have fin: "finite {j. m < j \<and> j \<le> 31 \<and> bit x j}" by (rule finite_subset [of _ "{..31}"]) auto
    have "{j. m \<le> j \<and> j \<le> 31 \<and> bit x j} =
        (if bit x m then insert m {j. m < j \<and> j \<le> 31 \<and> bit x j} else {j. m < j \<and> j \<le> 31 \<and> bit x j})"
      using that by (auto simp: le_less)
    then show ?thesis using fin by (auto simp: y_def bit_xor_iff bit_gray_mask)
  qed
  show "bit x n = bit (y XOR drop_bit 1 y) n"
  proof (cases "n < 32")
    case True
    have "bit x n \<longleftrightarrow> bit y n \<noteq> odd (card {j. Suc n \<le> j \<and> j \<le> 31 \<and> bit x j})"
      by (auto simp: y_def bit_xor_iff bit_gray_mask less_eq_Suc_le)
    moreover have "bit y (Suc n) \<longleftrightarrow> odd (card {j. Suc n \<le> j \<and> j \<le> 31 \<and> bit x j})"
    proof (cases "Suc n < 32")
      case False
      then have "{j. Suc n \<le> j \<and> j \<le> 31 \<and> bit x j} = {}" "\<not> bit y (Suc n)" 
        using bit_imp_le_length [of y "Suc n"] by auto
      then show ?thesis by (simp only: card.empty) simp
    qed (rule y)
    ultimately show ?thesis by (simp add: bit_xor_iff bit_drop_bit_eq)
  next
    case False
    then show ?thesis using bit_imp_le_length [of _ n] bit_imp_le_length [of y "Suc n"]
      by (auto simp: bit_xor_iff bit_drop_bit_eq dest!: bit_imp_le_length)
  qed
qed

lemma TransposeCoordinate_inj:
  assumes "TransposeCoordinate X = TransposeCoordinate Y"
  shows "X = Y"
proof -
  let ?U = "undo_loop 31 X" and ?V = "undo_loop 31 Y"
  let ?u = "snd ?U XOR fst ?U" and ?v = "snd ?V XOR fst ?V"
  have "?u XOR gray_mask 31 ?u 0 = ?v XOR gray_mask 31 ?v 0"
    and f: "fst ?U XOR gray_mask 31 ?u 0 = fst ?V XOR gray_mask 31 ?v 0"
    using assms by (simp_all add: TransposeCoordinate_def Let_def)
  then have u: "?u = ?v" using gray_inverse [of ?u] gray_inverse [of ?v] by simp
  then have ff: "fst ?U = fst ?V" using f xor_cancel by simp
  then have "snd ?U = snd ?V" using u by (simp add: xor_cancel)
  then show ?thesis using undo_loop_inj [of 31 X Y] ff by (simp add: prod_eq_iff)
qed

section \<open>Interleaving\<close>

text \<open>The bit at position \<open>m\<close> of the interleaved number.\<close>

definition woven :: "u32 \<Rightarrow> u32 \<Rightarrow> nat \<Rightarrow> bool" where
  "woven x y m \<longleftrightarrow> m < 64 \<and> (if odd m then bit x (m div 2) else bit y (m div 2))"

lemma bit_lowest: "k < 32 \<Longrightarrow> bit (ucast (drop_bit k (x :: u32) AND 1) :: u64) n \<longleftrightarrow> n = 0 \<and> bit x k"
  by (auto simp: bit_unsigned_iff bit_and_iff bit_drop_bit_eq bit_1_iff)

lemma bit_interleave_step:
  assumes "k < 32" "\<And>n. bit R n \<longleftrightarrow> 1 \<le> n \<and> woven x y (n + 1 + 2 * k)"
  shows "bit (interleave_step x y k R) n \<longleftrightarrow>
         (if k = 0 then woven x y n else 1 \<le> n \<and> woven x y (n - 1 + 2 * k))"
proof -
  let ?S = "push_bit 1 (R OR ucast (drop_bit k x AND 1)) OR (ucast (drop_bit k y AND 1) :: u64)"
  have S0: "bit ?S m \<longleftrightarrow> 1 \<le> m \<and> m < 64 \<and> (bit R (m - 1) \<or> m - 1 = 0 \<and> bit x k) \<or> m = 0 \<and> bit y k" for m
    unfolding bit_or_iff bit_push_bit_iff bit_lowest [OF assms(1)] by simp
  have S: "bit ?S m \<longleftrightarrow> woven x y (m + 2 * k)" for m
  proof (cases "m < 2")
    case True
    then have "m = 0 \<or> m = 1" by auto
    then show ?thesis using assms(1) unfolding S0 by (auto simp: assms(2) woven_def)
  next
    case False
    then show ?thesis unfolding S0 by (auto simp: assms(2) woven_def)
  qed
  have step: "interleave_step x y k R = (if k = 0 then ?S else push_bit 1 ?S)"
    by (simp only: interleave_step_def Let_def) simp
  show ?thesis
  proof (cases "k = 0")
    case True
    then show ?thesis using S [of n] unfolding step by (simp only: if_True mult_0_right add_0_right simp_thms)
  next
    case False
    then have "bit (interleave_step x y k R) n \<longleftrightarrow> 1 \<le> n \<and> n < 64 \<and> woven x y (n - 1 + 2 * k)"
      unfolding step by (simp only: if_False bit_push_bit_iff S) simp
    then show ?thesis using False by (auto simp: woven_def)
  qed
qed

lemma bit_interleave_loop:
  assumes "k < 32" "\<And>n. bit R n \<longleftrightarrow> 1 \<le> n \<and> woven x y (n + 1 + 2 * k)"
  shows "bit (interleave_loop x y (Suc k) R) n \<longleftrightarrow> woven x y n"
  using assms
proof (induction k arbitrary: R)
  case 0
  then show ?case using bit_interleave_step [of 0 R x y n] by simp
next
  case (Suc k)
  have "bit (interleave_step x y (Suc k) R) m \<longleftrightarrow> 1 \<le> m \<and> woven x y (m + 1 + 2 * k)" for m
    using bit_interleave_step [OF Suc.prems, of m] by (cases m) auto
  then show ?case using Suc.IH [of "interleave_step x y (Suc k) R"] Suc.prems(1) by simp
qed

lemma bit_BitInterleaving: "bit (BitInterleaving x y) n \<longleftrightarrow> woven x y n"
proof -
  have "bit (0 :: u64) m \<longleftrightarrow> 1 \<le> m \<and> woven x y (m + 1 + 2 * 31)" for m by (auto simp: woven_def)
  then have "bit (interleave_loop x y (Suc 31) 0) n \<longleftrightarrow> woven x y n" by (intro bit_interleave_loop) simp_all
  moreover have "Suc 31 = 32" by simp
  ultimately show ?thesis unfolding BitInterleaving_def by (simp only:)
qed

lemma BitInterleaving_inj:
  assumes "BitInterleaving x y = BitInterleaving x' y'"
  shows "x = x'" "y = y'"
proof -
  have w: "woven x y n = woven x' y' n" for n using assms bit_BitInterleaving by metis
  show "x = x'"
  proof (rule bit_word_eqI)
    fix n assume "n < LENGTH(32)"
    then show "bit x n = bit x' n" using w [of "2 * n + 1"] by (simp add: woven_def)
  qed
  show "y = y'"
  proof (rule bit_word_eqI)
    fix n assume "n < LENGTH(32)"
    then show "bit y n = bit y' n" using w [of "2 * n"] by (simp add: woven_def)
  qed
qed

lemma mod_close_eq:
  fixes a b m :: int
  assumes "a mod m = b mod m" "\<bar>a - b\<bar> < m"
  shows "a = b"
  using assms zdvd_not_zless [of "\<bar>a - b\<bar>" m] by (auto simp: mod_eq_dvd_iff)

text \<open>C30: the Hilbert code does not identify different places: two valid coordinates with the same code
  are equal, so ordering by the code is a total order on them.\<close>

theorem HilbertCode_injective:
  assumes "isValid c" "isValid d"
  shows "HilbertCode c = HilbertCode d \<longleftrightarrow> c = (d :: FixedPointCoordinate)"
proof
  assume eq: "HilbertCode c = HilbertCode d"
  let ?loc = "\<lambda>c. (word_of_int (lat c + 90 * 1000000), word_of_int (lon c + 180 * 1000000)) :: u32 \<times> u32"
  have "TransposeCoordinate (?loc c) = TransposeCoordinate (?loc d)"
    using BitInterleaving_inj [of "fst (TransposeCoordinate (?loc c))"] eq
    by (auto simp: HilbertCode_def Let_def prod_eq_iff)
  then have "?loc c = ?loc d" by (rule TransposeCoordinate_inj)
  then have "lat c mod 2 ^ 32 = lat d mod 2 ^ 32" "lon c mod 2 ^ 32 = lon d mod 2 ^ 32"
    by (simp_all add: word_of_int_eq_iff take_bit_eq_mod)
  moreover have "\<bar>lat c - lat d\<bar> < 2 ^ 32" "\<bar>lon c - lon d\<bar> < 2 ^ 32"
    using isValid_bounds [OF assms(1)] isValid_bounds [OF assms(2)] by auto
  ultimately have "lat c = lat d" "lon c = lon d" by (blast intro: mod_close_eq)+
  then show "c = d" by simp
qed simp

theorem HilbertCode_injective_witness:
  "HilbertCode \<lparr> lat = 43731000, lon = 7419758 \<rparr> \<noteq> HilbertCode \<lparr> lat = 43731000, lon = 7419759 \<rparr>"
  by (subst HilbertCode_injective) (simp_all add: isValid_def float_of_int_def round_even_def)

end
