(* ===== verification/Geometry_Compressor.thy ===== *)
theory Geometry_Compressor
  imports Facade
begin

text \<open>
  Geometry compression (\<^verbatim>\<open>Contractor/GeometryCompressor.cpp\<close>): when the edge-based graph factory removes
  a node of degree two, the nodes and weights of the two merged edges are kept in a bucket of the
  surviving edge.  Buckets are slots of one vector, recycled through a free list.  The model is
  refined to a finite map from edges to geometries, and its serialised form is read back through the
  data facade.
\<close>

section \<open>State and operations\<close>

type_synonym CompressedNode = "NodeID \<times> EdgeWeight"

record GeometryCompressor =
  m_compressed_geometries :: "CompressedNode list list"
  m_free_list :: "nat list"
  m_edge_id_to_list_index_map :: "EdgeID \<rightharpoonup> nat"

text \<open>\<^verbatim>\<open>free_list_maximum\<close> is a global variable of the program; the operations that use it return its new
  value.\<close>

definition IncreaseFreeList :: "GeometryCompressor \<Rightarrow> nat \<Rightarrow> GeometryCompressor \<times> nat" where
  "IncreaseFreeList c free_list_maximum =
     (c\<lparr> m_compressed_geometries := m_compressed_geometries c @ replicate 100 [],
         m_free_list := m_free_list c @ irange free_list_maximum (free_list_maximum + 100) \<rparr>,
      free_list_maximum + 100)"

definition GeometryCompressor_new :: "nat \<Rightarrow> GeometryCompressor \<times> nat" where
  "GeometryCompressor_new free_list_maximum =
     IncreaseFreeList \<lparr> m_compressed_geometries = [], m_free_list = [], m_edge_id_to_list_index_map = Map.empty \<rparr>
       free_list_maximum"

definition HasEntryForID :: "GeometryCompressor \<Rightarrow> EdgeID \<Rightarrow> bool" where
  "HasEntryForID c edge_id \<longleftrightarrow> m_edge_id_to_list_index_map c edge_id \<noteq> None"

definition GetPositionForID :: "GeometryCompressor \<Rightarrow> EdgeID \<Rightarrow> nat option" where
  "GetPositionForID c edge_id = do {
     index \<leftarrow> m_edge_id_to_list_index_map c edge_id;
     assert_that (index < length (m_compressed_geometries c));
     Some index
   }"

text \<open>The first part of \<open>CompressEdge\<close>: a slot for an edge without an entry.\<close>

definition take_slot :: "GeometryCompressor \<Rightarrow> nat \<Rightarrow> EdgeID \<Rightarrow> GeometryCompressor \<times> nat" where
  "take_slot c free_list_maximum edge_id_1 =
     (if \<not> HasEntryForID c edge_id_1 then
        let (c, free_list_maximum) =
              (if 0 = length (m_free_list c) then IncreaseFreeList c free_list_maximum else (c, free_list_maximum))
        in (c\<lparr> m_edge_id_to_list_index_map := (m_edge_id_to_list_index_map c)(edge_id_1 \<mapsto> last (m_free_list c)),
               m_free_list := butlast (m_free_list c) \<rparr>, free_list_maximum)
      else (c, free_list_maximum))"

text \<open>Appending a list to itself through iterators is undefined, hence the check that the two buckets
  differ.\<close>

definition CompressEdge ::
  "GeometryCompressor \<Rightarrow> nat \<Rightarrow> EdgeID \<Rightarrow> EdgeID \<Rightarrow> NodeID \<Rightarrow> NodeID \<Rightarrow> EdgeWeight \<Rightarrow> EdgeWeight \<Rightarrow>
   (GeometryCompressor \<times> nat) option" where
  "CompressEdge c free_list_maximum edge_id_1 edge_id_2 via_node_id target_node_id weight1 weight2 = do {
     assert_that (SPECIAL_EDGEID \<noteq> edge_id_1);
     assert_that (SPECIAL_EDGEID \<noteq> edge_id_2);
     assert_that (SPECIAL_NODEID \<noteq> via_node_id);
     assert_that (SPECIAL_NODEID \<noteq> target_node_id);
     assert_that (INVALID_EDGE_WEIGHT \<noteq> weight1);
     assert_that (INVALID_EDGE_WEIGHT \<noteq> weight2);
     let (c, free_list_maximum) = take_slot c free_list_maximum edge_id_1;
     edge_bucket_id1 \<leftarrow> GetPositionForID c edge_id_1;
     geometries \<leftarrow> vec_upd (m_compressed_geometries c) edge_bucket_id1
                    (\<lambda>l. if l = [] then l @ [(via_node_id, weight1)] else l);
     if HasEntryForID c edge_id_2 then do {
       list_to_remove_index \<leftarrow> GetPositionForID c edge_id_2;
       edge_bucket_list2 \<leftarrow> vec_at geometries list_to_remove_index;
       assert_that (edge_bucket_id1 \<noteq> list_to_remove_index);
       geometries \<leftarrow> vec_upd geometries edge_bucket_id1 (\<lambda>l. l @ edge_bucket_list2);
       geometries \<leftarrow> vec_upd geometries list_to_remove_index (\<lambda>_. []);
       Some (c\<lparr> m_compressed_geometries := geometries,
                m_edge_id_to_list_index_map := (m_edge_id_to_list_index_map c)(edge_id_2 := None),
                m_free_list := m_free_list c @ [list_to_remove_index] \<rparr>, free_list_maximum)
     } else do {
       geometries \<leftarrow> vec_upd geometries edge_bucket_id1 (\<lambda>l. l @ [(target_node_id, weight2)]);
       Some (c\<lparr> m_compressed_geometries := geometries \<rparr>, free_list_maximum)
     }
   }"

definition GetBucketReference :: "GeometryCompressor \<Rightarrow> EdgeID \<Rightarrow> CompressedNode list option" where
  "GetBucketReference c edge_id = do {
     index \<leftarrow> m_edge_id_to_list_index_map c edge_id;
     vec_at (m_compressed_geometries c) index
   }"

definition GetFirstNodeIDOfBucket :: "GeometryCompressor \<Rightarrow> EdgeID \<Rightarrow> NodeID option" where
  "GetFirstNodeIDOfBucket c edge_id = do {
     bucket \<leftarrow> GetBucketReference c edge_id;
     assert_that (length bucket \<ge> 2);
     node \<leftarrow> vec_at bucket 1;
     Some (fst node)
   }"

definition GetLastNodeIDOfBucket :: "GeometryCompressor \<Rightarrow> EdgeID \<Rightarrow> NodeID option" where
  "GetLastNodeIDOfBucket c edge_id = do {
     bucket \<leftarrow> GetBucketReference c edge_id;
     assert_that (length bucket \<ge> 2);
     node \<leftarrow> vec_at bucket (length bucket - 2);
     Some (fst node)
   }"

text \<open>The prefix sums are \<^verbatim>\<open>unsigned\<close> and wrap.\<close>

fun prefix_sums :: "nat \<Rightarrow> CompressedNode list list \<Rightarrow> nat list" where
  "prefix_sums prefix_sum_of_list_indices [] = [prefix_sum_of_list_indices]"
| "prefix_sums prefix_sum_of_list_indices (elem # es) =
     prefix_sum_of_list_indices # prefix_sums ((prefix_sum_of_list_indices + length elem) mod 2 ^ 32) es"

definition SerializeInternalVector :: "GeometryCompressor \<Rightarrow> nat list option" where
  "SerializeInternalVector c = do {
     let compressed_geometries = (length (m_compressed_geometries c) + 1) mod 2 ^ 32;
     assert_that (2 ^ 32 - 1 \<noteq> compressed_geometries);
     let indices = prefix_sums 0 (m_compressed_geometries c);
     assert_that (list_all (\<lambda>elem. 2 ^ 32 - 1 \<noteq> length elem mod 2 ^ 32) (m_compressed_geometries c));
     let control_sum = fold (\<lambda>elem s. (s + length elem) mod 2 ^ 32) (m_compressed_geometries c) 0;
     assert_that (control_sum = last indices);
     Some (bytes32 compressed_geometries @ concat (map bytes32 indices) @ bytes32 (last indices) @
           concat (map (\<lambda>elem. concat (map (\<lambda>current_node. bytes32 (fst current_node)) elem)) (m_compressed_geometries c)))
   }"

text \<open>The figures that \<open>PrintStatistics\<close> logs.\<close>

definition PrintStatistics :: "GeometryCompressor \<Rightarrow> (nat \<times> nat \<times> nat) option" where
  "PrintStatistics c = do {
     let compressed_edges = length (m_compressed_geometries c);
     assert_that (compressed_edges mod 2 = 0);
     assert_that (length (m_compressed_geometries c) + length (m_free_list c) > 0);
     Some (compressed_edges,
           fold (\<lambda>current_vector n. n + length current_vector) (m_compressed_geometries c) 0,
           fold (\<lambda>current_vector n. max n (length current_vector)) (m_compressed_geometries c) 0)
   }"

section \<open>Invariant and abstraction\<close>

text \<open>Every slot is either free and empty or the bucket of exactly one edge; the buckets of the edges
  outside \<open>E\<close> are not empty.\<close>

definition slots :: "'a list list \<Rightarrow> nat list \<Rightarrow> ('e \<rightharpoonup> nat) \<Rightarrow> 'e set \<Rightarrow> bool" where
  "slots G F M E \<longleftrightarrow> distinct F \<and> (\<forall>i \<in> set F. i < length G \<and> G ! i = []) \<and>
     (\<forall>e i. M e = Some i \<longrightarrow> i < length G \<and> i \<notin> set F \<and> (e \<notin> E \<longrightarrow> G ! i \<noteq> [])) \<and>
     (\<forall>e e' i. M e = Some i \<longrightarrow> M e' = Some i \<longrightarrow> e = e') \<and>
     (\<forall>i < length G. i \<in> set F \<or> (\<exists>e. M e = Some i))"

definition lookup_slot :: "'a list list \<Rightarrow> ('e \<rightharpoonup> nat) \<Rightarrow> 'e \<Rightarrow> 'a list option" where
  "lookup_slot G M e = do { i \<leftarrow> M e; vec_at G i }"

definition gc_inv :: "GeometryCompressor \<Rightarrow> nat \<Rightarrow> bool" where
  "gc_inv c n \<longleftrightarrow> n = length (m_compressed_geometries c) \<and>
     slots (m_compressed_geometries c) (m_free_list c) (m_edge_id_to_list_index_map c) {}"

text \<open>The nodes after the source of an edge, with the weights of the way to them: an edge without a
  bucket goes straight to its target.\<close>

definition edge_geometry :: "GeometryCompressor \<Rightarrow> EdgeID \<Rightarrow> NodeID \<Rightarrow> EdgeWeight \<Rightarrow> CompressedNode list" where
  "edge_geometry c e target weight = (case GetBucketReference c e of Some b \<Rightarrow> b | None \<Rightarrow> [(target, weight)])"

lemma GetBucketReference_lookup:
  "GetBucketReference c = lookup_slot (m_compressed_geometries c) (m_edge_id_to_list_index_map c)"
  by (simp add: fun_eq_iff GetBucketReference_def lookup_slot_def)

lemma slotsD:
  assumes "slots G F M E"
  shows "distinct F" "i \<in> set F \<Longrightarrow> i < length G" "i \<in> set F \<Longrightarrow> G ! i = []" "M e = Some i \<Longrightarrow> i < length G"
    "M e = Some i \<Longrightarrow> i \<notin> set F" "M e = Some i \<Longrightarrow> e \<notin> E \<Longrightarrow> G ! i \<noteq> []"
    "M e = Some i \<Longrightarrow> M e' = Some i \<Longrightarrow> e = e'" "i < length G \<Longrightarrow> i \<in> set F \<or> (\<exists>e. M e = Some i)"
  using assms unfolding slots_def by blast+

lemma slotsI:
  assumes "distinct F" "\<And>i. i \<in> set F \<Longrightarrow> i < length G \<and> G ! i = []"
    "\<And>e i. M e = Some i \<Longrightarrow> i < length G \<and> i \<notin> set F \<and> (e \<notin> E \<longrightarrow> G ! i \<noteq> [])"
    "\<And>e e' i. M e = Some i \<Longrightarrow> M e' = Some i \<Longrightarrow> e = e'"
    "\<And>i. i < length G \<Longrightarrow> i \<in> set F \<or> (\<exists>e. M e = Some i)"
  shows "slots G F M E"
  using assms unfolding slots_def by blast

lemma slots_grow:
  assumes "slots G F M E"
  shows "slots (G @ replicate k []) (F @ irange (length G) (length G + k)) M E"
    "lookup_slot (G @ replicate k []) M = lookup_slot G M"
proof (rule slotsI, goal_cases)
  case 1
  then show ?case using slotsD(1,2) [OF assms] by (auto simp: irange_def dest!: slotsD(2) [OF assms])
next
  case (2 i)
  then show ?case using slotsD(2,3) [OF assms, of i] by (auto simp: nth_append)
next
  case (3 e i)
  then show ?case using slotsD(4,5,6) [OF assms 3] by (auto simp: nth_append)
next
  case (4 e e' i)
  then show ?case by (rule slotsD(7) [OF assms])
next
  case (5 i)
  then show ?case using slotsD(8) [OF assms, of i] by (cases "i < length G") auto
next
  case 6
  have "lookup_slot (G @ replicate k []) M e = lookup_slot G M e" for e
    using slotsD(4) [OF assms, of e] by (cases "M e") (simp_all add: lookup_slot_def vec_at_def nth_append)
  then show ?case by blast
qed

lemma slots_take:
  assumes "slots G F M E" "F \<noteq> []" "M e = None"
  shows "slots G (butlast F) (M(e \<mapsto> last F)) (insert e E)"
    "lookup_slot G (M(e \<mapsto> last F)) = (lookup_slot G M)(e \<mapsto> [])"
proof -
  obtain F' i where F: "F = F' @ [i]" using assms(2) by (metis rev_exhaust)
  have i: "i < length G" "G ! i = []" "i \<notin> set F'" "distinct F'"
    using slotsD(1,2,3) [OF assms(1)] F by auto
  have new: "M e' \<noteq> Some i" for e' using slotsD(5) [OF assms(1), of e' i] F by auto
  show "slots G (butlast F) (M(e \<mapsto> last F)) (insert e E)"
  proof (rule slotsI, goal_cases)
    case (2 j)
    then show ?case using slotsD(2,3) [OF assms(1), of j] F by simp
  next
    case (3 e' j)
    then show ?case using slotsD(4,5,6) [OF assms(1), of e' j] F i by (auto split: if_splits)
  next
    case (4 e1 e2 j)
    then show ?case using slotsD(7) [OF assms(1), of e1 j e2] F new by (auto split: if_splits)
  next
    case (5 j)
    then show ?case using slotsD(8) [OF assms(1), of j] F assms(3) by auto (metis option.distinct(1))
  qed (use i F in simp)
  show "lookup_slot G (M(e \<mapsto> last F)) = (lookup_slot G M)(e \<mapsto> [])"
    using i F by (auto simp: fun_eq_iff lookup_slot_def vec_at_def)
qed

lemma slots_fill:
  assumes "slots G F M E" "M e = Some i" "l \<noteq> []"
  shows "slots (G[i := l]) F M (E - {e})" "lookup_slot (G[i := l]) M = (lookup_slot G M)(e \<mapsto> l)"
proof -
  have i: "i < length G" "i \<notin> set F" using slotsD(4,5) [OF assms(1,2)] .
  have other: "j \<noteq> i" if "M e' = Some j" "e' \<noteq> e" for e' j
    using that slotsD(7) [OF assms(1)] assms(2) by blast
  show "slots (G[i := l]) F M (E - {e})"
  proof (rule slotsI, goal_cases)
    case (2 j)
    then show ?case using slotsD(2,3) [OF assms(1), of j] i by (cases "j = i") auto
  next
    case (3 e' j)
    then show ?case using slotsD(4,5,6) [OF assms(1) 3] other [of e' j] assms(2,3)
      by (cases "j = i") auto
  next
    case (4 e1 e2 j)
    then show ?case by (rule slotsD(7) [OF assms(1)])
  next
    case (5 j)
    then show ?case using slotsD(8) [OF assms(1), of j] by simp
  qed (rule slotsD(1) [OF assms(1)])
  show "lookup_slot (G[i := l]) M = (lookup_slot G M)(e \<mapsto> l)"
  proof
    fix e'
    show "lookup_slot (G[i := l]) M e' = ((lookup_slot G M)(e \<mapsto> l)) e'"
      using i(1) assms(2) other [of e'] by (cases "M e'") (auto simp: lookup_slot_def vec_at_def)
  qed
qed

lemma slots_free:
  assumes "slots G F M E" "M e = Some i"
  shows "slots (G[i := []]) (F @ [i]) (M(e := None)) E"
    "lookup_slot (G[i := []]) (M(e := None)) = (lookup_slot G M)(e := None)"
proof -
  have i: "i < length G" "i \<notin> set F" using slotsD(4,5) [OF assms] .
  have other: "j \<noteq> i" if "M e' = Some j" "e' \<noteq> e" for e' j
    using that slotsD(7) [OF assms(1)] assms(2) by blast
  show "slots (G[i := []]) (F @ [i]) (M(e := None)) E"
  proof (rule slotsI, goal_cases)
    case 1
    then show ?case using slotsD(1) [OF assms(1)] i by simp
  next
    case (2 j)
    then show ?case using slotsD(2,3) [OF assms(1), of j] i by (cases "j = i") auto
  next
    case (3 e' j)
    then show ?case using slotsD(4,5,6) [OF assms(1), of e' j] other [of e' j] by (auto split: if_splits)
  next
    case (4 e1 e2 j)
    then show ?case using slotsD(7) [OF assms(1), of e1 j e2] by (auto split: if_splits)
  next
    case (5 j)
    then consider "j \<in> set F" | e' where "M e' = Some j" using slotsD(8) [OF assms(1), of j] by auto
    then show ?case using assms(2) by cases (simp, metis fun_upd_other in_set_conv_decomp option.inject)
  qed
  show "lookup_slot (G[i := []]) (M(e := None)) = (lookup_slot G M)(e := None)"
  proof
    fix e'
    show "lookup_slot (G[i := []]) (M(e := None)) e' = ((lookup_slot G M)(e := None)) e'"
      using other [of e'] by (cases "M e'") (auto simp: lookup_slot_def vec_at_def)
  qed
qed

lemma slots_mono: "slots G F M E \<Longrightarrow> E \<subseteq> E' \<Longrightarrow> slots G F M E'"
  unfolding slots_def by blast

lemma lookup_slot_None: "slots G F M E \<Longrightarrow> lookup_slot G M e = None \<longleftrightarrow> M e = None"
  using slotsD(4) [of G F M E e] by (cases "M e") (auto simp: lookup_slot_def vec_at_def)

lemma lookup_slot_Some: "slots G F M E \<Longrightarrow> M e = Some i \<Longrightarrow> lookup_slot G M e = Some (G ! i)"
  using slotsD(4) [of G F M E e i] by (simp add: lookup_slot_def vec_at_def)

lemma take_slot_slots:
  assumes "gc_inv c n" "take_slot c n e = (c', n')"
  shows "n' = length (m_compressed_geometries c')"
    "slots (m_compressed_geometries c') (m_free_list c') (m_edge_id_to_list_index_map c') {e}"
    "GetBucketReference c' = (GetBucketReference c)(e \<mapsto> case GetBucketReference c e of Some b \<Rightarrow> b | None \<Rightarrow> [])"
proof -
  let ?G = "m_compressed_geometries c" and ?F = "m_free_list c" and ?M = "m_edge_id_to_list_index_map c"
  have n: "n = length ?G" and sl: "slots ?G ?F ?M {}" using assms(1) by (auto simp: gc_inv_def)
  have *: "n' = length (m_compressed_geometries c') \<and>
     slots (m_compressed_geometries c') (m_free_list c') (m_edge_id_to_list_index_map c') {e} \<and>
     GetBucketReference c' = (GetBucketReference c)(e \<mapsto> case GetBucketReference c e of Some b \<Rightarrow> b | None \<Rightarrow> [])"
  proof (cases "?M e")
    case (Some i)
    then have "c' = c" "n' = n" using assms(2) by (auto simp: take_slot_def HasEntryForID_def)
    then show ?thesis using n slots_mono [OF sl] lookup_slot_Some [OF sl Some]
      by (auto simp: GetBucketReference_lookup fun_eq_iff)
  next
    case None
    then have r: "lookup_slot ?G ?M e = None" using lookup_slot_None [OF sl] by blast
    show ?thesis
    proof (cases "?F = []")
      case True
      note grow = slots_grow [OF sl, of 100]
      have "?F @ irange (length ?G) (length ?G + 100) \<noteq> []" by (simp add: irange_def)
      from slots_take [OF grow(1) this None] show ?thesis
        using assms(2) None True n r grow(2)
        by (auto simp: take_slot_def HasEntryForID_def IncreaseFreeList_def GetBucketReference_lookup)
    next
      case False
      from slots_take [OF sl this None] show ?thesis
        using assms(2) None False n r by (auto simp: take_slot_def HasEntryForID_def GetBucketReference_lookup)
    qed
  qed
  then show "n' = length (m_compressed_geometries c')"
    "slots (m_compressed_geometries c') (m_free_list c') (m_edge_id_to_list_index_map c') {e}"
    "GetBucketReference c' = (GetBucketReference c)(e \<mapsto> case GetBucketReference c e of Some b \<Rightarrow> b | None \<Rightarrow> [])"
    by blast+
qed

section \<open>Compression\<close>

text \<open>C31: merging the edge \<open>edge_id_2\<close> into \<open>edge_id_1\<close> at a removed node gives the surviving edge the
  geometry of the first edge followed by that of the second, takes the second edge's geometry away,
  and leaves every other geometry alone; every slot of the store stays either free or the bucket of
  one edge.\<close>

theorem CompressEdge_refines:
  assumes "gc_inv c n" "e\<^sub>1 \<noteq> e\<^sub>2" "e\<^sub>1 \<noteq> SPECIAL_EDGEID" "e\<^sub>2 \<noteq> SPECIAL_EDGEID" "via \<noteq> SPECIAL_NODEID" "t \<noteq> SPECIAL_NODEID"
    "w\<^sub>1 \<noteq> INVALID_EDGE_WEIGHT" "w\<^sub>2 \<noteq> INVALID_EDGE_WEIGHT"
  shows "\<exists>c' n'. CompressEdge c n e\<^sub>1 e\<^sub>2 via t w\<^sub>1 w\<^sub>2 = Some (c', n') \<and> gc_inv c' n' \<and>
     GetBucketReference c' =
       (GetBucketReference c)(e\<^sub>2 := None, e\<^sub>1 \<mapsto> edge_geometry c e\<^sub>1 via w\<^sub>1 @ edge_geometry c e\<^sub>2 t w\<^sub>2)"
proof -
  obtain c\<^sub>1 n\<^sub>1 where ts: "take_slot c n e\<^sub>1 = (c\<^sub>1, n\<^sub>1)" by fastforce
  let ?G = "m_compressed_geometries c\<^sub>1" and ?F = "m_free_list c\<^sub>1" and ?M = "m_edge_id_to_list_index_map c\<^sub>1"
  let ?l = "edge_geometry c e\<^sub>1 via w\<^sub>1"
  note ts3 = take_slot_slots [OF assms(1) ts]
  have g1: "GetBucketReference c e\<^sub>1 \<noteq> Some []"
    using assms(1) slotsD(6) by (fastforce simp: gc_inv_def GetBucketReference_def vec_at_def bind_eq_Some_conv split: if_splits)
  have "lookup_slot ?G ?M e\<^sub>1 \<noteq> None" using ts3(3) by (simp add: GetBucketReference_lookup)
  then obtain i where i: "?M e\<^sub>1 = Some i" using lookup_slot_None [OF ts3(2), of e\<^sub>1] by auto
  have il: "i < length ?G" by (rule slotsD(4) [OF ts3(2) i])
  have Gi: "?G ! i = (case GetBucketReference c e\<^sub>1 of Some b \<Rightarrow> b | None \<Rightarrow> [])"
    using lookup_slot_Some [OF ts3(2) i] ts3(3) by (simp add: GetBucketReference_lookup)
  have l: "(if ?G ! i = [] then ?G ! i @ [(via, w\<^sub>1)] else ?G ! i) = ?l" "?l \<noteq> []"
    using g1 by (auto simp: Gi edge_geometry_def split: option.splits)
  show ?thesis
  proof (cases "?M e\<^sub>2")
    case None
    have "GetBucketReference c e\<^sub>2 = None"
      using lookup_slot_None [OF ts3(2), of e\<^sub>2] None ts3(3) assms(2) by (simp add: GetBucketReference_lookup)
    then have geo: "edge_geometry c e\<^sub>2 t w\<^sub>2 = [(t, w\<^sub>2)]" by (simp add: edge_geometry_def)
    note f = slots_fill [OF ts3(2) i, of "?l @ [(t, w\<^sub>2)]"]
    show ?thesis using f l il i None ts ts3 assms geo \<open>GetBucketReference c e\<^sub>2 = None\<close>
      by (auto simp: CompressEdge_def GetPositionForID_def HasEntryForID_def gc_inv_def vec_simps GetBucketReference_lookup fun_upd_idem_iff)
  next
    case (Some j)
    have jl: "j < length ?G" by (rule slotsD(4) [OF ts3(2) Some])
    have ji: "j \<noteq> i" using slotsD(7) [OF ts3(2) i] Some assms(2) by blast
    have "GetBucketReference c e\<^sub>2 = Some (?G ! j)"
      using lookup_slot_Some [OF ts3(2) Some] ts3(3) assms(2) by (simp add: GetBucketReference_lookup)
    then have geo: "edge_geometry c e\<^sub>2 t w\<^sub>2 = ?G ! j" by (simp add: edge_geometry_def)
    note f = slots_fill [OF ts3(2) i, of "?l @ ?G ! j"]
    note r = slots_free [OF f(1) Some]
    show ?thesis using f(2) r l il jl ji i Some ts ts3 assms geo
      by (auto simp: CompressEdge_def GetPositionForID_def HasEntryForID_def gc_inv_def vec_simps GetBucketReference_lookup fun_upd_twist)
  qed
qed

lemma GeometryCompressor_new_inv: "gc_inv (fst (GeometryCompressor_new 0)) 100" "GetBucketReference (fst (GeometryCompressor_new 0)) = Map.empty"
proof -
  have "slots [] [] (Map.empty :: EdgeID \<rightharpoonup> nat) {}" by (simp add: slots_def)
  from slots_grow [OF this, of 100] show "gc_inv (fst (GeometryCompressor_new 0)) 100"
    by (simp add: GeometryCompressor_new_def IncreaseFreeList_def gc_inv_def)
  show "GetBucketReference (fst (GeometryCompressor_new 0)) = Map.empty"
    by (simp add: fun_eq_iff GeometryCompressor_new_def IncreaseFreeList_def GetBucketReference_def)
qed

theorem CompressEdge_refines_witness:
  "\<exists>c n. CompressEdge (fst (GeometryCompressor_new 0)) 100 4 7 1 2 10 20 = Some (c, n) \<and>
     GetBucketReference c 4 = Some [(1, 10), (2, 20)] \<and> GetBucketReference c 7 = None"
  using CompressEdge_refines [OF GeometryCompressor_new_inv(1), of 4 7 1 2 10 20]
  by (auto simp: SPECIAL_EDGEID_def SPECIAL_NODEID_def INVALID_EDGE_WEIGHT_def edge_geometry_def GeometryCompressor_new_inv(2))

text \<open>The slot numbers come from a global counter, so a second compressor in one process hands out slots
  that its vector does not have.\<close>

lemma second_compressor_fails:
  assumes "0 < n"
  shows "CompressEdge (fst (GeometryCompressor_new n)) (snd (GeometryCompressor_new n)) e\<^sub>1 e\<^sub>2 via t w\<^sub>1 w\<^sub>2 = None"
  using assms by (auto simp: CompressEdge_def GeometryCompressor_new_def IncreaseFreeList_def take_slot_def HasEntryForID_def
      GetPositionForID_def assert_that_def irange_def bind_eq_None_conv last_conv_nth nth_append)

section \<open>Storing and loading geometries\<close>

lemma prefix_sums_eq:
  "p + sum_list (map length G) < 2 ^ 32 \<Longrightarrow>
   prefix_sums p G = map (\<lambda>k. p + sum_list (map length (take k G))) [0..<Suc (length G)]"
proof (induction G arbitrary: p)
  case (Cons g G)
  have "prefix_sums (p + length g) G = map (\<lambda>k. p + length g + sum_list (map length (take k G))) [0..<Suc (length G)]"
    using Cons by simp
  moreover have "[0..<Suc (length (g # G))] = 0 # map Suc [0..<Suc (length G)]"
    by (simp add: upt_conv_Cons map_Suc_upt del: upt_Suc)
  ultimately show ?case using Cons.prems by (simp add: comp_def add.assoc del: upt_Suc)
qed simp

lemma control_sum_eq:
  "s + sum_list (map length G) < 2 ^ 32 \<Longrightarrow>
   fold (\<lambda>elem s. (s + length elem) mod 2 ^ 32) G s = s + sum_list (map length G)"
  by (induction G arbitrary: s) auto

lemma seg_take_drop: "b \<le> length xs \<Longrightarrow> seg xs a b = take (b - a) (drop a xs)"
  by (auto intro!: nth_equalityI)

lemma seg_concat:
  assumes "i < length L"
  shows "seg (concat L) (sum_list (map length (take i L))) (sum_list (map length (take (Suc i) L))) = L ! i"
proof -
  have split: "concat L = concat (take i L) @ L ! i @ concat (drop (Suc i) L)"
    by (subst id_take_nth_drop [OF assms]) simp
  have off: "sum_list (map length (take i L)) = length (concat (take i L))" by (simp add: length_concat)
  have off': "sum_list (map length (take (Suc i) L)) = length (concat (take i L)) + length (L ! i)"
    using assms by (simp add: length_concat take_Suc_conv_app_nth)
  show ?thesis unfolding off off' by (subst seg_take_drop) (simp_all add: split)
qed

lemma concat_bytes_nodes:
  "concat (map (\<lambda>elem. concat (map (\<lambda>v. bytes32 (fst v)) elem)) G) = concat (map bytes32 (concat (map (map fst) G)))"
  by (induction G) (simp_all add: comp_def)

lemma sum_lengths_take_le: "sum_list (map length (take k G)) \<le> sum_list (map length (G :: 'a list list))"
proof -
  have "length (concat (take k G)) \<le> length (concat (take k G @ drop k G))" unfolding concat_append length_append by simp
  then show ?thesis by (simp only: append_take_drop_id length_concat)
qed

lemma LoadGeometries_bytes:
  assumes "offs \<noteq> []" "length offs < 2 ^ 32" "\<forall>x \<in> set offs. x < 2 ^ 32" "last offs = length nodes"
    "length nodes < 2 ^ 32" "\<forall>x \<in> set nodes. x < 2 ^ 32"
  shows "LoadGeometries (bytes32 (length offs) @ concat (map bytes32 offs) @ bytes32 (length nodes) @ concat (map bytes32 nodes)) f =
    Some (f\<lparr> m_geometry_indices := offs, m_geometry_list := nodes \<rparr>)"
  using assms read_offsets_bytes [OF assms(3), of "bytes32 (length nodes) @ concat (map bytes32 nodes)"]
    read_offsets_bytes [OF assms(6), of "[]"]
  by (simp add: LoadGeometries_def read32_bytes32)

text \<open>C32: the geometries that the preprocessing stores are the ones that the query engine loads.  A
  compressor with fewer than \<open>2 ^ 32 - 1\<close> stored nodes serialises; the facade loads the bytes; and asking the
  facade for the geometry at the position of an edge yields the node ids of the edge's bucket.\<close>

theorem geometry_roundtrip:
  assumes "gc_inv c n" "length (m_compressed_geometries c) + 1 < 2 ^ 32 - 1"
    "sum_list (map length (m_compressed_geometries c)) < 2 ^ 32 - 1"
    "\<forall>l \<in> set (m_compressed_geometries c). \<forall>v \<in> set l. fst v < 2 ^ 32"
  shows "\<exists>bytes f'. SerializeInternalVector c = Some bytes \<and> LoadGeometries bytes f = Some f' \<and>
     (\<forall>e b. GetBucketReference c e = Some b \<longrightarrow>
        (\<exists>i. GetPositionForID c e = Some i \<and> GetUncompressedGeometry f' i = Some (map fst b)))"
proof -
  let ?G = "m_compressed_geometries c" and ?N = "concat (map (map fst) (m_compressed_geometries c))"
  let ?off = "map (\<lambda>k. sum_list (map length (take k ?G))) [0..<Suc (length ?G)]"
  have off: "prefix_sums 0 ?G = ?off" using prefix_sums_eq [of 0 ?G] assms(3) by simp
  have lens: "list_all (\<lambda>elem. 2 ^ 32 - 1 \<noteq> length elem mod 2 ^ 32) ?G"
  proof (unfold list_all_iff, rule ballI)
    fix l assume "l \<in> set ?G"
    then have "length l \<le> sum_list (map length ?G)" by (simp add: member_le_sum_list)
    then show "2 ^ 32 - 1 \<noteq> length l mod 2 ^ 32" using assms(3) by simp
  qed
  have lastoff: "last ?off = length ?N" by (simp add: length_concat comp_def)
  have small: "\<forall>x \<in> set ?off. x < 2 ^ 32"
    using assms(3) by (auto intro: le_less_trans [OF sum_lengths_take_le])
  have smallN: "\<forall>x \<in> set ?N. x < 2 ^ 32" using assms(4) by auto
  have total: "length ?N < 2 ^ 32" using assms(3) by (simp add: length_concat comp_def)
  let ?bytes = "bytes32 (length ?G + 1) @ concat (map bytes32 ?off) @ bytes32 (length ?N) @ concat (map bytes32 ?N)"
  let ?f = "f\<lparr> m_geometry_indices := ?off, m_geometry_list := ?N \<rparr>"
  have ser: "SerializeInternalVector c = Some ?bytes"
    using assms(2,3) lens control_sum_eq [of 0 ?G]
    by (simp add: SerializeInternalVector_def off concat_bytes_nodes length_concat comp_def del: upt_Suc)
       (simp add: length_concat comp_def)
  have "bytes32 (length ?G + 1) = bytes32 (length ?off)" by simp
  then have load: "LoadGeometries ?bytes f = Some ?f"
    using LoadGeometries_bytes [OF _ _ small lastoff total smallN] assms(2) by (simp only:) simp
  have "\<exists>i. GetPositionForID c e = Some i \<and> GetUncompressedGeometry ?f i = Some (map fst b)"
    if b: "GetBucketReference c e = Some b" for e b
  proof -
    obtain i where i: "m_edge_id_to_list_index_map c e = Some i" "i < length ?G" "b = ?G ! i"
      using b by (auto simp: GetBucketReference_def bind_eq_Some_conv vec_at_def split: if_splits)
    have "seg ?N (sum_list (map length (take i ?G))) (sum_list (map length (take (Suc i) ?G))) = map fst b"
      using seg_concat [of i "map (map fst) ?G"] i by (simp add: take_map comp_def)
    moreover have "sum_list (map length (take i ?G)) \<le> sum_list (map length (take (Suc i) ?G))"
      using sum_lengths_take_le [of i "take (Suc i) ?G"] by (simp add: min_def)
    moreover have "sum_list (map length (take (Suc i) ?G)) \<le> length ?N"
      using sum_lengths_take_le [of "Suc i" ?G] by (simp add: length_concat comp_def)
    moreover have "uadd i 1 = Suc i" using i(2) assms(2) by (simp add: uadd_def)
    ultimately show ?thesis using i
      by (simp add: GetPositionForID_def GetUncompressedGeometry_def copy_range_def vec_simps nth_append del: upt_Suc)
  qed
  then show ?thesis using ser load by blast
qed

definition sample_compressor :: GeometryCompressor where
  "sample_compressor = \<lparr> m_compressed_geometries = [[], [(1, 10), (2, 20)]], m_free_list = [0],
     m_edge_id_to_list_index_map = [4 \<mapsto> 1] \<rparr>"

theorem geometry_roundtrip_witness:
  "\<forall>f. \<exists>bytes f' i. SerializeInternalVector sample_compressor = Some bytes \<and> LoadGeometries bytes f = Some f' \<and>
     GetPositionForID sample_compressor 4 = Some i \<and> GetUncompressedGeometry f' i = Some [1, 2]"
proof
  fix f
  have "gc_inv sample_compressor 2"
    by (auto simp: gc_inv_def sample_compressor_def slots_def less_Suc_eq numeral_2_eq_2)
  moreover have "GetBucketReference sample_compressor 4 = Some [(1, 10), (2, 20)]"
    by (simp add: GetBucketReference_def sample_compressor_def vec_at_def)
  ultimately show "\<exists>bytes f' i. SerializeInternalVector sample_compressor = Some bytes \<and> LoadGeometries bytes f = Some f' \<and>
     GetPositionForID sample_compressor 4 = Some i \<and> GetUncompressedGeometry f' i = Some [1, 2]"
    using geometry_roundtrip [of sample_compressor 2 f] by (fastforce simp: sample_compressor_def)
qed

end
