(* ===== verification/Restriction_Map.thy ===== *)
theory Restriction_Map
  imports Dynamic_Graph
begin

text \<open>
  Turn restrictions (\<^verbatim>\<open>DataStructures/Restriction.h\<close>, \<^verbatim>\<open>DataStructures/RestrictionMap.cpp\<close>).  The map
  takes a start edge \<open>(from, via)\<close> to a bucket of targets; it is queried when the edge-based graph is
  built and updated when nodes of degree two are removed.
\<close>

section \<open>State and operations\<close>

record TurnRestriction =
  viaNode :: NodeID
  fromNode :: NodeID
  toNode :: NodeID
  isOnly :: bool

record RestrictionTarget =
  target_node :: NodeID
  is_only :: bool

type_synonym RestrictionSource = "NodeID \<times> NodeID"

record 'd RestrictionMap =
  m_count :: nat
  m_graph :: "'d DynamicGraph"
  m_restriction_bucket_list :: "RestrictionTarget list list"
  m_restriction_map :: "RestrictionSource \<rightharpoonup> nat"
  m_restriction_start_nodes :: "NodeID set"
  m_no_turn_via_node_set :: "NodeID set"

definition IsViaNode :: "'d RestrictionMap \<Rightarrow> NodeID \<Rightarrow> bool" where
  "IsViaNode rm node \<longleftrightarrow> node \<in> m_no_turn_via_node_set rm"

definition IsSourceNode :: "'d RestrictionMap \<Rightarrow> NodeID \<Rightarrow> bool" where
  "IsSourceNode rm node \<longleftrightarrow> node \<in> m_restriction_start_nodes rm"

definition RestrictionMap_size :: "'d RestrictionMap \<Rightarrow> nat" where
  "RestrictionMap_size rm = m_count rm"

text \<open>One round of the loop of the constructor; \<^verbatim>\<open>m_count\<close> is a \<^verbatim>\<open>size_t\<close>, and a subtraction below zero is
  rejected.\<close>

definition add_target :: "nat \<Rightarrow> TurnRestriction \<Rightarrow> 'd RestrictionMap \<Rightarrow> 'd RestrictionMap option" where
  "add_target index restriction rm = do {
     bl \<leftarrow> vec_upd (m_restriction_bucket_list rm) index
            (\<lambda>b. b @ [\<lparr> target_node = toNode restriction, is_only = isOnly restriction \<rparr>]);
     Some (rm\<lparr> m_count := m_count rm + 1, m_restriction_bucket_list := bl \<rparr>)
   }"

definition add_restriction :: "TurnRestriction \<Rightarrow> 'd RestrictionMap \<Rightarrow> 'd RestrictionMap option" where
  "add_restriction restriction rm = do {
     let rm = rm\<lparr> m_restriction_start_nodes := insert (fromNode restriction) (m_restriction_start_nodes rm),
                   m_no_turn_via_node_set := insert (viaNode restriction) (m_no_turn_via_node_set rm) \<rparr>;
     let restriction_source = (fromNode restriction, viaNode restriction);
     case m_restriction_map rm restriction_source of
       None \<Rightarrow> do {
         let index = length (m_restriction_bucket_list rm);
         let rm = rm\<lparr> m_restriction_bucket_list := m_restriction_bucket_list rm @ [[]],
                       m_restriction_map := (m_restriction_map rm)(restriction_source \<mapsto> index) \<rparr>;
         add_target index restriction rm
       }
     | Some index \<Rightarrow> do {
         bucket \<leftarrow> vec_at (m_restriction_bucket_list rm) index;
         first \<leftarrow> vec_at bucket 0;
         if is_only first then Some rm
         else if isOnly restriction then do {
           assert_that (length bucket \<le> m_count rm);
           bl \<leftarrow> vec_upd (m_restriction_bucket_list rm) index (\<lambda>_. []);
           add_target index restriction
             (rm\<lparr> m_count := m_count rm - length bucket, m_restriction_bucket_list := bl \<rparr>)
         } else add_target index restriction rm
       }
   }"

fun add_restrictions :: "TurnRestriction list \<Rightarrow> 'd RestrictionMap \<Rightarrow> 'd RestrictionMap option" where
  "add_restrictions [] rm = Some rm"
| "add_restrictions (r # rs) rm = do { rm \<leftarrow> add_restriction r rm; add_restrictions rs rm }"

definition RestrictionMap_new :: "'d DynamicGraph \<Rightarrow> TurnRestriction list \<Rightarrow> 'd RestrictionMap option" where
  "RestrictionMap_new graph restriction_list = add_restrictions restriction_list
     \<lparr> m_count = 0, m_graph = graph, m_restriction_bucket_list = [], m_restriction_map = Map.empty,
       m_restriction_start_nodes = {}, m_no_turn_via_node_set = {} \<rparr>"

fun collect_predecessors :: "'d DynamicGraph \<Rightarrow> NodeID \<Rightarrow> EdgeID list \<Rightarrow> NodeID list option" where
  "collect_predecessors g node_v [] = Some []"
| "collect_predecessors g node_v (current_edge_id # es) = do {
     target \<leftarrow> dg_GetTarget g current_edge_id;
     ps \<leftarrow> collect_predecessors g node_v es;
     Some (if node_v \<noteq> target then target # ps else ps)
   }"

definition replace_target :: "NodeID \<Rightarrow> NodeID \<Rightarrow> RestrictionTarget \<Rightarrow> RestrictionTarget" where
  "replace_target node_v node_w t = (if node_v = target_node t then t\<lparr> target_node := node_w \<rparr> else t)"

fun fixup_arriving :: "NodeID \<Rightarrow> NodeID \<Rightarrow> NodeID \<Rightarrow> NodeID list \<Rightarrow> 'd RestrictionMap \<Rightarrow> 'd RestrictionMap option" where
  "fixup_arriving node_u node_v node_w [] rm = Some rm"
| "fixup_arriving node_u node_v node_w (node_x # predecessors) rm =
     (case m_restriction_map rm (node_x, node_u) of
        None \<Rightarrow> fixup_arriving node_u node_v node_w predecessors rm
      | Some index \<Rightarrow> do {
          bl \<leftarrow> vec_upd (m_restriction_bucket_list rm) index (map (replace_target node_v node_w));
          fixup_arriving node_u node_v node_w predecessors (rm\<lparr> m_restriction_bucket_list := bl \<rparr>)
        })"

definition FixupArrivingTurnRestriction :: "'d RestrictionMap \<Rightarrow> NodeID \<Rightarrow> NodeID \<Rightarrow> NodeID \<Rightarrow> 'd RestrictionMap option" where
  "FixupArrivingTurnRestriction rm node_u node_v node_w = do {
     assert_that (node_u \<noteq> SPECIAL_NODEID);
     assert_that (node_v \<noteq> SPECIAL_NODEID);
     assert_that (node_w \<noteq> SPECIAL_NODEID);
     if \<not> IsViaNode rm node_u then Some rm
     else do {
       range \<leftarrow> dg_GetAdjacentEdgeRange (m_graph rm) node_u;
       predecessors \<leftarrow> collect_predecessors (m_graph rm) node_v range;
       fixup_arriving node_u node_v node_w predecessors rm
     }
   }"

text \<open>\<^verbatim>\<open>emplace\<close> does not replace an existing entry.\<close>

definition map_emplace :: "('k \<rightharpoonup> 'v) \<Rightarrow> 'k \<Rightarrow> 'v \<Rightarrow> ('k \<rightharpoonup> 'v)" where
  "map_emplace m k v = (if m k = None then m(k \<mapsto> v) else m)"

definition FixupStartingTurnRestriction :: "'d RestrictionMap \<Rightarrow> NodeID \<Rightarrow> NodeID \<Rightarrow> NodeID \<Rightarrow> 'd RestrictionMap option" where
  "FixupStartingTurnRestriction rm node_u node_v node_w = do {
     assert_that (node_u \<noteq> SPECIAL_NODEID);
     assert_that (node_v \<noteq> SPECIAL_NODEID);
     assert_that (node_w \<noteq> SPECIAL_NODEID);
     if \<not> IsSourceNode rm node_v then Some rm
     else Some (case m_restriction_map rm (node_v, node_w) of
       None \<Rightarrow> rm
     | Some index \<Rightarrow>
         rm\<lparr> m_restriction_map := map_emplace ((m_restriction_map rm)((node_v, node_w) := None)) (node_u, node_w) index,
             m_restriction_start_nodes := insert node_u (m_restriction_start_nodes rm) \<rparr>)
   }"

definition CheckForEmanatingIsOnlyTurn :: "'d RestrictionMap \<Rightarrow> NodeID \<Rightarrow> NodeID \<Rightarrow> NodeID option" where
  "CheckForEmanatingIsOnlyTurn rm node_u node_v = do {
     assert_that (node_u \<noteq> SPECIAL_NODEID);
     assert_that (node_v \<noteq> SPECIAL_NODEID);
     if \<not> IsSourceNode rm node_u then Some SPECIAL_NODEID
     else case m_restriction_map rm (node_u, node_v) of
       None \<Rightarrow> Some SPECIAL_NODEID
     | Some index \<Rightarrow> do {
         bucket \<leftarrow> vec_at (m_restriction_bucket_list rm) index;
         Some (case find is_only bucket of Some t \<Rightarrow> target_node t | None \<Rightarrow> SPECIAL_NODEID)
       }
   }"

definition CheckIfTurnIsRestricted :: "'d RestrictionMap \<Rightarrow> NodeID \<Rightarrow> NodeID \<Rightarrow> NodeID \<Rightarrow> bool option" where
  "CheckIfTurnIsRestricted rm node_u node_v node_w = do {
     assert_that (node_u \<noteq> SPECIAL_NODEID);
     assert_that (node_v \<noteq> SPECIAL_NODEID);
     assert_that (node_w \<noteq> SPECIAL_NODEID);
     if \<not> IsSourceNode rm node_u then Some False
     else case m_restriction_map rm (node_u, node_v) of
       None \<Rightarrow> Some False
     | Some index \<Rightarrow> do {
         bucket \<leftarrow> vec_at (m_restriction_bucket_list rm) index;
         Some (list_ex (\<lambda>t. node_w = target_node t \<and> \<not> is_only t) bucket)
       }
   }"

section \<open>What the map denotes\<close>

text \<open>The targets of a start edge.\<close>

definition targets :: "'d RestrictionMap \<Rightarrow> RestrictionSource \<Rightarrow> RestrictionTarget list" where
  "targets rm s = (case m_restriction_map rm s of None \<Rightarrow> [] | Some i \<Rightarrow> m_restriction_bucket_list rm ! i)"

text \<open>The first \<^verbatim>\<open>only\<close> restriction of a start edge supersedes all others.\<close>

definition spec_targets :: "TurnRestriction list \<Rightarrow> RestrictionSource \<Rightarrow> RestrictionTarget list" where
  "spec_targets rs s =
     (let mine = filter (\<lambda>r. (fromNode r, viaNode r) = s) rs;
          target = (\<lambda>r. \<lparr> target_node = toNode r, is_only = isOnly r \<rparr>)
      in case find isOnly mine of Some r \<Rightarrow> [target r] | None \<Rightarrow> map target mine)"

definition rm_inv :: "'d RestrictionMap \<Rightarrow> bool" where
  "rm_inv rm \<longleftrightarrow>
     (\<forall>s i. m_restriction_map rm s = Some i \<longrightarrow>
        i < length (m_restriction_bucket_list rm) \<and> m_restriction_bucket_list rm ! i \<noteq> [] \<and>
        fst s \<in> m_restriction_start_nodes rm \<and> snd s \<in> m_no_turn_via_node_set rm) \<and>
     m_count rm = sum_list (map length (m_restriction_bucket_list rm)) \<and>
     (\<forall>s s' i. m_restriction_map rm s = Some i \<longrightarrow> m_restriction_map rm s' = Some i \<longrightarrow> s = s')"

definition as_target :: "TurnRestriction \<Rightarrow> RestrictionTarget" where
  "as_target r = \<lparr> target_node = toNode r, is_only = isOnly r \<rparr>"

definition add_to_bucket :: "TurnRestriction \<Rightarrow> RestrictionTarget list \<Rightarrow> RestrictionTarget list" where
  "add_to_bucket r b =
     (if b \<noteq> [] \<and> is_only (hd b) then b else if isOnly r then [as_target r] else b @ [as_target r])"

section \<open>Construction\<close>

lemma rm_invD:
  assumes "rm_inv rm" "m_restriction_map rm s = Some i"
  shows "i < length (m_restriction_bucket_list rm)" "m_restriction_bucket_list rm ! i \<noteq> []"
    "fst s \<in> m_restriction_start_nodes rm" "m_restriction_map rm s' = Some i \<Longrightarrow> s' = s"
    "snd s \<in> m_no_turn_via_node_set rm"
  using assms unfolding rm_inv_def by blast+

lemma sum_lengths_update:
  "i < length xs \<Longrightarrow> sum_list (map length (xs[i := v])) + length (xs ! i) = sum_list (map length xs) + length v"
  by (induction xs arbitrary: i) (auto split: nat.splits)

lemma length_le_sum_lengths: "i < length xs \<Longrightarrow> length (xs ! i) \<le> sum_list (map length xs)"
  by (simp add: member_le_sum_list)

text \<open>Setting the bucket of a start edge.\<close>

lemma targets_set_bucket:
  assumes "rm_inv rm" "m_restriction_map rm s = Some i" "b \<noteq> []"
    "m_restriction_map rm' = m_restriction_map rm" "m_restriction_bucket_list rm' = (m_restriction_bucket_list rm)[i := b]"
  shows "targets rm' = (targets rm)(s := b)"
proof
  fix s'
  show "targets rm' s' = ((targets rm)(s := b)) s'"
    using rm_invD(1) [OF assms(1,2)] rm_invD(4) [OF assms(1,2), of s'] assms(2,4,5)
    by (cases "m_restriction_map rm s'") (auto simp: targets_def nth_list_update)
qed

lemma rm_inv_set_bucket:
  assumes "rm_inv rm" "m_restriction_map rm s = Some i" "b \<noteq> []"
    "m_restriction_map rm' = m_restriction_map rm" "m_restriction_bucket_list rm' = (m_restriction_bucket_list rm)[i := b]"
    "m_restriction_start_nodes rm \<subseteq> m_restriction_start_nodes rm'" "m_no_turn_via_node_set rm \<subseteq> m_no_turn_via_node_set rm'"
    "m_count rm' + length (m_restriction_bucket_list rm ! i) = m_count rm + length b"
  shows "rm_inv rm'"
proof -
  have "m_count rm' = sum_list (map length (m_restriction_bucket_list rm'))"
    using sum_lengths_update [OF rm_invD(1) [OF assms(1,2)], of b] assms(1,5,8) by (simp add: rm_inv_def)
  moreover have "m_restriction_bucket_list rm' ! j \<noteq> []" if "m_restriction_map rm s' = Some j" for s' j
    using rm_invD(1,2) [OF assms(1) that] assms(3,5) by (cases "j = i") auto
  ultimately show ?thesis using assms(1,4-7) unfolding rm_inv_def by auto
qed

lemma rm_inv_starts:
  "rm_inv rm \<Longrightarrow> rm_inv (rm\<lparr> m_restriction_start_nodes := insert a (m_restriction_start_nodes rm),
     m_no_turn_via_node_set := insert b (m_no_turn_via_node_set rm) \<rparr>)"
  unfolding rm_inv_def by auto

definition adds :: "TurnRestriction \<Rightarrow> 'd RestrictionMap \<Rightarrow> 'd RestrictionMap \<Rightarrow> bool" where
  "adds r rm rm' \<longleftrightarrow> rm_inv rm' \<and> m_graph rm' = m_graph rm \<and>
     targets rm' = (targets rm)((fromNode r, viaNode r) := add_to_bucket r (targets rm (fromNode r, viaNode r))) \<and>
     m_restriction_start_nodes rm' = insert (fromNode r) (m_restriction_start_nodes rm) \<and>
     m_no_turn_via_node_set rm' = insert (viaNode r) (m_no_turn_via_node_set rm)"

lemma add_restriction_new:
  assumes "rm_inv rm" "m_restriction_map rm (fromNode r, viaNode r) = None"
  shows "\<exists>rm'. add_restriction r rm = Some rm' \<and> adds r rm rm'"
proof -
  let ?s = "(fromNode r, viaNode r)" and ?n = "length (m_restriction_bucket_list rm)"
  have lt: "i < ?n" if "m_restriction_map rm s = Some i" for s i using rm_invD(1) [OF assms(1) that] .
  let ?rm = "rm\<lparr> m_count := m_count rm + 1, m_restriction_bucket_list := m_restriction_bucket_list rm @ [[as_target r]],
     m_restriction_map := (m_restriction_map rm)(?s \<mapsto> ?n),
     m_restriction_start_nodes := insert (fromNode r) (m_restriction_start_nodes rm),
     m_no_turn_via_node_set := insert (viaNode r) (m_no_turn_via_node_set rm) \<rparr>"
  have "add_restriction r rm = Some ?rm"
    using assms(2) by (simp add: add_restriction_def add_target_def as_target_def vec_simps Let_def)
  moreover have "rm_inv ?rm"
    using assms(1) lt unfolding rm_inv_def by (auto simp: nth_append less_SucI)
  moreover have "targets ?rm s = ((targets rm)(?s := [as_target r])) s" for s
    using lt [of s] by (cases "m_restriction_map rm s") (auto simp: targets_def nth_append)
  moreover have "add_to_bucket r (targets rm ?s) = [as_target r]"
    using assms(2) by (simp add: targets_def add_to_bucket_def)
  ultimately show ?thesis by (auto simp: adds_def fun_eq_iff)
qed

lemma add_restriction_old:
  assumes "rm_inv rm" "m_restriction_map rm (fromNode r, viaNode r) = Some i"
  shows "\<exists>rm'. add_restriction r rm = Some rm' \<and> adds r rm rm'"
proof -
  let ?s = "(fromNode r, viaNode r)" and ?b = "m_restriction_bucket_list rm ! i"
  note i = rm_invD(1,2) [OF assms]
  have t: "targets rm ?s = ?b" using assms(2) by (simp add: targets_def)
  have cnt: "length ?b \<le> m_count rm" using assms(1) length_le_sum_lengths [OF i(1)] by (simp add: rm_inv_def)
  let ?rm = "\<lambda>n b. rm\<lparr> m_count := n, m_restriction_bucket_list := (m_restriction_bucket_list rm)[i := b],
     m_restriction_start_nodes := insert (fromNode r) (m_restriction_start_nodes rm),
     m_no_turn_via_node_set := insert (viaNode r) (m_no_turn_via_node_set rm) \<rparr>"
  let ?c = "m_count rm + length (add_to_bucket r ?b) - length ?b"
  have "add_to_bucket r ?b \<noteq> []" using i(2) by (simp add: add_to_bucket_def)
  then have "adds r rm (?rm ?c (add_to_bucket r ?b))"
    using rm_inv_set_bucket [OF assms, of "add_to_bucket r ?b" "?rm ?c (add_to_bucket r ?b)"]
      targets_set_bucket [OF assms, of "add_to_bucket r ?b" "?rm ?c (add_to_bucket r ?b)"] cnt t
    by (auto simp: adds_def)
  moreover have "add_restriction r rm = Some (?rm ?c (add_to_bucket r ?b))"
    using assms(2) i cnt
    by (auto simp: add_restriction_def add_target_def as_target_def add_to_bucket_def vec_simps Let_def hd_conv_nth)
  ultimately show ?thesis by blast
qed

lemma add_restriction_adds: "rm_inv rm \<Longrightarrow> \<exists>rm'. add_restriction r rm = Some rm' \<and> adds r rm rm'"
  by (cases "m_restriction_map rm (fromNode r, viaNode r)") (blast intro: add_restriction_new add_restriction_old)+

lemma find_append: "find P (xs @ ys) = (case find P xs of Some x \<Rightarrow> Some x | None \<Rightarrow> find P ys)"
  by (induction xs) auto

lemma find_SomeD: "find P xs = Some x \<Longrightarrow> x \<in> set xs \<and> P x"
  by (induction xs) (auto split: if_splits)

lemma spec_targets_snoc:
  "spec_targets (rs @ [r]) = (spec_targets rs)((fromNode r, viaNode r) := add_to_bucket r (spec_targets rs (fromNode r, viaNode r)))"
proof
  fix s
  let ?s = "(fromNode r, viaNode r)"
  let ?mine = "filter (\<lambda>r. (fromNode r, viaNode r) = s) rs"
  show "spec_targets (rs @ [r]) s = ((spec_targets rs)(?s := add_to_bucket r (spec_targets rs ?s))) s"
  proof (cases "s = ?s")
    case False
    then have "filter (\<lambda>r. (fromNode r, viaNode r) = s) (rs @ [r]) = ?mine" by auto
    then show ?thesis using False by (simp add: spec_targets_def)
  next
    case True
    then have f: "filter (\<lambda>r. (fromNode r, viaNode r) = s) (rs @ [r]) = ?mine @ [r]" by simp
    show ?thesis
    proof (cases "find isOnly ?mine")
      case (Some r')
      then have "isOnly r'" "find isOnly (?mine @ [r]) = Some r'" using find_SomeD [OF Some] by (auto simp: find_append)
      then show ?thesis using Some True f by (simp add: spec_targets_def add_to_bucket_def Let_def)
    next
      case None
      have n: "\<forall>x \<in> set ?mine. \<not> isOnly x" "find isOnly (?mine @ [r]) = (if isOnly r then Some r else None)"
        using None by (simp add: find_None_iff, simp add: find_append None)
      have "\<not> is_only (hd (map as_target ?mine))" if "?mine \<noteq> []"
        using n(1) that hd_in_set [OF that] by (simp add: hd_map as_target_def)
      moreover have "spec_targets rs ?s = map as_target ?mine"
        using None True by (simp add: spec_targets_def as_target_def)
      moreover have "spec_targets (rs @ [r]) s = (if isOnly r then [as_target r] else map as_target (?mine @ [r]))"
        using n(2) f by (simp add: spec_targets_def as_target_def Let_def)
      ultimately show ?thesis using True by (auto simp: add_to_bucket_def)
    qed
  qed
qed

lemma add_restrictions_snoc: "add_restrictions (rs @ [r]) rm = do { rm \<leftarrow> add_restrictions rs rm; add_restriction r rm }"
proof (induction rs arbitrary: rm)
  case (Cons a rs)
  then show ?case by (cases "add_restriction a rm") simp_all
next
  case Nil
  show ?case by (cases "add_restriction r rm") simp_all
qed

lemma RestrictionMap_new_targets:
  "\<exists>rm. RestrictionMap_new g rs = Some rm \<and> rm_inv rm \<and> m_graph rm = g \<and> targets rm = spec_targets rs \<and>
     m_restriction_start_nodes rm = fromNode ` set rs \<and> m_no_turn_via_node_set rm = viaNode ` set rs"
proof (induction rs rule: rev_induct)
  case Nil
  show ?case by (simp add: RestrictionMap_new_def rm_inv_def targets_def spec_targets_def fun_eq_iff)
next
  case (snoc r rs)
  then obtain rm where rm: "RestrictionMap_new g rs = Some rm" "rm_inv rm" "m_graph rm = g" "targets rm = spec_targets rs"
    "m_restriction_start_nodes rm = fromNode ` set rs" "m_no_turn_via_node_set rm = viaNode ` set rs" by blast
  obtain rm' where "add_restriction r rm = Some rm'" "adds r rm rm'" using add_restriction_adds [OF rm(2)] by blast
  then show ?case using rm by (auto simp: RestrictionMap_new_def add_restrictions_snoc adds_def spec_targets_snoc)
qed

lemma CheckIfTurnIsRestricted_targets:
  assumes "rm_inv rm" "u \<noteq> SPECIAL_NODEID" "v \<noteq> SPECIAL_NODEID" "w \<noteq> SPECIAL_NODEID"
  shows "CheckIfTurnIsRestricted rm u v w = Some (\<exists>t \<in> set (targets rm (u, v)). target_node t = w \<and> \<not> is_only t)"
proof (cases "m_restriction_map rm (u, v)")
  case (Some i)
  then show ?thesis using rm_invD(1,3) [OF assms(1) Some] assms(2-)
    by (auto simp: CheckIfTurnIsRestricted_def IsSourceNode_def targets_def vec_simps list_ex_iff)
qed (use assms in \<open>simp add: CheckIfTurnIsRestricted_def targets_def\<close>)

lemma CheckForEmanatingIsOnlyTurn_targets:
  assumes "rm_inv rm" "u \<noteq> SPECIAL_NODEID" "v \<noteq> SPECIAL_NODEID"
  shows "CheckForEmanatingIsOnlyTurn rm u v =
    Some (case find is_only (targets rm (u, v)) of Some t \<Rightarrow> target_node t | None \<Rightarrow> SPECIAL_NODEID)"
proof (cases "m_restriction_map rm (u, v)")
  case (Some i)
  then show ?thesis using rm_invD(1,3) [OF assms(1) Some] assms(2-)
    by (simp add: CheckForEmanatingIsOnlyTurn_def IsSourceNode_def targets_def vec_simps)
qed (use assms in \<open>simp add: CheckForEmanatingIsOnlyTurn_def targets_def\<close>)



section \<open>Updates\<close>

lemma replace_target_idem [simp]: "replace_target v w (replace_target v w t) = replace_target v w t"
  by (simp add: replace_target_def)

lemma fixup_arriving_targets:
  "rm_inv rm \<Longrightarrow> \<exists>rm'. fixup_arriving u v w ps rm = Some rm' \<and> rm_inv rm' \<and> m_graph rm' = m_graph rm \<and>
     (\<forall>s. targets rm' s = (if snd s = u \<and> fst s \<in> set ps then map (replace_target v w) (targets rm s) else targets rm s))"
proof (induction ps arbitrary: rm)
  case (Cons x ps)
  show ?case
  proof (cases "m_restriction_map rm (x, u)")
    case None
    obtain rm' where rm': "fixup_arriving u v w ps rm = Some rm'" "rm_inv rm'" "m_graph rm' = m_graph rm"
      "\<forall>s. targets rm' s = (if snd s = u \<and> fst s \<in> set ps then map (replace_target v w) (targets rm s) else targets rm s)"
      using Cons.IH [OF Cons.prems] by blast
    have "targets rm (x, u) = []" using None by (simp add: targets_def)
    then show ?thesis using rm' None by auto
  next
    case (Some i)
    note i = rm_invD(1,2) [OF Cons.prems Some]
    let ?b = "map (replace_target v w) (m_restriction_bucket_list rm ! i)"
    let ?rm = "rm\<lparr> m_restriction_bucket_list := (m_restriction_bucket_list rm)[i := ?b] \<rparr>"
    have inv: "rm_inv ?rm" by (rule rm_inv_set_bucket [OF Cons.prems Some, where b = ?b]) (use i in simp_all)
    have t: "targets ?rm = (targets rm)((x, u) := map (replace_target v w) (targets rm (x, u)))"
      using targets_set_bucket [OF Cons.prems Some, of ?b ?rm] i Some by (simp add: targets_def)
    obtain rm' where rm': "fixup_arriving u v w ps ?rm = Some rm'" "rm_inv rm'" "m_graph rm' = m_graph rm"
      "\<forall>s. targets rm' s = (if snd s = u \<and> fst s \<in> set ps then map (replace_target v w) (targets ?rm s) else targets ?rm s)"
      using Cons.IH [OF inv] by auto
    have "targets rm' s = (if snd s = u \<and> fst s \<in> set (x # ps) then map (replace_target v w) (targets rm s) else targets rm s)" for s
      using rm'(4) t by (cases s) (auto simp: comp_def)
    then show ?thesis using rm' Some i by (auto simp: vec_simps)
  qed
qed simp

lemma collect_predecessors_targets:
  "\<forall>e \<in> set es. e < length (edge_list g) \<Longrightarrow>
   collect_predecessors g v es = Some (filter (\<lambda>t. v \<noteq> t) (map (\<lambda>e. de_target (edge_list g ! e)) es))"
  by (induction es) (auto simp: dg_GetTarget_def vec_simps)


definition sample_graph :: "unit DynamicGraph" where
  "sample_graph = \<lparr> number_of_nodes = 2, number_of_edges = 1,
     node_list = [\<lparr> firstEdge = 0, edges = 0 \<rparr>, \<lparr> firstEdge = 0, edges = 1 \<rparr>],
     edge_list = [\<lparr> de_target = 0, de_data = () \<rparr>] \<rparr>"

definition sample_restrictions :: "unit RestrictionMap" where
  "sample_restrictions = \<lparr> m_count = 1, m_graph = sample_graph,
     m_restriction_bucket_list = [[\<lparr> target_node = 2, is_only = False \<rparr>]], m_restriction_map = [(0, 1) \<mapsto> 0],
     m_restriction_start_nodes = {0}, m_no_turn_via_node_set = {1} \<rparr>"

lemma sample_restrictions_inv: "rm_inv sample_restrictions" "dg_inv (m_graph sample_restrictions)"
  by (auto simp: rm_inv_def sample_restrictions_def dg_inv_def sample_graph_def owns_def SPECIAL_NODEID_def less_Suc_eq
      nth_Cons split: nat.splits if_splits)


text \<open>C35: when the node \<open>v\<close> between \<open>u\<close> and \<open>w\<close> disappears, the restrictions that start with the edge \<open>(v, w)\<close> start
  with \<open>(u, w)\<close> afterwards, and no other restriction changes, provided that no restriction starts with
  \<open>(u, w)\<close> already; otherwise the restrictions of \<open>(v, w)\<close> are dropped.\<close>

theorem FixupStarting_targets:
  assumes "rm_inv rm" "u \<noteq> SPECIAL_NODEID" "v \<noteq> SPECIAL_NODEID" "w \<noteq> SPECIAL_NODEID" "u \<noteq> v"
  shows "\<exists>rm'. FixupStartingTurnRestriction rm u v w = Some rm' \<and> rm_inv rm' \<and>
     targets rm' = (if targets rm (u, w) = [] then (targets rm)((v, w) := [], (u, w) := targets rm (v, w))
                    else (targets rm)((v, w) := []))"
proof (cases "m_restriction_map rm (v, w)")
  case None
  then have t: "targets rm (v, w) = []" by (simp add: targets_def)
  have "FixupStartingTurnRestriction rm u v w = Some rm" using None assms by (simp add: FixupStartingTurnRestriction_def)
  then show ?thesis using t assms(1) by (auto simp: fun_upd_idem)
next
  case (Some i)
  note i = rm_invD(1,2,3) [OF assms(1) Some]
  have other: "m_restriction_map rm s \<noteq> Some i" if "s \<noteq> (v, w)" for s
    using rm_invD(4) [OF assms(1) Some, of s] that by blast
  have empty: "targets rm (u, w) = [] \<longleftrightarrow> m_restriction_map rm (u, w) = None"
    using rm_invD(2) [OF assms(1), of "(u, w)"] by (auto simp: targets_def split: option.splits)
  let ?m = "map_emplace ((m_restriction_map rm)((v, w) := None)) (u, w) i"
  let ?rm = "rm\<lparr> m_restriction_map := ?m, m_restriction_start_nodes := insert u (m_restriction_start_nodes rm) \<rparr>"
  have "FixupStartingTurnRestriction rm u v w = Some ?rm" (is ?step)
    using Some i assms by (simp add: FixupStartingTurnRestriction_def IsSourceNode_def)
  have m: "s = (u, w) \<and> j = i \<or> s \<noteq> (v, w) \<and> m_restriction_map rm s = Some j" if "?m s = Some j" for s j
    using that by (auto simp: map_emplace_def split: if_splits)
  have "rm_inv ?rm" unfolding rm_inv_def
  proof (intro conjI allI impI, goal_cases)
    case (1 s j) then show ?case using m [of s j] i(1) rm_invD(1) [OF assms(1), of s j] by auto
  next
    case (2 s j) then show ?case using m [of s j] i(2) rm_invD(2) [OF assms(1), of s j] by auto
  next
    case (3 s j) then show ?case using m [of s j] rm_invD(3) [OF assms(1), of s j] by auto
  next
    case (4 s j) then show ?case using m [of s j] rm_invD(5) [OF assms(1) Some] rm_invD(5) [OF assms(1), of s j] by auto
  next
    case 5 then show ?case using assms(1) by (simp add: rm_inv_def)
  next
    case (6 s s' j)
    then have "?m s = Some j" "?m s' = Some j" by simp_all
    then show ?case using m [of s j] m [of s' j] other [of s] other [of s'] rm_invD(4) [OF assms(1), of s j s'] by blast
  qed
  moreover have "targets ?rm s = (if targets rm (u, w) = [] then (targets rm)((v, w) := [], (u, w) := targets rm (v, w))
      else (targets rm)((v, w) := [])) s" for s
    unfolding empty using Some assms(5) by (cases "m_restriction_map rm (u, w)") (auto simp: targets_def map_emplace_def split: option.splits)
  ultimately show ?thesis using \<open>?step\<close> by blast
qed

theorem FixupStarting_targets_witness:
  "\<exists>rm. FixupStartingTurnRestriction sample_restrictions 5 0 1 = Some rm \<and>
     targets rm (5, 1) = [\<lparr> target_node = 2, is_only = False \<rparr>] \<and> targets rm (0, 1) = []"
proof -
  have t: "targets sample_restrictions (0, 1) = [\<lparr> target_node = 2, is_only = False \<rparr>]" "targets sample_restrictions (5, 1) = []"
    by (simp_all add: targets_def sample_restrictions_def)
  show ?thesis
    using FixupStarting_targets [OF sample_restrictions_inv(1), of 5 0 1] t by (auto simp: SPECIAL_NODEID_def)
qed

end
