(* ===== verification/Douglas_Peucker.thy ===== *)
theory Douglas_Peucker
  imports Polyline
begin

text \<open>
  Generalisation of a route geometry for a zoom level (\<^verbatim>\<open>Algorithms/DouglasPeucker.cpp\<close>): points that lie
  farther than a threshold from the ends of their range are marked as necessary, by divide and
  conquer over an explicit stack.  The distance of a point from the ends of a range, which
  \<^verbatim>\<open>CoordinatePairCalculator\<close> computes in floating point arithmetic, is the parameter \<open>dist_calc\<close>.
\<close>

section \<open>The algorithm\<close>

type_synonym dist_calc = "FixedPointCoordinate \<Rightarrow> FixedPointCoordinate \<Rightarrow> FixedPointCoordinate \<Rightarrow> int"
type_synonym GeometryRange = "nat \<times> nat"

definition douglas_peucker_thresholds :: "int list" where
  "douglas_peucker_thresholds =
     [512440, 256720, 122560, 56780, 28800, 14400, 7200, 3200, 2400, 1000, 600, 120, 60, 45, 36, 20, 8, 6, 4]"

text \<open>The sweep that puts the ranges between pre-selected points on the stack, whose top is the head of
  the list.\<close>

fun sweep :: "'f SegmentInformation list \<Rightarrow> nat list \<Rightarrow> nat \<Rightarrow> GeometryRange list \<Rightarrow> GeometryRange list option" where
  "sweep input_geometry [] left_border recursion_stack = Some recursion_stack"
| "sweep input_geometry (right_border # rs) left_border recursion_stack = do {
     r \<leftarrow> vec_at input_geometry right_border;
     if necessary r then do {
       l \<leftarrow> vec_at input_geometry left_border;
       assert_that (necessary l);
       sweep input_geometry rs right_border ((left_border, right_border) # recursion_stack)
     } else sweep input_geometry rs left_border recursion_stack
   }"

fun farthest :: "dist_calc \<Rightarrow> int \<Rightarrow> 'f SegmentInformation list \<Rightarrow> FixedPointCoordinate \<Rightarrow> FixedPointCoordinate \<Rightarrow>
    nat list \<Rightarrow> nat \<Rightarrow> int \<Rightarrow> (nat \<times> int) option" where
  "farthest dist_calc threshold input_geometry a b [] farthest_entry_index max_int_distance =
     Some (farthest_entry_index, max_int_distance)"
| "farthest dist_calc threshold input_geometry a b (i # is) farthest_entry_index max_int_distance = do {
     s \<leftarrow> vec_at input_geometry i;
     let distance = dist_calc a b (si_location s);
     if distance > max_int_distance \<and> distance > threshold
     then farthest dist_calc threshold input_geometry a b is i distance
     else farthest dist_calc threshold input_geometry a b is farthest_entry_index max_int_distance
   }"

lemma farthest_index:
  "farthest dc t g a b is j m = Some (j', m') \<Longrightarrow> (j' = j \<and> m' = m \<or> j' \<in> set is)"
  by (induction "is" arbitrary: j m) (auto simp: Let_def bind_eq_Some_conv split: if_splits)

lemma thresholds_pos: "vec_at douglas_peucker_thresholds z = Some t \<Longrightarrow> 0 < t"
proof -
  assume "vec_at douglas_peucker_thresholds z = Some t"
  then have "t \<in> set douglas_peucker_thresholds" by (auto simp: vec_at_eq_Some_iff)
  then show ?thesis by (auto simp: douglas_peucker_thresholds_def)
qed

function dp_loop :: "dist_calc \<Rightarrow> nat \<Rightarrow> GeometryRange list \<Rightarrow> 'f SegmentInformation list \<Rightarrow> 'f SegmentInformation list option" where
  "dp_loop dist_calc zoom_level [] input_geometry = Some input_geometry"
| "dp_loop dist_calc zoom_level (pair # recursion_stack) input_geometry = do {
     l \<leftarrow> vec_at input_geometry (fst pair);
     assert_that (necessary l);
     r \<leftarrow> vec_at input_geometry (snd pair);
     assert_that (necessary r);
     assert_that (fst pair < snd pair);
     threshold \<leftarrow> vec_at douglas_peucker_thresholds zoom_level;
     (farthest_entry_index, max_int_distance) \<leftarrow>
       farthest dist_calc threshold input_geometry (si_location l) (si_location r)
         (irange (fst pair + 1) (snd pair)) (snd pair) 0;
     if max_int_distance > threshold then do {
       input_geometry \<leftarrow> vec_upd input_geometry farthest_entry_index (\<lambda>s. s\<lparr> necessary := True \<rparr>);
       let recursion_stack = (if 1 < farthest_entry_index - fst pair
                              then (fst pair, farthest_entry_index) # recursion_stack else recursion_stack);
       let recursion_stack = (if 1 < snd pair - farthest_entry_index
                              then (farthest_entry_index, snd pair) # recursion_stack else recursion_stack);
       dp_loop dist_calc zoom_level recursion_stack input_geometry
     } else dp_loop dist_calc zoom_level recursion_stack input_geometry
   }"
  by pat_completeness auto
termination
proof (relation "measure (\<lambda>(_, _, stack, _). sum_list (map (\<lambda>(l, r). 2 * (r - l) - 1) stack))", goal_cases)
  case (2 dc z pair stack g l u r u' u'' t x j m)
  then have "0 < t" "fst pair < j" "j < snd pair"
    using farthest_index thresholds_pos by fastforce+
  then show ?case using 2(11-) by (auto split: prod.splits if_splits)
next
  case 3
  then show ?case by (auto split: prod.splits)
qed auto

declare dp_loop.simps(2) [simp del]

definition DouglasPeucker_Run :: "dist_calc \<Rightarrow> 'f SegmentInformation list \<Rightarrow> nat \<Rightarrow> 'f SegmentInformation list option" where
  "DouglasPeucker_Run dist_calc input_geometry zoom_level = do {
     assert_that (input_geometry \<noteq> []);
     if length input_geometry < 2 then Some input_geometry
     else do {
       input_geometry \<leftarrow> vec_upd input_geometry 0 (\<lambda>s. s\<lparr> necessary := True \<rparr>);
       input_geometry \<leftarrow> vec_upd input_geometry (length input_geometry - 1) (\<lambda>s. s\<lparr> necessary := True \<rparr>);
       assert_that (zoom_level < 19);
       recursion_stack \<leftarrow> sweep input_geometry (irange 1 (length input_geometry)) 0 [];
       dp_loop dist_calc zoom_level recursion_stack input_geometry
     }
   }"

section \<open>Ranges between necessary points\<close>

text \<open>Two points that are necessary and have no necessary point between them; and the condition that every
  point between them is near one of them.\<close>

definition consec :: "(nat \<Rightarrow> bool) \<Rightarrow> nat \<Rightarrow> nat \<Rightarrow> bool" where
  "consec nec l r \<longleftrightarrow> l < r \<and> nec l \<and> nec r \<and> (\<forall>i. l < i \<longrightarrow> i < r \<longrightarrow> \<not> nec i)"

definition near_ends :: "dist_calc \<Rightarrow> int \<Rightarrow> FixedPointCoordinate list \<Rightarrow> nat \<Rightarrow> nat \<Rightarrow> bool" where
  "near_ends dc t locs l r \<longleftrightarrow> (\<forall>i. l < i \<longrightarrow> i < r \<longrightarrow> dc (locs ! l) (locs ! r) (locs ! i) \<le> t)"

definition dp_inv :: "dist_calc \<Rightarrow> int \<Rightarrow> FixedPointCoordinate list \<Rightarrow> GeometryRange list \<Rightarrow> (nat \<Rightarrow> bool) \<Rightarrow> bool" where
  "dp_inv dc t locs stack nec \<longleftrightarrow> distinct stack \<and> (\<forall>(l, r) \<in> set stack. consec nec l r) \<and>
     (\<forall>l r. consec nec l r \<longrightarrow> (l, r) \<in> set stack \<or> near_ends dc t locs l r)"

lemma consec_same_start: "consec nec l r \<Longrightarrow> consec nec l r' \<Longrightarrow> r = r'"
  unfolding consec_def by (metis linorder_neqE_nat)

lemma consec_same_end: "consec nec l r \<Longrightarrow> consec nec l' r \<Longrightarrow> l = l'"
  unfolding consec_def by (metis linorder_neqE_nat)

lemma consec_overlap:
  assumes "consec nec l r" "consec nec l' r'" "l < i" "i < r" "l' < i" "i < r'"
  shows "l = l'" "r = r'"
proof -
  have "\<not> l < l'" using assms unfolding consec_def by (metis less_trans)
  moreover have "\<not> l' < l" using assms unfolding consec_def by (metis less_trans)
  ultimately show "l = l'" by simp
  then show "r = r'" using assms(1,2) consec_same_start by blast
qed

lemma consec_mark:
  assumes "consec nec l r" "l < j" "j < r"
  shows "consec (nec(j := True)) a b \<longleftrightarrow> (a, b) = (l, j) \<or> (a, b) = (j, r) \<or> consec nec a b \<and> (a, b) \<noteq> (l, r)"
proof -
  have nj: "\<not> nec j" using assms by (auto simp: consec_def)
  let ?P = "nec(j := True)"
  have new: "consec ?P l j" "consec ?P j r" using assms by (simp_all add: consec_def)
  have no: "\<not> consec nec j b" "\<not> consec nec a j" for a b using nj by (simp_all add: consec_def)
  consider "a = j" | "b = j" "a \<noteq> j" | "a < j" "j < b" | "a \<noteq> j" "b \<noteq> j" "\<not> (a < j \<and> j < b)" by blast
  then show ?thesis
  proof cases
    case 1
    have "consec ?P j b \<longleftrightarrow> b = r" using consec_same_start [of ?P j b r] new(2) by blast
    then show ?thesis using 1 assms(2) no(1) by auto
  next
    case 2
    have "consec ?P a j \<longleftrightarrow> a = l" using consec_same_end [of ?P a j l] new(1) by blast
    then show ?thesis using 2 assms(3) no(2) by auto
  next
    case 3
    have "\<not> consec ?P a b" using 3 by (auto simp: consec_def)
    moreover have "(a, b) = (l, r)" if "consec nec a b" using consec_overlap [OF that assms(1) 3 assms(2,3)] by simp
    ultimately show ?thesis using 3 by blast
  next
    case 4
    have "consec ?P a b \<longleftrightarrow> consec nec a b" using 4 unfolding consec_def by (metis fun_upd_other)
    then show ?thesis using 4 assms(2,3) by blast
  qed
qed

text \<open>One round of the loop on the abstract state.\<close>

lemma dp_inv_skip:
  assumes "dp_inv dc t locs ((l, r) # stack) nec" "near_ends dc t locs l r"
  shows "dp_inv dc t locs stack nec"
  using assms unfolding dp_inv_def by auto

lemma near_ends_short: "r - l \<le> 1 \<Longrightarrow> near_ends dc t locs l r"
  by (auto simp: near_ends_def)

lemma dp_inv_split:
  assumes "dp_inv dc t locs ((l, r) # stack) nec" "l < j" "j < r"
  shows "dp_inv dc t locs ((if 1 < r - j then [(j, r)] else []) @ (if 1 < j - l then [(l, j)] else []) @ stack) (nec(j := True))"
proof -
  let ?st = "(if 1 < r - j then [(j, r)] else []) @ (if 1 < j - l then [(l, j)] else []) @ stack"
  have lr: "consec nec l r" using assms(1) by (auto simp: dp_inv_def)
  note mark = consec_mark [OF lr assms(2,3)]
  have st: "consec nec a b" "(a, b) \<noteq> (l, r)" if "(a, b) \<in> set stack" for a b
    using assms(1) that by (auto simp: dp_inv_def)
  have nj: "\<not> nec j" using lr assms(2,3) by (simp add: consec_def)
  then have "(j, r) \<notin> set stack" "(l, j) \<notin> set stack" using st(1) by (auto simp: consec_def)
  then have "distinct ?st" using assms by (auto simp: dp_inv_def)
  moreover have "\<forall>(a, b) \<in> set ?st. consec (nec(j := True)) a b"
  proof (intro ballI, clarify)
    fix a b assume "(a, b) \<in> set ?st"
    then show "consec (nec(j := True)) a b" unfolding mark using st [of a b] by (auto split: if_splits)
  qed
  moreover have "(a, b) \<in> set ?st \<or> near_ends dc t locs a b" if "consec (nec(j := True)) a b" for a b
    using assms(1) that unfolding mark dp_inv_def by (auto intro: near_ends_short)
  ultimately show ?thesis unfolding dp_inv_def by blast
qed

section \<open>Correctness\<close>

definition is_nec :: "'f SegmentInformation list \<Rightarrow> nat \<Rightarrow> bool" where
  "is_nec g i \<longleftrightarrow> i < length g \<and> necessary (g ! i)"

text \<open>Geometries that differ only in which points are necessary.\<close>

definition same_points :: "'f SegmentInformation list \<Rightarrow> 'f SegmentInformation list \<Rightarrow> bool" where
  "same_points g g' \<longleftrightarrow> map (\<lambda>s. s\<lparr> necessary := True \<rparr>) g = map (\<lambda>s. s\<lparr> necessary := True \<rparr>) g'"

lemma same_points_location: "same_points g g' \<Longrightarrow> map si_location g = map si_location g'"
  unfolding same_points_def by (drule arg_cong [of _ _ "map si_location"]) (simp add: comp_def)

lemma same_points_length: "same_points g g' \<Longrightarrow> length g = length g'"
  unfolding same_points_def by (rule map_eq_imp_length_eq)

lemma mark_point:
  assumes "j < length g"
  shows "same_points g (g[j := (g ! j)\<lparr> necessary := True \<rparr>])" "is_nec (g[j := (g ! j)\<lparr> necessary := True \<rparr>]) = (is_nec g)(j := True)"
proof -
  show "same_points g (g[j := (g ! j)\<lparr> necessary := True \<rparr>])"
    using assms by (auto simp: same_points_def map_update intro!: nth_equalityI simp: nth_list_update)
  show "is_nec (g[j := (g ! j)\<lparr> necessary := True \<rparr>]) = (is_nec g)(j := True)"
    using assms by (auto simp: is_nec_def nth_list_update fun_eq_iff)
qed

lemma farthest_near:
  assumes "\<forall>i \<in> set is. i < length g"
  shows "\<exists>j' m'. farthest dc t g a b is j m = Some (j', m') \<and> m \<le> m' \<and>
     (m' \<le> t \<longrightarrow> (\<forall>i \<in> set is. dc a b (si_location (g ! i)) \<le> t))"
  using assms
proof (induction "is" arbitrary: j m)
  case (Cons i "is")
  let ?d = "dc a b (si_location (g ! i))"
  have i: "vec_at g i = Some (g ! i)" using Cons.prems by (simp add: vec_simps)
  show ?case
  proof (cases "?d > m \<and> ?d > t")
    case True
    then obtain j' m' where "farthest dc t g a b is i ?d = Some (j', m')" "?d \<le> m'"
      using Cons.IH [of i ?d] Cons.prems by auto
    then show ?thesis using True i by auto
  next
    case False
    obtain j' m' where "farthest dc t g a b is j m = Some (j', m')" "m \<le> m'"
      "m' \<le> t \<longrightarrow> (\<forall>i \<in> set is. dc a b (si_location (g ! i)) \<le> t)"
      using Cons.IH [of j m] Cons.prems by auto
    then show ?thesis using False i by fastforce
  qed
qed simp

definition dp_weight :: "GeometryRange list \<Rightarrow> nat" where
  "dp_weight stack = sum_list (map (\<lambda>(l, r). 2 * (r - l) - 1) stack)"

lemma dp_loop_correct:
  assumes "vec_at douglas_peucker_thresholds z = Some t" "dp_inv dc t (map si_location g) stack (is_nec g)"
  shows "\<exists>g'. dp_loop dc z stack g = Some g' \<and> same_points g g' \<and> (\<forall>i. is_nec g i \<longrightarrow> is_nec g' i) \<and>
     dp_inv dc t (map si_location g') [] (is_nec g')"
  using assms(2)
proof (induction "dp_weight stack" arbitrary: stack g rule: less_induct)
  case less
  show ?case
  proof (cases stack)
    case Nil
    then show ?thesis using less.prems by (auto simp: same_points_def)
  next
    case (Cons p st)
    obtain l r where p: "p = (l, r)" by fastforce
    have c: "consec (is_nec g) l r" using less.prems by (auto simp: dp_inv_def Cons p)
    then have lr: "l < r" "r < length g" "necessary (g ! l)" "necessary (g ! r)" by (auto simp: consec_def is_nec_def)
    obtain j m where f: "farthest dc t g (si_location (g ! l)) (si_location (g ! r)) (irange (l + 1) r) r 0 = Some (j, m)"
      "m \<le> t \<longrightarrow> (\<forall>i \<in> set (irange (l + 1) r). dc (si_location (g ! l)) (si_location (g ! r)) (si_location (g ! i)) \<le> t)"
      using farthest_near [of "irange (l + 1) r" g] lr by fastforce
    have t: "0 < t" by (rule thresholds_pos [OF assms(1)])
    let ?next = "\<lambda>st' g'. dp_loop dc z stack g = dp_loop dc z st' g' \<and> dp_weight st' < dp_weight stack \<and>
      dp_inv dc t (map si_location g') st' (is_nec g') \<and> same_points g g' \<and> (\<forall>i. is_nec g i \<longrightarrow> is_nec g' i)"
    have "\<exists>st' g'. ?next st' g'"
    proof (cases "m > t")
      case False
      have "near_ends dc t (map si_location g) l r" using f(2) False lr by (simp add: near_ends_def)
      then have "dp_inv dc t (map si_location g) st (is_nec g)" using dp_inv_skip less.prems by (simp add: Cons p)
      then show ?thesis using False f(1) lr assms(1)
        by (auto simp: Cons p dp_loop.simps vec_simps dp_weight_def same_points_def intro!: exI [of _ st] exI [of _ g])
    next
      case True
      then have j: "l < j" "j < r" using farthest_index [OF f(1)] t by auto
      let ?g = "g[j := (g ! j)\<lparr> necessary := True \<rparr>]"
      let ?st = "(if 1 < r - j then [(j, r)] else []) @ (if 1 < j - l then [(l, j)] else []) @ st"
      have mark: "same_points g ?g" "is_nec ?g = (is_nec g)(j := True)" using mark_point [of j g] j lr by auto
      have "dp_inv dc t (map si_location ?g) ?st (is_nec ?g)"
        unfolding mark(2) same_points_location [OF mark(1), symmetric]
        by (rule dp_inv_split) (use less.prems j in \<open>simp_all add: Cons p\<close>)
      moreover have "dp_weight ?st < dp_weight stack" using j by (auto simp: dp_weight_def Cons p)
      moreover have "dp_loop dc z stack g = dp_loop dc z ?st ?g"
        unfolding Cons p by (subst dp_loop.simps(2)) (use True f(1) lr j assms(1) in \<open>simp add: vec_simps Let_def\<close>)
      ultimately show ?thesis using mark by (intro exI [of _ ?st] exI [of _ ?g]) simp
    qed
    then obtain st' g' where n: "?next st' g'" by blast
    then show ?thesis using less.hyps [of st' g'] by (auto simp: same_points_def)
  qed
qed

text \<open>The sweep finds exactly the ranges between consecutive necessary points.\<close>

lemma sweep_correct:
  assumes "left < right" "is_nec g left" "\<forall>i. left < i \<longrightarrow> i < right \<longrightarrow> \<not> is_nec g i" "distinct stack"
    "\<forall>l r. (l, r) \<in> set stack \<longleftrightarrow> consec (is_nec g) l r \<and> r < right"
  shows "\<exists>st. sweep g (irange right (length g)) left stack = Some st \<and> distinct st \<and>
     (\<forall>l r. (l, r) \<in> set st \<longleftrightarrow> consec (is_nec g) l r)"
  using assms
proof (induction "length g - right" arbitrary: left right stack)
  case 0
  have "r < right" if "consec (is_nec g) l r" for l r using that 0 by (simp add: consec_def is_nec_def)
  then show ?case using 0 by auto
next
  case (Suc k)
  then have r: "right < length g" by simp
  show ?case
  proof (cases "necessary (g ! right)")
    case True
    then have c: "consec (is_nec g) left right" using Suc.prems r by (simp add: consec_def is_nec_def)
    have new: "l = left" if "consec (is_nec g) l right" for l using consec_same_end [OF that c] .
    have "\<exists>st. sweep g (irange (Suc right) (length g)) right ((left, right) # stack) = Some st \<and> distinct st \<and>
       (\<forall>l r. (l, r) \<in> set st \<longleftrightarrow> consec (is_nec g) l r)"
    proof (rule Suc.hyps(1), goal_cases)
      case 5
      then show ?case using Suc.prems(4) Suc.prems(5) [rule_format, of left right] by simp
    next
      case 6
      have "(l, ra) \<in> set ((left, right) # stack) \<longleftrightarrow> consec (is_nec g) l ra \<and> ra < Suc right" for l ra
        using Suc.prems(5) [rule_format, of l ra] c new [of l] by (cases "ra = right") (simp_all add: less_Suc_eq, blast)
      then show ?case by blast
    qed (use Suc.hyps(2) True r in \<open>auto simp: is_nec_def\<close>)
    moreover have "sweep g (irange right (length g)) left stack = sweep g (irange (Suc right) (length g)) right ((left, right) # stack)"
      using True r Suc.prems(2) by (simp add: irange_Cons vec_simps is_nec_def)
    ultimately show ?thesis by simp
  next
    case False
    have no: "\<not> consec (is_nec g) l right" for l using False by (simp add: consec_def is_nec_def)
    have "\<exists>st. sweep g (irange (Suc right) (length g)) left stack = Some st \<and> distinct st \<and>
       (\<forall>l r. (l, r) \<in> set st \<longleftrightarrow> consec (is_nec g) l r)"
    proof (rule Suc.hyps(1), goal_cases)
      case 4
      then show ?case using Suc.prems(3) False by (auto simp: less_Suc_eq is_nec_def)
    next
      case 6
      have "(l, ra) \<in> set stack \<longleftrightarrow> consec (is_nec g) l ra \<and> ra < Suc right" for l ra
        using Suc.prems(5) [rule_format, of l ra] no [of l] by (cases "ra = right") (simp_all add: less_Suc_eq)
      then show ?case by blast
    qed (use Suc.hyps(2) Suc.prems(1,2,4) r in auto)
    moreover have "sweep g (irange right (length g)) left stack = sweep g (irange (Suc right) (length g)) left stack"
      using False r by (simp add: irange_Cons vec_simps)
    ultimately show ?thesis by simp
  qed
qed

text \<open>C36: generalisation keeps what matters at the zoom level.  For every geometry of at least two points and
  every distance function the algorithm terminates; it changes nothing but which points are necessary,
  never withdraws a necessary point, keeps both ends, and every point that it leaves out lies within
  the threshold of the ends of its range of the simplified geometry.\<close>

theorem DouglasPeucker_Run_correct:
  assumes "2 \<le> length g" "zoom < 19"
  shows "\<exists>g'. DouglasPeucker_Run dc g zoom = Some g' \<and> same_points g g' \<and>
     (\<forall>i. is_nec g i \<or> i = 0 \<or> i = length g - 1 \<longrightarrow> is_nec g' i) \<and>
     (\<forall>l i r. consec (is_nec g') l r \<longrightarrow> l < i \<longrightarrow> i < r \<longrightarrow>
        dc (si_location (g ! l)) (si_location (g ! r)) (si_location (g ! i)) \<le> douglas_peucker_thresholds ! zoom)"
proof -
  let ?mark = "\<lambda>g j. g[j := (g ! j)\<lparr> necessary := True \<rparr>] :: 'a SegmentInformation list"
  let ?n = "length g - 1" and ?t = "douglas_peucker_thresholds ! zoom"
  let ?g = "?mark (?mark g 0) ?n"
  have g0: "0 < length g" "?n < length (?mark g 0)" using assms(1) by auto
  have m: "same_points g ?g" "is_nec ?g = (is_nec g)(0 := True, ?n := True)"
    using mark_point [OF g0(1)] mark_point [OF g0(2)] by (simp_all add: same_points_def)
  have t: "vec_at douglas_peucker_thresholds zoom = Some ?t"
    using assms(2) by (simp add: vec_at_def douglas_peucker_thresholds_def)
  have nec0: "is_nec ?g 0" unfolding m(2) by simp
  have no0: "\<not> (consec (is_nec ?g) l r \<and> r < 1)" for l r by (simp add: consec_def)
  obtain st where st: "sweep ?g (irange 1 (length ?g)) 0 [] = Some st" "distinct st"
    "\<forall>l r. (l, r) \<in> set st \<longleftrightarrow> consec (is_nec ?g) l r"
    using sweep_correct [of 0 1 ?g "[]"] nec0 no0 by auto
  have "dp_inv dc ?t (map si_location ?g) st (is_nec ?g)" using st(2,3) by (auto simp: dp_inv_def)
  then obtain g' where g': "dp_loop dc zoom st ?g = Some g'" "same_points ?g g'" "\<forall>i. is_nec ?g i \<longrightarrow> is_nec g' i"
    "dp_inv dc ?t (map si_location g') [] (is_nec g')"
    using dp_loop_correct [OF t] by blast
  have same: "same_points g g'" using m(1) g'(2) by (simp add: same_points_def)
  have loc: "si_location (g' ! i) = si_location (g ! i)" if "i < length g'" for i
    using same_points_location [OF same] same_points_length [OF same] that by (metis nth_map)
  have "dc (si_location (g ! l)) (si_location (g ! r)) (si_location (g ! i)) \<le> ?t"
    if c: "consec (is_nec g') l r" "l < i" "i < r" for l i r
  proof -
    have "near_ends dc ?t (map si_location g') l r" using g'(4) c(1) by (auto simp: dp_inv_def)
    moreover have "r < length g'" using c(1) by (simp add: consec_def is_nec_def)
    ultimately show ?thesis using c(2,3) loc by (simp add: near_ends_def)
  qed
  moreover have "DouglasPeucker_Run dc g zoom = Some g'"
    using g'(1) st(1) assms g0 by (simp add: DouglasPeucker_Run_def vec_simps)
  ultimately show ?thesis using same g'(3) m(2) by auto
qed

definition sample_geometry :: "rat SegmentInformation list" where
  "sample_geometry = map (\<lambda>x. SegmentInformation_new \<lparr> lat = x, lon = 0 \<rparr> 0 1 1 NoTurn 1) [0, 3, 9]"

theorem DouglasPeucker_Run_correct_witness:
  "\<exists>g'. DouglasPeucker_Run (\<lambda>a b c. min \<bar>lat a - lat c\<bar> \<bar>lat b - lat c\<bar>) sample_geometry 18 = Some g' \<and>
     is_nec g' 0 \<and> is_nec g' 2"
proof -
  let ?dc = "\<lambda>a b c. min \<bar>lat a - lat c\<bar> \<bar>lat b - lat c\<bar>"
  have len: "length sample_geometry = 3" by (simp add: sample_geometry_def)
  then obtain g' where g': "DouglasPeucker_Run ?dc sample_geometry 18 = Some g'"
    "\<forall>i. is_nec sample_geometry i \<or> i = 0 \<or> i = length sample_geometry - 1 \<longrightarrow> is_nec g' i"
    using DouglasPeucker_Run_correct [of sample_geometry 18 ?dc] by auto
  then show ?thesis using g'(2) [rule_format, of 0] g'(2) [rule_format, of 2] len by simp
qed

end
