(* ===== verification/Contractor.thy ===== *)
theory Contractor
  imports Dynamic_Graph Static_Graph Heap_Refinement Complex_Main
begin

text \<open>
  The contraction of the edge-based graph (\<^verbatim>\<open>Contractor/Contractor.h\<close>).  The state is the dynamic graph of
  the contractor with the edges it has set aside; the local searches use a binary heap whose index
  storage is a template parameter of the heap and stays one of the model.  The loops of
  \<^verbatim>\<open>tbb::parallel_for\<close> run in the order of their ranges with the data of one thread; sorting is a
  parameter, as in the static graph.  \<^verbatim>\<open>contractor_graph\<close> is a pointer that may be null.  Node priorities are \<^verbatim>\<open>float\<close>s: the model computes them on rational
  numbers and rounds after every operation with the parameter \<open>fl\<close>.  Progress output is not modelled.
\<close>

section \<open>Data\<close>

text \<open>\<^verbatim>\<open>originalEdges\<close> has 28 bits.\<close>

record ContractorEdgeData =
  ce_distance :: int
  ce_id :: nat
  ce_originalEdges :: nat
  ce_shortcut :: bool
  ce_forward :: bool
  ce_backward :: bool
  ce_is_original_via_node_ID :: bool

definition ContractorEdgeData_new :: ContractorEdgeData where
  "ContractorEdgeData_new = \<lparr> ce_distance = 0, ce_id = 0, ce_originalEdges = 0, ce_shortcut = False,
     ce_forward = False, ce_backward = False, ce_is_original_via_node_ID = False \<rparr>"

definition ContractorEdgeData_of :: "int \<Rightarrow> nat \<Rightarrow> nat \<Rightarrow> bool \<Rightarrow> bool \<Rightarrow> bool \<Rightarrow> ContractorEdgeData" where
  "ContractorEdgeData_of distance original_edges i shortcut forward backward =
     \<lparr> ce_distance = distance mod 2 ^ 32, ce_id = i, ce_originalEdges = min (2 ^ 28) original_edges mod 2 ^ 28,
       ce_shortcut = shortcut, ce_forward = forward, ce_backward = backward,
       ce_is_original_via_node_ID = False \<rparr>"

record ContractorHeapData =
  ch_hop :: int
  ch_target :: bool

type_synonym ContractorGraph = "ContractorEdgeData DynamicGraph"
type_synonym 's ContractorHeap = "(NodeID, ContractorHeapData, 's) BinaryHeap"
type_synonym ContractorEdge = "ContractorEdgeData InputEdge"

definition ContractorEdge_of :: "NodeID \<Rightarrow> NodeID \<Rightarrow> int \<Rightarrow> nat \<Rightarrow> nat \<Rightarrow> bool \<Rightarrow> bool \<Rightarrow> bool \<Rightarrow> ContractorEdge" where
  "ContractorEdge_of source target distance original_edges i shortcut forward backward =
     \<lparr> ie_source = source, ie_target = target,
       ie_data = ContractorEdgeData_of distance original_edges i shortcut forward backward \<rparr>"

record 's ContractorThreadData =
  td_heap :: "'s ContractorHeap"
  inserted_edges :: "ContractorEdge list"

record ContractionStats =
  edges_deleted_count :: int
  edges_added_count :: int
  original_edges_deleted_count :: int
  original_edges_added_count :: int

definition ContractionStats_new :: ContractionStats where
  "ContractionStats_new = \<lparr> edges_deleted_count = 0, edges_added_count = 0,
     original_edges_deleted_count = 0, original_edges_added_count = 0 \<rparr>"

record Contractor =
  contractor_graph :: "ContractorGraph option"
  external_edge_list :: "QueryEdge list"
  orig_node_id_to_new_id_map :: "NodeID list"
  contractor_fast_hash :: XORFastHash

text \<open>The edges of the edge-based graph that the contractor is given.\<close>

record EdgeBasedEdge =
  ebe_source :: NodeID
  ebe_target :: NodeID
  ebe_edge_id :: nat
  ebe_weight :: EdgeWeight
  ebe_forward :: bool
  ebe_backward :: bool

text \<open>\<^verbatim>\<open>weight\<close> has 30 bits.\<close>

definition EdgeBasedEdge_of :: "NodeID \<Rightarrow> NodeID \<Rightarrow> nat \<Rightarrow> EdgeWeight \<Rightarrow> bool \<Rightarrow> bool \<Rightarrow> EdgeBasedEdge" where
  "EdgeBasedEdge_of source target edge_id weight forward backward =
     \<lparr> ebe_source = source, ebe_target = target, ebe_edge_id = edge_id, ebe_weight = sbits 30 weight,
       ebe_forward = forward, ebe_backward = backward \<rparr>"

abbreviation INT_MAX :: int where
  "INT_MAX \<equiv> 2 ^ 31 - 1"

section \<open>Construction\<close>

definition both_directions :: "EdgeBasedEdge \<Rightarrow> ContractorEdge list" where
  "both_directions e =
     [ContractorEdge_of (ebe_source e) (ebe_target e) (max (ebe_weight e) 1) 1 (ebe_edge_id e) False
        (ebe_forward e) (ebe_backward e),
      ContractorEdge_of (ebe_target e) (ebe_source e) (max (ebe_weight e) 1) 1 (ebe_edge_id e) False
        (ebe_backward e) (ebe_forward e)]"

text \<open>The lightest forward and the lightest backward edge of a run of parallel edges, merged when they have
  the same length.\<close>

definition merge_run :: "ContractorEdge \<Rightarrow> ContractorEdge list \<Rightarrow> ContractorEdge list" where
  "merge_run e run =
     (let df = fold (\<lambda>x d. if ce_forward (ie_data x) then min (ce_distance (ie_data x)) d else d) run INT_MAX;
          dr = fold (\<lambda>x d. if ce_backward (ie_data x) then min (ce_distance (ie_data x)) d else d) run INT_MAX;
          edge = (\<lambda>d fw bw. \<lparr> ie_source = ie_source e, ie_target = ie_target e,
             ie_data = ContractorEdgeData_new\<lparr> ce_forward := fw, ce_backward := bw, ce_shortcut := False,
               ce_id := ce_id (ie_data e), ce_originalEdges := 1, ce_distance := d \<rparr> \<rparr>)
      in if df = dr then (if df \<noteq> INT_MAX then [edge df True True] else [])
         else (if df \<noteq> INT_MAX then [edge df True False] else []) @
              (if dr \<noteq> INT_MAX then [edge dr False True] else []))"

definition parallel :: "ContractorEdge \<Rightarrow> ContractorEdge \<Rightarrow> bool" where
  "parallel e x \<longleftrightarrow> ie_source x = ie_source e \<and> ie_target x = ie_target e"

function merge_parallel :: "ContractorEdge list \<Rightarrow> ContractorEdge list" where
  "merge_parallel [] = []"
| "merge_parallel (e # es) =
     (if ie_source e = ie_target e then merge_parallel es
      else merge_run e (takeWhile (parallel e) (e # es)) @ merge_parallel (dropWhile (parallel e) (e # es)))"
  by pat_completeness auto
termination
proof (relation "measure length", goal_cases)
  case (3 e es)
  then show ?case using length_dropWhile_le [of "parallel e" es] by (simp add: parallel_def le_imp_less_Suc)
qed auto

definition Contractor_new ::
  "(ContractorEdge list \<Rightarrow> ContractorEdge list) \<Rightarrow> (nat \<Rightarrow> ContractorEdgeData DG_Edge) \<Rightarrow> XORFastHash \<Rightarrow> nat \<Rightarrow>
   EdgeBasedEdge list \<Rightarrow> Contractor option" where
  "Contractor_new psort fresh hash nodes input_edge_list = do {
     let edges = psort (concat (map both_directions input_edge_list));
     graph \<leftarrow> DynamicGraph_of fresh nodes (merge_parallel edges);
     Some \<lparr> contractor_graph = Some graph, external_edge_list = [], orig_node_id_to_new_id_map = [],
            contractor_fast_hash = hash \<rparr>
   }"

section \<open>Local searches\<close>

fun witness_relax ::
  "(NodeID, 's) IndexStorage \<Rightarrow> ContractorGraph \<Rightarrow> NodeID \<Rightarrow> int \<Rightarrow> int \<Rightarrow> EdgeID list \<Rightarrow> 's ContractorHeap \<Rightarrow>
   's ContractorHeap option" where
  "witness_relax ops g middleNode distance current_hop [] h = Some h"
| "witness_relax ops g middleNode distance current_hop (edge # es) h = do {
     data \<leftarrow> dg_GetEdgeData g edge;
     if \<not> ce_forward data then witness_relax ops g middleNode distance current_hop es h
     else do {
       to \<leftarrow> dg_GetTarget g edge;
       if middleNode = to then witness_relax ops g middleNode distance current_hop es h
       else do {
         let to_distance = sbits 32 (distance + ce_distance data);
         (inserted, h) \<leftarrow> heap_WasInserted ops h to;
         if \<not> inserted then do {
           h \<leftarrow> heap_Insert ops h to to_distance \<lparr> ch_hop = current_hop, ch_target = False \<rparr>;
           witness_relax ops g middleNode distance current_hop es h
         } else do {
           (key, h) \<leftarrow> heap_GetKey ops h to;
           if to_distance < key then do {
             h \<leftarrow> heap_DecreaseKey ops h to to_distance;
             (d, h) \<leftarrow> heap_GetData ops h to;
             h \<leftarrow> heap_SetData ops h to (d\<lparr> ch_hop := current_hop \<rparr>);
             witness_relax ops g middleNode distance current_hop es h
           } else witness_relax ops g middleNode distance current_hop es h
         }
       }
     }
   }"

text \<open>The loop of \<open>Dijkstra\<close>; the number of settled nodes bounds it.\<close>

function witness_loop ::
  "(NodeID, 's) IndexStorage \<Rightarrow> ContractorGraph \<Rightarrow> int \<Rightarrow> nat \<Rightarrow> nat \<Rightarrow> NodeID \<Rightarrow> nat \<Rightarrow> nat \<Rightarrow> 's ContractorHeap \<Rightarrow>
   's ContractorHeap option" where
  "witness_loop ops g max_distance number_of_targets maxNodes middleNode nodes number_of_targets_found h =
     (if heap_Empty h then Some h
      else do {
        (node, h) \<leftarrow> heap_DeleteMin h;
        (distance, h) \<leftarrow> heap_GetKey ops h node;
        (d, h) \<leftarrow> heap_GetData ops h node;
        let current_hop = sbits 16 (ch_hop d + 1);
        let nodes = nodes + 1;
        if nodes > maxNodes then Some h
        else if distance > max_distance then Some h
        else do {
          (d, h) \<leftarrow> heap_GetData ops h node;
          let number_of_targets_found = (if ch_target d then number_of_targets_found + 1 else number_of_targets_found);
          if ch_target d \<and> number_of_targets_found \<ge> number_of_targets then Some h
          else do {
            range \<leftarrow> dg_GetAdjacentEdgeRange g node;
            h \<leftarrow> witness_relax ops g middleNode distance current_hop range h;
            witness_loop ops g max_distance number_of_targets maxNodes middleNode nodes number_of_targets_found h
          }
        }
      })"
  by pat_completeness auto
termination by (relation "measure (\<lambda>(_, _, _, _, maxNodes, _, nodes, _, _). maxNodes - nodes)") auto

declare witness_loop.simps [simp del]

definition Dijkstra ::
  "(NodeID, 's) IndexStorage \<Rightarrow> ContractorGraph \<Rightarrow> int \<Rightarrow> nat \<Rightarrow> nat \<Rightarrow> 's ContractorHeap \<Rightarrow> NodeID \<Rightarrow> 's ContractorHeap option" where
  "Dijkstra ops g max_distance number_of_targets maxNodes h middleNode =
     witness_loop ops g max_distance number_of_targets maxNodes middleNode 0 0 h"

section \<open>Contracting a node\<close>

text \<open>The first loop over the outgoing edges: every target enters the heap with an infinite distance.\<close>

fun insert_targets ::
  "(NodeID, 's) IndexStorage \<Rightarrow> ContractorGraph \<Rightarrow> ContractorEdgeData \<Rightarrow> EdgeID list \<Rightarrow> 's ContractorHeap \<times> int \<times> nat \<Rightarrow>
   ('s ContractorHeap \<times> int \<times> nat) option" where
  "insert_targets ops g in_data [] acc = Some acc"
| "insert_targets ops g in_data (out_edge # es) (h, max_distance, number_of_targets) = do {
     out_data \<leftarrow> dg_GetEdgeData g out_edge;
     if \<not> ce_forward out_data then insert_targets ops g in_data es (h, max_distance, number_of_targets)
     else do {
       target \<leftarrow> dg_GetTarget g out_edge;
       let path_distance = sbits 32 (ce_distance in_data + ce_distance out_data);
       let max_distance = max max_distance path_distance;
       (inserted, h) \<leftarrow> heap_WasInserted ops h target;
       if \<not> inserted then do {
         h \<leftarrow> heap_Insert ops h target INT_MAX \<lparr> ch_hop = 0, ch_target = True \<rparr>;
         insert_targets ops g in_data es (h, max_distance, number_of_targets + 1)
       } else insert_targets ops g in_data es (h, max_distance, number_of_targets)
     }
   }"

text \<open>The second loop: a shortcut, in both directions, for every target that the search has not reached over
  a path that is no longer.\<close>

fun add_shortcuts ::
  "(NodeID, 's) IndexStorage \<Rightarrow> bool \<Rightarrow> ContractorGraph \<Rightarrow> NodeID \<Rightarrow> NodeID \<Rightarrow> ContractorEdgeData \<Rightarrow> EdgeID list \<Rightarrow>
   's ContractorHeap \<times> ContractorEdge list \<times> ContractionStats \<Rightarrow>
   ('s ContractorHeap \<times> ContractorEdge list \<times> ContractionStats) option" where
  "add_shortcuts ops simulation g node source in_data [] acc = Some acc"
| "add_shortcuts ops simulation g node source in_data (out_edge # es) (h, ins, stats) = do {
     out_data \<leftarrow> dg_GetEdgeData g out_edge;
     if \<not> ce_forward out_data then add_shortcuts ops simulation g node source in_data es (h, ins, stats)
     else do {
       target \<leftarrow> dg_GetTarget g out_edge;
       let path_distance = sbits 32 (ce_distance in_data + ce_distance out_data);
       (distance, h) \<leftarrow> heap_GetKey ops h target;
       let originals = ce_originalEdges out_data + ce_originalEdges in_data;
       if path_distance < distance then
         if simulation then
           add_shortcuts ops simulation g node source in_data es
             (h, ins, stats\<lparr> edges_added_count := edges_added_count stats + 2,
                             original_edges_added_count := original_edges_added_count stats + 2 * int originals \<rparr>)
         else
           add_shortcuts ops simulation g node source in_data es
             (h, ins @ [ContractorEdge_of source target path_distance originals node True True False,
                        ContractorEdge_of target source path_distance originals node True False True], stats)
       else add_shortcuts ops simulation g node source in_data es (h, ins, stats)
     }
   }"

fun contract_in_edges ::
  "(NodeID, 's) IndexStorage \<Rightarrow> bool \<Rightarrow> ContractorGraph \<Rightarrow> NodeID \<Rightarrow> EdgeID list \<Rightarrow>
   's ContractorHeap \<times> ContractorEdge list \<times> ContractionStats \<Rightarrow>
   ('s ContractorHeap \<times> ContractorEdge list \<times> ContractionStats) option" where
  "contract_in_edges ops simulation g node [] acc = Some acc"
| "contract_in_edges ops simulation g node (in_edge # es) (h, ins, stats) = do {
     in_data \<leftarrow> dg_GetEdgeData g in_edge;
     source \<leftarrow> dg_GetTarget g in_edge;
     let stats = (if simulation then
                    stats\<lparr> edges_deleted_count := edges_deleted_count stats + 1,
                           original_edges_deleted_count := original_edges_deleted_count stats + int (ce_originalEdges in_data) \<rparr>
                  else stats);
     if \<not> ce_backward in_data then contract_in_edges ops simulation g node es (h, ins, stats)
     else do {
       let h = heap_Clear ops h;
       h \<leftarrow> heap_Insert ops h source 0 \<lparr> ch_hop = 0, ch_target = False \<rparr>;
       range \<leftarrow> dg_GetAdjacentEdgeRange g node;
       (h, max_distance, number_of_targets) \<leftarrow> insert_targets ops g in_data range (h, 0, 0);
       h \<leftarrow> Dijkstra ops g max_distance number_of_targets (if simulation then 1000 else 2000) h node;
       acc \<leftarrow> add_shortcuts ops simulation g node source in_data range (h, ins, stats);
       contract_in_edges ops simulation g node es acc
     }
   }"

text \<open>Merging of duplicates: an edge gives its directions to the first later edge with the same ends, length
  and kind.\<close>

definition duplicates :: "ContractorEdge \<Rightarrow> ContractorEdge \<Rightarrow> bool" where
  "duplicates e other \<longleftrightarrow> ie_source other = ie_source e \<and> ie_target other = ie_target e \<and>
     ce_distance (ie_data other) = ce_distance (ie_data e) \<and> ce_shortcut (ie_data other) = ce_shortcut (ie_data e)"

definition merge_into :: "ContractorEdge \<Rightarrow> ContractorEdge \<Rightarrow> ContractorEdge" where
  "merge_into e other = other\<lparr> ie_data := (ie_data other)\<lparr>
     ce_forward := ce_forward (ie_data other) \<or> ce_forward (ie_data e),
     ce_backward := ce_backward (ie_data other) \<or> ce_backward (ie_data e) \<rparr> \<rparr>"

fun merge_first :: "ContractorEdge \<Rightarrow> ContractorEdge list \<Rightarrow> ContractorEdge list option" where
  "merge_first e [] = None"
| "merge_first e (other # os) =
     (if duplicates e other then Some (merge_into e other # os)
      else do { os \<leftarrow> merge_first e os; Some (other # os) })"

lemma length_merge_first: "merge_first e es = Some es' \<Longrightarrow> length es' = length es"
  by (induction es arbitrary: es') (auto simp: bind_eq_Some_conv split: if_splits)

function merge_duplicates :: "ContractorEdge list \<Rightarrow> ContractorEdge list" where
  "merge_duplicates [] = []"
| "merge_duplicates (e # es) =
     (case merge_first e es of Some es' \<Rightarrow> merge_duplicates es' | None \<Rightarrow> e # merge_duplicates es)"
  by pat_completeness auto
termination by (relation "measure length") (auto simp: length_merge_first)

definition ContractNode ::
  "(NodeID, 's) IndexStorage \<Rightarrow> bool \<Rightarrow> ContractorGraph \<Rightarrow> 's ContractorThreadData \<Rightarrow> NodeID \<Rightarrow> ContractionStats \<Rightarrow>
   ('s ContractorThreadData \<times> ContractionStats) option" where
  "ContractNode ops simulation g td node stats = do {
     range \<leftarrow> dg_GetAdjacentEdgeRange g node;
     (h, ins, stats) \<leftarrow> contract_in_edges ops simulation g node range (td_heap td, [], stats);
     Some (td\<lparr> td_heap := h,
              inserted_edges := inserted_edges td @ (if simulation then [] else merge_duplicates ins) \<rparr>, stats)
   }"

section \<open>Neighbours and priorities\<close>

text \<open>The targets of the edges of a node other than the node itself.\<close>

fun other_targets :: "ContractorGraph \<Rightarrow> NodeID \<Rightarrow> EdgeID list \<Rightarrow> NodeID list option" where
  "other_targets g node [] = Some []"
| "other_targets g node (e # es) = do {
     u \<leftarrow> dg_GetTarget g e;
     us \<leftarrow> other_targets g node es;
     Some (if u \<noteq> node then u # us else us)
   }"

definition sorted_unique :: "NodeID list \<Rightarrow> NodeID list" where
  "sorted_unique ns = remdups_adj (sort ns)"

fun delete_edges_to :: "NodeID \<Rightarrow> NodeID list \<Rightarrow> ContractorGraph \<Rightarrow> ContractorGraph option" where
  "delete_edges_to node [] g = Some g"
| "delete_edges_to node (u # us) g = do {
     (deleted, g) \<leftarrow> dg_DeleteEdgesTo g u node;
     delete_edges_to node us g
   }"

definition DeleteIncomingEdges :: "ContractorGraph \<Rightarrow> NodeID \<Rightarrow> ContractorGraph option" where
  "DeleteIncomingEdges g node = do {
     range \<leftarrow> dg_GetAdjacentEdgeRange g node;
     neighbours \<leftarrow> other_targets g node range;
     delete_edges_to node (sorted_unique neighbours) g
   }"

text \<open>\<^verbatim>\<open>float\<close> arithmetic rounds with \<open>fl\<close>.\<close>

definition node_priority :: "(rat \<Rightarrow> rat) \<Rightarrow> ContractionStats \<Rightarrow> int \<Rightarrow> rat" where
  "node_priority fl stats depth =
     (if 0 = edges_deleted_count stats * original_edges_deleted_count stats then fl (1 * fl (of_int depth))
      else
        let ratio = (\<lambda>a b. fl (fl (of_int a) / fl (of_int b)))
        in fl (fl (fl (2 * ratio (edges_added_count stats) (edges_deleted_count stats)) +
                   fl (4 * ratio (original_edges_added_count stats) (original_edges_deleted_count stats))) +
               fl (1 * fl (of_int depth))))"

definition EvaluateNodePriority ::
  "(NodeID, 's) IndexStorage \<Rightarrow> (rat \<Rightarrow> rat) \<Rightarrow> ContractorGraph \<Rightarrow> 's ContractorThreadData \<Rightarrow> int \<Rightarrow> NodeID \<Rightarrow>
   (rat \<times> 's ContractorThreadData) option" where
  "EvaluateNodePriority ops fl g td depth node = do {
     (td, stats) \<leftarrow> ContractNode ops True g td node ContractionStats_new;
     let result = node_priority fl stats depth;
     assert_that (result \<ge> 0);
     Some (result, td)
   }"

fun raise_depths :: "int \<Rightarrow> NodeID list \<Rightarrow> int list \<Rightarrow> int list option" where
  "raise_depths depth [] node_data = Some node_data"
| "raise_depths depth (u # us) node_data = do {
     node_data \<leftarrow> vec_upd node_data u (\<lambda>d. max (depth + 1) d);
     raise_depths depth us node_data
   }"

fun update_priorities ::
  "(NodeID, 's) IndexStorage \<Rightarrow> (rat \<Rightarrow> rat) \<Rightarrow> ContractorGraph \<Rightarrow> int list \<Rightarrow> NodeID list \<Rightarrow> rat list \<times> 's ContractorThreadData \<Rightarrow>
   (rat list \<times> 's ContractorThreadData) option" where
  "update_priorities ops fl g node_data [] acc = Some acc"
| "update_priorities ops fl g node_data (u # us) (priorities, td) = do {
     depth \<leftarrow> vec_at node_data u;
     (p, td) \<leftarrow> EvaluateNodePriority ops fl g td depth u;
     priorities \<leftarrow> vec_upd priorities u (\<lambda>_. p);
     update_priorities ops fl g node_data us (priorities, td)
   }"

definition UpdateNodeNeighbours ::
  "(NodeID, 's) IndexStorage \<Rightarrow> (rat \<Rightarrow> rat) \<Rightarrow> ContractorGraph \<Rightarrow> rat list \<times> int list \<times> 's ContractorThreadData \<Rightarrow> NodeID \<Rightarrow>
   (rat list \<times> int list \<times> 's ContractorThreadData) option" where
  "UpdateNodeNeighbours ops fl g acc node = do {
     let (priorities, node_data, td) = acc;
     range \<leftarrow> dg_GetAdjacentEdgeRange g node;
     neighbours \<leftarrow> other_targets g node range;
     depth \<leftarrow> vec_at node_data node;
     node_data \<leftarrow> raise_depths depth neighbours node_data;
     (priorities, td) \<leftarrow> update_priorities ops fl g node_data (sorted_unique neighbours) (priorities, td);
     Some (priorities, node_data, td)
   }"

definition bias :: "XORFastHash \<Rightarrow> NodeID \<Rightarrow> NodeID \<Rightarrow> bool" where
  "bias hash a b =
     (let hasha = XORFastHash_hash hash (of_nat a); hashb = XORFastHash_hash hash (of_nat b)
      in if hasha \<noteq> hashb then hasha < hashb else a < b)"

text \<open>\<^verbatim>\<open>std::numeric_limits<float>::epsilon()\<close> is \<open>2 ^ -23\<close>.\<close>

definition tied :: "(rat \<Rightarrow> rat) \<Rightarrow> rat \<Rightarrow> rat \<Rightarrow> bool" where
  "tied fl p q \<longleftrightarrow> \<bar>fl (p - q)\<bar> < 1 / 2 ^ 23"

text \<open>Whether no edge leads to a node that has to be contracted first.\<close>

fun precedes_targets ::
  "(rat \<Rightarrow> rat) \<Rightarrow> XORFastHash \<Rightarrow> ContractorGraph \<Rightarrow> rat list \<Rightarrow> NodeID \<Rightarrow> rat \<Rightarrow> EdgeID list \<Rightarrow> bool option" where
  "precedes_targets fl hash g priorities node priority [] = Some True"
| "precedes_targets fl hash g priorities node priority (e # es) = do {
     target \<leftarrow> dg_GetTarget g e;
     if node = target then precedes_targets fl hash g priorities node priority es
     else do {
       target_priority \<leftarrow> vec_at priorities target;
       assert_that (target_priority \<ge> 0);
       if priority > target_priority then Some False
       else if tied fl priority target_priority \<and> bias hash node target then Some False
       else precedes_targets fl hash g priorities node priority es
     }
   }"

fun precedes_two_hops ::
  "(rat \<Rightarrow> rat) \<Rightarrow> XORFastHash \<Rightarrow> ContractorGraph \<Rightarrow> rat list \<Rightarrow> NodeID \<Rightarrow> rat \<Rightarrow> NodeID list \<Rightarrow> bool option" where
  "precedes_two_hops fl hash g priorities node priority [] = Some True"
| "precedes_two_hops fl hash g priorities node priority (u # us) = do {
     range \<leftarrow> dg_GetAdjacentEdgeRange g u;
     ok \<leftarrow> precedes_targets fl hash g priorities node priority range;
     if \<not> ok then Some False else precedes_two_hops fl hash g priorities node priority us
   }"

definition IsNodeIndependent ::
  "(rat \<Rightarrow> rat) \<Rightarrow> XORFastHash \<Rightarrow> ContractorGraph \<Rightarrow> rat list \<Rightarrow> NodeID \<Rightarrow> bool option" where
  "IsNodeIndependent fl hash g priorities node = do {
     priority \<leftarrow> vec_at priorities node;
     range \<leftarrow> dg_GetAdjacentEdgeRange g node;
     ok \<leftarrow> precedes_targets fl hash g priorities node priority range;
     if \<not> ok then Some False
     else do {
       neighbours \<leftarrow> other_targets g node range;
       precedes_two_hops fl hash g priorities node priority (sorted_unique neighbours)
     }
   }"

section \<open>One round\<close>

text \<open>\<^verbatim>\<open>ThreadDataContainer\<close>: the data of a thread is created when the thread first asks for it.\<close>

definition ContractorThreadData_new :: "(NodeID, 's) IndexStorage \<Rightarrow> (nat \<Rightarrow> 's) \<Rightarrow> nat \<Rightarrow> 's ContractorThreadData" where
  "ContractorThreadData_new ops storage nodes =
     \<lparr> td_heap = BinaryHeap_new ops (storage nodes), inserted_edges = [] \<rparr>"

definition getThreadData ::
  "(NodeID, 's) IndexStorage \<Rightarrow> (nat \<Rightarrow> 's) \<Rightarrow> nat \<Rightarrow> 's ContractorThreadData list \<Rightarrow> 's ContractorThreadData" where
  "getThreadData ops storage nodes tds =
     (case tds of [] \<Rightarrow> ContractorThreadData_new ops storage nodes | td # _ \<Rightarrow> td)"

record RemainingNodeData =
  rn_id :: NodeID
  rn_is_independent :: bool

fun mark_independent ::
  "(rat \<Rightarrow> rat) \<Rightarrow> XORFastHash \<Rightarrow> ContractorGraph \<Rightarrow> rat list \<Rightarrow> RemainingNodeData list \<Rightarrow> RemainingNodeData list option" where
  "mark_independent fl hash g priorities [] = Some []"
| "mark_independent fl hash g priorities (r # rs) = do {
     independent \<leftarrow> IsNodeIndependent fl hash g priorities (rn_id r);
     rs \<leftarrow> mark_independent fl hash g priorities rs;
     Some (r\<lparr> rn_is_independent := independent \<rparr> # rs)
   }"

fun contract_nodes ::
  "(NodeID, 's) IndexStorage \<Rightarrow> ContractorGraph \<Rightarrow> NodeID list \<Rightarrow> 's ContractorThreadData \<Rightarrow> 's ContractorThreadData option" where
  "contract_nodes ops g [] td = Some td"
| "contract_nodes ops g (x # xs) td = do {
     (td, stats) \<leftarrow> ContractNode ops False g td x ContractionStats_new;
     contract_nodes ops g xs td
   }"

text \<open>The threads share the work: each contracts the nodes of one list.  They read the graph and write to
  their own data only.\<close>

fun contract_threads ::
  "(NodeID, 's) IndexStorage \<Rightarrow> (nat \<Rightarrow> 's) \<Rightarrow> nat \<Rightarrow> ContractorGraph \<Rightarrow> NodeID list list \<Rightarrow> 's ContractorThreadData list \<Rightarrow>
   's ContractorThreadData list option" where
  "contract_threads ops storage nodes g [] tds = Some tds"
| "contract_threads ops storage nodes g (xs # xss) tds = do {
     td \<leftarrow> contract_nodes ops g xs (getThreadData ops storage nodes tds);
     tds \<leftarrow> contract_threads ops storage nodes g xss (tl tds);
     Some (td # tds)
   }"

fun delete_contracted :: "NodeID list \<Rightarrow> ContractorGraph \<Rightarrow> ContractorGraph option" where
  "delete_contracted [] g = Some g"
| "delete_contracted (x # xs) g = do { g \<leftarrow> DeleteIncomingEdges g x; delete_contracted xs g }"

definition insert_edge ::
  "(nat \<Rightarrow> ContractorEdgeData DG_Edge) \<Rightarrow> ContractorGraph \<Rightarrow> ContractorEdge \<Rightarrow> ContractorGraph option" where
  "insert_edge fresh g edge = do {
     current_edge_ID \<leftarrow> dg_FindEdge g (ie_source edge) (ie_target edge);
     last_edge \<leftarrow> dg_EndEdges g (ie_source edge);
     update \<leftarrow> (if current_edge_ID < last_edge then do {
         current_data \<leftarrow> dg_GetEdgeData g current_edge_ID;
         Some (ce_shortcut current_data \<and> ce_forward (ie_data edge) = ce_forward current_data \<and>
               ce_backward (ie_data edge) = ce_backward current_data \<and>
               ce_distance (ie_data edge) < ce_distance current_data)
       } else Some False);
     if update then dg_SetEdgeData g current_edge_ID (\<lambda>_. ie_data edge)
     else map_option snd (dg_InsertEdge fresh g (ie_source edge) (ie_target edge) (ie_data edge))
   }"

fun insert_edges ::
  "(nat \<Rightarrow> ContractorEdgeData DG_Edge) \<Rightarrow> ContractorEdge list \<Rightarrow> ContractorGraph \<Rightarrow> ContractorGraph option" where
  "insert_edges fresh [] g = Some g"
| "insert_edges fresh (e # es) g = do { g \<leftarrow> insert_edge fresh g e; insert_edges fresh es g }"

fun update_contracted ::
  "(NodeID, 's) IndexStorage \<Rightarrow> (rat \<Rightarrow> rat) \<Rightarrow> ContractorGraph \<Rightarrow> NodeID list \<Rightarrow> rat list \<times> int list \<times> 's ContractorThreadData \<Rightarrow>
   (rat list \<times> int list \<times> 's ContractorThreadData) option" where
  "update_contracted ops fl g [] acc = Some acc"
| "update_contracted ops fl g (x # xs) acc = do {
     acc \<leftarrow> UpdateNodeNeighbours ops fl g acc x;
     update_contracted ops fl g xs acc
   }"

text \<open>The local variables of \<^verbatim>\<open>Run\<close>.\<close>

record 's ContractorRun =
  run_contractor :: Contractor
  remaining_nodes :: "RemainingNodeData list"
  node_priorities :: "rat list"
  node_data :: "int list"
  number_of_contracted_nodes :: nat
  flushed_contractor :: bool
  thread_data_list :: "'s ContractorThreadData list"
  thread_number_of_nodes :: nat

text \<open>What \<^verbatim>\<open>Run\<close> takes from elsewhere: the index storage and its constructor, the contents of fresh graph
  slots, the sorting routine, the distribution of the nodes over the threads, and the rounding of
  \<^verbatim>\<open>float\<close> operations.\<close>

record 's ContractorEnv =
  env_ops :: "(NodeID, 's) IndexStorage"
  env_storage :: "nat \<Rightarrow> 's"
  env_fresh :: "nat \<Rightarrow> ContractorEdgeData DG_Edge"
  env_sort :: "ContractorEdge list \<Rightarrow> ContractorEdge list"
  env_schedule :: "NodeID list \<Rightarrow> NodeID list list"
  env_fl :: "rat \<Rightarrow> rat"

definition contract_round :: "'s ContractorEnv \<Rightarrow> 's ContractorRun \<Rightarrow> 's ContractorRun option" where
  "contract_round env st = do {
     let c = run_contractor st;
     g \<leftarrow> contractor_graph c;
     marked \<leftarrow> mark_independent (env_fl env) (contractor_fast_hash c) g (node_priorities st) (remaining_nodes st);
     let remaining = filter (\<lambda>r. \<not> rn_is_independent r) marked;
     let contracted = map rn_id (filter rn_is_independent marked);
     tds \<leftarrow> contract_threads (env_ops env) (env_storage env) (thread_number_of_nodes st) g
       (env_schedule env contracted) (thread_data_list st);
     let tds = map (\<lambda>td. td\<lparr> inserted_edges := env_sort env (inserted_edges td) \<rparr>) tds;
     g \<leftarrow> delete_contracted contracted g;
     g \<leftarrow> insert_edges (env_fresh env) (concat (map inserted_edges tds)) g;
     let tds = map (\<lambda>td. td\<lparr> inserted_edges := [] \<rparr>) tds;
     (priorities, depths, td) \<leftarrow> update_contracted (env_ops env) (env_fl env) g contracted
       (node_priorities st, node_data st, getThreadData (env_ops env) (env_storage env) (thread_number_of_nodes st) tds);
     Some (st\<lparr> run_contractor := c\<lparr> contractor_graph := Some g \<rparr>, remaining_nodes := remaining,
              node_priorities := priorities, node_data := depths,
              number_of_contracted_nodes := number_of_contracted_nodes st + length contracted,
              thread_data_list := td # tl tds \<rparr>)
   }"

section \<open>Flushing\<close>

text \<open>The first loop of the flush: the renumbering maps, the new priorities and the new identifiers.\<close>

fun renumber_nodes ::
  "nat \<Rightarrow> RemainingNodeData list \<Rightarrow> rat list \<Rightarrow> NodeID list \<Rightarrow>
   (NodeID list \<times> NodeID list \<times> rat list \<times> RemainingNodeData list) option" where
  "renumber_nodes new_node_id [] priorities to_new = Some ([], to_new, [], [])"
| "renumber_nodes new_node_id (r # rs) priorities to_new = do {
     to_new \<leftarrow> vec_upd to_new (rn_id r) (\<lambda>_. new_node_id);
     p \<leftarrow> vec_at priorities (rn_id r);
     (to_orig, to_new, ps, rs) \<leftarrow> renumber_nodes (new_node_id + 1) rs priorities to_new;
     Some (rn_id r # to_orig, to_new, p # ps, r\<lparr> rn_id := new_node_id mod 2 ^ 31 \<rparr> # rs)
   }"

definition EdgeData_from :: "ContractorEdgeData \<Rightarrow> EdgeData" where
  "EdgeData_from other = EdgeData_of (ce_id other) (ce_shortcut other) (ce_distance other)
     (ce_forward other) (ce_backward other)"

fun flush_edges ::
  "ContractorGraph \<Rightarrow> NodeID list \<Rightarrow> NodeID \<Rightarrow> EdgeID list \<Rightarrow> QueryEdge list \<times> ContractorEdge list \<Rightarrow>
   (QueryEdge list \<times> ContractorEdge list) option" where
  "flush_edges g to_new source [] acc = Some acc"
| "flush_edges g to_new source (e # es) (external, new_edge_set) = do {
     data \<leftarrow> dg_GetEdgeData g e;
     target \<leftarrow> dg_GetTarget g e;
     new_source \<leftarrow> vec_at to_new source;
     if SPECIAL_NODEID = new_source then
       flush_edges g to_new source es
         (external @ [\<lparr> qe_source = source, qe_target = target, qe_data = EdgeData_from data \<rparr>], new_edge_set)
     else do {
       new_target \<leftarrow> vec_at to_new target;
       assert_that (SPECIAL_NODEID \<noteq> new_target);
       flush_edges g to_new source es
         (external, new_edge_set @ [\<lparr> ie_source = new_source, ie_target = new_target,
            ie_data = data\<lparr> ce_is_original_via_node_ID := True \<rparr> \<rparr>])
     }
   }"

fun flush_nodes ::
  "ContractorGraph \<Rightarrow> NodeID list \<Rightarrow> NodeID list \<Rightarrow> QueryEdge list \<times> ContractorEdge list \<Rightarrow>
   (QueryEdge list \<times> ContractorEdge list) option" where
  "flush_nodes g to_new [] acc = Some acc"
| "flush_nodes g to_new (i # is) acc = do {
     range \<leftarrow> dg_GetAdjacentEdgeRange g i;
     acc \<leftarrow> flush_edges g to_new i range acc;
     flush_nodes g to_new is acc
   }"

definition flush_contractor :: "'s ContractorEnv \<Rightarrow> nat \<Rightarrow> 's ContractorRun \<Rightarrow> 's ContractorRun option" where
  "flush_contractor env nodes st = do {
     let c = run_contractor st;
     g \<leftarrow> contractor_graph c;
     (to_orig, to_new, priorities, remaining) \<leftarrow> renumber_nodes 0 (remaining_nodes st) (node_priorities st)
       (replicate nodes SPECIAL_NODEID);
     (external, new_edge_set) \<leftarrow> flush_nodes g to_new (irange 0 (dg_GetNumberOfNodes g)) (external_edge_list c, []);
     graph \<leftarrow> DynamicGraph_of (env_fresh env) (length (remaining_nodes st)) (env_sort env new_edge_set);
     Some (st\<lparr> run_contractor := c\<lparr> contractor_graph := Some graph, external_edge_list := external,
                orig_node_id_to_new_id_map := to_orig \<rparr>,
              remaining_nodes := remaining, node_priorities := priorities, flushed_contractor := True,
              thread_data_list := [], thread_number_of_nodes := dg_GetNumberOfNodes graph \<rparr>)
   }"

section \<open>The contraction of a graph\<close>

text \<open>\<^verbatim>\<open>number_of_contracted_nodes > number_of_nodes * 0.65\<close>, in integers.\<close>

definition flush_due :: "nat \<Rightarrow> 's ContractorRun \<Rightarrow> bool" where
  "flush_due nodes st \<longleftrightarrow>
     \<not> flushed_contractor st \<and> 100 * number_of_contracted_nodes st > 65 * nodes"

definition contract_step :: "'s ContractorEnv \<Rightarrow> nat \<Rightarrow> 's ContractorRun \<Rightarrow> 's ContractorRun option" where
  "contract_step env nodes st = do {
     st \<leftarrow> (if flush_due nodes st then flush_contractor env nodes st else Some st);
     contract_round env st
   }"

partial_function (option) contract_loop :: "'s ContractorEnv \<Rightarrow> nat \<Rightarrow> 's ContractorRun \<Rightarrow> 's ContractorRun option" where
  [code]: "contract_loop env nodes st =
     (if nodes > 2 \<and> number_of_contracted_nodes st < nodes
      then Option.bind (contract_step env nodes st) (contract_loop env nodes)
      else Some st)"

definition Run_init :: "'s ContractorEnv \<Rightarrow> Contractor \<Rightarrow> 's ContractorRun option" where
  "Run_init env c = do {
     g \<leftarrow> contractor_graph c;
     let nodes = dg_GetNumberOfNodes g;
     let depths = replicate nodes 0;
     (priorities, td) \<leftarrow> update_priorities (env_ops env) (env_fl env) g depths (irange 0 nodes)
       (replicate nodes 0, getThreadData (env_ops env) (env_storage env) nodes []);
     Some \<lparr> run_contractor = c,
            remaining_nodes = map (\<lambda>x. \<lparr> rn_id = x mod 2 ^ 31, rn_is_independent = False \<rparr>) (irange 0 nodes),
            node_priorities = priorities, node_data = depths, number_of_contracted_nodes = 0,
            flushed_contractor = False, thread_data_list = [td], thread_number_of_nodes = nodes \<rparr>
   }"

definition Run :: "'s ContractorEnv \<Rightarrow> Contractor \<Rightarrow> Contractor option" where
  "Run env c = do {
     st \<leftarrow> Run_init env c;
     g \<leftarrow> contractor_graph c;
     st \<leftarrow> contract_loop env (dg_GetNumberOfNodes g) st;
     Some (run_contractor st)
   }"

section \<open>The edges of the hierarchy\<close>

definition orig_id :: "NodeID list \<Rightarrow> NodeID \<Rightarrow> NodeID option" where
  "orig_id to_orig n = (if to_orig \<noteq> [] then vec_at to_orig n else Some n)"

fun get_edges_at ::
  "ContractorGraph \<Rightarrow> NodeID list \<Rightarrow> NodeID \<Rightarrow> EdgeID list \<Rightarrow> QueryEdge list option" where
  "get_edges_at g to_orig node [] = Some []"
| "get_edges_at g to_orig node (e # es) = do {
     target \<leftarrow> dg_GetTarget g e;
     data \<leftarrow> dg_GetEdgeData g e;
     new_source \<leftarrow> orig_id to_orig node;
     new_target \<leftarrow> orig_id to_orig target;
     assert_that (SPECIAL_NODEID \<noteq> new_source);
     assert_that (SPECIAL_NODEID \<noteq> new_target);
     new_id \<leftarrow> (if \<not> ce_is_original_via_node_ID data then orig_id to_orig (ce_id data) else Some (ce_id data));
     let new_data = EdgeData_of new_id (ce_shortcut data) (ce_distance data) (ce_forward data) (ce_backward data);
     assert_that (ed_id new_data \<noteq> 2 ^ 31 - 1);
     rest \<leftarrow> get_edges_at g to_orig node es;
     Some (\<lparr> qe_source = new_source, qe_target = new_target, qe_data = new_data \<rparr> # rest)
   }"

fun get_edges :: "ContractorGraph \<Rightarrow> NodeID list \<Rightarrow> NodeID list \<Rightarrow> QueryEdge list option" where
  "get_edges g to_orig [] = Some []"
| "get_edges g to_orig (node # ns) = do {
     range \<leftarrow> dg_GetAdjacentEdgeRange g node;
     es \<leftarrow> get_edges_at g to_orig node range;
     rest \<leftarrow> get_edges g to_orig ns;
     Some (es @ rest)
   }"

definition GetEdges :: "Contractor \<Rightarrow> QueryEdge list \<Rightarrow> (QueryEdge list \<times> Contractor) option" where
  "GetEdges c edge_vec = do {
     g \<leftarrow> contractor_graph c;
     es \<leftarrow> get_edges g (orig_node_id_to_new_id_map c) (irange 0 (dg_GetNumberOfNodes g));
     Some (edge_vec @ es @ external_edge_list c,
           c\<lparr> contractor_graph := None, orig_node_id_to_new_id_map := [], external_edge_list := [] \<rparr>)
   }"

end
