(* ===== verification/Contraction.thy ===== *)
theory Contraction
  imports OSRM_Prelude
begin

text \<open>
  Why contracting nodes preserves shortest distances, on sets of arcs.  A state of the contraction has
  the remaining nodes \<open>R\<close> and, stored at every node, its outgoing arcs \<open>F\<close> and its incoming arcs \<open>B\<close>;
  the arcs between remaining nodes form the overlay graph.  A round removes a set \<open>I\<close> of nodes of
  which no two are adjacent or have a common neighbour, and bridges every pair of arcs through a
  removed node unless the overlay graph without that node has a path that is no longer.
\<close>

section \<open>Walks\<close>

type_synonym arc_set = "(NodeID \<times> NodeID \<times> int) set"

inductive walk :: "arc_set \<Rightarrow> NodeID \<Rightarrow> NodeID \<Rightarrow> int \<Rightarrow> bool" for A where
  walk_nil: "walk A s s 0"
| walk_step: "(s, u, d) \<in> A \<Longrightarrow> walk A u t w \<Longrightarrow> walk A s t (d + w)"

lemma walk_arc: "(s, t, d) \<in> A \<Longrightarrow> walk A s t d"
  using walk_step [of s t d A t 0] walk_nil by simp

lemma walk_trans: "walk A s u w \<Longrightarrow> walk A u t v \<Longrightarrow> walk A s t (w + v)"
  by (induction rule: walk.induct) (auto simp: add.assoc intro: walk_step)

lemma walk_mono: "walk A s t w \<Longrightarrow> A \<subseteq> A' \<Longrightarrow> walk A' s t w"
  by (induction rule: walk.induct) (auto intro: walk.intros)

lemma walk_snoc: "walk A s u w \<Longrightarrow> (u, t, d) \<in> A \<Longrightarrow> walk A s t (w + d)"
  using walk_trans walk_arc by blast

lemma walk_snocE:
  assumes "walk A s t w"
  obtains "s = t" "w = 0" | u w' d where "walk A s u w'" "(u, t, d) \<in> A" "w = w' + d"
  using assms
proof (induction arbitrary: thesis rule: walk.induct)
  case (walk_step s u d t w)
  show ?case
  proof (rule walk_step.IH)
    assume "u = t" "w = 0"
    then show thesis using walk_step.prems(2) [of s 0 d] walk_step.hyps(1) by (simp add: walk_nil)
  next
    fix v w' d' assume "walk A u v w'" "(v, t, d') \<in> A" "w = w' + d'"
    then show thesis using walk_step.prems(2) [of v "d + w'" d'] walk.walk_step [OF walk_step.hyps(1)] by simp
  qed
qed simp

lemma walk_first: "walk A s t w \<Longrightarrow> s \<noteq> t \<Longrightarrow> \<exists>u d w'. (s, u, d) \<in> A \<and> walk A u t w' \<and> w = d + w'"
  by (erule walk.cases) blast+

lemma walk_last: "walk A s t w \<Longrightarrow> s \<noteq> t \<Longrightarrow> \<exists>u d w'. walk A s u w' \<and> (u, t, d) \<in> A \<and> w = w' + d"
  by (erule walk_snocE) blast+

lemma walk_nonneg: "walk A s t w \<Longrightarrow> (\<And>u v d. (u, v, d) \<in> A \<Longrightarrow> 0 \<le> d) \<Longrightarrow> 0 \<le> w"
  by (induction rule: walk.induct) (auto intro: add_nonneg_nonneg)

lemma walk_in: "walk A s t w \<Longrightarrow> s \<in> R \<Longrightarrow> (\<And>u v d. (u, v, d) \<in> A \<Longrightarrow> v \<in> R) \<Longrightarrow> t \<in> R"
  by (induction rule: walk.induct) auto

text \<open>Replacing every arc by a walk.\<close>

lemma walk_subst:
  "walk A s t w \<Longrightarrow> (\<And>u v d. (u, v, d) \<in> A \<Longrightarrow> walk A' u v d) \<Longrightarrow> walk A' s t w"
  by (induction rule: walk.induct) (auto intro: walk_nil walk_trans)

section \<open>Stored arcs\<close>

type_synonym stored = "NodeID \<Rightarrow> (NodeID \<times> int) set"

text \<open>The arcs stored at the nodes of a set.\<close>

definition stored_arcs :: "stored \<Rightarrow> NodeID set \<Rightarrow> arc_set" where
  "stored_arcs F X = {(u, v, d). u \<in> X \<and> (v, d) \<in> F u}"

definition nb :: "stored \<Rightarrow> stored \<Rightarrow> NodeID \<Rightarrow> NodeID set" where
  "nb F B x = fst ` (F x \<union> B x)"

text \<open>Every arc is stored at both ends; where the lengths differ, both ends know one that is no longer.\<close>

definition mirrored :: "stored \<Rightarrow> stored \<Rightarrow> NodeID set \<Rightarrow> bool" where
  "mirrored F B R \<longleftrightarrow> (\<forall>u \<in> R. \<forall>v d. (v, d) \<in> F u \<longrightarrow> v \<in> R \<and> v \<noteq> u \<and> 0 < d \<and> (\<exists>d' \<le> d. (u, d') \<in> B v))"

definition overlay_ok :: "stored \<Rightarrow> stored \<Rightarrow> NodeID set \<Rightarrow> bool" where
  "overlay_ok F B R \<longleftrightarrow> mirrored F B R \<and> mirrored B F R"

definition apart :: "stored \<Rightarrow> stored \<Rightarrow> NodeID set \<Rightarrow> bool" where
  "apart F B I \<longleftrightarrow> (\<forall>x \<in> I. \<forall>y \<in> I. x \<noteq> y \<longrightarrow> y \<notin> nb F B x \<and> nb F B x \<inter> nb F B y = {})"

definition dominates :: "stored \<Rightarrow> NodeID \<Rightarrow> NodeID \<Rightarrow> int \<Rightarrow> bool" where
  "dominates F u v d \<longleftrightarrow> (\<exists>d' \<le> d. (v, d') \<in> F u)"

text \<open>An arc that the round may store at \<open>u\<close>: an old one, or one over a removed node.\<close>

definition bridge :: "stored \<Rightarrow> stored \<Rightarrow> NodeID set \<Rightarrow> NodeID \<Rightarrow> NodeID \<Rightarrow> int \<Rightarrow> bool" where
  "bridge F B I u v d \<longleftrightarrow> (\<exists>x \<in> I. \<exists>d1 d2. (u, d1) \<in> B x \<and> (v, d2) \<in> F x \<and> d = d1 + d2)"

text \<open>The arcs that do not lead to a node.\<close>

definition avoiding :: "arc_set \<Rightarrow> NodeID \<Rightarrow> arc_set" where
  "avoiding A x = {(u, v, d) \<in> A. v \<noteq> x}"

definition round_ok :: "stored \<Rightarrow> stored \<Rightarrow> NodeID set \<Rightarrow> NodeID set \<Rightarrow> stored \<Rightarrow> stored \<Rightarrow> bool" where
  "round_ok F B R I F' B' \<longleftrightarrow> I \<subseteq> R \<and> apart F B I \<and>
     (\<forall>x. x \<notin> R - I \<longrightarrow> F' x = F x \<and> B' x = B x) \<and>
     (\<forall>u \<in> R - I. \<forall>v d. v \<notin> I \<longrightarrow> (v, d) \<in> F u \<longrightarrow> dominates F' u v d) \<and>
     (\<forall>u \<in> R - I. \<forall>v d. v \<notin> I \<longrightarrow> (v, d) \<in> B u \<longrightarrow> dominates B' u v d) \<and>
     (\<forall>u \<in> R - I. \<forall>v d. (v, d) \<in> F' u \<longrightarrow> v \<notin> I \<and> v \<noteq> u \<and> ((v, d) \<in> F u \<or> bridge F B I u v d \<and> dominates B' v u d)) \<and>
     (\<forall>u \<in> R - I. \<forall>v d. (v, d) \<in> B' u \<longrightarrow> v \<notin> I \<and> v \<noteq> u \<and> ((v, d) \<in> B u \<or> bridge F B I v u d \<and> dominates F' v u d)) \<and>
     (\<forall>x \<in> I. \<forall>a d1 b d2. (a, d1) \<in> B x \<longrightarrow> (b, d2) \<in> F x \<longrightarrow> a \<noteq> b \<longrightarrow>
        dominates F' a b (d1 + d2) \<or> (\<exists>w \<le> d1 + d2. walk (avoiding (stored_arcs F R) x) a b w))"

lemma round_okD:
  assumes "round_ok F B R I F' B'"
  shows "I \<subseteq> R" "apart F B I" "x \<notin> R - I \<Longrightarrow> F' x = F x" "x \<notin> R - I \<Longrightarrow> B' x = B x"
    "u \<in> R - I \<Longrightarrow> v \<notin> I \<Longrightarrow> (v, d) \<in> F u \<Longrightarrow> dominates F' u v d"
    "u \<in> R - I \<Longrightarrow> v \<notin> I \<Longrightarrow> (v, d) \<in> B u \<Longrightarrow> dominates B' u v d"
    "u \<in> R - I \<Longrightarrow> (v, d) \<in> F' u \<Longrightarrow> v \<notin> I \<and> v \<noteq> u \<and> ((v, d) \<in> F u \<or> bridge F B I u v d \<and> dominates B' v u d)"
    "u \<in> R - I \<Longrightarrow> (v, d) \<in> B' u \<Longrightarrow> v \<notin> I \<and> v \<noteq> u \<and> ((v, d) \<in> B u \<or> bridge F B I v u d \<and> dominates F' v u d)"
    "x \<in> I \<Longrightarrow> (a, d1) \<in> B x \<Longrightarrow> (b, d2) \<in> F x \<Longrightarrow> a \<noteq> b \<Longrightarrow>
       dominates F' a b (d1 + d2) \<or> (\<exists>w \<le> d1 + d2. walk (avoiding (stored_arcs F R) x) a b w)"
proof -
  from assms have c: "I \<subseteq> R" "apart F B I" "\<forall>x. x \<notin> R - I \<longrightarrow> F' x = F x \<and> B' x = B x"
    "\<forall>u \<in> R - I. \<forall>v d. v \<notin> I \<longrightarrow> (v, d) \<in> F u \<longrightarrow> dominates F' u v d"
    "\<forall>u \<in> R - I. \<forall>v d. v \<notin> I \<longrightarrow> (v, d) \<in> B u \<longrightarrow> dominates B' u v d"
    "\<forall>u \<in> R - I. \<forall>v d. (v, d) \<in> F' u \<longrightarrow> v \<notin> I \<and> v \<noteq> u \<and> ((v, d) \<in> F u \<or> bridge F B I u v d \<and> dominates B' v u d)"
    "\<forall>u \<in> R - I. \<forall>v d. (v, d) \<in> B' u \<longrightarrow> v \<notin> I \<and> v \<noteq> u \<and> ((v, d) \<in> B u \<or> bridge F B I v u d \<and> dominates F' v u d)"
    "\<forall>x \<in> I. \<forall>a d1 b d2. (a, d1) \<in> B x \<longrightarrow> (b, d2) \<in> F x \<longrightarrow> a \<noteq> b \<longrightarrow>
        dominates F' a b (d1 + d2) \<or> (\<exists>w \<le> d1 + d2. walk (avoiding (stored_arcs F R) x) a b w)"
    unfolding round_ok_def by - (elim conjE, assumption)+
  show "I \<subseteq> R" "apart F B I" by (fact c)+
  show "F' x = F x" "B' x = B x" if "x \<notin> R - I" using c(3) that by blast+
  show "dominates F' u v d" if "u \<in> R - I" "v \<notin> I" "(v, d) \<in> F u" using c(4) that by blast
  show "dominates B' u v d" if "u \<in> R - I" "v \<notin> I" "(v, d) \<in> B u" using c(5) that by blast
  show "v \<notin> I \<and> v \<noteq> u \<and> ((v, d) \<in> F u \<or> bridge F B I u v d \<and> dominates B' v u d)" if "u \<in> R - I" "(v, d) \<in> F' u"
    by (rule c(6) [rule_format, OF that])
  show "v \<notin> I \<and> v \<noteq> u \<and> ((v, d) \<in> B u \<or> bridge F B I v u d \<and> dominates F' v u d)" if "u \<in> R - I" "(v, d) \<in> B' u"
    by (rule c(7) [rule_format, OF that])
  show "dominates F' a b (d1 + d2) \<or> (\<exists>w \<le> d1 + d2. walk (avoiding (stored_arcs F R) x) a b w)"
    if "x \<in> I" "(a, d1) \<in> B x" "(b, d2) \<in> F x" "a \<noteq> b"
    by (rule c(8) [rule_format, OF that])
qed

lemma mirroredD:
  assumes "mirrored F B R" "u \<in> R" "(v, d) \<in> F u"
  shows "v \<in> R" "v \<noteq> u" "0 < d" "\<exists>d' \<le> d. (u, d') \<in> B v"
  using assms(1) [unfolded mirrored_def, rule_format, OF assms(2,3)] by simp_all

lemma overlay_arc:
  assumes "overlay_ok F B R" "(u, v, d) \<in> stored_arcs F R"
  shows "u \<in> R" "v \<in> R" "v \<noteq> u" "0 < d" "\<exists>d' \<le> d. (u, d') \<in> B v" "(v, d) \<in> F u"
proof -
  have a: "u \<in> R" "(v, d) \<in> F u" and m: "mirrored F B R"
    using assms by (simp_all add: overlay_ok_def stored_arcs_def)
  show "u \<in> R" "(v, d) \<in> F u" by (fact a)+
  show "v \<in> R" "v \<noteq> u" "0 < d" "\<exists>d' \<le> d. (u, d') \<in> B v" using mirroredD [OF m a] by simp_all
qed

lemma overlay_walk_nonneg: "overlay_ok F B R \<Longrightarrow> walk (stored_arcs F R) s t w \<Longrightarrow> 0 \<le> w"
  by (rule walk_nonneg) (auto dest: overlay_arc(4))

text \<open>A removed node has no removed neighbour, and removed nodes share no neighbour.\<close>

lemma apartD:
  assumes "apart F B I" "x \<in> I" "y \<in> I" "x \<noteq> y"
  shows "y \<notin> nb F B x" "nb F B x \<inter> nb F B y = {}"
  using assms(1) [unfolded apart_def, rule_format, OF assms(2,3,4)] by simp_all

lemma apart_neighbour:
  assumes "overlay_ok F B R" "apart F B I" "I \<subseteq> R" "x \<in> I" "y \<in> nb F B x"
  shows "y \<in> R - I"
proof -
  obtain d where d: "(y, d) \<in> F x \<or> (y, d) \<in> B x" using assms(5) unfolding nb_def by force
  have m: "mirrored F B R" "mirrored B F R" using assms(1) by (simp_all add: overlay_ok_def)
  have x: "x \<in> R" using assms(3,4) by blast
  have "y \<in> R" "y \<noteq> x"
    using d mirroredD(1,2) [OF m(1) x, of y d] mirroredD(1,2) [OF m(2) x, of y d] by argo+
  moreover have "y \<notin> I" using apartD(1) [OF assms(2,4)] assms(5) \<open>y \<noteq> x\<close> by auto
  ultimately show ?thesis by simp
qed

lemma apart_shared:
  assumes "apart F B I" "x \<in> I" "y \<in> I" "u \<in> nb F B x" "u \<in> nb F B y"
  shows "x = y"
  using apartD(2) [OF assms(1,2,3)] assms(4,5) by (cases "x = y") auto

lemma in_nb: "(v, d) \<in> F u \<Longrightarrow> v \<in> nb F B u" "(v, d) \<in> B u \<Longrightarrow> v \<in> nb F B u"
  by (force simp: nb_def)+

section \<open>A round preserves distances\<close>

lemma dominates_walk:
  assumes "dominates F' u v d" "u \<in> R'"
  shows "\<exists>d' \<le> d. walk (stored_arcs F' R') u v d'"
  using assms by (auto simp: dominates_def stored_arcs_def intro!: walk_arc)

lemma round_walk:
  assumes ok: "overlay_ok F B R" and r: "round_ok F B R I F' B'"
    and "u \<in> R - I" "v \<in> R - I" "walk (stored_arcs F R) u v w"
  shows "\<exists>w' \<le> w. walk (stored_arcs F' (R - I)) u v w'"
  using assms(3-)
proof (induction "nat w" arbitrary: u v w rule: less_induct)
  case less
  let ?A = "stored_arcs F R" and ?A' = "stored_arcs F' (R - I)"
  have IH: "\<exists>w' \<le> y. walk ?A' a b w'" if "walk ?A a b y" "a \<in> R - I" "b \<in> R - I" "y < w" for a b y
  proof -
    have "0 \<le> y" by (rule overlay_walk_nonneg [OF ok that(1)])
    then show ?thesis using less.hyps that by simp
  qed
  text \<open>A walk no longer than \<open>w\<close> whose first step stays among the remaining nodes.\<close>
  have first: "\<exists>w' \<le> d + y. walk ?A' a b w'"
    if h: "(a, z, d) \<in> ?A" "walk ?A z b y" "a \<in> R - I" "b \<in> R - I" "z \<notin> I" "d + y \<le> w" for a z b d y
  proof -
    note arc = overlay_arc [OF ok h(1)]
    obtain d' where d': "d' \<le> d" "walk ?A' a z d'"
      using dominates_walk [OF round_okD(5) [OF r h(3,5) arc(6)] h(3)] by blast
    obtain y' where "y' \<le> y" "walk ?A' z b y'" using IH [OF h(2)] h arc by fastforce
    then show ?thesis using walk_trans [OF d'(2)] d'(1) by (meson add_mono)
  qed
  show ?case using less.prems(3)
  proof cases
    case walk_nil
    then show ?thesis using walk.walk_nil by blast
  next
    case (walk_step z d y)
    note arc = overlay_arc [OF ok walk_step(2)]
    show ?thesis
    proof (cases "z \<in> I")
      case False
      then show ?thesis using first [OF walk_step(2,3) less.prems(1,2)] walk_step(1) by simp
    next
      case True
      obtain d1 where d1: "d1 \<le> d" "(u, d1) \<in> B z" using arc(5) by blast
      have "z \<noteq> v" using True less.prems(2) by blast
      then obtain b d2 y2 where b: "y = d2 + y2" "(z, b, d2) \<in> ?A" "walk ?A b v y2"
        using walk_first [OF walk_step(3)] by blast
      note arc2 = overlay_arc [OF ok b(2)]
      have "b \<in> nb F B z" using arc2(6) by (rule in_nb(1))
      then have bR: "b \<in> R - I" by (rule apart_neighbour [OF ok round_okD(2,1) [OF r] True])
      have "\<exists>w1 \<le> d1 + d2. walk ?A' u b w1"
      proof (cases "u = b")
        case True
        have "0 < d1" using mirroredD(3) [of B F R z u d1] ok arc(2) d1(2) by (simp add: overlay_ok_def)
        then show ?thesis using True walk.walk_nil [of ?A' u] arc2(4) by (auto intro!: exI [of _ 0])
      next
        case False
        from round_okD(9) [OF r True d1(2) arc2(6) False] show ?thesis
        proof
          assume "dominates F' u b (d1 + d2)"
          then show ?thesis using dominates_walk less.prems(1) by blast
        next
          assume "\<exists>w1 \<le> d1 + d2. walk (avoiding ?A z) u b w1"
          then obtain w1 where w1: "w1 \<le> d1 + d2" "walk (avoiding ?A z) u b w1" by blast
          from w1(2) show ?thesis
          proof cases
            case walk_nil
            then show ?thesis using False by simp
          next
            case (walk_step q e y3)
            have q: "(u, q, e) \<in> ?A" "q \<noteq> z" using walk_step(2) by (auto simp: avoiding_def)
            note arc3 = overlay_arc [OF ok q(1)]
            have qI: "q \<notin> I"
            proof
              assume "q \<in> I"
              moreover have "u \<in> nb F B q" using arc3(5) in_nb(2) by fastforce
              moreover have "u \<in> nb F B z" using d1(2) by (rule in_nb(2))
              ultimately show False using apart_shared [OF round_okD(2) [OF r]] True q(2) by blast
            qed
            have qw: "walk ?A q b y3" using walk_step(3) by (rule walk_mono) (auto simp: avoiding_def)
            have le: "e + y3 \<le> w"
              using walk_step(1) w1(1) d1(1) b(1) \<open>w = d + y\<close> overlay_walk_nonneg [OF ok b(3)] by simp
            show ?thesis using first [OF q(1) qw less.prems(1) bR qI le] walk_step(1) w1(1) by (meson order_trans)
          qed
        qed
      qed
      then obtain w1 where w1: "w1 \<le> d1 + d2" "walk ?A' u b w1" by blast
      obtain w2 where w2: "w2 \<le> y2" "walk ?A' b v w2"
        using IH [OF b(3) bR less.prems(2)] walk_step(1) b(1) arc(4) arc2(4) by force
      show ?thesis using walk_trans [OF w1(2) w2(2)] w1(1) w2(1) d1(1) walk_step(1) b(1)
        by (intro exI [of _ "w1 + w2"]) simp
    qed
  qed
qed

lemma bridge_arc:
  assumes "overlay_ok F B R" "I \<subseteq> R" "bridge F B I u v d"
  shows "u \<in> R" "v \<in> R" "0 < d"
proof -
  obtain x d1 d2 where x: "x \<in> R" "(u, d1) \<in> B x" "(v, d2) \<in> F x" "d = d1 + d2"
    using assms(2,3) unfolding bridge_def by blast
  have m: "mirrored F B R" "mirrored B F R" using assms(1) by (simp_all add: overlay_ok_def)
  show "u \<in> R" "v \<in> R" "0 < d"
    using mirroredD(1,3) [OF m(1) x(1,3)] mirroredD(1,3) [OF m(2) x(1,2)] x(4) by simp_all
qed

lemma mirrored_after:
  assumes "mirrored F B R"
    and "\<And>u v d. u \<in> R - I \<Longrightarrow> (v, d) \<in> F' u \<Longrightarrow>
      v \<notin> I \<and> v \<noteq> u \<and> ((v, d) \<in> F u \<or> v \<in> R \<and> 0 < d \<and> dominates B' v u d)"
    and "\<And>u v d. u \<in> R - I \<Longrightarrow> v \<notin> I \<Longrightarrow> (v, d) \<in> B u \<Longrightarrow> dominates B' u v d"
  shows "mirrored F' B' (R - I)"
  unfolding mirrored_def
proof (intro ballI allI impI)
  fix u v d assume u: "u \<in> R - I" and vd: "(v, d) \<in> F' u"
  have v: "v \<notin> I" "v \<noteq> u" and c: "(v, d) \<in> F u \<or> v \<in> R \<and> 0 < d \<and> dominates B' v u d"
    using assms(2) [OF u vd] by simp_all
  have "v \<in> R \<and> 0 < d \<and> dominates B' v u d"
  proof (cases "(v, d) \<in> F u")
    case True
    have uR: "u \<in> R" "u \<notin> I" using u by simp_all
    note arc = mirroredD [OF assms(1) uR(1) True]
    obtain d' where d': "d' \<le> d" "(u, d') \<in> B v" using arc(4) by blast
    have "v \<in> R - I" using arc(1) v(1) by simp
    from assms(3) [OF this uR(2) d'(2)] show ?thesis
      using d'(1) arc(1,3) unfolding dominates_def by (meson order_trans)
  qed (use c in simp)
  then show "v \<in> R - I \<and> v \<noteq> u \<and> 0 < d \<and> (\<exists>d' \<le> d. (u, d') \<in> B' v)"
    using v by (simp add: dominates_def)
qed

lemma round_overlay_ok:
  assumes ok: "overlay_ok F B R" and r: "round_ok F B R I F' B'"
  shows "overlay_ok F' B' (R - I)"
proof -
  have m: "mirrored F B R" "mirrored B F R" using ok by (simp_all add: overlay_ok_def)
  note br = bridge_arc [OF ok round_okD(1) [OF r]]
  have "mirrored F' B' (R - I)"
  proof (rule mirrored_after [OF m(1)])
    show "v \<notin> I \<and> v \<noteq> u \<and> ((v, d) \<in> F u \<or> v \<in> R \<and> 0 < d \<and> dominates B' v u d)"
      if "u \<in> R - I" "(v, d) \<in> F' u" for u v d using round_okD(7) [OF r that] br [of u v d] by blast
  qed (rule round_okD(6) [OF r])
  moreover have "mirrored B' F' (R - I)"
  proof (rule mirrored_after [OF m(2)])
    show "v \<notin> I \<and> v \<noteq> u \<and> ((v, d) \<in> B u \<or> v \<in> R \<and> 0 < d \<and> dominates F' v u d)"
      if "u \<in> R - I" "(v, d) \<in> B' u" for u v d using round_okD(8) [OF r that] br [of v u d] by blast
  qed (rule round_okD(5) [OF r])
  ultimately show ?thesis by (simp add: overlay_ok_def)
qed

section \<open>The hierarchy\<close>

text \<open>The arcs stored at removed nodes lead upwards.  Every walk of the original graph has a walk that is no
  longer and goes up from both ends to the overlay graph, or to a removed node where the two meet.\<close>

definition meets :: "stored \<Rightarrow> stored \<Rightarrow> NodeID set \<Rightarrow> NodeID \<Rightarrow> NodeID \<Rightarrow> int \<Rightarrow> bool" where
  "meets F B R s t w \<longleftrightarrow> (\<exists>m n x y z. walk (stored_arcs F (- R)) s m x \<and> walk (stored_arcs B (- R)) t n z \<and> x + y + z \<le> w \<and>
     (m = n \<and> y = 0 \<or> m \<in> R \<and> n \<in> R \<and> walk (stored_arcs F R) m n y))"

definition complete :: "arc_set \<Rightarrow> stored \<Rightarrow> stored \<Rightarrow> NodeID set \<Rightarrow> bool" where
  "complete A F B R \<longleftrightarrow> (\<forall>s t w. walk A s t w \<longrightarrow> meets F B R s t w)"

definition sound :: "arc_set \<Rightarrow> stored \<Rightarrow> stored \<Rightarrow> bool" where
  "sound A F B \<longleftrightarrow> (\<forall>u v d. (v, d) \<in> F u \<longrightarrow> walk A u v d) \<and> (\<forall>u v d. (v, d) \<in> B u \<longrightarrow> walk A v u d)"

lemma round_meets:
  assumes ok: "overlay_ok F B R" and r: "round_ok F B R I F' B'"
    and mn: "m \<in> R" "n \<in> R" "walk (stored_arcs F R) m n y"
  shows "meets F' B' (R - I) m n y"
proof (cases "m = n")
  case True
  then show ?thesis using overlay_walk_nonneg [OF ok mn(3)] walk_nil unfolding meets_def by fastforce
next
  case False
  let ?R = "R - I"
  have keep: "F' x = F x" "B' x = B x" if "x \<in> I" for x using round_okD(3,4) [OF r, of x] that by simp_all
  have nbR: "q \<in> ?R" if "x \<in> I" "q \<in> nb F B x" for x q
    by (rule apart_neighbour [OF ok round_okD(2,1) [OF r] that])
  text \<open>Leaving a removed start node.\<close>
  obtain m' x y' where m': "walk (stored_arcs F' (- ?R)) m m' x" "walk (stored_arcs F R) m' n y'" "x + y' = y" "m' \<in> ?R"
  proof (cases "m \<in> I")
    case True
    obtain c d w where c: "(m, c, d) \<in> stored_arcs F R" "walk (stored_arcs F R) c n w" "y = d + w"
      using walk_first [OF mn(3) False] by blast
    note arc = overlay_arc [OF ok c(1)]
    have "c \<in> nb F B m" using arc(6) by (rule in_nb(1))
    then have "c \<in> ?R" by (rule nbR [OF True])
    moreover have "walk (stored_arcs F' (- ?R)) m c d"
      using True arc(6) keep(1) by (auto simp: stored_arcs_def intro!: walk_arc)
    ultimately show ?thesis using that c(2,3) by blast
  qed (use that [of m 0 y] walk_nil mn in auto)
  text \<open>Leaving a removed end node, backwards.\<close>
  obtain n' z y2 where n': "walk (stored_arcs B' (- ?R)) n n' z" "walk (stored_arcs F R) m' n' y2" "y2 + z \<le> y'" "n' \<in> ?R"
  proof (cases "n \<in> I")
    case True
    then have "m' \<noteq> n" using m'(4) by blast
    then obtain c d w where c: "walk (stored_arcs F R) m' c w" "(c, n, d) \<in> stored_arcs F R" "y' = w + d"
      using walk_last [OF m'(2)] by blast
    note arc = overlay_arc [OF ok c(2)]
    obtain d' where d': "d' \<le> d" "(c, d') \<in> B n" using arc(5) by blast
    have "c \<in> nb F B n" using d'(2) by (rule in_nb(2))
    then have "c \<in> ?R" by (rule nbR [OF True])
    moreover have "walk (stored_arcs B' (- ?R)) n c d'"
      using True d'(2) keep(2) by (auto simp: stored_arcs_def intro!: walk_arc)
    ultimately show ?thesis using that [of c d' w] c(1,3) d'(1) by simp
  qed (use that [of n 0 y'] walk_nil mn(2) m'(2) in auto)
  obtain w where "w \<le> y2" "walk (stored_arcs F' ?R) m' n' w"
    using round_walk [OF ok r m'(4) n'(4) n'(2)] by blast
  then show ?thesis using m' n' unfolding meets_def by (intro exI [of _ m'] exI [of _ n'] exI [of _ x] exI [of _ w] exI [of _ z]) simp
qed

lemma round_complete:
  assumes ok: "overlay_ok F B R" and r: "round_ok F B R I F' B'" and c: "complete A F B R"
  shows "complete A F' B' (R - I)"
  unfolding complete_def
proof (intro allI impI)
  fix s t w assume "walk A s t w"
  then obtain m n x y z where h: "walk (stored_arcs F (- R)) s m x" "walk (stored_arcs B (- R)) t n z" "x + y + z \<le> w"
    and mn: "m = n \<and> y = 0 \<or> m \<in> R \<and> n \<in> R \<and> walk (stored_arcs F R) m n y"
    using c unfolding complete_def meets_def by blast
  have "stored_arcs F (- R) \<subseteq> stored_arcs F' (- (R - I))" "stored_arcs B (- R) \<subseteq> stored_arcs B' (- (R - I))"
    using round_okD(3,4) [OF r] by (auto simp: stored_arcs_def)
  then have up: "walk (stored_arcs F' (- (R - I))) s m x" "walk (stored_arcs B' (- (R - I))) t n z"
    using h(1,2) walk_mono by blast+
  have "meets F' B' (R - I) m n y"
  proof (cases "m = n \<and> y = 0")
    case True
    then show ?thesis using walk_nil unfolding meets_def by fastforce
  next
    case False
    then show ?thesis using mn round_meets [OF ok r] by blast
  qed
  then obtain m' n' x' y' z' where k: "walk (stored_arcs F' (- (R - I))) m m' x'" "walk (stored_arcs B' (- (R - I))) n n' z'"
    "x' + y' + z' \<le> y" "m' = n' \<and> y' = 0 \<or> m' \<in> R - I \<and> n' \<in> R - I \<and> walk (stored_arcs F' (R - I)) m' n' y'"
    unfolding meets_def by blast
  show "meets F' B' (R - I) s t w" unfolding meets_def
    using walk_trans [OF up(1) k(1)] walk_trans [OF up(2) k(2)] k(3,4) h(3)
    by (intro exI [of _ m'] exI [of _ n'] exI [of _ "x + x'"] exI [of _ y'] exI [of _ "z + z'"]) simp
qed

lemma round_sound:
  assumes ok: "overlay_ok F B R" and r: "round_ok F B R I F' B'" and s: "sound A F B"
  shows "sound A F' B'"
proof -
  have sF: "walk A u v d" if "(v, d) \<in> F u" for u v d using s that unfolding sound_def by blast
  have sB: "walk A v u d" if "(v, d) \<in> B u" for u v d using s that unfolding sound_def by blast
  have br: "walk A u v d" if "bridge F B I u v d" for u v d
    using that sF sB walk_trans unfolding bridge_def by blast
  have "walk A u v d" if "(v, d) \<in> F' u" for u v d
    using round_okD(3) [OF r, of u] round_okD(7) [OF r, of u v d] that sF [of v d u] br [of u v d] by (cases "u \<in> R - I") auto
  moreover have "walk A v u d" if "(v, d) \<in> B' u" for u v d
    using round_okD(4) [OF r, of u] round_okD(8) [OF r, of u v d] that sB [of v d u] br [of v u d] by (cases "u \<in> R - I") auto
  ultimately show ?thesis unfolding sound_def by blast
qed

text \<open>At the end every walk of the original graph has one that goes up from both ends and is no longer.\<close>

lemma complete_hierarchy:
  assumes "complete A F B R" "walk A s t w"
  shows "\<exists>m x z. walk (stored_arcs F UNIV) s m x \<and> walk (stored_arcs B UNIV) t m z \<and> x + z \<le> w"
proof -
  obtain m n x y z where h: "walk (stored_arcs F (- R)) s m x" "walk (stored_arcs B (- R)) t n z" "x + y + z \<le> w"
    "m = n \<and> y = 0 \<or> m \<in> R \<and> n \<in> R \<and> walk (stored_arcs F R) m n y"
    using assms unfolding complete_def meets_def by blast
  have sub: "stored_arcs G X \<subseteq> stored_arcs G UNIV" for G X by (auto simp: stored_arcs_def)
  have "walk (stored_arcs F UNIV) m n y" using h(4) walk_nil walk_mono [OF _ sub] by blast
  then have "walk (stored_arcs F UNIV) s n (x + y)" using walk_trans walk_mono [OF h(1) sub] by blast
  then show ?thesis using walk_mono [OF h(2) sub] h(3) by blast
qed

lemma initial_complete:
  assumes "\<And>u v d. (u, v, d) \<in> A \<Longrightarrow> (u, v, d) \<in> stored_arcs F R \<and> v \<in> R"
  shows "complete A F B R"
  unfolding complete_def
proof (intro allI impI)
  fix s t w assume w: "walk A s t w"
  show "meets F B R s t w"
  proof (cases "s = t \<and> 0 \<le> w")
    case True
    then show ?thesis using walk_nil unfolding meets_def by fastforce
  next
    case False
    have "s \<in> R \<and> t \<in> R \<or> s = t \<and> w = 0" using w
    proof (induction rule: walk.induct)
      case (walk_step s u d t w)
      then show ?case using assms [OF walk_step(1)] by (auto simp: stored_arcs_def)
    qed simp
    moreover have "walk (stored_arcs F R) s t w" by (rule walk_mono [OF w]) (use assms in auto)
    ultimately show ?thesis using False walk_nil unfolding meets_def by fastforce
  qed
qed

section \<open>Renumbering\<close>

text \<open>The arcs of a graph under other names of its nodes.\<close>

definition renamed :: "(NodeID \<Rightarrow> NodeID) \<Rightarrow> NodeID set \<Rightarrow> stored \<Rightarrow> stored \<Rightarrow> bool" where
  "renamed f X F G \<longleftrightarrow> (\<forall>i \<in> X. G (f i) = (\<lambda>(v, d). (f v, d)) ` F i \<and> fst ` F i \<subseteq> X)"

lemma renamedD:
  assumes "renamed f X F G" "i \<in> X"
  shows "(v, d) \<in> F i \<Longrightarrow> v \<in> X" "(v, d) \<in> F i \<Longrightarrow> (f v, d) \<in> G (f i)"
    "(y, d) \<in> G (f i) \<Longrightarrow> \<exists>v. y = f v \<and> v \<in> X \<and> (v, d) \<in> F i"
  using assms unfolding renamed_def by (force+)

lemma renamed_arc:
  assumes "renamed f X F G" "inj_on f X" "i \<in> X" "v \<in> X"
  shows "(f v, d) \<in> G (f i) \<longleftrightarrow> (v, d) \<in> F i"
  using renamedD [OF assms(1,3)] assms(2,4) by (metis inj_onD)

lemma renamed_dominates:
  assumes "renamed f X F G" "i \<in> X" "dominates F i v d"
  shows "dominates G (f i) (f v) d"
  using assms renamedD(2) [OF assms(1,2)] unfolding dominates_def by blast

lemma renamed_walk:
  assumes "renamed f X F G" "R \<subseteq> X" "inj_on f X" "x \<in> X" "walk (avoiding (stored_arcs F R) x) s t w"
  shows "walk (avoiding (stored_arcs G (f ` R)) (f x)) (f s) (f t) w"
  using assms(5)
proof (induction rule: walk.induct)
  case (walk_step s u d t w)
  then have s: "s \<in> R" "(u, d) \<in> F s" "u \<noteq> x" by (auto simp: avoiding_def stored_arcs_def)
  have X: "s \<in> X" using s(1) assms(2) by blast
  have "u \<in> X" "(f u, d) \<in> G (f s)" using renamedD(1,2) [OF assms(1) X s(2)] by simp_all
  then have "f u \<noteq> f x" using assms(3,4) s(3) by (metis inj_onD)
  then have "(f s, f u, d) \<in> avoiding (stored_arcs G (f ` R)) (f x)"
    using s(1) \<open>(f u, d) \<in> G (f s)\<close> by (simp add: avoiding_def stored_arcs_def)
  then show ?case using walk_step.IH by (rule walk.walk_step)
qed (rule walk_nil)

lemma renamed_nb:
  assumes "renamed f X F G" "renamed f X B H" "i \<in> X"
  shows "nb G H (f i) = f ` nb F B i" "nb F B i \<subseteq> X"
  using assms unfolding renamed_def nb_def by (force simp: image_Un image_image case_prod_beta)+

lemma renamed_bridge:
  assumes "renamed f X F G" "renamed f X B H" "I \<subseteq> X" "bridge F B I u v d"
  shows "bridge G H (f ` I) (f u) (f v) d"
proof -
  obtain x d1 d2 where x: "x \<in> I" "(u, d1) \<in> B x" "(v, d2) \<in> F x" "d = d1 + d2" using assms(4) unfolding bridge_def by blast
  have "x \<in> X" using x(1) assms(3) by blast
  then show ?thesis using renamedD(2) [OF assms(1)] renamedD(2) [OF assms(2)] x unfolding bridge_def by blast
qed

lemma renamed_mirrored:
  assumes "renamed f X F G" "renamed f X B H" "inj_on f X" "R \<subseteq> X" "mirrored F B R"
  shows "mirrored G H (f ` R)"
  unfolding mirrored_def
proof (intro ballI allI impI)
  fix u y d assume "u \<in> f ` R" "(y, d) \<in> G u"
  then obtain i where i: "i \<in> R" "u = f i" "(y, d) \<in> G (f i)" by blast
  have X: "i \<in> X" using i(1) assms(4) by blast
  obtain v where v: "y = f v" "v \<in> X" "(v, d) \<in> F i" using renamedD(3) [OF assms(1) X i(3)] by blast
  note m = mirroredD [OF assms(5) i(1) v(3)]
  obtain d' where "d' \<le> d" "(i, d') \<in> B v" using m(4) by blast
  then have "\<exists>d' \<le> d. (u, d') \<in> H y" using renamedD(2) [OF assms(2) v(2)] i(2) v(1) by blast
  moreover have "f v \<noteq> f i" using m(2) assms(3) v(2) X by (metis inj_onD)
  ultimately show "y \<in> f ` R \<and> y \<noteq> u \<and> 0 < d \<and> (\<exists>d' \<le> d. (u, d') \<in> H y)" using m(1,3) v(1) i(2) by simp
qed

lemma renamed_overlay:
  assumes "renamed f X F G" "renamed f X B H" "inj_on f X" "R \<subseteq> X" "overlay_ok F B R"
  shows "overlay_ok G H (f ` R)"
  using renamed_mirrored [OF assms(1-4)] renamed_mirrored [OF assms(2,1,3,4)] assms(5) by (simp add: overlay_ok_def)

lemma renamed_apart:
  assumes "renamed f X F G" "renamed f X B H" "inj_on f X" "I \<subseteq> X" "apart F B I"
  shows "apart G H (f ` I)"
  unfolding apart_def
proof (intro ballI impI)
  fix y z assume "y \<in> f ` I" "z \<in> f ` I" "y \<noteq> z"
  then obtain i j where ij: "i \<in> I" "j \<in> I" "y = f i" "z = f j" "i \<noteq> j" by blast
  note X = subsetD [OF assms(4) ij(1)] subsetD [OF assms(4) ij(2)]
  note n = renamed_nb [OF assms(1,2) X(1)] renamed_nb [OF assms(1,2) X(2)]
  show "z \<notin> nb G H y \<and> nb G H y \<inter> nb G H z = {}"
    unfolding ij(3,4) n(1,3) using apartD [OF assms(5) ij(1,2,5)] n(2,4) assms(3) X
    by (auto simp: inj_on_image_mem_iff [OF assms(3)] dest!: inj_onD [OF assms(3)])
qed

lemma renamed_kept:
  assumes F: "renamed f X F G" "renamed f X F' G'" and f: "R \<subseteq> X"
    and dom: "\<forall>u \<in> R - I. \<forall>v d. v \<notin> I \<longrightarrow> (v, d) \<in> F u \<longrightarrow> dominates F' u v d"
  shows "\<forall>u \<in> f ` R - f ` I. \<forall>v d. v \<notin> f ` I \<longrightarrow> (v, d) \<in> G u \<longrightarrow> dominates G' u v d"
proof (intro ballI allI impI)
  fix y z d assume y: "y \<in> f ` R - f ` I" "z \<notin> f ` I" "(z, d) \<in> G y"
  obtain i where i: "i \<in> R - I" "y = f i" using y(1) by blast
  have iX: "i \<in> X" using i(1) f by blast
  obtain v where v: "z = f v" "v \<in> X" "(v, d) \<in> F i" using renamedD(3) [OF F(1) iX] y(3) i(2) by blast
  have "dominates F' i v d" using dom i(1) v(1,3) y(2) by blast
  then show "dominates G' y z d" unfolding i(2) v(1) by (rule renamed_dominates [OF F(2) iX])
qed

lemma renamed_origin:
  assumes F: "renamed f X F G" "renamed f X F' G'" and B': "renamed f X B' H'" and f: "inj_on f X" "R \<subseteq> X" "I \<subseteq> X"
    and new: "\<forall>u \<in> R - I. \<forall>v d. (v, d) \<in> F' u \<longrightarrow> v \<notin> I \<and> v \<noteq> u \<and> ((v, d) \<in> F u \<or> P u v d \<and> dominates B' v u d)"
    and P: "\<forall>u v d. P u v d \<longrightarrow> Q (f u) (f v) d"
  shows "\<forall>u \<in> f ` R - f ` I. \<forall>v d. (v, d) \<in> G' u \<longrightarrow> v \<notin> f ` I \<and> v \<noteq> u \<and> ((v, d) \<in> G u \<or> Q u v d \<and> dominates H' v u d)"
proof (intro ballI allI impI)
  fix y z d assume y: "y \<in> f ` R - f ` I" "(z, d) \<in> G' y"
  obtain i where i: "i \<in> R - I" "y = f i" using y(1) by blast
  have iX: "i \<in> X" using i(1) f(2) by blast
  obtain v where v: "z = f v" "v \<in> X" "(v, d) \<in> F' i" using renamedD(3) [OF F(2) iX] y(2) i(2) by blast
  have n: "v \<notin> I" "v \<noteq> i" "(v, d) \<in> F i \<or> P i v d \<and> dominates B' v i d" using new i(1) v(3) by blast+
  have "f v \<notin> f ` I" using f(1,3) v(2) n(1) by (simp add: inj_on_image_mem_iff)
  moreover have "f v \<noteq> f i" using n(2) v(2) iX f(1) by (metis inj_onD)
  moreover have "(f v, d) \<in> G (f i) \<or> Q (f i) (f v) d \<and> dominates H' (f v) (f i) d"
    using n(3) P renamedD(2) [OF F(1) iX] renamed_dominates [OF B' v(2)] by blast
  ultimately show "z \<notin> f ` I \<and> z \<noteq> y \<and> ((z, d) \<in> G y \<or> Q y z d \<and> dominates H' z y d)" unfolding i(2) v(1) by simp
qed

lemma renamed_round:
  assumes F: "renamed f X F G" and B: "renamed f X B H" and F': "renamed f X F' G'" and B': "renamed f X B' H'"
    and f: "inj_on f X" "R \<subseteq> X" and same: "\<And>y. y \<notin> f ` X \<Longrightarrow> G' y = G y \<and> H' y = H y" and r: "round_ok F B R I F' B'"
  shows "round_ok G H (f ` R) (f ` I) G' H'"
  unfolding round_ok_def
proof (intro conjI)
  have IX: "I \<subseteq> R" "I \<subseteq> X" using round_okD(1) [OF r] f(2) by blast+
  have br: "\<forall>u v d. bridge F B I u v d \<longrightarrow> bridge G H (f ` I) (f u) (f v) d" using renamed_bridge [OF F B IX(2)] by blast
  show "f ` I \<subseteq> f ` R" using IX(1) by blast
  show "apart G H (f ` I)" by (rule renamed_apart [OF F B f(1) IX(2) round_okD(2) [OF r]])
  show "\<forall>x. x \<notin> f ` R - f ` I \<longrightarrow> G' x = G x \<and> H' x = H x"
  proof (intro allI impI)
    fix y assume y: "y \<notin> f ` R - f ` I"
    show "G' y = G y \<and> H' y = H y"
    proof (cases "y \<in> f ` X")
      case True
      then obtain i where i: "i \<in> X" "y = f i" by blast
      then have "i \<notin> R - I" using y f(1) IX(2) by (auto simp: inj_on_image_mem_iff)
      then have "F' i = F i" "B' i = B i" using round_okD(3,4) [OF r] by blast+
      then show ?thesis using F F' B B' i unfolding renamed_def by simp
    qed (rule same)
  qed
  show "\<forall>u \<in> f ` R - f ` I. \<forall>v d. v \<notin> f ` I \<longrightarrow> (v, d) \<in> G u \<longrightarrow> dominates G' u v d"
    by (rule renamed_kept [OF F F' f(2)]) (use round_okD(5) [OF r] in blast)
  show "\<forall>u \<in> f ` R - f ` I. \<forall>v d. v \<notin> f ` I \<longrightarrow> (v, d) \<in> H u \<longrightarrow> dominates H' u v d"
    by (rule renamed_kept [OF B B' f(2)]) (use round_okD(6) [OF r] in blast)
  show "\<forall>u \<in> f ` R - f ` I. \<forall>v d. (v, d) \<in> G' u \<longrightarrow> v \<notin> f ` I \<and> v \<noteq> u \<and> ((v, d) \<in> G u \<or> bridge G H (f ` I) u v d \<and> dominates H' v u d)"
    by (rule renamed_origin [OF F F' B' f IX(2) _ br]) (use round_okD(7) [OF r] in blast)
  show "\<forall>u \<in> f ` R - f ` I. \<forall>v d. (v, d) \<in> H' u \<longrightarrow> v \<notin> f ` I \<and> v \<noteq> u \<and> ((v, d) \<in> H u \<or> bridge G H (f ` I) v u d \<and> dominates G' v u d)"
    by (rule renamed_origin [where P = "\<lambda>u v. bridge F B I v u", OF B B' F' f IX(2)]) (use round_okD(8) [OF r] br in blast)+
  show "\<forall>x \<in> f ` I. \<forall>a d1 b d2. (a, d1) \<in> H x \<longrightarrow> (b, d2) \<in> G x \<longrightarrow> a \<noteq> b \<longrightarrow>
      dominates G' a b (d1 + d2) \<or> (\<exists>w \<le> d1 + d2. walk (avoiding (stored_arcs G (f ` R)) x) a b w)"
  proof (intro ballI allI impI)
    fix y a d1 b d2 assume y: "y \<in> f ` I" "(a, d1) \<in> H y" "(b, d2) \<in> G y" "a \<noteq> b"
    obtain x where x: "x \<in> I" "y = f x" using y(1) by blast
    have xX: "x \<in> X" using x(1) IX(2) by blast
    obtain a' where a: "a = f a'" "a' \<in> X" "(a', d1) \<in> B x" using renamedD(3) [OF B xX] y(2) x(2) by blast
    obtain b' where b: "b = f b'" "b' \<in> X" "(b', d2) \<in> F x" using renamedD(3) [OF F xX] y(3) x(2) by blast
    have "a' \<noteq> b'" using y(4) a(1) b(1) by blast
    from round_okD(9) [OF r x(1) a(3) b(3) this]
    show "dominates G' a b (d1 + d2) \<or> (\<exists>w \<le> d1 + d2. walk (avoiding (stored_arcs G (f ` R)) y) a b w)"
      using renamed_dominates [OF F' a(2)] renamed_walk [OF F f(2,1) xX] unfolding a(1) b(1) x(2) by blast
  qed
qed

end
