(* ===== verification/Contractor_Search.thy ===== *)
theory Contractor_Search
  imports Contractor Contraction Search_Correct
begin

text \<open>
  The local searches of the contraction (\<open>Dijkstra\<close> and \<open>ContractNode\<close> of \<^verbatim>\<open>Contractor/Contractor.h\<close>).  A key
  below the initial one is the length of a walk that avoids the middle node, so a shortcut is left
  out only when there is such a walk that is no longer.  The lemmas hold for every index storage of
  the heap; whether the search always returns depends on the room in the storage.
\<close>

section \<open>Results that depend on the storage\<close>

text \<open>\<open>m\<close> has a result that satisfies \<open>Q\<close>, or none when results are not guaranteed.\<close>

definition returns :: "bool \<Rightarrow> 'a option \<Rightarrow> ('a \<Rightarrow> bool) \<Rightarrow> bool" where
  "returns tot m Q \<longleftrightarrow> (case m of None \<Rightarrow> \<not> tot | Some r \<Rightarrow> Q r)"

lemma returns_Some [simp]: "returns tot (Some r) Q \<longleftrightarrow> Q r"
  and returns_None [simp]: "returns tot None Q \<longleftrightarrow> \<not> tot"
  by (simp_all add: returns_def)

lemma returns_bind:
  "returns tot m P \<Longrightarrow> (\<And>r. P r \<Longrightarrow> returns tot (f r) Q) \<Longrightarrow> returns tot (Option.bind m f) Q"
  by (cases m) simp_all

lemma returns_bind2:
  "returns tot m P \<Longrightarrow> (\<And>a b. P (a, b) \<Longrightarrow> returns tot (f a b) Q) \<Longrightarrow>
    returns tot (Option.bind m (\<lambda>(a, b). f a b)) Q"
  by (cases m) auto

lemma returns_bind3:
  "returns tot m P \<Longrightarrow> (\<And>a b c. P (a, b, c) \<Longrightarrow> returns tot (f a b c) Q) \<Longrightarrow>
    returns tot (Option.bind m (\<lambda>(a, b, c). f a b c)) Q"
  by (cases m) auto

lemma returns_mono: "returns tot m P \<Longrightarrow> (\<And>r. P r \<Longrightarrow> Q r) \<Longrightarrow> returns tot m Q"
  by (cases m) simp_all

lemma returns_ex: "\<exists>r. m = Some r \<and> Q r \<Longrightarrow> returns tot m Q"
  by auto

lemma returns_total: "returns True m Q \<longleftrightarrow> (\<exists>r. m = Some r \<and> Q r)"
  by (cases m) simp_all

lemma returns_SomeD: "returns tot m Q \<Longrightarrow> m = Some r \<Longrightarrow> Q r"
  by simp

text \<open>Storages for the nodes below \<open>N\<close>: an access without room has no result, which is excluded when \<open>tot\<close>
  holds.\<close>

locale search_storage = index_storage ops st_inv st_val st_ok st_clearable
  for ops :: "(NodeID, 's) IndexStorage" and st_inv st_val st_ok st_clearable +
  fixes tot :: bool and N :: nat
  assumes no_room: "st_inv s \<Longrightarrow> n < N \<Longrightarrow> \<not> st_ok s n \<Longrightarrow>
      \<not> tot \<and> st_get ops s n = None \<and> (\<forall>k. st_set ops s n k = None)"
    and clearable: "st_inv s \<Longrightarrow> st_clearable s"
begin

abbreviation "hinv \<equiv> heap_inv st_inv st_val"

lemma WasInserted_returns:
  assumes "hinv h" "n < N"
  shows "returns tot (heap_WasInserted ops h n)
    (\<lambda>(b, h'). b = (n \<in> dom (ah_key (abs_of h))) \<and> hinv h' \<and> abs_of h' = abs_of h)"
proof (cases "st_ok (node_index h) n")
  case True
  then show ?thesis using WasInserted_correct [OF assms(1)] by (intro returns_ex) auto
next
  case False
  then show ?thesis using no_room [OF heap_invD(2) [OF assms(1)] assms(2)] by (simp add: heap_WasInserted_def)
qed

lemma Insert_returns:
  assumes "hinv h" "n < N" "ah_key (abs_of h) n = None" "INT_MIN \<le> w"
  shows "returns tot (heap_Insert ops h n w d) (\<lambda>h'. hinv h' \<and> abs_of h' = abs_insert (abs_of h) n w d)"
proof (cases "st_ok (node_index h) n")
  case True
  then show ?thesis using Insert_correct [OF assms(1) _ assms(3,4)] by (intro returns_ex) auto
next
  case False
  then show ?thesis using no_room [OF heap_invD(2) [OF assms(1)] assms(2)] by (simp add: heap_Insert_def)
qed

lemma GetKey_returns:
  assumes "hinv h" "ah_key (abs_of h) n = Some w"
  shows "returns tot (heap_GetKey ops h n) (\<lambda>(k, h'). k = w \<and> hinv h' \<and> abs_of h' = abs_of h)"
  using GetKey_correct [OF assms] by (intro returns_ex) auto

lemma GetData_returns:
  assumes "hinv h" "ah_key (abs_of h) n = Some w"
  shows "returns tot (heap_GetData ops h n) (\<lambda>(d, h'). hinv h' \<and> abs_of h' = abs_of h)"
  using GetData_correct [OF assms] by (intro returns_ex) auto

lemma SetData_returns:
  assumes "hinv h" "ah_key (abs_of h) n = Some w"
  shows "returns tot (heap_SetData ops h n d) (\<lambda>h'. hinv h' \<and> abs_of h' = abs_set_data (abs_of h) n d)"
  using SetData_correct [OF assms] by (intro returns_ex) auto

lemma DecreaseKey_returns:
  assumes "hinv h" "ah_key (abs_of h) n = Some v" "n \<in> ah_queue (abs_of h)" "INT_MIN \<le> w" "w \<le> v"
  shows "returns tot (heap_DecreaseKey ops h n w) (\<lambda>h'. hinv h' \<and> abs_of h' = abs_decrease (abs_of h) n w)"
  using DecreaseKey_correct [OF assms] by (intro returns_ex) auto

lemma DeleteMin_returns:
  assumes "hinv h" "\<not> heap_Empty h"
  shows "returns tot (heap_DeleteMin h)
    (\<lambda>(n, h'). is_min (abs_of h) n \<and> hinv h' \<and> abs_of h' = abs_remove (abs_of h) n)"
proof -
  have "ah_queue (abs_of h) \<noteq> {}" using assms Empty_correct by blast
  then show ?thesis using DeleteMin_correct [OF assms(1)] by (intro returns_ex) auto
qed

end

section \<open>The graph of a round\<close>

definition fwd_arcs :: "ContractorGraph \<Rightarrow> stored" where
  "fwd_arcs g u = (if u < number_of_nodes g
     then {(de_target x, ce_distance (de_data x)) | x. x \<in> set (out g u) \<and> ce_forward (de_data x)} else {})"

definition bwd_arcs :: "ContractorGraph \<Rightarrow> stored" where
  "bwd_arcs g u = (if u < number_of_nodes g
     then {(de_target x, ce_distance (de_data x)) | x. x \<in> set (out g u) \<and> ce_backward (de_data x)} else {})"

text \<open>Every edge leads to a node and has a direction.\<close>

definition graph_ok :: "ContractorGraph \<Rightarrow> bool" where
  "graph_ok g \<longleftrightarrow> dg_inv g \<and> number_of_nodes g \<le> length (node_list g) \<and> (\<forall>u < number_of_nodes g. \<forall>x \<in> set (out g u).
     de_target x < number_of_nodes g \<and> (ce_forward (de_data x) \<or> ce_backward (de_data x)))"

definition lighter :: "int \<Rightarrow> ContractorGraph \<Rightarrow> NodeID set \<Rightarrow> bool" where
  "lighter W g R \<longleftrightarrow> (\<forall>u \<in> R. \<forall>(v, d) \<in> fwd_arcs g u \<union> bwd_arcs g u. d < W)"

lemma fwd_arcsI:
  "u < number_of_nodes g \<Longrightarrow> x \<in> set (out g u) \<Longrightarrow> ce_forward (de_data x) \<Longrightarrow>
    (de_target x, ce_distance (de_data x)) \<in> fwd_arcs g u"
  by (auto simp: fwd_arcs_def)

lemma bwd_arcsI:
  "u < number_of_nodes g \<Longrightarrow> x \<in> set (out g u) \<Longrightarrow> ce_backward (de_data x) \<Longrightarrow>
    (de_target x, ce_distance (de_data x)) \<in> bwd_arcs g u"
  by (auto simp: bwd_arcs_def)

text \<open>The edge range of a node: identifiers of valid slots whose contents are the edges of the node.\<close>

lemma edge_range:
  assumes "graph_ok g" "u < number_of_nodes g"
  obtains r where "dg_GetAdjacentEdgeRange g u = Some r" "\<forall>e \<in> set r. e < length (edge_list g)"
    "map (\<lambda>e. edge_list g ! e) r = out g u"
proof -
  obtain r where r: "dg_GetAdjacentEdgeRange g u = Some r" "set r = {e. owns (node_list g) u e}"
    "map (\<lambda>e. edge_list g ! e) r = out g u"
    using GetAdjacentEdgeRange_correct [of g u] assms unfolding graph_ok_def by auto
  have "\<forall>e \<in> set r. e < length (edge_list g)" using r(2) assms(1) by (auto simp: graph_ok_def dg_inv_def)
  with r(1,3) show thesis using that by blast
qed

lemma edge_reads:
  assumes "e < length (edge_list g)"
  shows "dg_GetEdgeData g e = Some (de_data (edge_list g ! e))" "dg_GetTarget g e = Some (de_target (edge_list g ! e))"
  using assms by (simp_all add: dg_GetEdgeData_def dg_GetTarget_def vec_simps)

section \<open>Searching a witness\<close>

text \<open>The keys of a search from \<open>s\<close> that avoids \<open>x\<close> among the nodes \<open>R\<close>.\<close>

definition witness_arcs :: "ContractorGraph \<Rightarrow> NodeID set \<Rightarrow> NodeID \<Rightarrow> arc_set" where
  "witness_arcs g R x = avoiding (stored_arcs (fwd_arcs g) R) x"

definition keys_ok :: "ContractorGraph \<Rightarrow> NodeID set \<Rightarrow> NodeID \<Rightarrow> NodeID \<Rightarrow> (NodeID \<rightharpoonup> int) \<Rightarrow> bool" where
  "keys_ok g R x s m \<longleftrightarrow> dom m \<subseteq> R \<and> m s = Some 0 \<and>
     (\<forall>n k. m n = Some k \<longrightarrow> 0 \<le> k \<and> k \<le> INT_MAX \<and> (k < INT_MAX \<longrightarrow> walk (witness_arcs g R x) s n k))"

lemma keys_okD:
  assumes "keys_ok g R x s m" "m n = Some k"
  shows "n \<in> R" "0 \<le> k" "k \<le> INT_MAX" "k < INT_MAX \<Longrightarrow> walk (witness_arcs g R x) s n k"
  using assms unfolding keys_ok_def by blast+

lemma keys_ok_update:
  assumes "keys_ok g R x s m" "v \<in> R" "0 < k" "k \<le> INT_MAX" "k < INT_MAX \<longrightarrow> walk (witness_arcs g R x) s v k" "v \<noteq> s"
  shows "keys_ok g R x s (m(v \<mapsto> k))"
  using assms unfolding keys_ok_def by auto

lemma frontier_update:
  assumes "frontier D a" "D \<le> k" "ah_key b = (ah_key a)(v \<mapsto> k)" "ah_queue b = insert v (ah_queue a)"
  shows "frontier D b"
  using assms unfolding frontier_def settled_le_def by auto

text \<open>What the search needs of the graph: the forward arcs stay among \<open>R\<close> and their lengths do not overflow.\<close>

definition searchable :: "ContractorGraph \<Rightarrow> NodeID set \<Rightarrow> bool" where
  "searchable g R \<longleftrightarrow> graph_ok g \<and> R \<subseteq> {..<number_of_nodes g} \<and>
     (\<forall>u \<in> R. \<forall>(v, d) \<in> fwd_arcs g u. v \<in> R \<and> v \<noteq> u \<and> 0 < d \<and> d < 2 ^ 29) \<and>
     (\<forall>u \<in> R. \<forall>(v, d) \<in> bwd_arcs g u. v \<in> R \<and> v \<noteq> u \<and> 0 < d \<and> d < 2 ^ 29)"

lemma searchableD:
  assumes "searchable g R"
  shows "graph_ok g" "u \<in> R \<Longrightarrow> u < number_of_nodes g"
    "u \<in> R \<Longrightarrow> (v, d) \<in> fwd_arcs g u \<Longrightarrow> v \<in> R \<and> v \<noteq> u \<and> 0 < d \<and> d < 2 ^ 29"
    "u \<in> R \<Longrightarrow> (v, d) \<in> bwd_arcs g u \<Longrightarrow> v \<in> R \<and> v \<noteq> u \<and> 0 < d \<and> d < 2 ^ 29"
  using assms unfolding searchable_def by blast+

context search_storage
begin

definition searching :: "ContractorGraph \<Rightarrow> NodeID set \<Rightarrow> NodeID \<Rightarrow> NodeID \<Rightarrow> NodeID set \<Rightarrow> 's ContractorHeap \<Rightarrow> bool" where
  "searching g R x s M h \<longleftrightarrow> hinv h \<and> keys_ok g R x s (ah_key (abs_of h)) \<and> M \<subseteq> dom (ah_key (abs_of h))"

lemma searching_update:
  assumes "searching g R x s M h" "hinv h'" "ah_key (abs_of h') = (ah_key (abs_of h))(v \<mapsto> k)"
    "v \<in> R" "0 < k" "k \<le> INT_MAX" "k < INT_MAX \<longrightarrow> walk (witness_arcs g R x) s v k" "v \<noteq> s"
  shows "searching g R x s M h'"
  using assms keys_ok_update [of g R x s "ah_key (abs_of h)" v k] unfolding searching_def by auto

lemma searching_same:
  assumes "searching g R x s M h" "hinv h'" "ah_key (abs_of h') = ah_key (abs_of h)"
  shows "searching g R x s M h'"
  using assms unfolding searching_def by simp

text \<open>Relaxing one arc.\<close>

lemma relax_one:
  assumes h: "searching g R x s M h" "frontier D (abs_of h)" and N: "to < N"
    and to: "to \<in> R" "to_distance = D + d" "0 < d" "0 \<le> D" "D + d < INT_MAX" "walk (witness_arcs g R x) s to (D + d)"
    and k: "\<And>h. searching g R x s M h \<Longrightarrow> frontier D (abs_of h) \<Longrightarrow> returns tot (rest h) Q"
  shows "returns tot (do {
      (inserted, h) \<leftarrow> heap_WasInserted ops h to;
      if \<not> inserted then do {
        h \<leftarrow> heap_Insert ops h to to_distance \<lparr> ch_hop = hop, ch_target = False \<rparr>;
        rest h
      } else do {
        (key, h) \<leftarrow> heap_GetKey ops h to;
        if to_distance < key then do {
          h \<leftarrow> heap_DecreaseKey ops h to to_distance;
          (d, h) \<leftarrow> heap_GetData ops h to;
          h \<leftarrow> heap_SetData ops h to (d\<lparr> ch_hop := hop \<rparr>);
          rest h
        } else rest h
      }
    }) Q"
proof -
  have min: "INT_MIN \<le> to_distance" using to(2-4) by (simp add: INT_MIN_def)
  have new: "returns tot (rest h2) Q"
    if "searching g R x s M h1" "frontier D (abs_of h1)" "hinv h2" "ah_key (abs_of h2) = (ah_key (abs_of h1))(to \<mapsto> to_distance)"
      "ah_queue (abs_of h2) = insert to (ah_queue (abs_of h1))" "to \<noteq> s" for h1 h2
    using searching_update [OF that(1,3,4)] frontier_update [OF that(2) _ that(4,5)] to that(6) k by simp
  have decrease: "returns tot (do {
      h \<leftarrow> heap_DecreaseKey ops h2 to to_distance;
      (d, h) \<leftarrow> heap_GetData ops h to;
      h \<leftarrow> heap_SetData ops h to (d\<lparr> ch_hop := hop \<rparr>);
      rest h
    }) Q"
    if h2: "searching g R x s M h2" "frontier D (abs_of h2)" "ah_key (abs_of h2) to = Some key" "to_distance < key" for h2 key
  proof -
    have q: "to \<in> ah_queue (abs_of h2)"
      using h2(2-4) to(2,3) unfolding frontier_def by (auto dest: settled_leD)
    have ns: "to \<noteq> s" using h2(1,3,4) to(2-4) by (auto simp: searching_def keys_ok_def)
    have inv: "hinv h2" using h2(1) by (simp add: searching_def)
    show ?thesis
    proof (rule returns_bind [OF DecreaseKey_returns [OF inv h2(3) q min less_imp_le [OF h2(4)]]], elim conjE, goal_cases)
      case (1 h3)
      then have k3: "ah_key (abs_of h3) to = Some to_distance" by (simp add: abs_decrease_def)
      show ?case
      proof (rule returns_bind2 [OF GetData_returns [OF 1(1) k3]], clarsimp, goal_cases)
        case (1 d h4)
        then have k4: "ah_key (abs_of h4) to = Some to_distance" using k3 by simp
        show ?case
          by (rule returns_bind [OF SetData_returns [OF 1(1) k4]], elim conjE, rule new [OF h2(1,2)])
            (use 1 \<open>abs_of h3 = abs_decrease (abs_of h2) to to_distance\<close> q ns in
              \<open>simp_all add: abs_set_data_def abs_decrease_def insert_absorb\<close>)
      qed
    qed
  qed
  have inv: "hinv h" using h(1) by (simp add: searching_def)
  show ?thesis
  proof (rule returns_bind2 [OF WasInserted_returns [OF inv N]], clarsimp split del: if_split, goal_cases)
    case (1 h1)
    note h1 = searching_same [OF h(1) 1(1)] 1 h(2)
    show ?case
    proof (cases "ah_key (abs_of h) to")
      case None
      have ns: "to \<noteq> s" using None h(1) by (auto simp: searching_def keys_ok_def)
      have none: "ah_key (abs_of h1) to = None" using None 1(2) by simp
      have "returns tot (heap_Insert ops h1 to to_distance \<lparr> ch_hop = hop, ch_target = False \<rparr> \<bind> rest) Q"
        by (rule returns_bind [OF Insert_returns [OF 1(1) N none min]], elim conjE, rule new [of h1])
          (use h1 ns in \<open>simp_all add: abs_insert_def\<close>)
      then show ?thesis using None by (simp add: domIff)
    next
      case (Some key)
      have some: "ah_key (abs_of h1) to = Some key" using Some 1(2) by simp
      show ?thesis unfolding domIff Some
      proof (simp, rule returns_bind2 [OF GetKey_returns [OF 1(1) some]], clarsimp, goal_cases)
        case (1 h2)
        have s2: "searching g R x s M h2" using searching_same [OF h(1) 1(1)] 1(2) h1(3) by simp
        show ?case using decrease [OF s2 _ _ ] k [OF s2] h(2) Some 1 h1(3) by simp
      qed
    qed
  qed
qed

lemma witness_relax_returns:
  assumes g: "searchable g R" "number_of_nodes g = N" and n: "n \<in> R" "walk (witness_arcs g R x) s n D" "0 \<le> D" "D < 2 ^ 30"
    and es: "\<forall>e \<in> set es. e < length (edge_list g) \<and> edge_list g ! e \<in> set (out g n)"
    and h: "searching g R x s M h" "frontier D (abs_of h)"
  shows "returns tot (witness_relax ops g x D hop es h) (\<lambda>h'. searching g R x s M h' \<and> frontier D (abs_of h'))"
  using es h
proof (induction es arbitrary: h)
  case (Cons e es)
  let ?y = "edge_list g ! e"
  note reads = edge_reads [of e g]
  have e: "e < length (edge_list g)" "?y \<in> set (out g n)" using Cons.prems(1) by simp_all
  have IH: "returns tot (witness_relax ops g x D hop es h) (\<lambda>h'. searching g R x s M h' \<and> frontier D (abs_of h'))"
    if "searching g R x s M h" "frontier D (abs_of h)" for h
    using Cons.IH [OF _ that] Cons.prems(1) by simp
  show ?case
  proof (cases "ce_forward (de_data ?y) \<and> x \<noteq> de_target ?y")
    case True
    let ?to = "de_target ?y" and ?d = "ce_distance (de_data ?y)"
    have arc: "(?to, ?d) \<in> fwd_arcs g n" using True e(2) searchableD(2) [OF g(1) n(1)] by (auto intro: fwd_arcsI)
    have d: "?to \<in> R" "0 < ?d" "?d < 2 ^ 29" using searchableD(3) [OF g(1) n(1) arc] by simp_all
    have N: "?to < N" using searchableD(2) [OF g(1) d(1)] g(2) by simp
    have lt: "D + ?d < INT_MAX" using d(3) n(4) by simp
    have w: "walk (witness_arcs g R x) s ?to (D + ?d)"
      by (rule walk_snoc [OF n(2)]) (use True arc n(1) in \<open>auto simp: witness_arcs_def avoiding_def stored_arcs_def\<close>)
    have sb: "sbits 32 (D + ?d) = D + ?d" using lt d(2) n(3) by (intro sbits_id) auto
    show ?thesis
      using relax_one [where rest = "witness_relax ops g x D hop es", OF Cons.prems(2,3) N d(1) sb d(2) n(3) lt w IH] True e(1) reads by (simp add: Let_def)
  next
    case False
    then show ?thesis using IH [OF Cons.prems(2,3)] e(1) reads by auto
  qed
qed simp

lemma searching_order:
  assumes "searching g R x s M h" "ordered (abs_of h)" "is_min (abs_of h) n" "hinv h1" "abs_of h1 = abs_remove (abs_of h) n"
  obtains D where "ah_key (abs_of h1) n = Some D" "searching g R x s M h1" "frontier D (abs_of h1)"
proof -
  obtain D where D: "ah_key (abs_of h) n = Some D" "settled_le D (abs_remove (abs_of h) n)"
    "\<And>m l. m \<in> ah_queue (abs_of h) \<Longrightarrow> ah_key (abs_of h) m = Some l \<Longrightarrow> D \<le> l"
    by (rule ordered_min [OF assms(2,3)]) (rule that)
  have "ah_key (abs_of h1) n = Some D" using D(1) assms(5) by (simp add: abs_remove_def)
  moreover have "searching g R x s M h1" using searching_same [OF assms(1,4)] assms(5) by (simp add: abs_remove_def)
  moreover have "frontier D (abs_of h1)"
    using D(2,3) assms(2) unfolding assms(5) frontier_def ordered_def abs_remove_def by auto
  ultimately show thesis by (rule that)
qed

lemma witness_loop_returns:
  assumes g: "searchable g R" "number_of_nodes g = N" and md: "max_distance < 2 ^ 30"
    and h: "searching g R x s M h" "ordered (abs_of h)"
  shows "returns tot (witness_loop ops g max_distance targets maxNodes x nodes found h) (searching g R x s M)"
  using h
proof (induction "maxNodes - nodes" arbitrary: nodes found h rule: less_induct)
  case less
  have inv: "hinv h" using less.prems(1) by (simp add: searching_def)
  show ?case
  proof (cases "heap_Empty h")
    case True
    then show ?thesis using less.prems(1) by (simp add: witness_loop.simps)
  next
    case False
    have "returns tot (do {
        (node, h) \<leftarrow> heap_DeleteMin h;
        (distance, h) \<leftarrow> heap_GetKey ops h node;
        (d, h) \<leftarrow> heap_GetData ops h node;
        if nodes + 1 > maxNodes then Some h
        else if distance > max_distance then Some h
        else do {
          (d', h) \<leftarrow> heap_GetData ops h node;
          if ch_target d' \<and> (if ch_target d' then found + 1 else found) \<ge> targets then Some h
          else do {
            range \<leftarrow> dg_GetAdjacentEdgeRange g node;
            h \<leftarrow> witness_relax ops g x distance (sbits 16 (ch_hop d + 1)) range h;
            witness_loop ops g max_distance targets maxNodes x (nodes + 1) (if ch_target d' then found + 1 else found) h
          }
        }
      }) (searching g R x s M)"
    proof (rule returns_bind2 [OF DeleteMin_returns [OF inv False]], clarsimp, goal_cases)
      case (1 n h1)
      obtain D where D: "ah_key (abs_of h1) n = Some D" "searching g R x s M h1" "frontier D (abs_of h1)"
        using searching_order [OF less.prems 1] .
      have key: "\<And>h'. abs_of h' = abs_of h1 \<Longrightarrow> ah_key (abs_of h') n = Some D" using D(1) by simp
      have same: "\<And>h'. hinv h' \<Longrightarrow> abs_of h' = abs_of h1 \<Longrightarrow> searching g R x s M h' \<and> frontier D (abs_of h')"
        using D(2,3) searching_same by simp
      have ok: "keys_ok g R x s (ah_key (abs_of h1))" using D(2) by (simp add: searching_def)
      note k = keys_okD [where m = "ah_key (abs_of h1)", OF ok D(1)]
      have nR: "n \<in> R" by (rule k(1))
      obtain r where r: "dg_GetAdjacentEdgeRange g n = Some r" "\<forall>e \<in> set r. e < length (edge_list g)"
        "map (\<lambda>e. edge_list g ! e) r = out g n"
        using edge_range [OF searchableD(1) [OF g(1)] searchableD(2) [OF g(1) nR]] .
      have es: "\<forall>e \<in> set r. e < length (edge_list g) \<and> edge_list g ! e \<in> set (out g n)"
        using r(2) r(3) [symmetric] by simp
      show ?case
      proof (rule returns_bind2 [OF GetKey_returns [OF 1(2) D(1)]], clarsimp, goal_cases)
        case (1 h2)
        show ?case
        proof (rule returns_bind2 [OF GetData_returns [OF 1(1) key [OF 1(2)]]], clarsimp, goal_cases)
          case (1 d h3)
          show ?case
          proof (cases "maxNodes < Suc nodes \<or> max_distance < D")
            case True
            then show ?thesis using same [OF 1(1)] 1(2) \<open>abs_of h2 = abs_of h1\<close> by auto
          next
            case False
            have D30: "D < 2 ^ 30" using False md by simp
            then have "D < INT_MAX" by simp
            then have w: "walk (witness_arcs g R x) s n D" "0 \<le> D" using k(2,4) by simp_all
            have h3: "abs_of h3 = abs_of h1" using 1(2) \<open>abs_of h2 = abs_of h1\<close> by simp
            have "returns tot (do {
                (d', h) \<leftarrow> heap_GetData ops h3 n;
                if ch_target d' \<and> (if ch_target d' then found + 1 else found) \<ge> targets then Some h
                else do {
                  range \<leftarrow> dg_GetAdjacentEdgeRange g n;
                  h \<leftarrow> witness_relax ops g x D (sbits 16 (ch_hop d + 1)) range h;
                  witness_loop ops g max_distance targets maxNodes x (nodes + 1) (if ch_target d' then found + 1 else found) h
                }
              }) (searching g R x s M)"
            proof (rule returns_bind2 [OF GetData_returns [OF 1(1) key [OF h3]]], clarsimp split del: if_split, goal_cases)
              case (1 d' h4)
              have h4: "searching g R x s M h4" "frontier D (abs_of h4)" using same [OF 1(1)] 1(2) h3 by auto
              have "returns tot (witness_relax ops g x D (sbits 16 (ch_hop d + 1)) r h4 \<bind>
                  witness_loop ops g max_distance targets maxNodes x (Suc nodes) f) (searching g R x s M)" for f
                by (rule returns_bind [OF witness_relax_returns [OF g nR w D30 es h4]])
                  (use False in \<open>auto intro!: less.hyps frontier_ordered\<close>)
              then show ?case using h4(1) r(1) by simp
            qed
            then show ?thesis using False by simp
          qed
        qed
      qed
    qed
    then show ?thesis using False by (subst witness_loop.simps, unfold Let_def) simp
  qed
qed

text \<open>The first loop of \<open>ContractNode\<close> over the outgoing edges.\<close>

definition outs :: "ContractorGraph \<Rightarrow> EdgeID list \<Rightarrow> (NodeID \<times> int) set" where
  "outs g es = {(de_target (edge_list g ! e), ce_distance (de_data (edge_list g ! e))) | e.
     e \<in> set es \<and> ce_forward (de_data (edge_list g ! e))}"

lemma insert_targets_returns:
  assumes g: "searchable g R" "number_of_nodes g = N" and x: "x \<in> R" "0 < ce_distance in_data" "ce_distance in_data < 2 ^ 29"
    and es: "\<forall>e \<in> set es. e < length (edge_list g) \<and> edge_list g ! e \<in> set (out g x)"
    and h: "searching g R x s M h" "ah_queue (abs_of h) = dom (ah_key (abs_of h))" "md < 2 ^ 30"
  shows "returns tot (insert_targets ops g in_data es (h, md, k)) (\<lambda>(h', md', k').
    searching g R x s (M \<union> fst ` outs g es) h' \<and> ah_queue (abs_of h') = dom (ah_key (abs_of h')) \<and> md' < 2 ^ 30)"
  using es h
proof (induction es arbitrary: h md k M)
  case (Cons e es)
  let ?y = "edge_list g ! e"
  let ?to = "de_target ?y" and ?d = "ce_distance (de_data ?y)"
  let ?md = "max md (sbits 32 (ce_distance in_data + ?d))"
  have e: "e < length (edge_list g)" "?y \<in> set (out g x)" using Cons.prems(1) by simp_all
  note reads = edge_reads [OF e(1)]
  have "\<forall>e \<in> set es. e < length (edge_list g) \<and> edge_list g ! e \<in> set (out g x)" using Cons.prems(1) by simp
  note IH = Cons.IH [OF this]
  show ?case
  proof (cases "ce_forward (de_data ?y)")
    case True
    have outs: "fst ` outs g (e # es) = insert ?to (fst ` outs g es)" using True by (force simp: outs_def)
    have arc: "(?to, ?d) \<in> fwd_arcs g x" using True e(2) searchableD(2) [OF g(1) x(1)] by (auto intro: fwd_arcsI)
    have d: "?to \<in> R" "0 < ?d" "?d < 2 ^ 29" using searchableD(3) [OF g(1) x(1) arc] by simp_all
    have N: "?to < N" using searchableD(2) [OF g(1) d(1)] g(2) by simp
    have md: "?md < 2 ^ 30" using x(2,3) d(2,3) Cons.prems(4) sbits_id [of 32 "ce_distance in_data + ?d"] by simp
    have inv: "hinv h" using Cons.prems(2) by (simp add: searching_def)
    have "returns tot (do {
        (inserted, h) \<leftarrow> heap_WasInserted ops h ?to;
        if \<not> inserted then do {
          h \<leftarrow> heap_Insert ops h ?to INT_MAX \<lparr> ch_hop = 0, ch_target = True \<rparr>;
          insert_targets ops g in_data es (h, ?md, k + 1)
        } else insert_targets ops g in_data es (h, ?md, k)
      }) (\<lambda>(h', md', k'). searching g R x s (insert ?to M \<union> fst ` outs g es) h' \<and>
        ah_queue (abs_of h') = dom (ah_key (abs_of h')) \<and> md' < 2 ^ 30)"
    proof (rule returns_bind2 [OF WasInserted_returns [OF inv N]], clarsimp split del: if_split, goal_cases)
      case (1 h1)
      show ?case
      proof (cases "ah_key (abs_of h) ?to")
        case None
        have ns: "?to \<noteq> s" using None Cons.prems(2) by (auto simp: searching_def keys_ok_def)
        have none: "ah_key (abs_of h1) ?to = None" using None 1(2) by simp
        have "returns tot (do {
            h \<leftarrow> heap_Insert ops h1 ?to INT_MAX \<lparr> ch_hop = 0, ch_target = True \<rparr>;
            insert_targets ops g in_data es (h, ?md, Suc k)
          }) (\<lambda>(h', md', k'). searching g R x s (insert ?to M \<union> fst ` outs g es) h' \<and>
            ah_queue (abs_of h') = dom (ah_key (abs_of h')) \<and> md' < 2 ^ 30)"
        proof (rule returns_bind [OF Insert_returns [OF 1(1) N none]], goal_cases)
          case (2 h2)
          have "searching g R x s M h2"
            by (rule searching_update [OF searching_same [OF Cons.prems(2) 1(1)], of _ ?to INT_MAX])
              (use 1(2) 2 ns d(1) in \<open>simp_all add: abs_insert_def\<close>)
          then have "searching g R x s (insert ?to M) h2" using 2 by (simp add: searching_def abs_insert_def)
          then show ?case by (rule IH) (use 1(2) 2 Cons.prems(3) md in \<open>auto simp: abs_insert_def\<close>)
        qed (simp add: INT_MIN_def)
        then show ?thesis using None by (simp add: domIff)
      next
        case (Some key)
        then have "searching g R x s (insert ?to M) h1"
          using searching_same [OF Cons.prems(2) 1(1)] 1(2) by (auto simp: searching_def)
        then have "returns tot (insert_targets ops g in_data es (h1, ?md, k)) (\<lambda>(h', md', k').
            searching g R x s (insert ?to M \<union> fst ` outs g es) h' \<and> ah_queue (abs_of h') = dom (ah_key (abs_of h')) \<and> md' < 2 ^ 30)"
          by (rule IH) (use 1(2) Cons.prems(3) md in simp_all)
        then show ?thesis using Some by (simp add: domIff)
      qed
    qed
    then show ?thesis using True reads outs by (simp add: Let_def)
  next
    case False
    then have "outs g (e # es) = outs g es" by (auto simp: outs_def)
    then show ?thesis using False reads IH [OF Cons.prems(2-4)] by simp
  qed
qed (simp add: outs_def)

end

section \<open>Shortcuts\<close>

text \<open>The arcs that a list of edges adds to the forward and to the backward arcs of their sources.\<close>

definition fw :: "ContractorEdge list \<Rightarrow> arc_set" where
  "fw es = {(ie_source e, ie_target e, ce_distance (ie_data e)) | e. e \<in> set es \<and> ce_forward (ie_data e)}"

definition bw :: "ContractorEdge list \<Rightarrow> arc_set" where
  "bw es = {(ie_source e, ie_target e, ce_distance (ie_data e)) | e. e \<in> set es \<and> ce_backward (ie_data e)}"

text \<open>Edges with a direction and the number of a contracted node.\<close>

definition tagged :: "NodeID set \<Rightarrow> ContractorEdge list \<Rightarrow> bool" where
  "tagged X es \<longleftrightarrow> (\<forall>e \<in> set es. (ce_forward (ie_data e) \<or> ce_backward (ie_data e)) \<and> ce_id (ie_data e) \<in> X \<and>
     \<not> ce_is_original_via_node_ID (ie_data e))"

definition mirror :: "arc_set \<Rightarrow> arc_set" where
  "mirror K = {(b, a, d) | a b d. (a, b, d) \<in> K}"

lemma arcs_of_edges [simp]:
  "fw [] = {}" "bw [] = {}" "fw (es @ es') = fw es \<union> fw es'" "bw (es @ es') = bw es \<union> bw es'"
  "tagged X []" "tagged X (es @ es') \<longleftrightarrow> tagged X es \<and> tagged X es'"
  "mirror {} = {}" "mirror (K \<union> K') = mirror K \<union> mirror K'"
  "(b, a, d) \<in> mirror K \<longleftrightarrow> (a, b, d) \<in> K"
  by (auto simp: fw_def bw_def tagged_def mirror_def)

lemma arcs_of_edge_Cons:
  "fw (e # es) = (if ce_forward (ie_data e) then {(ie_source e, ie_target e, ce_distance (ie_data e))} else {}) \<union> fw es"
  "bw (e # es) = (if ce_backward (ie_data e) then {(ie_source e, ie_target e, ce_distance (ie_data e))} else {}) \<union> bw es"
  "tagged X (e # es) \<longleftrightarrow> (ce_forward (ie_data e) \<or> ce_backward (ie_data e)) \<and> ce_id (ie_data e) \<in> X \<and>
     \<not> ce_is_original_via_node_ID (ie_data e) \<and> tagged X es"
  by (auto simp: fw_def bw_def tagged_def)

text \<open>The paths over \<open>x\<close>, and what the edges from \<open>es\<close> to \<open>es'\<close> add for the arcs \<open>I\<close> into \<open>x\<close> and \<open>J\<close> out of it.\<close>

definition via :: "ContractorGraph \<Rightarrow> NodeID \<Rightarrow> arc_set" where
  "via g x = {(a, b, d1 + d2) | a b d1 d2. (a, d1) \<in> bwd_arcs g x \<and> (b, d2) \<in> fwd_arcs g x \<and> a \<noteq> b}"

definition witnessed :: "ContractorGraph \<Rightarrow> NodeID set \<Rightarrow> NodeID \<Rightarrow> NodeID \<Rightarrow> NodeID \<Rightarrow> int \<Rightarrow> bool" where
  "witnessed g R x a b d \<longleftrightarrow> (\<exists>w \<le> d. walk (witness_arcs g R x) a b w)"

definition shortcuts ::
  "ContractorGraph \<Rightarrow> NodeID set \<Rightarrow> NodeID \<Rightarrow> (NodeID \<times> int) set \<Rightarrow> (NodeID \<times> int) set \<Rightarrow> ContractorEdge list \<Rightarrow> ContractorEdge list \<Rightarrow> bool" where
  "shortcuts g R x I J es es' \<longleftrightarrow> (\<forall>X. tagged X es \<longrightarrow> tagged (insert x X) es') \<and>
     (\<exists>K. fw es' = fw es \<union> K \<and> bw es' = bw es \<union> mirror K \<and> K \<subseteq> via g x \<and>
       (\<forall>(a, d1) \<in> I. \<forall>(b, d2) \<in> J. (a, b, d1 + d2) \<in> K \<or> witnessed g R x a b (d1 + d2)))"

lemma tagged_mono: "tagged X es \<Longrightarrow> X \<subseteq> Y \<Longrightarrow> tagged Y es"
  by (auto simp: tagged_def)

lemma tagged_insert: "tagged X es \<Longrightarrow> tagged (insert x X) es"
  by (auto simp: tagged_def)

lemma shortcuts_none: "shortcuts g R x {} J es es" "shortcuts g R x I {} es es"
  unfolding shortcuts_def by (intro conjI allI impI exI [of _ "{}"]; simp add: tagged_insert)+

lemma shortcuts_trans_in:
  assumes "shortcuts g R x I J es es'" "shortcuts g R x I' J es' es''"
  shows "shortcuts g R x (I \<union> I') J es es''"
proof -
  have tag: "tagged (insert x X) es''" if "tagged X es" for X
    using assms that unfolding shortcuts_def by (metis insert_absorb2)
  obtain K K' where K: "fw es' = fw es \<union> K" "bw es' = bw es \<union> mirror K" "K \<subseteq> via g x"
    "\<forall>(a, d1) \<in> I. \<forall>(b, d2) \<in> J. (a, b, d1 + d2) \<in> K \<or> witnessed g R x a b (d1 + d2)"
    "fw es'' = fw es' \<union> K'" "bw es'' = bw es' \<union> mirror K'" "K' \<subseteq> via g x"
    "\<forall>(a, d1) \<in> I'. \<forall>(b, d2) \<in> J. (a, b, d1 + d2) \<in> K' \<or> witnessed g R x a b (d1 + d2)"
    using assms unfolding shortcuts_def by (elim conjE exE)
  show ?thesis unfolding shortcuts_def
  proof (intro conjI exI [of _ "K \<union> K'"])
    show "\<forall>(a, d1) \<in> I \<union> I'. \<forall>(b, d2) \<in> J. (a, b, d1 + d2) \<in> K \<union> K' \<or> witnessed g R x a b (d1 + d2)"
      using K(4,8) by fast
  qed (use tag K in auto)
qed

lemma shortcuts_trans_out:
  assumes "shortcuts g R x I J es es'" "shortcuts g R x I J' es' es''"
  shows "shortcuts g R x I (J \<union> J') es es''"
proof -
  have tag: "tagged (insert x X) es''" if "tagged X es" for X
    using assms that unfolding shortcuts_def by (metis insert_absorb2)
  obtain K K' where K: "fw es' = fw es \<union> K" "bw es' = bw es \<union> mirror K" "K \<subseteq> via g x"
    "\<forall>(a, d1) \<in> I. \<forall>(b, d2) \<in> J. (a, b, d1 + d2) \<in> K \<or> witnessed g R x a b (d1 + d2)"
    "fw es'' = fw es' \<union> K'" "bw es'' = bw es' \<union> mirror K'" "K' \<subseteq> via g x"
    "\<forall>(a, d1) \<in> I. \<forall>(b, d2) \<in> J'. (a, b, d1 + d2) \<in> K' \<or> witnessed g R x a b (d1 + d2)"
    using assms unfolding shortcuts_def by (elim conjE exE)
  show ?thesis unfolding shortcuts_def
  proof (intro conjI exI [of _ "K \<union> K'"])
    show "\<forall>(a, d1) \<in> I. \<forall>(b, d2) \<in> J \<union> J'. (a, b, d1 + d2) \<in> K \<union> K' \<or> witnessed g R x a b (d1 + d2)"
      using K(4,8) by fast
  qed (use tag K in auto)
qed

lemma shortcuts_witnessed: "witnessed g R x a b (d1 + d2) \<Longrightarrow> shortcuts g R x {(a, d1)} {(b, d2)} es es"
  unfolding shortcuts_def by (intro conjI allI impI exI [of _ "{}"]; simp add: tagged_insert)

text \<open>The two edges of a shortcut.\<close>

lemma shortcuts_added:
  assumes "(a, d1) \<in> bwd_arcs g x" "(b, d2) \<in> fwd_arcs g x" "a \<noteq> b" "0 \<le> d1 + d2" "d1 + d2 < 2 ^ 32"
  shows "shortcuts g R x {(a, d1)} {(b, d2)} es
    (es @ [ContractorEdge_of a b (d1 + d2) k x True True False, ContractorEdge_of b a (d1 + d2) k x True False True])"
  unfolding shortcuts_def
  by (intro conjI allI impI exI [of _ "{(a, b, d1 + d2)}"])
    (use assms in \<open>auto simp: arcs_of_edge_Cons mirror_def via_def ContractorEdge_of_def ContractorEdgeData_of_def tagged_insert\<close>)

definition stats_ok :: "ContractionStats \<Rightarrow> bool" where
  "stats_ok st \<longleftrightarrow> 0 \<le> edges_deleted_count st \<and> 0 \<le> edges_added_count st \<and>
     0 \<le> original_edges_deleted_count st \<and> 0 \<le> original_edges_added_count st"

text \<open>What a simulated and what a real contraction leave.\<close>

definition contracted ::
  "bool \<Rightarrow> ContractorGraph \<Rightarrow> NodeID set \<Rightarrow> NodeID \<Rightarrow> (NodeID \<times> int) set \<Rightarrow> (NodeID \<times> int) set \<Rightarrow> ContractorEdge list \<Rightarrow> ContractorEdge list \<Rightarrow> bool" where
  "contracted sim g R x I J es es' \<longleftrightarrow> (if sim then es' = es else shortcuts g R x I J es es')"

lemma contracted_trans:
  "contracted sim g R x I J es es' \<Longrightarrow> contracted sim g R x I' J es' es'' \<Longrightarrow> contracted sim g R x (I \<union> I') J es es''"
  "contracted sim g R x I J es es' \<Longrightarrow> contracted sim g R x I J' es' es'' \<Longrightarrow> contracted sim g R x I (J \<union> J') es es''"
  unfolding contracted_def
  by (auto simp del: Un_insert_left Un_insert_right intro: shortcuts_trans_in shortcuts_trans_out split: if_splits)

lemma contracted_none: "contracted sim g R x {} J es es" "contracted sim g R x I {} es es"
  by (simp_all add: contracted_def shortcuts_none)

context search_storage
begin

lemma add_shortcuts_returns:
  assumes g: "searchable g R" and x: "x \<in> R" "(s, ce_distance in_data) \<in> bwd_arcs g x"
    and es: "\<forall>e \<in> set es. e < length (edge_list g) \<and> edge_list g ! e \<in> set (out g x)"
    and h: "searching g R x s M h" "fst ` outs g es \<subseteq> M" "stats_ok st"
  shows "returns tot (add_shortcuts ops sim g x s in_data es (h, ins, st)) (\<lambda>(h', ins', st').
    hinv h' \<and> stats_ok st' \<and> contracted sim g R x {(s, ce_distance in_data)} (outs g es) ins ins')"
  using es h
proof (induction es arbitrary: h ins st)
  case Nil
  then show ?case using contracted_none by (simp add: outs_def searching_def)
next
  case (Cons e es)
  let ?y = "edge_list g ! e" and ?d1 = "ce_distance in_data"
  let ?to = "de_target ?y" and ?d2 = "ce_distance (de_data ?y)"
  have e: "e < length (edge_list g)" "?y \<in> set (out g x)" using Cons.prems(1) by simp_all
  note reads = edge_reads [OF e(1)]
  have es: "\<forall>e \<in> set es. e < length (edge_list g) \<and> edge_list g ! e \<in> set (out g x)" using Cons.prems(1) by simp
  have sub: "outs g es \<subseteq> outs g (e # es)" by (auto simp: outs_def)
  then have M: "fst ` outs g es \<subseteq> M" using Cons.prems(3) by blast
  have IH: "returns tot (add_shortcuts ops sim g x s in_data es (h1, ins1, st1)) (\<lambda>(h', ins', st').
      hinv h' \<and> stats_ok st' \<and> contracted sim g R x {(s, ?d1)} (outs g (e # es)) ins ins')"
    if "searching g R x s M h1" "stats_ok st1" "contracted sim g R x {(s, ?d1)} X ins ins1" "outs g (e # es) = X \<union> outs g es"
    for h1 ins1 st1 X
    by (rule returns_mono [OF Cons.IH [OF es that(1) M that(2)]]) (use contracted_trans(2) [OF that(3)] that(4) in auto)
  show ?case
  proof (cases "ce_forward (de_data ?y)")
    case False
    then have "outs g (e # es) = {} \<union> outs g es" by (auto simp: outs_def)
    then show ?thesis using False reads IH [OF Cons.prems(2,4) contracted_none(2)] by simp
  next
    case True
    have outs: "outs g (e # es) = {(?to, ?d2)} \<union> outs g es" using True by (auto simp: outs_def)
    have arc: "(?to, ?d2) \<in> fwd_arcs g x" using True e(2) searchableD(2) [OF g x(1)] by (auto intro: fwd_arcsI)
    have d: "0 < ?d1" "?d1 < 2 ^ 29" "0 < ?d2" "?d2 < 2 ^ 29"
      using searchableD(3) [OF g x(1) arc] searchableD(4) [OF g x(1) x(2)] by simp_all
    have sb: "sbits 32 (?d1 + ?d2) = ?d1 + ?d2" using d by (intro sbits_id) auto
    have "?to \<in> dom (ah_key (abs_of h))" using Cons.prems(2,3) outs by (auto simp: searching_def)
    then obtain k where k: "ah_key (abs_of h) ?to = Some k" by blast
    have inv: "hinv h" and ok: "keys_ok g R x s (ah_key (abs_of h))" using Cons.prems(2) by (simp_all add: searching_def)
    have "returns tot (do {
        (distance, h) \<leftarrow> heap_GetKey ops h ?to;
        if ?d1 + ?d2 < distance then
          if sim then
            add_shortcuts ops sim g x s in_data es
              (h, ins, st\<lparr> edges_added_count := edges_added_count st + 2,
                 original_edges_added_count := original_edges_added_count st + 2 * int (ce_originalEdges (de_data ?y) + ce_originalEdges in_data) \<rparr>)
          else
            add_shortcuts ops sim g x s in_data es
              (h, ins @ [ContractorEdge_of s ?to (?d1 + ?d2) (ce_originalEdges (de_data ?y) + ce_originalEdges in_data) x True True False,
                 ContractorEdge_of ?to s (?d1 + ?d2) (ce_originalEdges (de_data ?y) + ce_originalEdges in_data) x True False True], st)
        else add_shortcuts ops sim g x s in_data es (h, ins, st)
      }) (\<lambda>(h', ins', st'). hinv h' \<and> stats_ok st' \<and> contracted sim g R x {(s, ?d1)} (outs g (e # es)) ins ins')"
    proof (rule returns_bind2 [OF GetKey_returns [OF inv k]], clarsimp split del: if_split, goal_cases)
      case (1 h1)
      have h1: "searching g R x s M h1" by (rule searching_same [OF Cons.prems(2) 1(1)]) (simp add: 1(2))
      show ?case
      proof (cases "?d1 + ?d2 < k")
        case True
        have "s \<noteq> ?to" using True k ok d by (auto simp: keys_ok_def)
        then have sc: "shortcuts g R x {(s, ?d1)} {(?to, ?d2)} ins
            (ins @ [ContractorEdge_of s ?to (?d1 + ?d2) n x True True False, ContractorEdge_of ?to s (?d1 + ?d2) n x True False True])" for n
          using d by (intro shortcuts_added [OF x(2) arc]) auto
        have st: "stats_ok (st\<lparr> edges_added_count := edges_added_count st + 2,
            original_edges_added_count := original_edges_added_count st + 2 * int n \<rparr>)" for n
          using Cons.prems(4) by (simp add: stats_ok_def)
        have c: "contracted sim g R x {(s, ?d1)} {(?to, ?d2)} ins ins" if sim using that by (simp add: contracted_def)
        show ?thesis
          using True IH [OF h1 st c outs] IH [OF h1 Cons.prems(4) _ outs, of "ins @ [_, _]"] sc
          by (cases sim) (simp_all add: contracted_def del: of_nat_add)
      next
        case False
        then have "witnessed g R x s ?to (?d1 + ?d2)"
          using keys_okD(4) [where m = "ah_key (abs_of h)", OF ok k] d by (auto simp: witnessed_def intro!: exI [of _ k])
        then have "contracted sim g R x {(s, ?d1)} {(?to, ?d2)} ins ins"
          using shortcuts_witnessed by (simp add: contracted_def)
        then show ?thesis using False IH [OF h1 Cons.prems(4) _ outs] by simp
      qed
    qed
    then show ?thesis using True reads sb by (simp add: Let_def)
  qed
qed

text \<open>The loop over the incoming edges.\<close>

definition ins_of :: "ContractorGraph \<Rightarrow> EdgeID list \<Rightarrow> (NodeID \<times> int) set" where
  "ins_of g es = {(de_target (edge_list g ! e), ce_distance (de_data (edge_list g ! e))) | e.
     e \<in> set es \<and> ce_backward (de_data (edge_list g ! e))}"

lemma search_start:
  assumes "hinv h" "s < N" "s \<in> R"
  shows "returns tot (heap_Insert ops (heap_Clear ops h) s 0 d)
    (\<lambda>h'. searching g R x s {} h' \<and> ah_queue (abs_of h') = dom (ah_key (abs_of h')))"
proof -
  have inv: "st_inv (node_index h)" by (rule heap_invD(2) [OF assms(1)])
  note c = Clear_correct [OF inv clearable [OF inv]]
  show ?thesis
    by (rule returns_mono [OF Insert_returns [OF c(1) assms(2)]])
      (use c(2) assms(3) in \<open>auto simp: abs_empty_def abs_insert_def searching_def keys_ok_def INT_MIN_def walk_nil split: if_splits\<close>)
qed

lemma contract_in_edges_returns:
  assumes g: "searchable g R" "number_of_nodes g = N" and x: "x \<in> R"
    and es: "\<forall>e \<in> set es. e < length (edge_list g) \<and> edge_list g ! e \<in> set (out g x)"
    and h: "hinv h" "stats_ok st"
  shows "returns tot (contract_in_edges ops sim g x es (h, ins, st)) (\<lambda>(h', ins', st').
    hinv h' \<and> stats_ok st' \<and> contracted sim g R x (ins_of g es) (fwd_arcs g x) ins ins')"
  using es h
proof (induction es arbitrary: h ins st)
  case Nil
  then show ?case using contracted_none by (simp add: ins_of_def)
next
  case (Cons e es)
  let ?y = "edge_list g ! e"
  let ?s = "de_target ?y" and ?data = "de_data ?y"
  let ?st = "if sim then st\<lparr> edges_deleted_count := edges_deleted_count st + 1,
      original_edges_deleted_count := original_edges_deleted_count st + int (ce_originalEdges ?data) \<rparr> else st"
  have e: "e < length (edge_list g)" "?y \<in> set (out g x)" using Cons.prems(1) by simp_all
  note reads = edge_reads [OF e(1)]
  have es: "\<forall>e \<in> set es. e < length (edge_list g) \<and> edge_list g ! e \<in> set (out g x)" using Cons.prems(1) by simp
  have st: "stats_ok ?st" using Cons.prems(3) by (simp add: stats_ok_def)
  have IH: "returns tot (contract_in_edges ops sim g x es (h1, ins1, st1)) (\<lambda>(h', ins', st').
      hinv h' \<and> stats_ok st' \<and> contracted sim g R x (ins_of g (e # es)) (fwd_arcs g x) ins ins')"
    if "hinv h1" "stats_ok st1" "contracted sim g R x X (fwd_arcs g x) ins ins1" "ins_of g (e # es) = X \<union> ins_of g es"
    for h1 ins1 st1 X
    by (rule returns_mono [OF Cons.IH [OF es that(1,2)]]) (use contracted_trans(1) [OF that(3)] that(4) in auto)
  obtain r where r: "dg_GetAdjacentEdgeRange g x = Some r" "\<forall>e \<in> set r. e < length (edge_list g)"
    "map (\<lambda>e. edge_list g ! e) r = out g x"
    using edge_range [OF searchableD(1) [OF g(1)] searchableD(2) [OF g(1) x]] .
  have rs: "\<forall>e \<in> set r. e < length (edge_list g) \<and> edge_list g ! e \<in> set (out g x)"
    using r(2) r(3) [symmetric] by simp
  have outs: "outs g r = fwd_arcs g x"
    using searchableD(2) [OF g(1) x] unfolding outs_def fwd_arcs_def r(3) [symmetric] by auto
  show ?case
  proof (cases "ce_backward ?data")
    case False
    then have "ins_of g (e # es) = {} \<union> ins_of g es" by (auto simp: ins_of_def)
    then show ?thesis using False reads IH [OF Cons.prems(2) st contracted_none(1)] by (simp add: Let_def)
  next
    case True
    have ins: "ins_of g (e # es) = {(?s, ce_distance ?data)} \<union> ins_of g es" using True by (auto simp: ins_of_def)
    have arc: "(?s, ce_distance ?data) \<in> bwd_arcs g x" using True e(2) searchableD(2) [OF g(1) x] by (auto intro: bwd_arcsI)
    note d = searchableD(4) [OF g(1) x arc]
    have s: "?s \<in> R" "?s < N" using d searchableD(2) [OF g(1)] g(2) by auto
    have "returns tot (do {
        h \<leftarrow> heap_Insert ops (heap_Clear ops h) ?s 0 \<lparr> ch_hop = 0, ch_target = False \<rparr>;
        range \<leftarrow> dg_GetAdjacentEdgeRange g x;
        (h, max_distance, number_of_targets) \<leftarrow> insert_targets ops g ?data range (h, 0, 0);
        h \<leftarrow> Dijkstra ops g max_distance number_of_targets (if sim then 1000 else 2000) h x;
        acc \<leftarrow> add_shortcuts ops sim g x ?s ?data range (h, ins, ?st);
        contract_in_edges ops sim g x es acc
      }) (\<lambda>(h', ins', st'). hinv h' \<and> stats_ok st' \<and>
        contracted sim g R x (ins_of g (e # es)) (fwd_arcs g x) ins ins')"
    proof (rule returns_bind [OF search_start [where g = g and x = x, OF Cons.prems(2) s(2,1)]], elim conjE, unfold r(1) bind.bind_lunit, goal_cases)
      case (1 h1)
      show ?case
      proof (rule returns_bind3 [OF insert_targets_returns [OF g x _ _ rs 1]], goal_cases)
        case (4 h2 md k)
        then have h2: "searching g R x ?s (fst ` fwd_arcs g x) h2" "md < 2 ^ 30" "ordered (abs_of h2)"
          using outs by (auto simp: ordered_def)
        show ?case unfolding Dijkstra_def
        proof (rule returns_bind [OF witness_loop_returns [OF g h2(2,1,3)]], goal_cases)
          case (1 h3)
          show ?case
            by (rule returns_bind [OF add_shortcuts_returns [OF g(1) x arc rs 1 _ st]])
              (use outs IH [OF _ _ _ ins] in auto)
        qed
      qed (use d in auto)
    qed
    then show ?thesis using True reads by (simp add: Let_def)
  qed
qed

end

text \<open>Merging duplicates keeps the arcs of the edges.\<close>

lemma merge_first_arcs:
  "merge_first e es = Some es' \<Longrightarrow> fw es' = fw (e # es) \<and> bw es' = bw (e # es) \<and> (\<forall>X. tagged X (e # es) \<longrightarrow> tagged X es')"
proof (induction es arbitrary: es')
  case (Cons o' es)
  show ?case
  proof (cases "duplicates e o'")
    case True
    then show ?thesis using Cons.prems by (auto simp: arcs_of_edge_Cons merge_into_def duplicates_def)
  next
    case False
    then obtain es1 where es1: "merge_first e es = Some es1" "es' = o' # es1"
      using Cons.prems by (auto simp: bind_eq_Some_conv)
    show ?thesis using Cons.IH [OF es1(1)] unfolding es1(2) arcs_of_edge_Cons by auto
  qed
qed simp

lemma merge_duplicates_arcs:
  "fw (merge_duplicates es) = fw es" "bw (merge_duplicates es) = bw es" "tagged X es \<Longrightarrow> tagged X (merge_duplicates es)"
proof (induction es rule: merge_duplicates.induct)
  case (2 e es)
  {
    case 1
    then show ?case using merge_first_arcs [of e es] 2 by (auto simp: arcs_of_edge_Cons split: option.split)
  next
    case 2
    then show ?case using merge_first_arcs [of e es] \<open>\<And>x. merge_first e es = Some x \<Longrightarrow> bw (merge_duplicates x) = bw x\<close>
        \<open>merge_first e es = None \<Longrightarrow> bw (merge_duplicates es) = bw es\<close> by (auto simp: arcs_of_edge_Cons split: option.split)
  next
    case 3
    then show ?case using merge_first_arcs [of e es] 2(3,6) by (auto simp: arcs_of_edge_Cons split: option.split)
  }
qed simp_all

lemma shortcuts_merge:
  assumes "shortcuts g R x I J [] ins"
  shows "shortcuts g R x I J es (es @ merge_duplicates ins)"
  using assms merge_duplicates_arcs(1,2) [of ins] merge_duplicates_arcs(3) [of _ ins] unfolding shortcuts_def
  by (auto simp: tagged_insert)

lemma node_priority_nonneg:
  assumes "\<And>x. 0 \<le> x \<Longrightarrow> 0 \<le> fl x" "stats_ok st" "0 \<le> depth"
  shows "0 \<le> node_priority fl st depth"
  using assms unfolding node_priority_def stats_ok_def Let_def
  by (auto intro!: assms(1) add_nonneg_nonneg divide_nonneg_nonneg)

context search_storage
begin

lemma ContractNode_returns:
  assumes g: "searchable g R" "number_of_nodes g = N" and x: "x \<in> R" and td: "hinv (td_heap td)" "stats_ok st"
  shows "returns tot (ContractNode ops sim g td x st) (\<lambda>(td', st'). hinv (td_heap td') \<and> stats_ok st' \<and>
    contracted sim g R x (bwd_arcs g x) (fwd_arcs g x) (inserted_edges td) (inserted_edges td'))"
proof -
  obtain r where r: "dg_GetAdjacentEdgeRange g x = Some r" "\<forall>e \<in> set r. e < length (edge_list g)"
    "map (\<lambda>e. edge_list g ! e) r = out g x"
    using edge_range [OF searchableD(1) [OF g(1)] searchableD(2) [OF g(1) x]] .
  have rs: "\<forall>e \<in> set r. e < length (edge_list g) \<and> edge_list g ! e \<in> set (out g x)"
    using r(2) r(3) [symmetric] by simp
  have ins: "ins_of g r = bwd_arcs g x"
    using searchableD(2) [OF g(1) x] unfolding ins_of_def bwd_arcs_def r(3) [symmetric] by auto
  show ?thesis unfolding ContractNode_def r(1) bind.bind_lunit
    by (rule returns_bind3 [OF contract_in_edges_returns [OF g x rs td]])
      (use shortcuts_merge ins in \<open>auto simp: contracted_def\<close>)
qed

lemma EvaluateNodePriority_returns:
  assumes g: "searchable g R" "number_of_nodes g = N" and x: "x \<in> R" and td: "hinv (td_heap td)"
    and fl: "\<And>x. 0 \<le> x \<Longrightarrow> 0 \<le> fl x" and depth: "0 \<le> depth"
  shows "returns tot (EvaluateNodePriority ops fl g td depth x) (\<lambda>(p, td'). 0 \<le> p \<and> hinv (td_heap td') \<and>
    inserted_edges td' = inserted_edges td)"
proof -
  have st: "stats_ok ContractionStats_new" by (simp add: stats_ok_def ContractionStats_new_def)
  show ?thesis unfolding EvaluateNodePriority_def
    by (rule returns_bind2 [OF ContractNode_returns [OF g x td st]])
      (use node_priority_nonneg [of fl, OF fl _ depth] in \<open>auto simp: contracted_def\<close>)
qed

end

section \<open>The storages of the code\<close>

text \<open>The contractor's heap keys the hash storage by 32 bit identifiers.\<close>

definition ContractorStorage :: "(NodeID, XORFastHashStorage) IndexStorage" where
  "ContractorStorage = \<lparr>
     st_get = (\<lambda>s n. st_get XORFastHashStorage_ops s (of_nat n)),
     st_set = (\<lambda>s n k. st_set XORFastHashStorage_ops s (of_nat n) k),
     st_clear = st_clear XORFastHashStorage_ops \<rparr>"

definition contractor_val :: "XORFastHashStorage \<Rightarrow> NodeID \<Rightarrow> nat option" where
  "contractor_val s n = (if n < 2 ^ 32 then xor_val s (of_nat n) else None)"

definition contractor_ok :: "XORFastHashStorage \<Rightarrow> NodeID \<Rightarrow> bool" where
  "contractor_ok s n \<longleftrightarrow> n < 2 ^ 32 \<and> xor_ok s (of_nat n)"

lemma u32_of_nat_eq: "n < 2 ^ 32 \<Longrightarrow> m < 2 ^ 32 \<Longrightarrow> (of_nat n :: u32) = of_nat m \<longleftrightarrow> n = m"
  by (simp add: word_of_nat_eq_iff take_bit_nat_eq_self)

lemma xor_full:
  assumes "xor_inv s" "\<not> xor_ok s n"
  shows "st_get XORFastHashStorage_ops s n = None" "st_set XORFastHashStorage_ops s n k = None"
proof -
  have "length (positions s) = hash_table_size" using assms(1) by (simp add: xor_inv_def)
  moreover have "blocked s n p" for p using assms(2) by (auto simp: xor_ok_def)
  ultimately have "xor_probe s n p = None" for p by (rule xor_probe_diverges)
  then show "st_get XORFastHashStorage_ops s n = None" "st_set XORFastHashStorage_ops s n k = None"
    by (simp_all add: XORFastHashStorage_ops_def XORFastHashStorage_at_def)
qed

interpretation contractor_storage: index_storage ContractorStorage xor_inv contractor_val contractor_ok "\<lambda>_. True"
proof (unfold_locales, goal_cases)
  case (1 s n)
  then obtain k s' where "st_get XORFastHashStorage_ops s (of_nat n) = Some (k, s')" "xor_inv s'" "xor_ok s' (of_nat n)"
    "\<forall>v. xor_val s (of_nat n) = Some v \<longrightarrow> k = v" "\<forall>m v. xor_val s m = Some v \<longrightarrow> xor_val s' m = Some v"
    using xor_get_ok [of s "of_nat n"] by (auto simp: contractor_ok_def)
  then show ?case using 1 by (auto simp: ContractorStorage_def contractor_ok_def contractor_val_def)
next
  case (2 s n k)
  then obtain s' where s': "st_set XORFastHashStorage_ops s (of_nat n) k = Some s'" "xor_inv s'" "xor_val s' (of_nat n) = Some k"
    "\<And>m v. m \<noteq> of_nat n \<Longrightarrow> xor_val s m = Some v \<Longrightarrow> xor_val s' m = Some v"
    using xor_set_ok [of s "of_nat n" k] by (auto simp: contractor_ok_def)
  have "contractor_val s' m = Some v" if "m \<noteq> n" "contractor_val s m = Some v" for m v
    using that s'(4) [of "of_nat m" v] u32_of_nat_eq [of m n] 2 by (auto simp: contractor_val_def contractor_ok_def split: if_splits)
  then show ?case using 2 s' by (auto simp: ContractorStorage_def contractor_ok_def contractor_val_def)
next
  case (3 s n v)
  then show ?case using xor_val_ok by (auto simp: contractor_val_def contractor_ok_def split: if_splits)
next
  case (4 s)
  then show ?case using xor_clear_inv by (simp add: ContractorStorage_def xor_st_clear)
qed

interpretation hash_search: search_storage ContractorStorage xor_inv contractor_val contractor_ok "\<lambda>_. True" False
  "min N (2 ^ 32)" for N
proof (unfold_locales, goal_cases)
  case (1 s n)
  then show ?case using xor_full [of s "of_nat n"] by (simp add: contractor_ok_def ContractorStorage_def)
qed simp

interpretation array_search: search_storage ArrayStorage "\<lambda>positions. length positions = N" vec_at
  "\<lambda>positions node. node < length positions" "\<lambda>_. True" True N for N
  by unfold_locales (auto simp: ArrayStorage_def vec_simps vec_at_eq_Some_iff nth_list_update)

interpretation map_search: search_storage MapStorage "\<lambda>_. True" "\<lambda>s. s" "\<lambda>_ _. True" "\<lambda>_. True" True N for N
  by unfold_locales auto

interpretation unordered_map_search: search_storage UnorderedMapStorage "\<lambda>_. True" "\<lambda>s. s" "\<lambda>_ _. True" "\<lambda>_. True" True N for N
  by unfold_locales auto

end
