(* ===== verification/Contractor_Round.thy ===== *)
theory Contractor_Round
  imports Contractor_Search
begin

text \<open>
  One round of the contraction (the body of the loop of \<open>Run\<close> in \<^verbatim>\<open>Contractor/Contractor.h\<close>): the independent
  nodes are apart, their edges are bridged, the edges that lead to them are deleted and the new ones
  inserted.  Together these steps are a round in the sense of \<open>Contraction\<close>, so they preserve distances.
\<close>

section \<open>Changes of the graph\<close>

text \<open>The edges of a node as a set; forward and backward arcs depend on nothing else.\<close>

abbreviation edges_at :: "ContractorGraph \<Rightarrow> NodeID \<Rightarrow> ContractorEdgeData DG_Edge set" where
  "edges_at g u \<equiv> set (out g u)"

lemma adj_set: "set_mset (adj g u) = edges_at g u"
  by (simp add: adj_def)

lemma graph_okD:
  assumes "graph_ok g"
  shows "dg_inv g" "u < number_of_nodes g \<Longrightarrow> u < length (node_list g)"
    "u < number_of_nodes g \<Longrightarrow> x \<in> edges_at g u \<Longrightarrow> de_target x < number_of_nodes g"
    "u < number_of_nodes g \<Longrightarrow> x \<in> edges_at g u \<Longrightarrow> ce_forward (de_data x) \<or> ce_backward (de_data x)"
  using assms unfolding graph_ok_def by auto

lemma graph_ok_change:
  assumes "graph_ok g" "dg_inv g'" "number_of_nodes g' = number_of_nodes g" "length (node_list g') = length (node_list g)"
    and "\<And>u x. u < number_of_nodes g \<Longrightarrow> x \<in> edges_at g' u \<Longrightarrow> x \<in> edges_at g u \<or>
      de_target x < number_of_nodes g \<and> (ce_forward (de_data x) \<or> ce_backward (de_data x))"
  shows "graph_ok g'"
  using assms graph_okD(3,4) [OF assms(1)] unfolding graph_ok_def by (auto; blast)

subsection \<open>Deletion\<close>

lemma delete_edges_to_correct:
  assumes "graph_ok g" "set us \<subseteq> {..<number_of_nodes g}"
  shows "\<exists>g'. delete_edges_to x us g = Some g' \<and> graph_ok g' \<and> number_of_nodes g' = number_of_nodes g \<and>
    (\<forall>u < number_of_nodes g. edges_at g' u = (if u \<in> set us then {y \<in> edges_at g u. de_target y \<noteq> x} else edges_at g u))"
  using assms
proof (induction us arbitrary: g)
  case (Cons v us)
  have v: "v < number_of_nodes g" using Cons.prems(2) by simp
  obtain k g1 where g1: "dg_DeleteEdgesTo g v x = Some (k, g1)" "dg_inv g1"
    "adj g1 v = filter_mset (\<lambda>e. de_target e \<noteq> x) (adj g v)"
    "\<forall>m < length (node_list g). m \<noteq> v \<longrightarrow> out g1 m = out g m"
    "length (node_list g1) = length (node_list g)" "number_of_nodes g1 = number_of_nodes g"
    using DeleteEdgesTo_correct [OF graph_okD(1,2) [OF Cons.prems(1)] , OF v] by blast
  have e1: "edges_at g1 u = (if u = v then {y \<in> edges_at g u. de_target y \<noteq> x} else edges_at g u)"
    if "u < number_of_nodes g" for u
    using g1(4) graph_okD(2) [OF Cons.prems(1) that] arg_cong [OF g1(3), of set_mset] by (auto simp: adj_set)
  have ok: "graph_ok g1"
    by (rule graph_ok_change [OF Cons.prems(1) g1(2,6,5)]) (use e1 in \<open>auto split: if_splits\<close>)
  obtain g' where g': "delete_edges_to x us g1 = Some g'" "graph_ok g'" "number_of_nodes g' = number_of_nodes g1"
    "\<forall>u < number_of_nodes g1. edges_at g' u = (if u \<in> set us then {y \<in> edges_at g1 u. de_target y \<noteq> x} else edges_at g1 u)"
    using Cons.IH [OF ok] Cons.prems(2) g1(6) by auto
  have "edges_at g' u = (if u \<in> set (v # us) then {y \<in> edges_at g u. de_target y \<noteq> x} else edges_at g u)"
    if "u < number_of_nodes g" for u
    using g'(4) g1(6) e1 [OF that] that by auto
  then show ?case using g1(1,6) g'(1-3) by simp
qed simp

lemma set_sorted_unique [simp]: "set (sorted_unique us) = set us"
  by (simp add: sorted_unique_def)

lemma other_targets_correct:
  assumes "\<forall>e \<in> set es. e < length (edge_list g)"
  shows "\<exists>us. other_targets g x es = Some us \<and> set us = de_target ` (\<lambda>e. edge_list g ! e) ` set es - {x}"
  using assms
proof (induction es)
  case (Cons e es)
  then show ?case by (auto simp: edge_reads)
qed simp

lemma neighbours_correct:
  assumes "graph_ok g" "x < number_of_nodes g"
  obtains r us where "dg_GetAdjacentEdgeRange g x = Some r" "other_targets g x r = Some us"
    "set us = de_target ` edges_at g x - {x}" "set us \<subseteq> {..<number_of_nodes g}"
proof -
  obtain r where r: "dg_GetAdjacentEdgeRange g x = Some r" "\<forall>e \<in> set r. e < length (edge_list g)"
    "map (\<lambda>e. edge_list g ! e) r = out g x"
    using edge_range [OF assms] .
  obtain us where us: "other_targets g x r = Some us" "set us = de_target ` (\<lambda>e. edge_list g ! e) ` set r - {x}"
    using other_targets_correct [OF r(2)] by blast
  have "(\<lambda>e. edge_list g ! e) ` set r = edges_at g x" using r(3) by (metis set_map)
  then show thesis using that [OF r(1) us(1)] us(2) graph_okD(3) [OF assms] by auto
qed

lemma DeleteIncomingEdges_correct:
  assumes "graph_ok g" "x < number_of_nodes g"
  shows "\<exists>g'. DeleteIncomingEdges g x = Some g' \<and> graph_ok g' \<and> number_of_nodes g' = number_of_nodes g \<and>
    (\<forall>u < number_of_nodes g. edges_at g' u =
      (if u \<in> de_target ` edges_at g x - {x} then {y \<in> edges_at g u. de_target y \<noteq> x} else edges_at g u))"
proof -
  obtain r us where r: "dg_GetAdjacentEdgeRange g x = Some r" "other_targets g x r = Some us"
    "set us = de_target ` edges_at g x - {x}" "set us \<subseteq> {..<number_of_nodes g}"
    using neighbours_correct [OF assms] .
  show ?thesis using delete_edges_to_correct [OF assms(1), of "sorted_unique us" x] r
    by (simp add: DeleteIncomingEdges_def)
qed

text \<open>Deleting the edges to all contracted nodes, which are not adjacent to each other.\<close>

lemma delete_contracted_correct:
  assumes "graph_ok g" "set xs \<subseteq> {..<number_of_nodes g}"
    and "\<forall>x \<in> set xs. \<forall>y \<in> edges_at g x. de_target y \<notin> set xs"
  shows "\<exists>g'. delete_contracted xs g = Some g' \<and> graph_ok g' \<and> number_of_nodes g' = number_of_nodes g \<and>
    (\<forall>u < number_of_nodes g. edges_at g' u =
      {y \<in> edges_at g u. \<not> (de_target y \<in> set xs \<and> u \<in> de_target ` edges_at g (de_target y))})"
  using assms
proof (induction xs arbitrary: g)
  case (Cons x xs)
  have x: "x < number_of_nodes g" using Cons.prems(2) by simp
  have nx: "x \<notin> de_target ` edges_at g x" using Cons.prems(3) by auto
  obtain g1 where g1: "DeleteIncomingEdges g x = Some g1" "graph_ok g1" "number_of_nodes g1 = number_of_nodes g"
    "\<And>u. u < number_of_nodes g \<Longrightarrow> edges_at g1 u =
      (if u \<in> de_target ` edges_at g x then {y \<in> edges_at g u. de_target y \<noteq> x} else edges_at g u)"
    using DeleteIncomingEdges_correct [OF Cons.prems(1) x] nx by auto
  have same: "edges_at g1 z = edges_at g z" if "z \<in> set (x # xs)" for z
  proof -
    have "z \<notin> de_target ` edges_at g x" using Cons.prems(3) that by auto
    moreover have "z < number_of_nodes g" using Cons.prems(2) that by auto
    ultimately show ?thesis using g1(4) [of z] by simp
  qed
  have sub: "set xs \<subseteq> {..<number_of_nodes g1}" using Cons.prems(2) g1(3) by simp
  have "\<forall>z \<in> set xs. \<forall>y \<in> edges_at g1 z. de_target y \<notin> set xs"
    using Cons.prems(3) same by simp
  from Cons.IH [OF g1(2) sub this] obtain g' where g': "delete_contracted xs g1 = Some g'" "graph_ok g'" "number_of_nodes g' = number_of_nodes g1"
    "\<And>u. u < number_of_nodes g1 \<Longrightarrow> edges_at g' u =
      {y \<in> edges_at g1 u. \<not> (de_target y \<in> set xs \<and> u \<in> de_target ` edges_at g1 (de_target y))}"
    by blast
  have "edges_at g' u = {y \<in> edges_at g u. \<not> (de_target y \<in> set (x # xs) \<and> u \<in> de_target ` edges_at g (de_target y))}"
    if u: "u < number_of_nodes g" for u
  proof -
    have "edges_at g' u = {y \<in> edges_at g1 u. \<not> (de_target y \<in> set xs \<and> u \<in> de_target ` edges_at g (de_target y))}"
      using g'(4) [of u] u g1(3) same by (simp cong: conj_cong)
    moreover have "edges_at g1 u = {y \<in> edges_at g u. \<not> (de_target y = x \<and> u \<in> de_target ` edges_at g (de_target y))}"
      using g1(4) [OF u] by auto
    ultimately show ?thesis by auto
  qed
  then show ?case using g1(1,3) g'(1-3) by simp
qed simp

subsection \<open>Insertion\<close>

lemma edges_at_owns:
  "u < length (node_list g) \<Longrightarrow> edges_at g u = (\<lambda>i. edge_list g ! i) ` {i. owns (node_list g) u i}"
  by (auto simp: out_def set_seg owns_def)

lemma SetEdgeData_correct:
  assumes "dg_inv g" "owns (node_list g) u e"
  shows "\<exists>g'. dg_SetEdgeData g e (\<lambda>_. d) = Some g' \<and> dg_inv g' \<and> number_of_nodes g' = number_of_nodes g \<and>
    length (node_list g') = length (node_list g) \<and> (\<forall>m < length (node_list g). m \<noteq> u \<longrightarrow> edges_at g' m = edges_at g m) \<and>
    \<lparr> de_target = de_target (edge_list g ! e), de_data = d \<rparr> \<in> edges_at g' u \<and>
    edges_at g' u \<subseteq> insert \<lparr> de_target = de_target (edge_list g ! e), de_data = d \<rparr> (edges_at g u) \<and>
    edges_at g u \<subseteq> insert (edge_list g ! e) (edges_at g' u)"
proof -
  let ?new = "\<lparr> de_target = de_target (edge_list g ! e), de_data = d \<rparr>"
  let ?g = "g\<lparr> edge_list := (edge_list g)[e := ?new] \<rparr>"
  have e: "e < length (edge_list g)" and u: "u < length (node_list g)"
    using assms by (auto simp: dg_inv_def owns_def)
  have upd: "(edge_list g ! e)\<lparr> de_data := d \<rparr> = ?new" by (cases "edge_list g ! e") simp
  have run: "dg_SetEdgeData g e (\<lambda>_. d) = Some ?g"
    using e by (simp add: dg_SetEdgeData_def vec_simps upd)
  have "dg_inv ?g" using assms(1) e by (auto simp: dg_inv_def nth_list_update)
  moreover have "edges_at ?g m = edges_at g m" if "m < length (node_list g)" "m \<noteq> u" for m
  proof -
    have "\<not> owns (node_list g) m e" using assms that(2) unfolding dg_inv_def by blast
    then have "(edge_list g)[e := ?new] ! i = edge_list g ! i" if "owns (node_list g) m i" for i
      using that by (cases "i = e") auto
    then have "(\<lambda>i. (edge_list g)[e := ?new] ! i) ` {i. owns (node_list g) m i} = (\<lambda>i. edge_list g ! i) ` {i. owns (node_list g) m i}"
      by (intro image_cong) auto
    then show ?thesis using that(1) edges_at_owns [of m g] edges_at_owns [of m ?g] by simp
  qed
  moreover have "edges_at ?g u = (\<lambda>i. (edge_list g)[e := ?new] ! i) ` {i. owns (node_list g) u i}"
    using edges_at_owns [of u ?g] u by simp
  then have "?new \<in> edges_at ?g u" "edges_at ?g u \<subseteq> insert ?new (edges_at g u)" "edges_at g u \<subseteq> insert (edge_list g ! e) (edges_at ?g u)"
    using assms(2) e edges_at_owns [OF u] by (auto simp: nth_list_update image_iff)
  ultimately show ?thesis using run by auto
qed

text \<open>Inserting an edge: it is among the edges of its source afterwards, and the edge that it replaces, if
  any, has the same directions and is longer.\<close>

definition edge_in :: "ContractorEdge \<Rightarrow> ContractorEdgeData DG_Edge" where
  "edge_in e = \<lparr> de_target = ie_target e, de_data = ie_data e \<rparr>"

definition outdoes :: "ContractorEdgeData DG_Edge \<Rightarrow> ContractorEdgeData DG_Edge \<Rightarrow> bool" where
  "outdoes y z \<longleftrightarrow> de_target z = de_target y \<and> ce_forward (de_data z) = ce_forward (de_data y) \<and>
     ce_backward (de_data z) = ce_backward (de_data y) \<and> ce_distance (de_data y) \<le> ce_distance (de_data z)"

lemma graph_ok_insert:
  assumes "graph_ok g" "dg_inv g'" "number_of_nodes g' = number_of_nodes g" "length (node_list g') = length (node_list g)"
    and "\<forall>m < number_of_nodes g. m \<noteq> u \<longrightarrow> edges_at g' m = edges_at g m" "edges_at g' u \<subseteq> insert y (edges_at g u)"
    and "de_target y < number_of_nodes g" "ce_forward (de_data y) \<or> ce_backward (de_data y)"
  shows "graph_ok g'"
proof (rule graph_ok_change [OF assms(1-4)])
  fix m x assume "m < number_of_nodes g" "x \<in> edges_at g' m"
  then show "x \<in> edges_at g m \<or> de_target x < number_of_nodes g \<and> (ce_forward (de_data x) \<or> ce_backward (de_data x))"
    using assms(5-8) by (cases "m = u") auto
qed

lemma insert_edge_correct:
  assumes ok: "graph_ok g" and e: "ie_source e < number_of_nodes g" "ie_target e < number_of_nodes g"
    and N: "number_of_nodes g \<le> SPECIAL_NODEID" and dir: "ce_forward (ie_data e) \<or> ce_backward (ie_data e)"
  shows "\<exists>g'. insert_edge fresh g e = Some g' \<and> graph_ok g' \<and> number_of_nodes g' = number_of_nodes g \<and>
    (\<forall>m < number_of_nodes g. m \<noteq> ie_source e \<longrightarrow> edges_at g' m = edges_at g m) \<and>
    edge_in e \<in> edges_at g' (ie_source e) \<and> edges_at g' (ie_source e) \<subseteq> insert (edge_in e) (edges_at g (ie_source e)) \<and>
    (\<forall>z \<in> edges_at g (ie_source e). \<exists>y \<in> edges_at g' (ie_source e). outdoes y z)"
proof -
  let ?u = "ie_source e" and ?v = "ie_target e" and ?d = "ie_data e"
  note inv = graph_okD(1) [OF ok]
  have u: "?u < length (node_list g)" by (rule graph_okD(2) [OF ok e(1)])
  have refl: "outdoes z z" for z by (simp add: outdoes_def)
  obtain c where c: "dg_FindEdge g ?u ?v = Some c" "if \<exists>x \<in># adj g ?u. de_target x = ?v
     then owns (node_list g) ?u c \<and> de_target (edge_list g ! c) = ?v else dg_EndEdges g ?u = Some c"
    using FindEdge_correct [OF inv u] by blast
  obtain last where last: "dg_EndEdges g ?u = Some last" "last = firstEdge (node_list g ! ?u) + edges (node_list g ! ?u)"
    using u by (simp add: dg_EndEdges_def vec_simps)
  let ?cd = "de_data (edge_list g ! c)"
  let ?up = "c < last \<and> ce_shortcut ?cd \<and> ce_forward ?d = ce_forward ?cd \<and> ce_backward ?d = ce_backward ?cd \<and>
    ce_distance ?d < ce_distance ?cd"
  have found: "owns (node_list g) ?u c \<and> de_target (edge_list g ! c) = ?v" if "c < last"
    using c(2) last that by (auto split: if_splits)
  have cl: "c < length (edge_list g)" if "c < last" using found [OF that] inv by (auto simp: dg_inv_def)
  have run: "insert_edge fresh g e = (if ?up then dg_SetEdgeData g c (\<lambda>_. ?d)
      else map_option snd (dg_InsertEdge fresh g ?u ?v ?d))"
    using c(1) last(1) edge_reads(1) [OF cl] by (cases "c < last") (auto simp: insert_edge_def)
  show ?thesis
  proof (cases ?up)
    case True
    have f: "owns (node_list g) ?u c" "de_target (edge_list g ! c) = ?v" using found True by simp_all
    obtain g' where g': "dg_SetEdgeData g c (\<lambda>_. ?d) = Some g'" "dg_inv g'" "number_of_nodes g' = number_of_nodes g"
      "length (node_list g') = length (node_list g)" "\<forall>m < length (node_list g). m \<noteq> ?u \<longrightarrow> edges_at g' m = edges_at g m"
      "edge_in e \<in> edges_at g' ?u" "edges_at g' ?u \<subseteq> insert (edge_in e) (edges_at g ?u)"
      "edges_at g ?u \<subseteq> insert (edge_list g ! c) (edges_at g' ?u)"
      using SetEdgeData_correct [OF inv f(1), of ?d] unfolding f(2) edge_in_def by blast
    have same: "\<forall>m < number_of_nodes g. m \<noteq> ?u \<longrightarrow> edges_at g' m = edges_at g m"
      using g'(5) graph_okD(2) [OF ok] by blast
    have "graph_ok g'"
      by (rule graph_ok_insert [OF ok g'(2-4) same g'(7)]) (use e(2) dir in \<open>simp_all add: edge_in_def\<close>)
    moreover have "outdoes (edge_in e) (edge_list g ! c)" using True f(2) by (simp add: outdoes_def edge_in_def)
    then have "\<exists>y \<in> edges_at g' ?u. outdoes y z" if "z \<in> edges_at g ?u" for z
      using g'(6,8) refl that by (cases "z = edge_list g ! c") auto
    ultimately show ?thesis using run True g'(1,3,6,7) same by auto
  next
    case False
    have t: "?v \<noteq> SPECIAL_NODEID" using e(2) N by simp
    obtain i g' where g': "dg_InsertEdge fresh g ?u ?v ?d = Some (i, g')" "dg_inv g'"
      "adj g' ?u = add_mset (edge_in e) (adj g ?u)" "\<forall>m < length (node_list g). m \<noteq> ?u \<longrightarrow> out g' m = out g m"
      "length (node_list g') = length (node_list g)" "number_of_nodes g' = number_of_nodes g"
      using InsertEdge_correct [OF inv u t, of fresh ?d] unfolding edge_in_def by blast
    have eu: "edges_at g' ?u = insert (edge_in e) (edges_at g ?u)"
      using arg_cong [OF g'(3), of set_mset] by (simp add: adj_set)
    have same: "\<forall>m < number_of_nodes g. m \<noteq> ?u \<longrightarrow> edges_at g' m = edges_at g m"
      using g'(4) graph_okD(2) [OF ok] by simp
    have "graph_ok g'"
      by (rule graph_ok_insert [OF ok g'(2,6,5) same equalityD1 [OF eu]]) (use e(2) dir in \<open>simp_all add: edge_in_def\<close>)
    moreover have "\<exists>y \<in> edges_at g' ?u. outdoes y z" if "z \<in> edges_at g ?u" for z
      using eu refl [of z] that by auto
    ultimately show ?thesis using run False g'(1,6) eu same by auto
  qed
qed

subsection \<open>Arcs\<close>

lemma arcs_eq:
  assumes "u < number_of_nodes g"
  shows "fwd_arcs g u = {(de_target y, ce_distance (de_data y)) | y. y \<in> edges_at g u \<and> ce_forward (de_data y)}"
    "bwd_arcs g u = {(de_target y, ce_distance (de_data y)) | y. y \<in> edges_at g u \<and> ce_backward (de_data y)}"
  using assms by (simp_all add: fwd_arcs_def bwd_arcs_def)

lemma arcs_cong:
  assumes "number_of_nodes g' = number_of_nodes g" "u < number_of_nodes g \<Longrightarrow> edges_at g' u = edges_at g u"
  shows "fwd_arcs g' u = fwd_arcs g u" "bwd_arcs g' u = bwd_arcs g u"
  using assms by (simp_all add: fwd_arcs_def bwd_arcs_def)

lemma arcs_node: "(v, d) \<in> fwd_arcs g u \<Longrightarrow> u < number_of_nodes g" "(v, d) \<in> bwd_arcs g u \<Longrightarrow> u < number_of_nodes g"
  by (auto simp: fwd_arcs_def bwd_arcs_def split: if_splits)

text \<open>The arcs of \<open>F'\<close> are no worse than those of \<open>F\<close> and of \<open>K\<close>, and come from there.\<close>

definition extends :: "stored \<Rightarrow> arc_set \<Rightarrow> stored \<Rightarrow> bool" where
  "extends F K F' \<longleftrightarrow> (\<forall>u v d. (v, d) \<in> F u \<or> (u, v, d) \<in> K \<longrightarrow> dominates F' u v d) \<and>
     (\<forall>u v d. (v, d) \<in> F' u \<longrightarrow> (v, d) \<in> F u \<or> (u, v, d) \<in> K)"

lemma extends_trans:
  assumes "extends F K F'" "extends F' K' F''"
  shows "extends F (K \<union> K') F''"
proof -
  have "dominates F'' u v d" if "dominates F' u v d" for u v d
    using assms(2) that unfolding extends_def dominates_def by (meson order_trans)
  then show ?thesis using assms unfolding extends_def by (metis Un_iff)
qed

lemma extends_refl: "extends F {} F"
  unfolding extends_def dominates_def by auto

lemma insert_edge_extends:
  assumes "number_of_nodes g' = number_of_nodes g" and u: "ie_source e < number_of_nodes g"
    and "\<forall>m < number_of_nodes g. m \<noteq> ie_source e \<longrightarrow> edges_at g' m = edges_at g m"
    and new: "edge_in e \<in> edges_at g' (ie_source e)" "edges_at g' (ie_source e) \<subseteq> insert (edge_in e) (edges_at g (ie_source e))"
    and old: "\<forall>z \<in> edges_at g (ie_source e). \<exists>y \<in> edges_at g' (ie_source e). outdoes y z"
  shows "extends (fwd_arcs g) (fw [e]) (fwd_arcs g')" "extends (bwd_arcs g) (bw [e]) (bwd_arcs g')"
proof -
  let ?u = "ie_source e"
  have other: "fwd_arcs g' m = fwd_arcs g m" "bwd_arcs g' m = bwd_arcs g m" if "m \<noteq> ?u" for m
    using arcs_cong [of g' g m] assms(1,3) that by blast+
  note eqs = arcs_eq [OF u] arcs_eq [of ?u g', unfolded assms(1), OF u]
  have F: "dominates (fwd_arcs g') ?u v d" if vd: "(v, d) \<in> fwd_arcs g ?u" for v d
  proof -
    obtain z where z: "z \<in> edges_at g ?u" "ce_forward (de_data z)" "v = de_target z" "d = ce_distance (de_data z)"
      using vd unfolding eqs by blast
    obtain y where "y \<in> edges_at g' ?u" "outdoes y z" using old z(1) by blast
    then show ?thesis unfolding dominates_def eqs using z(2-4) by (auto simp: outdoes_def)
  qed
  have B: "dominates (bwd_arcs g') ?u v d" if vd: "(v, d) \<in> bwd_arcs g ?u" for v d
  proof -
    obtain z where z: "z \<in> edges_at g ?u" "ce_backward (de_data z)" "v = de_target z" "d = ce_distance (de_data z)"
      using vd unfolding eqs by blast
    obtain y where "y \<in> edges_at g' ?u" "outdoes y z" using old z(1) by blast
    then show ?thesis unfolding dominates_def eqs using z(2-4) by (auto simp: outdoes_def)
  qed
  have dom: "dominates H m v d" if "(v, d) \<in> H m" for H :: stored and m v d using that by (auto simp: dominates_def)
  have nF: "dominates (fwd_arcs g') m v d" if "(m, v, d) \<in> fw [e]" for m v d
    using that fwd_arcsI [OF _ new(1)] u assms(1) by (auto intro!: dom simp: arcs_of_edge_Cons edge_in_def split: if_splits)
  have nB: "dominates (bwd_arcs g') m v d" if "(m, v, d) \<in> bw [e]" for m v d
    using that bwd_arcsI [OF _ new(1)] u assms(1) by (auto intro!: dom simp: arcs_of_edge_Cons edge_in_def split: if_splits)
  have oF: "(v, d) \<in> fwd_arcs g ?u \<or> (?u, v, d) \<in> fw [e]" if "(v, d) \<in> fwd_arcs g' ?u" for v d
    using that new(2) unfolding eqs by (auto simp: arcs_of_edge_Cons edge_in_def)
  have oB: "(v, d) \<in> bwd_arcs g ?u \<or> (?u, v, d) \<in> bw [e]" if "(v, d) \<in> bwd_arcs g' ?u" for v d
    using that new(2) unfolding eqs by (auto simp: arcs_of_edge_Cons edge_in_def)
  show "extends (fwd_arcs g) (fw [e]) (fwd_arcs g')"
    unfolding extends_def using F nF oF other(1) dom by metis
  show "extends (bwd_arcs g) (bw [e]) (bwd_arcs g')"
    unfolding extends_def using B nB oB other(2) dom by metis
qed

lemma insert_edges_correct:
  assumes "graph_ok g" "number_of_nodes g \<le> SPECIAL_NODEID" "tagged X es"
    and "\<forall>e \<in> set es. ie_source e < number_of_nodes g \<and> ie_target e < number_of_nodes g"
  shows "\<exists>g'. insert_edges fresh es g = Some g' \<and> graph_ok g' \<and> number_of_nodes g' = number_of_nodes g \<and>
    (\<forall>u < number_of_nodes g. u \<notin> ie_source ` set es \<longrightarrow> edges_at g' u = edges_at g u) \<and>
    (\<forall>u < number_of_nodes g. edges_at g' u \<subseteq> edges_at g u \<union> edge_in ` set es) \<and>
    extends (fwd_arcs g) (fw es) (fwd_arcs g') \<and> extends (bwd_arcs g) (bw es) (bwd_arcs g')"
  using assms
proof (induction es arbitrary: g)
  case (Cons e es)
  have e: "ie_source e < number_of_nodes g" "ie_target e < number_of_nodes g" "ce_forward (ie_data e) \<or> ce_backward (ie_data e)"
    using Cons.prems(3,4) by (simp_all add: arcs_of_edge_Cons)
  obtain g1 where g1: "insert_edge fresh g e = Some g1" "graph_ok g1" "number_of_nodes g1 = number_of_nodes g"
    "\<forall>m < number_of_nodes g. m \<noteq> ie_source e \<longrightarrow> edges_at g1 m = edges_at g m"
    "edge_in e \<in> edges_at g1 (ie_source e)" "edges_at g1 (ie_source e) \<subseteq> insert (edge_in e) (edges_at g (ie_source e))"
    "\<forall>z \<in> edges_at g (ie_source e). \<exists>y \<in> edges_at g1 (ie_source e). outdoes y z"
    using insert_edge_correct [OF Cons.prems(1) e(1,2) Cons.prems(2) e(3), of fresh] by blast
  note ext = insert_edge_extends [OF g1(3) e(1) g1(4-7)]
  obtain g' where g': "insert_edges fresh es g1 = Some g'" "graph_ok g'" "number_of_nodes g' = number_of_nodes g1"
    "\<forall>u < number_of_nodes g1. u \<notin> ie_source ` set es \<longrightarrow> edges_at g' u = edges_at g1 u"
    "\<forall>u < number_of_nodes g1. edges_at g' u \<subseteq> edges_at g1 u \<union> edge_in ` set es"
    "extends (fwd_arcs g1) (fw es) (fwd_arcs g')" "extends (bwd_arcs g1) (bw es) (bwd_arcs g')"
    using Cons.IH [OF g1(2)] Cons.prems(2-4) g1(3) by (auto simp: arcs_of_edge_Cons)
  have "fw (e # es) = fw [e] \<union> fw es" "bw (e # es) = bw [e] \<union> bw es" by (simp_all add: arcs_of_edge_Cons)
  moreover have "edges_at g' u \<subseteq> edges_at g u \<union> edge_in ` set (e # es)" if "u < number_of_nodes g" for u
    using g'(5) g1(3,4,6) that by (cases "u = ie_source e") auto
  ultimately show ?case using g1(1,3,4) g'(1-4) extends_trans [OF ext(1) g'(6)] extends_trans [OF ext(2) g'(7)] by simp
qed (simp add: extends_refl)

section \<open>Independent nodes\<close>

text \<open>\<open>x\<close> has to wait for \<open>y\<close>.\<close>

definition yields :: "(rat \<Rightarrow> rat) \<Rightarrow> XORFastHash \<Rightarrow> rat list \<Rightarrow> NodeID \<Rightarrow> NodeID \<Rightarrow> bool" where
  "yields fl hash ps x y \<longleftrightarrow> ps ! x > ps ! y \<or> tied fl (ps ! x) (ps ! y) \<and> bias hash x y"

definition node_independent :: "(rat \<Rightarrow> rat) \<Rightarrow> XORFastHash \<Rightarrow> ContractorGraph \<Rightarrow> rat list \<Rightarrow> NodeID \<Rightarrow> bool" where
  "node_independent fl hash g ps x \<longleftrightarrow> (\<forall>y \<in> edges_at g x. de_target y \<noteq> x \<longrightarrow> \<not> yields fl hash ps x (de_target y) \<and>
     (\<forall>z \<in> edges_at g (de_target y). de_target z \<noteq> x \<longrightarrow> \<not> yields fl hash ps x (de_target z)))"

lemma precedes_targets_correct:
  assumes "\<forall>e \<in> set es. e < length (edge_list g) \<and> de_target (edge_list g ! e) < length ps" "\<forall>p \<in> set ps. 0 \<le> p"
  shows "precedes_targets fl hash g ps x (ps ! x) es =
    Some (\<forall>e \<in> set es. de_target (edge_list g ! e) \<noteq> x \<longrightarrow> \<not> yields fl hash ps x (de_target (edge_list g ! e)))"
  using assms(1)
proof (induction es)
  case (Cons e es)
  then show ?case using assms(2) by (auto simp: edge_reads vec_simps yields_def)
qed simp

lemma range_targets:
  assumes "graph_ok g" "u < number_of_nodes g" "number_of_nodes g \<le> length ps" "\<forall>p \<in> set ps. 0 \<le> p"
  obtains r where "dg_GetAdjacentEdgeRange g u = Some r" "precedes_targets fl hash g ps x (ps ! x) r =
    Some (\<forall>y \<in> edges_at g u. de_target y \<noteq> x \<longrightarrow> \<not> yields fl hash ps x (de_target y))"
proof -
  obtain r where r: "dg_GetAdjacentEdgeRange g u = Some r" "\<forall>e \<in> set r. e < length (edge_list g)"
    "map (\<lambda>e. edge_list g ! e) r = out g u"
    using edge_range [OF assms(1,2)] .
  have eq: "edges_at g u = (\<lambda>e. edge_list g ! e) ` set r" using r(3) by (metis set_map)
  have "de_target (edge_list g ! e) < length ps" if "e \<in> set r" for e
    using graph_okD(3) [OF assms(1,2), of "edge_list g ! e"] that eq assms(3) by auto
  then have "\<forall>e \<in> set r. e < length (edge_list g) \<and> de_target (edge_list g ! e) < length ps" using r(2) by blast
  from precedes_targets_correct [OF this assms(4)] show thesis using that [OF r(1)] eq by simp
qed

lemma precedes_two_hops_correct:
  assumes "graph_ok g" "set us \<subseteq> {..<number_of_nodes g}" "number_of_nodes g \<le> length ps" "\<forall>p \<in> set ps. 0 \<le> p"
  shows "precedes_two_hops fl hash g ps x (ps ! x) us =
    Some (\<forall>u \<in> set us. \<forall>z \<in> edges_at g u. de_target z \<noteq> x \<longrightarrow> \<not> yields fl hash ps x (de_target z))"
  using assms(2)
proof (induction us)
  case (Cons u us)
  have u: "u < number_of_nodes g" using Cons.prems by simp
  obtain r where "dg_GetAdjacentEdgeRange g u = Some r" "precedes_targets fl hash g ps x (ps ! x) r =
      Some (\<forall>y \<in> edges_at g u. de_target y \<noteq> x \<longrightarrow> \<not> yields fl hash ps x (de_target y))"
    using range_targets [OF assms(1) u assms(3,4)] .
  then show ?case using Cons by auto
qed simp

lemma IsNodeIndependent_correct:
  assumes "graph_ok g" "x < number_of_nodes g" "number_of_nodes g \<le> length ps" "\<forall>p \<in> set ps. 0 \<le> p"
  shows "IsNodeIndependent fl hash g ps x = Some (node_independent fl hash g ps x)"
proof -
  obtain r where r: "dg_GetAdjacentEdgeRange g x = Some r" "precedes_targets fl hash g ps x (ps ! x) r =
      Some (\<forall>y \<in> edges_at g x. de_target y \<noteq> x \<longrightarrow> \<not> yields fl hash ps x (de_target y))"
    using range_targets [OF assms] .
  obtain us where us: "other_targets g x r = Some us" "set us = de_target ` edges_at g x - {x}" "set us \<subseteq> {..<number_of_nodes g}"
    using neighbours_correct [OF assms(1,2)] r(1) by (metis option.inject)
  have two: "precedes_two_hops fl hash g ps x (ps ! x) (sorted_unique us) =
      Some (\<forall>u \<in> set us. \<forall>z \<in> edges_at g u. de_target z \<noteq> x \<longrightarrow> \<not> yields fl hash ps x (de_target z))"
    using precedes_two_hops_correct [OF assms(1) _ assms(3,4), of "sorted_unique us"] us(3) by simp
  show ?thesis
  proof (cases "\<forall>y \<in> edges_at g x. de_target y \<noteq> x \<longrightarrow> \<not> yields fl hash ps x (de_target y)")
    case True
    then show ?thesis using r us(1) two assms(2,3) unfolding us(2) by (auto simp: IsNodeIndependent_def node_independent_def vec_simps)
  next
    case False
    then have "\<not> node_independent fl hash g ps x" by (auto simp: node_independent_def)
    then show ?thesis using False r assms(2,3) by (simp add: IsNodeIndependent_def vec_simps)
  qed
qed

lemma mark_independent_correct:
  assumes "graph_ok g" "\<forall>r \<in> set rs. rn_id r < number_of_nodes g" "number_of_nodes g \<le> length ps" "\<forall>p \<in> set ps. 0 \<le> p"
  shows "mark_independent fl hash g ps rs =
    Some (map (\<lambda>r. r\<lparr> rn_is_independent := node_independent fl hash g ps (rn_id r) \<rparr>) rs)"
  using assms(2) by (induction rs) (simp_all add: IsNodeIndependent_correct [OF assms(1) _ assms(3,4)])

lemma nb_edges:
  assumes "graph_ok g" "x < number_of_nodes g"
  shows "nb (fwd_arcs g) (bwd_arcs g) x = de_target ` edges_at g x"
  using graph_okD(4) [OF assms] assms(2) unfolding nb_def arcs_eq [OF assms(2)] by force

lemma bias_total: "x \<noteq> y \<Longrightarrow> bias hash x y \<or> bias hash y x"
  by (auto simp: bias_def Let_def)

text \<open>Of two different nodes at least one has to wait for the other.\<close>

lemma yields_total:
  assumes "\<bar>fl 0\<bar> < 1 / 2 ^ 23" "x \<noteq> y"
  shows "yields fl hash ps x y \<or> yields fl hash ps y x"
  using bias_total [OF assms(2), of hash] assms(1) by (cases "ps ! x = ps ! y") (auto simp: yields_def tied_def)

lemma nb_sym:
  assumes "overlay_ok F B R" "x \<in> R" "y \<in> nb F B x"
  shows "x \<in> nb F B y"
proof -
  obtain d where d: "(y, d) \<in> F x \<or> (y, d) \<in> B x" using assms(3) by (force simp: nb_def)
  have m: "mirrored F B R" "mirrored B F R" using assms(1) by (simp_all add: overlay_ok_def)
  from d show ?thesis
  proof
    assume "(y, d) \<in> F x"
    then show ?thesis using mirroredD(4) [OF m(1) assms(2)] in_nb(2) by blast
  next
    assume "(y, d) \<in> B x"
    then show ?thesis using mirroredD(4) [OF m(2) assms(2)] in_nb(1) by blast
  qed
qed

lemma independent_apart:
  assumes ok: "graph_ok g" "overlay_ok (fwd_arcs g) (bwd_arcs g) R" and R: "R \<subseteq> {..<number_of_nodes g}"
    and I: "I \<subseteq> R" "\<forall>x \<in> I. node_independent fl hash g ps x" and fl: "\<bar>fl 0\<bar> < 1 / 2 ^ 23"
  shows "apart (fwd_arcs g) (bwd_arcs g) I"
  unfolding apart_def
proof (intro ballI impI)
  let ?nb = "nb (fwd_arcs g) (bwd_arcs g)"
  have nb: "?nb x = de_target ` edges_at g x" if "x \<in> R" for x using nb_edges [OF ok(1)] R that by blast
  have nbR: "y \<in> R" "y \<noteq> x" if "x \<in> R" "y \<in> ?nb x" for x y
    using that ok(2) by (auto simp: nb_def overlay_ok_def dest: mirroredD(1,2))
  have near: "\<not> yields fl hash ps x y" if "x \<in> I" "x \<noteq> y" "y \<in> ?nb x \<or> (\<exists>u \<in> ?nb x. y \<in> ?nb u)" for x y
  proof -
    have x: "x \<in> R" "node_independent fl hash g ps x" using I that(1) by auto
    from that(3) show ?thesis
    proof
      assume "y \<in> ?nb x"
      then show ?thesis using x that(2) by (auto simp: nb [OF x(1)] node_independent_def)
    next
      assume "\<exists>u \<in> ?nb x. y \<in> ?nb u"
      then obtain u where u: "u \<in> ?nb x" "y \<in> ?nb u" by blast
      then show ?thesis using x that(2) nbR [OF x(1) u(1)] u(1) by (auto simp: nb [OF x(1)] nb [of u] node_independent_def)
    qed
  qed
  fix x y assume xy: "x \<in> I" "y \<in> I" "x \<noteq> y"
  have R': "x \<in> R" "y \<in> R" using xy I(1) by auto
  have "\<not> (y \<in> ?nb x \<or> (\<exists>u \<in> ?nb x. y \<in> ?nb u)) \<or> \<not> (x \<in> ?nb y \<or> (\<exists>u \<in> ?nb y. x \<in> ?nb u))"
    using near [OF xy(1,3)] near [of y x] xy yields_total [of fl x y hash ps, OF fl xy(3)] by metis
  then show "y \<notin> ?nb x \<and> ?nb x \<inter> ?nb y = {}"
    using nb_sym [OF ok(2)] R' by blast
qed

section \<open>Contracting the independent nodes\<close>

definition bridging :: "ContractorGraph \<Rightarrow> NodeID set \<Rightarrow> NodeID set \<Rightarrow> ContractorEdge list \<Rightarrow> ContractorEdge list \<Rightarrow> bool" where
  "bridging g R X es es' \<longleftrightarrow> (\<forall>Y. tagged Y es \<longrightarrow> tagged (X \<union> Y) es') \<and>
     (\<exists>K. fw es' = fw es \<union> K \<and> bw es' = bw es \<union> mirror K \<and> K \<subseteq> (\<Union>x \<in> X. via g x) \<and>
       (\<forall>x \<in> X. \<forall>(a, d1) \<in> bwd_arcs g x. \<forall>(b, d2) \<in> fwd_arcs g x.
         (a, b, d1 + d2) \<in> K \<or> witnessed g R x a b (d1 + d2)))"

lemma bridging_none: "bridging g R {} es es"
  unfolding bridging_def by (intro conjI allI impI exI [of _ "{}"]; simp)

lemma bridging_one:
  assumes "shortcuts g R x (bwd_arcs g x) (fwd_arcs g x) es es'"
  shows "bridging g R {x} es es'"
  using assms unfolding shortcuts_def bridging_def by simp

lemma bridging_trans:
  assumes "bridging g R X es es'" "bridging g R Y es' es''"
  shows "bridging g R (X \<union> Y) es es''"
proof -
  have tag: "tagged (X \<union> Y \<union> Z) es''" if "tagged Z es" for Z
    using assms that unfolding bridging_def by (metis sup.left_commute sup_assoc)
  obtain K K' where K: "fw es' = fw es \<union> K" "bw es' = bw es \<union> mirror K" "K \<subseteq> (\<Union>x \<in> X. via g x)"
    "\<forall>x \<in> X. \<forall>(a, d1) \<in> bwd_arcs g x. \<forall>(b, d2) \<in> fwd_arcs g x. (a, b, d1 + d2) \<in> K \<or> witnessed g R x a b (d1 + d2)"
    "fw es'' = fw es' \<union> K'" "bw es'' = bw es' \<union> mirror K'" "K' \<subseteq> (\<Union>x \<in> Y. via g x)"
    "\<forall>x \<in> Y. \<forall>(a, d1) \<in> bwd_arcs g x. \<forall>(b, d2) \<in> fwd_arcs g x. (a, b, d1 + d2) \<in> K' \<or> witnessed g R x a b (d1 + d2)"
    using assms unfolding bridging_def by (elim conjE exE)
  show ?thesis unfolding bridging_def
  proof (intro conjI exI [of _ "K \<union> K'"])
    show "\<forall>x \<in> X \<union> Y. \<forall>(a, d1) \<in> bwd_arcs g x. \<forall>(b, d2) \<in> fwd_arcs g x.
        (a, b, d1 + d2) \<in> K \<union> K' \<or> witnessed g R x a b (d1 + d2)"
      using K(4,8) by fast
  qed (use tag K in auto)
qed

lemma arcs_of_mset:
  assumes "mset es' = mset es"
  shows "fw es' = fw es" "bw es' = bw es" "tagged X es' = tagged X es"
  using mset_eq_setD [OF assms] by (simp_all add: fw_def bw_def tagged_def)

text \<open>The edges of the threads, each list in any order.\<close>

lemma bridging_append:
  assumes "bridging g R X [] es" "bridging g R Y [] es'"
  shows "bridging g R (X \<union> Y) [] (es @ es')"
proof -
  have "bridging g R Y es (es @ es')" using assms(2) tagged_mono unfolding bridging_def by fastforce
  then show ?thesis by (rule bridging_trans [OF assms(1)])
qed

context search_storage
begin

lemma contract_nodes_returns:
  assumes g: "searchable g R" "number_of_nodes g = N" and xs: "set xs \<subseteq> R" and td: "hinv (td_heap td)"
  shows "returns tot (contract_nodes ops g xs td) (\<lambda>td'. hinv (td_heap td') \<and>
    bridging g R (set xs) (inserted_edges td) (inserted_edges td'))"
  using xs td
proof (induction xs arbitrary: td)
  case Nil
  then show ?case by (simp add: bridging_none)
next
  case (Cons x xs)
  have st: "stats_ok ContractionStats_new" by (simp add: stats_ok_def ContractionStats_new_def)
  have x: "x \<in> R" "set xs \<subseteq> R" using Cons.prems(1) by simp_all
  show ?case unfolding contract_nodes.simps
  proof (rule returns_bind2 [OF ContractNode_returns [OF g x(1) Cons.prems(2) st]], goal_cases)
    case (1 td1 st1)
    then have td1: "hinv (td_heap td1)" "bridging g R {x} (inserted_edges td) (inserted_edges td1)"
      by (auto simp: contracted_def intro: bridging_one)
    show ?case
      by (rule returns_mono [OF Cons.IH [OF x(2) td1(1)]]) (use bridging_trans [OF td1(2)] in auto)
  qed
qed

definition threads_ok :: "'s ContractorThreadData list \<Rightarrow> bool" where
  "threads_ok tds \<longleftrightarrow> (\<forall>td \<in> set tds. hinv (td_heap td) \<and> inserted_edges td = [])"

lemma getThreadData_ok:
  assumes "st_inv (storage N)" "threads_ok tds"
  shows "hinv (td_heap (getThreadData ops storage N tds))" "inserted_edges (getThreadData ops storage N tds) = []"
  using assms new_correct(1) [OF assms(1) clearable [OF assms(1)]]
  by (auto simp: getThreadData_def ContractorThreadData_new_def threads_ok_def split: list.splits)

lemma contract_threads_returns:
  assumes g: "searchable g R" "number_of_nodes g = N" and storage: "st_inv (storage N)"
    and xss: "set (concat xss) \<subseteq> R" and tds: "threads_ok tds"
  shows "returns tot (contract_threads ops storage N g xss tds) (\<lambda>tds'. (\<forall>td \<in> set tds'. hinv (td_heap td)) \<and>
    bridging g R (set (concat xss)) [] (concat (map inserted_edges tds')))"
  using xss tds
proof (induction xss arbitrary: tds)
  case Nil
  then have "concat (map inserted_edges tds) = []" by (simp add: threads_ok_def)
  then show ?case using Nil.prems(2) bridging_none [of g R "[]"] by (simp only: contract_threads.simps returns_Some) (simp add: threads_ok_def)
next
  case (Cons xs xss)
  note td = getThreadData_ok [of storage tds, OF storage Cons.prems(2)]
  have xs: "set xs \<subseteq> R" "set (concat xss) \<subseteq> R" using Cons.prems(1) by simp_all
  have tl: "threads_ok (tl tds)" using Cons.prems(2) by (cases tds) (auto simp: threads_ok_def)
  show ?case unfolding contract_threads.simps
  proof (rule returns_bind [OF contract_nodes_returns [OF g xs(1) td(1)]], goal_cases)
    case (1 td1)
    show ?case
    proof (rule returns_bind [OF Cons.IH [OF xs(2) tl]], goal_cases)
      case (1 tds1)
      then show ?case using \<open>hinv (td_heap td1) \<and> _\<close> td(2) bridging_append [of g R "set xs" "inserted_edges td1"] by simp
    qed
  qed
qed

end

section \<open>The round\<close>

lemma searchable_light:
  assumes "graph_ok g" "overlay_ok (fwd_arcs g) (bwd_arcs g) R" "R \<subseteq> {..<number_of_nodes g}" "lighter (2 ^ 29) g R"
  shows "searchable g R"
proof -
  have m: "mirrored (fwd_arcs g) (bwd_arcs g) R" "mirrored (bwd_arcs g) (fwd_arcs g) R"
    using assms(2) by (simp_all add: overlay_ok_def)
  have "v \<in> R \<and> v \<noteq> u \<and> 0 < d \<and> d < 2 ^ 29" if "u \<in> R" "(v, d) \<in> fwd_arcs g u" for u v d
    using mirroredD(1-3) [OF m(1) that] assms(4) that unfolding lighter_def by fast
  moreover have "v \<in> R \<and> v \<noteq> u \<and> 0 < d \<and> d < 2 ^ 29" if "u \<in> R" "(v, d) \<in> bwd_arcs g u" for u v d
    using mirroredD(1-3) [OF m(2) that] assms(4) that unfolding lighter_def by fast
  ultimately show ?thesis using assms(1,3) unfolding searchable_def by blast
qed

lemma via_arcs:
  assumes ov: "overlay_ok (fwd_arcs g) (bwd_arcs g) R" and I: "I \<subseteq> R" "apart (fwd_arcs g) (bwd_arcs g) I"
    and "(a, b, d) \<in> (\<Union>x \<in> I. via g x)"
  shows "a \<in> R - I" "b \<in> R - I" "a \<noteq> b" "bridge (fwd_arcs g) (bwd_arcs g) I a b d"
proof -
  obtain x d1 d2 where x: "x \<in> I" "(a, d1) \<in> bwd_arcs g x" "(b, d2) \<in> fwd_arcs g x" "a \<noteq> b" "d = d1 + d2"
    using assms(4) by (auto simp: via_def)
  show "a \<in> R - I" by (rule apart_neighbour [OF ov I(2,1) x(1)]) (use x(2) in \<open>rule in_nb(2)\<close>)
  show "b \<in> R - I" by (rule apart_neighbour [OF ov I(2,1) x(1)]) (use x(3) in \<open>rule in_nb(1)\<close>)
  show "a \<noteq> b" by (fact x(4))
  show "bridge (fwd_arcs g) (bwd_arcs g) I a b d" unfolding bridge_def using x by blast
qed

text \<open>Edges that carry the number of a contracted node.\<close>

definition new_edge :: "NodeID set \<Rightarrow> ContractorEdgeData DG_Edge \<Rightarrow> bool" where
  "new_edge X y \<longleftrightarrow> ce_id (de_data y) \<in> X \<and> \<not> ce_is_original_via_node_ID (de_data y)"

text \<open>Deletion and insertion make a round.\<close>

lemma round_assembly:
  assumes ov: "overlay_ok F B R" and I: "I \<subseteq> R" "apart F B I"
    and keep: "\<And>x. x \<notin> R - I \<Longrightarrow> F' x = F x \<and> B' x = B x"
    and del: "\<And>u. u \<in> R - I \<Longrightarrow> Fd u = {(v, d) \<in> F u. v \<notin> I}" "\<And>u. u \<in> R - I \<Longrightarrow> Bd u = {(v, d) \<in> B u. v \<notin> I}"
    and ext: "extends Fd K F'" "extends Bd (mirror K) B'"
    and K: "\<And>a b d. (a, b, d) \<in> K \<Longrightarrow> a \<in> R - I \<and> b \<in> R - I \<and> a \<noteq> b \<and> bridge F B I a b d"
    and br: "\<And>x a d1 b d2. x \<in> I \<Longrightarrow> (a, d1) \<in> B x \<Longrightarrow> (b, d2) \<in> F x \<Longrightarrow>
      (a, b, d1 + d2) \<in> K \<or> (\<exists>w \<le> d1 + d2. walk (avoiding (stored_arcs F R) x) a b w)"
  shows "round_ok F B R I F' B'"
proof -
  have m: "mirrored F B R" "mirrored B F R" using ov by (simp_all add: overlay_ok_def)
  have extD: "dominates F' u v d" if "(v, d) \<in> Fd u \<or> (u, v, d) \<in> K" for u v d using ext(1) that unfolding extends_def by blast
  have extDB: "dominates B' u v d" if "(v, d) \<in> Bd u \<or> (v, u, d) \<in> K" for u v d using ext(2) that unfolding extends_def by auto
  have fromF: "(v, d) \<in> Fd u \<or> (u, v, d) \<in> K" if "(v, d) \<in> F' u" for u v d using ext(1) that unfolding extends_def by blast
  have fromB: "(v, d) \<in> Bd u \<or> (v, u, d) \<in> K" if "(v, d) \<in> B' u" for u v d using ext(2) that unfolding extends_def by auto
  have F': "v \<notin> I \<and> v \<noteq> u \<and> ((v, d) \<in> F u \<or> bridge F B I u v d \<and> dominates B' v u d)"
    if u: "u \<in> R - I" and vd: "(v, d) \<in> F' u" for u v d
    using fromF [OF vd] del(1) [OF u] mirroredD(2) [OF m(1), of u v d] u K [of u v d] extDB [of u d v] by auto
  have B': "v \<notin> I \<and> v \<noteq> u \<and> ((v, d) \<in> B u \<or> bridge F B I v u d \<and> dominates F' v u d)"
    if u: "u \<in> R - I" and vd: "(v, d) \<in> B' u" for u v d
    using fromB [OF vd] del(2) [OF u] mirroredD(2) [OF m(2), of u v d] u K [of v u d] extD [of u d v] by auto
  show ?thesis unfolding round_ok_def
  proof (intro conjI ballI allI impI)
    show "dominates F' u v d" if "u \<in> R - I" "v \<notin> I" "(v, d) \<in> F u" for u v d
      using extD [of v d u] del(1) that by simp
    show "dominates B' u v d" if "u \<in> R - I" "v \<notin> I" "(v, d) \<in> B u" for u v d
      using extDB [of v d u] del(2) that by simp
    show "dominates F' a b (d1 + d2) \<or> (\<exists>w \<le> d1 + d2. walk (avoiding (stored_arcs F R) x) a b w)"
      if "x \<in> I" "(a, d1) \<in> B x" "(b, d2) \<in> F x" "a \<noteq> b" for x a d1 b d2
      using br [OF that(1-3)] extD [of b "d1 + d2" a] by blast
    show "I \<subseteq> R" "apart F B I" by (fact I)+
    show "F' x = F x" "B' x = B x" if "x \<notin> R - I" for x using keep [OF that] by simp_all
    show "v \<notin> I" "v \<noteq> u" "(v, d) \<in> F u \<or> bridge F B I u v d \<and> dominates B' v u d" if "u \<in> R - I" "(v, d) \<in> F' u" for u v d
      using F' [OF that] by simp_all
    show "v \<notin> I" "v \<noteq> u" "(v, d) \<in> B u \<or> bridge F B I v u d \<and> dominates F' v u d" if "u \<in> R - I" "(v, d) \<in> B' u" for u v d
      using B' [OF that] by simp_all
  qed
qed

lemma delete_round:
  assumes ok: "graph_ok g" and ov: "overlay_ok (fwd_arcs g) (bwd_arcs g) R"
    and R: "R \<subseteq> {..<number_of_nodes g}" "set xs \<subseteq> R" "apart (fwd_arcs g) (bwd_arcs g) (set xs)"
  shows "\<exists>g1. delete_contracted xs g = Some g1 \<and> graph_ok g1 \<and> number_of_nodes g1 = number_of_nodes g \<and>
    (\<forall>u < number_of_nodes g. edges_at g1 u =
      (if u \<in> R - set xs then {y \<in> edges_at g u. de_target y \<notin> set xs} else edges_at g u))"
proof -
  let ?I = "set xs" and ?F = "fwd_arcs g" and ?B = "bwd_arcs g"
  have nb: "nb ?F ?B u = de_target ` edges_at g u" if "u \<in> R" for u using nb_edges [OF ok] R(1) that by blast
  have far: "\<forall>x \<in> set xs. \<forall>y \<in> edges_at g x. de_target y \<notin> set xs"
  proof (intro ballI)
    fix x y assume "x \<in> set xs" "y \<in> edges_at g x"
    then have "de_target y \<in> nb ?F ?B x" using nb R(2) by auto
    then show "de_target y \<notin> set xs" using apart_neighbour [OF ov R(3,2) \<open>x \<in> set xs\<close>] by blast
  qed
  have "set xs \<subseteq> {..<number_of_nodes g}" using R by blast
  then obtain g1 where g1: "delete_contracted xs g = Some g1" "graph_ok g1" "number_of_nodes g1 = number_of_nodes g"
    "\<forall>u < number_of_nodes g. edges_at g1 u =
      {y \<in> edges_at g u. \<not> (de_target y \<in> ?I \<and> u \<in> de_target ` edges_at g (de_target y))}"
    using delete_contracted_correct [OF ok _ far] by blast
  have e1: "edges_at g1 u = (if u \<in> R - ?I then {y \<in> edges_at g u. de_target y \<notin> ?I} else edges_at g u)"
    if u: "u < number_of_nodes g" for u
  proof -
    have "u \<in> de_target ` edges_at g (de_target y) \<longleftrightarrow> u \<in> R - ?I" if y: "y \<in> edges_at g u" "de_target y \<in> ?I" for y
    proof
      assume "u \<in> de_target ` edges_at g (de_target y)"
      then have "u \<in> nb ?F ?B (de_target y)" using nb y(2) R(2) by auto
      then show "u \<in> R - ?I" by (rule apart_neighbour [OF ov R(3,2) y(2)])
    next
      assume "u \<in> R - ?I"
      then have "de_target y \<in> nb ?F ?B u" using nb y(1) by auto
      then have "u \<in> nb ?F ?B (de_target y)" using nb_sym [OF ov] \<open>u \<in> R - ?I\<close> by blast
      then show "u \<in> de_target ` edges_at g (de_target y)" using nb y(2) R(2) by auto
    qed
    then show ?thesis using g1(4) u by auto
  qed
  then show ?thesis using g1(1-3) by blast
qed

lemma bridging_ends:
  assumes "bridging g R (set xs) [] es" "overlay_ok (fwd_arcs g) (bwd_arcs g) R" "set xs \<subseteq> R" "apart (fwd_arcs g) (bwd_arcs g) (set xs)"
  obtains K where "fw es = K" "bw es = mirror K" "tagged (set xs) es"
    "\<And>a b d. (a, b, d) \<in> K \<Longrightarrow> a \<in> R - set xs \<and> b \<in> R - set xs \<and> a \<noteq> b \<and> bridge (fwd_arcs g) (bwd_arcs g) (set xs) a b d"
    "\<And>e. e \<in> set es \<Longrightarrow> ie_source e \<in> R - set xs \<and> ie_target e \<in> R - set xs"
    "\<And>x a d1 b d2. x \<in> set xs \<Longrightarrow> (a, d1) \<in> bwd_arcs g x \<Longrightarrow> (b, d2) \<in> fwd_arcs g x \<Longrightarrow>
      (a, b, d1 + d2) \<in> K \<or> (\<exists>w \<le> d1 + d2. walk (avoiding (stored_arcs (fwd_arcs g) R) x) a b w)"
proof -
  let ?I = "set xs" and ?F = "fwd_arcs g" and ?B = "bwd_arcs g"
  obtain K where K: "fw es = K" "bw es = mirror K" "K \<subseteq> (\<Union>x \<in> ?I. via g x)"
    "\<forall>x \<in> ?I. \<forall>(a, d1) \<in> ?B x. \<forall>(b, d2) \<in> ?F x. (a, b, d1 + d2) \<in> K \<or> witnessed g R x a b (d1 + d2)"
    using assms(1) unfolding bridging_def by auto
  have "\<forall>Y. tagged (?I \<union> Y) es" using assms(1) unfolding bridging_def by simp
  from spec [OF this, of "{}"] have dir: "tagged ?I es" by simp
  have Karc: "a \<in> R - ?I \<and> b \<in> R - ?I \<and> a \<noteq> b \<and> bridge ?F ?B ?I a b d" if "(a, b, d) \<in> K" for a b d
    using via_arcs [OF assms(2-4), of a b d] K(3) that by blast
  have ends: "ie_source e \<in> R - ?I \<and> ie_target e \<in> R - ?I" if "e \<in> set es" for e
  proof -
    have "ce_forward (ie_data e) \<or> ce_backward (ie_data e)" using dir that by (simp add: tagged_def)
    then have "(ie_source e, ie_target e, ce_distance (ie_data e)) \<in> fw es \<union> bw es" using that by (auto simp: fw_def bw_def)
    then show ?thesis using Karc unfolding K(1,2) by auto
  qed
  have br: "(a, b, d1 + d2) \<in> K \<or> (\<exists>w \<le> d1 + d2. walk (avoiding (stored_arcs ?F R) x) a b w)"
    if "x \<in> ?I" "(a, d1) \<in> ?B x" "(b, d2) \<in> ?F x" for x a d1 b d2
    using K(4) that unfolding witnessed_def witness_arcs_def by fast
  show thesis by (rule that [OF K(1,2) dir Karc ends br])
qed

lemma edit_graph:
  assumes ok: "graph_ok g" "number_of_nodes g \<le> SPECIAL_NODEID" and ov: "overlay_ok (fwd_arcs g) (bwd_arcs g) R"
    and R: "R \<subseteq> {..<number_of_nodes g}" "set xs \<subseteq> R" "apart (fwd_arcs g) (bwd_arcs g) (set xs)"
    and es: "bridging g R (set xs) [] es"
  shows "\<exists>g1 g'. delete_contracted xs g = Some g1 \<and> insert_edges fresh es g1 = Some g' \<and> graph_ok g' \<and>
    number_of_nodes g' = number_of_nodes g \<and> (\<forall>u < number_of_nodes g. u \<notin> R - set xs \<longrightarrow> edges_at g' u = edges_at g u) \<and>
    (\<forall>u < number_of_nodes g. \<forall>y \<in> edges_at g' u. y \<in> edges_at g u \<or> new_edge (set xs) y) \<and>
    round_ok (fwd_arcs g) (bwd_arcs g) R (set xs) (fwd_arcs g') (bwd_arcs g')"
proof -
  let ?I = "set xs" and ?F = "fwd_arcs g" and ?B = "bwd_arcs g"
  obtain g1 where g1: "delete_contracted xs g = Some g1" "graph_ok g1" "number_of_nodes g1 = number_of_nodes g"
    and e1: "\<And>u. u < number_of_nodes g \<Longrightarrow> edges_at g1 u =
      (if u \<in> R - ?I then {y \<in> edges_at g u. de_target y \<notin> ?I} else edges_at g u)"
    using delete_round [OF ok(1) ov R] by blast
  obtain K where K: "fw es = K" "bw es = mirror K" and dir: "tagged ?I es"
    and Karc: "\<And>a b d. (a, b, d) \<in> K \<Longrightarrow> a \<in> R - ?I \<and> b \<in> R - ?I \<and> a \<noteq> b \<and> bridge ?F ?B ?I a b d"
    and ends: "\<And>e. e \<in> set es \<Longrightarrow> ie_source e \<in> R - ?I \<and> ie_target e \<in> R - ?I"
    and br: "\<And>x a d1 b d2. x \<in> ?I \<Longrightarrow> (a, d1) \<in> ?B x \<Longrightarrow> (b, d2) \<in> ?F x \<Longrightarrow>
      (a, b, d1 + d2) \<in> K \<or> (\<exists>w \<le> d1 + d2. walk (avoiding (stored_arcs ?F R) x) a b w)"
    by (rule bridging_ends [OF es ov R(2,3)]) (rule that)
  have "\<forall>e \<in> set es. ie_source e < number_of_nodes g1 \<and> ie_target e < number_of_nodes g1"
    using ends R(1) g1(3) by auto
  then obtain g' where g': "insert_edges fresh es g1 = Some g'" "graph_ok g'" "number_of_nodes g' = number_of_nodes g1"
    "\<forall>u < number_of_nodes g1. u \<notin> ie_source ` set es \<longrightarrow> edges_at g' u = edges_at g1 u"
    "\<forall>u < number_of_nodes g1. edges_at g' u \<subseteq> edges_at g1 u \<union> edge_in ` set es"
    "extends (fwd_arcs g1) K (fwd_arcs g')" "extends (bwd_arcs g1) (mirror K) (bwd_arcs g')"
    using insert_edges_correct [OF g1(2) _ dir, of fresh] ok(2) g1(3) K(1,2) by auto
  have keep: "edges_at g' u = edges_at g u" if "u < number_of_nodes g" "u \<notin> R - ?I" for u
    using g'(4) g1(3) e1 [OF that(1)] ends that by auto
  have arcs1: "fwd_arcs g1 u = {(v, d) \<in> ?F u. v \<notin> ?I}" "bwd_arcs g1 u = {(v, d) \<in> ?B u. v \<notin> ?I}" if "u \<in> R - ?I" for u
    using that R(1) e1 [of u] g1(3) unfolding fwd_arcs_def bwd_arcs_def by auto
  have same: "fwd_arcs g' x = ?F x \<and> bwd_arcs g' x = ?B x" if "x \<notin> R - ?I" for x
    using arcs_cong [of g' g x] keep [of x] g'(3) g1(3) that by simp
  have "round_ok ?F ?B R ?I (fwd_arcs g') (bwd_arcs g')"
    by (rule round_assembly [where K = K and Fd = "fwd_arcs g1" and Bd = "bwd_arcs g1", OF ov R(2,3) same arcs1 g'(6,7) Karc br])
  moreover have "y \<in> edges_at g u \<or> new_edge ?I y" if "u < number_of_nodes g" "y \<in> edges_at g' u" for u y
    using g'(5) g1(3) e1 [OF that(1)] that dir by (fastforce simp: edge_in_def new_edge_def tagged_def split: if_splits)
  ultimately show ?thesis using g1(1,3) g'(1-3) keep by simp
qed

section \<open>Updating the priorities\<close>

definition nonneg :: "'a :: linordered_idom list \<Rightarrow> bool" where
  "nonneg xs \<longleftrightarrow> (\<forall>x \<in> set xs. 0 \<le> x)"

lemma nonneg_update: "nonneg xs \<Longrightarrow> 0 \<le> y \<Longrightarrow> nonneg (xs[i := y])"
  using set_update_subset_insert [of xs i y] unfolding nonneg_def by blast

lemma nonneg_nth: "nonneg xs \<Longrightarrow> i < length xs \<Longrightarrow> 0 \<le> xs ! i"
  unfolding nonneg_def by simp

lemma raise_depths_correct:
  assumes "set us \<subseteq> {..<length nd}" "nonneg nd"
  shows "\<exists>nd'. raise_depths d us nd = Some nd' \<and> length nd' = length nd \<and> nonneg nd'"
  using assms
proof (induction us arbitrary: nd)
  case (Cons u us)
  have "nonneg (nd[u := max (d + 1) (nd ! u)])"
    using Cons.prems by (intro nonneg_update) (auto simp: le_max_iff_disj dest: nonneg_nth)
  then show ?case using Cons.IH [of "nd[u := max (d + 1) (nd ! u)]"] Cons.prems by (simp add: vec_simps)
qed simp

context search_storage
begin

lemma update_priorities_returns:
  assumes g: "searchable g R" "number_of_nodes g = N" and us: "set us \<subseteq> R"
    and nd: "N \<le> length nd" "nonneg nd" and fl: "\<And>x. 0 \<le> x \<Longrightarrow> 0 \<le> fl x"
    and acc: "N \<le> length ps" "nonneg ps" "hinv (td_heap td)"
  shows "returns tot (update_priorities ops fl g nd us (ps, td)) (\<lambda>(ps', td'). length ps' = length ps \<and> nonneg ps' \<and>
    hinv (td_heap td') \<and> inserted_edges td' = inserted_edges td)"
  using us acc
proof (induction us arbitrary: ps td)
  case (Cons u us)
  have u: "u \<in> R" "set us \<subseteq> R" using Cons.prems(1) by simp_all
  have N: "u < N" using searchableD(2) [OF g(1) u(1)] g(2) by simp
  have at: "vec_at nd u = Some (nd ! u)" "0 \<le> nd ! u" using N nd nonneg_nth [OF nd(2)] by (simp_all add: vec_simps)
  show ?case unfolding update_priorities.simps at(1) bind.bind_lunit
  proof (rule returns_bind2 [OF EvaluateNodePriority_returns [OF g u(1) Cons.prems(4) fl at(2)]], goal_cases)
    case (2 p td1)
    then have "0 \<le> p" "hinv (td_heap td1)" "inserted_edges td1 = inserted_edges td" by simp_all
    then show ?case using Cons.IH [OF u(2), of "ps[u := p]" td1] Cons.prems(2,3) N nonneg_update [of ps p u]
      by (simp add: vec_simps)
  qed
qed simp

lemma UpdateNodeNeighbours_returns:
  assumes g: "searchable g R" "number_of_nodes g = N" and x: "x < N" "de_target ` edges_at g x - {x} \<subseteq> R"
    and nd: "N \<le> length nd" "nonneg nd" and fl: "\<And>x. 0 \<le> x \<Longrightarrow> 0 \<le> fl x"
    and acc: "N \<le> length ps" "nonneg ps" "hinv (td_heap td)"
  shows "returns tot (UpdateNodeNeighbours ops fl g (ps, nd, td) x) (\<lambda>(ps', nd', td'). length ps' = length ps \<and> nonneg ps' \<and>
    length nd' = length nd \<and> nonneg nd' \<and> hinv (td_heap td') \<and> inserted_edges td' = inserted_edges td)"
proof -
  have xn: "x < number_of_nodes g" using x(1) g(2) by simp
  obtain r us where r: "dg_GetAdjacentEdgeRange g x = Some r" "other_targets g x r = Some us"
    "set us = de_target ` edges_at g x - {x}" "set us \<subseteq> {..<number_of_nodes g}"
    using neighbours_correct [OF searchableD(1) [OF g(1)] xn] .
  have us: "set us \<subseteq> {..<length nd}" using r(4) g(2) nd(1) by auto
  obtain nd' where nd': "raise_depths (nd ! x) us nd = Some nd'" "length nd' = length nd" "nonneg nd'"
    using raise_depths_correct [OF us nd(2)] by blast
  have su: "set (sorted_unique us) \<subseteq> R" using r(3) x(2) by simp
  have N: "N \<le> length nd'" using nd(1) nd'(2) by simp
  have at: "vec_at nd x = Some (nd ! x)" using x(1) nd(1) by (simp add: vec_simps)
  show ?thesis unfolding UpdateNodeNeighbours_def Let_def prod.case r(1,2) at nd'(1) bind.bind_lunit
    by (rule returns_bind2 [OF update_priorities_returns [OF g su N nd'(3) fl acc]]) (use nd' in auto)
qed

lemma update_contracted_returns:
  assumes g: "searchable g R" "number_of_nodes g = N" and xs: "\<forall>x \<in> set xs. x < N \<and> de_target ` edges_at g x - {x} \<subseteq> R"
    and nd: "N \<le> length nd" "nonneg nd" and fl: "\<And>x. 0 \<le> x \<Longrightarrow> 0 \<le> fl x"
    and acc: "N \<le> length ps" "nonneg ps" "hinv (td_heap td)"
  shows "returns tot (update_contracted ops fl g xs (ps, nd, td)) (\<lambda>(ps', nd', td'). length ps' = length ps \<and> nonneg ps' \<and>
    length nd' = length nd \<and> nonneg nd' \<and> hinv (td_heap td') \<and> inserted_edges td' = inserted_edges td)"
  using xs nd acc
proof (induction xs arbitrary: ps nd td)
  case (Cons x xs)
  have x: "x < N" "de_target ` edges_at g x - {x} \<subseteq> R" using Cons.prems(1) by simp_all
  show ?case unfolding update_contracted.simps
  proof (rule returns_bind [OF UpdateNodeNeighbours_returns [OF g x Cons.prems(2,3) fl Cons.prems(4-6)]], goal_cases)
    case (2 acc)
    obtain ps1 nd1 td1 where acc: "acc = (ps1, nd1, td1)" by (cases acc)
    then have h: "length ps1 = length ps" "nonneg ps1" "length nd1 = length nd" "nonneg nd1" "hinv (td_heap td1)"
      "inserted_edges td1 = inserted_edges td" using 2 by simp_all
    show ?case unfolding acc
      by (rule returns_mono [OF Cons.IH]) (use Cons.prems h in auto)
  qed
qed simp

end

section \<open>The body of the loop\<close>

text \<open>What the contraction relies on of the parameters: sorting permutes, every node is given to one thread,
  rounding keeps the sign, and zero is rounded to less than epsilon.\<close>

definition env_ok :: "'s ContractorEnv \<Rightarrow> bool" where
  "env_ok env \<longleftrightarrow> sorts (env_sort env) \<and> (\<forall>xs. mset (concat (env_schedule env xs)) = mset xs) \<and>
     (\<forall>x \<ge> 0. 0 \<le> env_fl env x) \<and> \<bar>env_fl env 0\<bar> < 1 / 2 ^ 23"

text \<open>The invariant of the rounds, on the graph \<open>g\<close> with the remaining nodes \<open>R\<close>.\<close>

definition run_inv :: "('s ContractorHeap \<Rightarrow> bool) \<Rightarrow> ContractorGraph \<Rightarrow> NodeID set \<Rightarrow> 's ContractorRun \<Rightarrow> bool" where
  "run_inv heap_ok g R st \<longleftrightarrow> contractor_graph (run_contractor st) = Some g \<and> graph_ok g \<and>
     overlay_ok (fwd_arcs g) (bwd_arcs g) R \<and> R \<subseteq> {..<number_of_nodes g} \<and>
     distinct (map rn_id (remaining_nodes st)) \<and> R = set (map rn_id (remaining_nodes st)) \<and>
     number_of_nodes g \<le> length (node_priorities st) \<and> nonneg (node_priorities st) \<and>
     number_of_nodes g \<le> length (node_data st) \<and> nonneg (node_data st) \<and>
     (\<forall>td \<in> set (thread_data_list st). heap_ok (td_heap td) \<and> inserted_edges td = []) \<and>
     thread_number_of_nodes st = number_of_nodes g"

lemma run_invD:
  assumes "run_inv heap_ok g R st"
  shows "contractor_graph (run_contractor st) = Some g" "graph_ok g" "overlay_ok (fwd_arcs g) (bwd_arcs g) R"
    "R \<subseteq> {..<number_of_nodes g}" "distinct (map rn_id (remaining_nodes st))" "R = set (map rn_id (remaining_nodes st))"
    "number_of_nodes g \<le> length (node_priorities st)" "nonneg (node_priorities st)"
    "number_of_nodes g \<le> length (node_data st)" "nonneg (node_data st)"
    "\<forall>td \<in> set (thread_data_list st). heap_ok (td_heap td) \<and> inserted_edges td = []"
    "thread_number_of_nodes st = number_of_nodes g"
  using assms unfolding run_inv_def by - (elim conjE, assumption)+

definition independent_nodes :: "'s ContractorEnv \<Rightarrow> ContractorGraph \<Rightarrow> 's ContractorRun \<Rightarrow> NodeID list" where
  "independent_nodes env g st = filter (node_independent (env_fl env) (contractor_fast_hash (run_contractor st)) g (node_priorities st))
     (map rn_id (remaining_nodes st))"

lemma lighter_mono: "lighter W g R \<Longrightarrow> W \<le> W' \<Longrightarrow> lighter W' g R"
  unfolding lighter_def by (blast intro: order_less_le_trans)

lemma lighter_round:
  assumes "lighter W g R" "round_ok (fwd_arcs g) (bwd_arcs g) R I (fwd_arcs g') (bwd_arcs g')"
    "overlay_ok (fwd_arcs g) (bwd_arcs g) R"
  shows "lighter (2 * W) g' (R - I)"
proof -
  have W: "d < W" if "(v, d) \<in> fwd_arcs g u \<or> (v, d) \<in> bwd_arcs g u" "u \<in> R" for u v d
    using assms(1) that unfolding lighter_def by blast
  have pos: "0 < W" if "(v, d) \<in> fwd_arcs g u \<or> (v, d) \<in> bwd_arcs g u" "u \<in> R" for u v d
    using W [OF that] mirroredD(3) [of _ _ R u v d] assms(3) that unfolding overlay_ok_def by (meson order_less_trans)
  have br: "d < 2 * W" if b: "bridge (fwd_arcs g) (bwd_arcs g) I u v d" for u v d
  proof -
    obtain x d1 d2 where x: "x \<in> I" "(u, d1) \<in> bwd_arcs g x" "(v, d2) \<in> fwd_arcs g x" "d = d1 + d2"
      using b unfolding bridge_def by blast
    have "x \<in> R" using x(1) round_okD(1) [OF assms(2)] by blast
    then show ?thesis using W [of u d1 x] W [of v d2 x] x by simp
  qed
  have "d < 2 * W" if "u \<in> R - I" "(v, d) \<in> fwd_arcs g' u" for u v d
    using round_okD(7) [OF assms(2) that] br [of u v d] W [of v d u] pos [of v d u] that(1) by auto
  moreover have "d < 2 * W" if "u \<in> R - I" "(v, d) \<in> bwd_arcs g' u" for u v d
    using round_okD(8) [OF assms(2) that] br [of v u d] W [of v d u] pos [of v d u] that(1) by auto
  ultimately show ?thesis unfolding lighter_def by blast
qed

context search_storage
begin

lemma contract_round_returns:
  assumes env: "env_ok env" "env_ops env = ops" "st_inv (env_storage env N)" and N: "number_of_nodes g = N" "N \<le> SPECIAL_NODEID"
    and st: "run_inv hinv g R st" "lighter (2 ^ 28) g R"
  shows "returns tot (contract_round env st) (\<lambda>st'. \<exists>g'. run_inv hinv g' (R - set (independent_nodes env g st)) st' \<and>
    number_of_nodes g' = N \<and> (\<forall>u < N. \<forall>y \<in> edges_at g' u. y \<in> edges_at g u \<or> new_edge (set (independent_nodes env g st)) y) \<and>
    round_ok (fwd_arcs g) (bwd_arcs g) R (set (independent_nodes env g st)) (fwd_arcs g') (bwd_arcs g') \<and>
    run_contractor st' = (run_contractor st)\<lparr> contractor_graph := Some g' \<rparr> \<and>
    number_of_contracted_nodes st' = number_of_contracted_nodes st + length (independent_nodes env g st) \<and>
    flushed_contractor st' = flushed_contractor st)"
proof -
  note D = run_invD [OF st(1)]
  let ?xs = "independent_nodes env g st"
  let ?ind = "node_independent (env_fl env) (contractor_fast_hash (run_contractor st)) g (node_priorities st)"
  let ?marked = "map (\<lambda>r. r\<lparr> rn_is_independent := ?ind (rn_id r) \<rparr>) (remaining_nodes st)"
  have marked: "mark_independent (env_fl env) (contractor_fast_hash (run_contractor st)) g (node_priorities st) (remaining_nodes st) = Some ?marked"
    by (rule mark_independent_correct [OF D(2) _ D(7)]) (use D(4,6,8) in \<open>auto simp: nonneg_def\<close>)
  have xs: "map rn_id (filter rn_is_independent ?marked) = ?xs"
    by (simp add: independent_nodes_def filter_map o_def)
  have sub: "set ?xs \<subseteq> R" using D(6) by (auto simp: independent_nodes_def)
  have ap: "apart (fwd_arcs g) (bwd_arcs g) (set ?xs)"
    by (rule independent_apart [OF D(2,3,4) sub]) (use env(1) in \<open>auto simp: independent_nodes_def env_ok_def\<close>)
  have light: "lighter (2 ^ 29) g R" by (rule lighter_mono [OF st(2)]) simp
  have sg: "searchable g R" by (rule searchable_light [OF D(2,3,4) light])
  have sch: "set (concat (env_schedule env ?xs)) = set ?xs" using env(1) by (metis env_ok_def mset_eq_setD)
  have tds: "threads_ok (thread_data_list st)" using D(11) by (simp add: threads_ok_def)
  have fl: "\<And>x. 0 \<le> x \<Longrightarrow> 0 \<le> env_fl env x" using env(1) by (simp add: env_ok_def)
  show ?thesis unfolding contract_round_def Let_def D(1) bind.bind_lunit marked xs env(2) D(12) N(1)
  proof (rule returns_bind [OF contract_threads_returns [where storage = "env_storage env", OF sg N(1) env(3) _ tds]], goal_cases)
    case 1
    show ?case using sch sub by simp
  next
    case (2 tds')
    let ?tds = "map (\<lambda>td. td\<lparr> inserted_edges := env_sort env (inserted_edges td) \<rparr>) tds'"
    let ?tds2 = "map (\<lambda>td. td\<lparr> inserted_edges := [] \<rparr>) ?tds"
    have es: "bridging g R (set ?xs) [] (concat (map inserted_edges ?tds))"
    proof -
      have "mset (concat (map inserted_edges ?tds)) = mset (concat (map inserted_edges tds'))"
        using env(1) by (simp add: mset_concat env_ok_def sorts_def o_def)
      note same = arcs_of_mset [OF this]
      show ?thesis using 2 unfolding sch bridging_def same by blast
    qed
    obtain g1 g' where g': "delete_contracted ?xs g = Some g1" "insert_edges (env_fresh env) (concat (map inserted_edges ?tds)) g1 = Some g'"
      "graph_ok g'" "number_of_nodes g' = number_of_nodes g"
      "\<forall>u < number_of_nodes g. u \<notin> R - set ?xs \<longrightarrow> edges_at g' u = edges_at g u"
      "\<forall>u < number_of_nodes g. \<forall>y \<in> edges_at g' u. y \<in> edges_at g u \<or> new_edge (set ?xs) y"
      and rd: "round_ok (fwd_arcs g) (bwd_arcs g) R (set ?xs) (fwd_arcs g') (bwd_arcs g')"
      using edit_graph [OF D(2) _ D(3,4) sub ap es] N by blast
    have ov': "overlay_ok (fwd_arcs g') (bwd_arcs g') (R - set ?xs)" by (rule round_overlay_ok [OF D(3) rd])
    have R': "R - set ?xs \<subseteq> {..<number_of_nodes g'}" using D(4) g'(4) by auto
    have sg': "searchable g' (R - set ?xs)"
      by (rule searchable_light [OF g'(3) ov' R']) (use lighter_round [OF st(2) rd D(3)] in simp)
    have ends: "\<forall>x \<in> set ?xs. x < N \<and> de_target ` edges_at g' x - {x} \<subseteq> R - set ?xs"
    proof (intro ballI conjI)
      fix x assume x: "x \<in> set ?xs"
      then show xN: "x < N" using sub D(4) N(1) by auto
      have "edges_at g' x = edges_at g x" using g'(5) x xN N(1) by blast
      moreover have "de_target ` edges_at g x = nb (fwd_arcs g) (bwd_arcs g) x" using nb_edges [OF D(2)] xN N(1) by simp
      moreover have "nb (fwd_arcs g) (bwd_arcs g) x \<subseteq> R - set ?xs" using apart_neighbour [OF D(3) ap sub x] by blast
      ultimately show "de_target ` edges_at g' x - {x} \<subseteq> R - set ?xs" by blast
    qed
    have tds2: "threads_ok ?tds2" using 2 by (auto simp: threads_ok_def)
    note td = getThreadData_ok [of "env_storage env" ?tds2, OF env(3) tds2]
    have N': "number_of_nodes g' = N" using g'(4) N(1) by simp
    show ?case unfolding g'(1,2) bind.bind_lunit
    proof (rule returns_bind3 [OF update_contracted_returns [OF sg' N' ends _ D(10) fl _ D(8) td(1)]], goal_cases)
      case (4 ps nd td1)
      then have r: "length ps = length (node_priorities st)" "nonneg ps" "length nd = length (node_data st)" "nonneg nd"
        "hinv (td_heap td1)" "inserted_edges td1 = []" using td(2) by simp_all
      have rest: "map rn_id (filter (\<lambda>r. \<not> rn_is_independent r) ?marked) = filter (\<lambda>x. \<not> ?ind x) (map rn_id (remaining_nodes st))"
        by (simp add: filter_map o_def)
      have restR: "R - set ?xs = set (filter (\<lambda>x. \<not> ?ind x) (map rn_id (remaining_nodes st)))"
        using D(6) by (auto simp: independent_nodes_def)
      have "\<forall>td \<in> set (td1 # tl ?tds2). hinv (td_heap td) \<and> inserted_edges td = []"
        using r(5,6) tds2 by (cases ?tds2) (auto simp: threads_ok_def)
      then have "run_inv hinv g' (R - set ?xs) (st\<lparr> run_contractor := (run_contractor st)\<lparr> contractor_graph := Some g' \<rparr>,
          remaining_nodes := filter (\<lambda>r. \<not> rn_is_independent r) ?marked, node_priorities := ps, node_data := nd,
          number_of_contracted_nodes := number_of_contracted_nodes st + length ?xs, thread_data_list := td1 # tl ?tds2 \<rparr>)"
        unfolding run_inv_def using ov' R' g'(3) D(5,7,9,12) r N' N(1) by (simp add: rest restR distinct_filter del: map_map filter_map)
      then show ?case unfolding returns_Some using rd N' g'(6) N(1) by (intro exI [of _ g']) simp
    qed (use D(7,9) N(1) in auto)
  qed
qed

end

end
