(* ===== verification/Contractor_Run.thy ===== *)
theory Contractor_Run
  imports Contractor_Round
begin

text \<open>
  The contraction as a whole (\<^verbatim>\<open>Contractor/Contractor.h\<close>): the constructor keeps the lightest of parallel edges,
  the rounds and the renumbering in between keep every distance, and the edges that \<open>GetEdges\<close> returns form
  a hierarchy over the input: every walk has one that goes up from both ends and is no longer, and every
  edge stands for a walk of the input of the same length.
\<close>

section \<open>The constructor\<close>

lemma fold_min:
  "fold (\<lambda>x d. if P x then min (f x) d else d) xs (m :: int) \<le> m"
  "x \<in> set xs \<Longrightarrow> P x \<Longrightarrow> fold (\<lambda>x d. if P x then min (f x) d else d) xs m \<le> f x"
  "fold (\<lambda>x d. if P x then min (f x) d else d) xs m = m \<or>
     (\<exists>x \<in> set xs. P x \<and> fold (\<lambda>x d. if P x then min (f x) d else d) xs m = f x)"
proof (induction xs arbitrary: m)
  case (Cons y ys)
  { case 1 then show ?case using Cons(1) [of "if P y then min (f y) m else m"] by (auto split: if_splits) }
  { case 2 then show ?case
      using Cons(1) [of "if P y then min (f y) m else m"] Cons(2) [of "if P y then min (f y) m else m"] by (auto split: if_splits) }
  { case 3 then show ?case using Cons(3) [of "if P y then min (f y) m else m"] by (auto simp: min_def split: if_splits) }
qed simp_all

text \<open>What merging keeps: some arc that is no longer, for every arc that is no loop and shorter than \<open>INT_MAX\<close>.\<close>

definition thins :: "arc_set \<Rightarrow> arc_set \<Rightarrow> bool" where
  "thins A A' \<longleftrightarrow> A' \<subseteq> {(u, v, d) \<in> A. u \<noteq> v} \<and>
     (\<forall>u v d. (u, v, d) \<in> A \<longrightarrow> u \<noteq> v \<longrightarrow> d < INT_MAX \<longrightarrow> (\<exists>d' \<le> d. (u, v, d') \<in> A'))"

lemma lightest_thins:
  assumes par: "\<forall>x \<in> set run. ie_source x = s \<and> ie_target x = t" and "s \<noteq> t"
    and m: "m = fold (\<lambda>x d. if P x then min (ce_distance (ie_data x)) d else d) run INT_MAX"
  shows "thins {(ie_source x, ie_target x, ce_distance (ie_data x)) | x. x \<in> set run \<and> P x} (if m \<noteq> INT_MAX then {(s, t, m)} else {})"
proof -
  have "m = INT_MAX \<or> (\<exists>x \<in> set run. P x \<and> m = ce_distance (ie_data x))" unfolding m by (rule fold_min(3))
  then have "(s, t, m) \<in> {(ie_source x, ie_target x, ce_distance (ie_data x)) | x. x \<in> set run \<and> P x}" if "m \<noteq> INT_MAX"
    using par that by force
  moreover have "\<forall>x \<in> set run. P x \<longrightarrow> ce_distance (ie_data x) < INT_MAX \<longrightarrow> m \<le> ce_distance (ie_data x) \<and> m \<noteq> INT_MAX"
    using fold_min(2) [of _ run P "\<lambda>x. ce_distance (ie_data x)" INT_MAX] m by fastforce
  ultimately show ?thesis unfolding thins_def
    by (intro conjI subsetI allI impI) (use par assms(2) in \<open>auto split: if_splits\<close>)
qed

lemma merge_run_arcs:
  assumes "\<forall>x \<in> set run. parallel e x" "ie_source e \<noteq> ie_target e"
  shows "thins (fw run) (fw (merge_run e run))" "thins (bw run) (bw (merge_run e run))"
proof -
  have par: "\<forall>x \<in> set run. ie_source x = ie_source e \<and> ie_target x = ie_target e" using assms(1) by (simp add: parallel_def)
  note thin = lightest_thins [OF par assms(2) refl]
  have "fw (merge_run e run) = (if fold (\<lambda>x d. if ce_forward (ie_data x) then min (ce_distance (ie_data x)) d else d) run INT_MAX \<noteq> INT_MAX
      then {(ie_source e, ie_target e, fold (\<lambda>x d. if ce_forward (ie_data x) then min (ce_distance (ie_data x)) d else d) run INT_MAX)} else {})"
    by (auto simp: merge_run_def Let_def arcs_of_edge_Cons)
  then show "thins (fw run) (fw (merge_run e run))" unfolding fw_def [of run] using thin [of "\<lambda>x. ce_forward (ie_data x)"] by simp
  have "bw (merge_run e run) = (if fold (\<lambda>x d. if ce_backward (ie_data x) then min (ce_distance (ie_data x)) d else d) run INT_MAX \<noteq> INT_MAX
      then {(ie_source e, ie_target e, fold (\<lambda>x d. if ce_backward (ie_data x) then min (ce_distance (ie_data x)) d else d) run INT_MAX)} else {})"
    by (auto simp: merge_run_def Let_def arcs_of_edge_Cons)
  then show "thins (bw run) (bw (merge_run e run))" unfolding bw_def [of run] using thin [of "\<lambda>x. ce_backward (ie_data x)"] by simp
qed

text \<open>The edges that merging makes have a direction, and ends and number of an edge they come from.\<close>

definition comes_from :: "ContractorEdge list \<Rightarrow> ContractorEdge \<Rightarrow> bool" where
  "comes_from es x \<longleftrightarrow> (ce_forward (ie_data x) \<or> ce_backward (ie_data x)) \<and> \<not> ce_is_original_via_node_ID (ie_data x) \<and>
     (\<exists>e \<in> set es. ie_source x = ie_source e \<and> ie_target x = ie_target e \<and> ce_id (ie_data x) = ce_id (ie_data e))"

lemma merge_run_from: "e \<in> set es \<Longrightarrow> x \<in> set (merge_run e run) \<Longrightarrow> comes_from es x \<and> ie_source x = ie_source e"
  by (auto simp: merge_run_def Let_def ContractorEdgeData_new_def comes_from_def split: if_splits)

lemma thins_Un: "thins A A' \<Longrightarrow> thins B B' \<Longrightarrow> thins (A \<union> B) (A' \<union> B')"
  unfolding thins_def by blast

lemma merge_parallel_correct:
  "thins (fw es) (fw (merge_parallel es)) \<and> thins (bw es) (bw (merge_parallel es)) \<and>
   (\<forall>x \<in> set (merge_parallel es). comes_from es x) \<and>
   (sorted (map ie_source es) \<longrightarrow> sorted (map ie_source (merge_parallel es)))"
proof (induction es rule: merge_parallel.induct)
  case 1
  then show ?case by (simp add: thins_def)
next
  case (2 e es)
  show ?case
  proof (cases "ie_source e = ie_target e")
    case True
    have "thins A A' \<longrightarrow> thins ((if b then {(ie_source e, ie_target e, d)} else {}) \<union> A) A'" for A A' b d
      using True unfolding thins_def by auto
    then show ?thesis using True 2(1) by (auto simp: arcs_of_edge_Cons comes_from_def)
  next
    case False
    let ?run = "takeWhile (parallel e) (e # es)" and ?rest = "dropWhile (parallel e) (e # es)"
    have split: "?run @ ?rest = e # es" by (rule takeWhile_dropWhile_id)
    note IH = 2(2) [OF False]
    have par: "\<forall>x \<in> set ?run. parallel e x" by (auto dest: set_takeWhileD)
    have "thins (fw (?run @ ?rest)) (fw (merge_run e ?run @ merge_parallel ?rest))"
      "thins (bw (?run @ ?rest)) (bw (merge_run e ?run @ merge_parallel ?rest))"
      using thins_Un merge_run_arcs [OF par False] IH by simp_all
    moreover have "comes_from (e # es) x" if "x \<in> set (merge_run e ?run @ merge_parallel ?rest)" for x
    proof (cases "x \<in> set (merge_run e ?run)")
      case True
      then show ?thesis using merge_run_from [of e "e # es"] by simp
    next
      case False
      then have "comes_from ?rest x" using IH that by simp
      then show ?thesis using set_dropWhileD [of _ "parallel e" "e # es"] unfolding comes_from_def by blast
    qed
    moreover have "sorted (map ie_source (merge_run e ?run @ merge_parallel ?rest))" if "sorted (map ie_source (e # es))"
    proof -
      have srt: "sorted (map ie_source (?run @ ?rest))" using that split by metis
      have "ie_source e \<le> ie_source x" if "x \<in> set (merge_parallel ?rest)" for x
      proof -
        have "comes_from ?rest x" using IH that by simp
        then obtain y where "y \<in> set ?rest" "ie_source x = ie_source y" unfolding comes_from_def by blast
        then show ?thesis using \<open>sorted (map ie_source (e # es))\<close> set_dropWhileD [of y "parallel e" "e # es"] by auto
      qed
      moreover have "sorted (map ie_source (merge_run e ?run))"
        by (simp add: merge_run_def Let_def)
      ultimately show ?thesis using IH srt merge_run_from [of e "[e]" _ ?run] by (auto simp: sorted_append)
    qed
    moreover have "merge_parallel (e # es) = merge_run e ?run @ merge_parallel ?rest"
      by (subst merge_parallel.simps) (simp only: False if_False)
    ultimately show ?thesis unfolding split by (simp only:) blast
  qed
qed

text \<open>A dynamic graph made of a sorted list of edges.\<close>

lemma graph_of_edges:
  assumes "sorted (map ie_source es)" "n \<le> SPECIAL_NODEID"
    and es: "\<forall>e \<in> set es. ie_source e < n \<and> ie_target e < n \<and> (ce_forward (ie_data e) \<or> ce_backward (ie_data e))"
  shows "\<exists>g. DynamicGraph_of fresh n es = Some g \<and> graph_ok g \<and> number_of_nodes g = n \<and>
    (\<forall>u v d. (v, d) \<in> fwd_arcs g u \<longleftrightarrow> (u, v, d) \<in> fw es) \<and> (\<forall>u v d. (v, d) \<in> bwd_arcs g u \<longleftrightarrow> (u, v, d) \<in> bw es) \<and>
    (\<forall>u < n. edges_at g u = edge_in ` {e \<in> set es. ie_source e = u})"
proof -
  have "\<forall>ie \<in> set es. ie_source ie < n \<and> ie_target ie \<noteq> SPECIAL_NODEID" using assms(2) es by fastforce
  then obtain g where g: "DynamicGraph_of fresh n es = Some g" "dg_inv g" "number_of_nodes g = n" "length (node_list g) = n + 1"
    "\<forall>u < n. out g u = map edge_of (filter (\<lambda>ie. ie_source ie = u) es)"
    using DynamicGraph_of_correct [OF assms(1), of n fresh] by blast
  have at: "edges_at g u = edge_in ` {e \<in> set es. ie_source e = u}" if "u < n" for u
    using g(5) that by (auto simp: edge_of_def edge_in_def)
  have "graph_ok g" using g(2-4) at es by (auto simp: graph_ok_def edge_in_def)
  moreover have "(v, d) \<in> fwd_arcs g u \<longleftrightarrow> (u, v, d) \<in> fw es" for u v d
  proof (cases "u < n")
    case True
    have "(v, d) \<in> fwd_arcs g u \<longleftrightarrow> (\<exists>e \<in> {e \<in> set es. ie_source e = u}. v = de_target (edge_in e) \<and>
        d = ce_distance (de_data (edge_in e)) \<and> ce_forward (de_data (edge_in e)))"
      using True g(3) unfolding fwd_arcs_def at [OF True] by auto
    then show ?thesis by (auto simp: fw_def edge_in_def)
  qed (use g(3) es in \<open>auto simp: fwd_arcs_def fw_def\<close>)
  moreover have "(v, d) \<in> bwd_arcs g u \<longleftrightarrow> (u, v, d) \<in> bw es" for u v d
  proof (cases "u < n")
    case True
    have "(v, d) \<in> bwd_arcs g u \<longleftrightarrow> (\<exists>e \<in> {e \<in> set es. ie_source e = u}. v = de_target (edge_in e) \<and>
        d = ce_distance (de_data (edge_in e)) \<and> ce_backward (de_data (edge_in e)))"
      using True g(3) unfolding bwd_arcs_def at [OF True] by auto
    then show ?thesis by (auto simp: bw_def edge_in_def)
  qed (use g(3) es in \<open>auto simp: bwd_arcs_def bw_def\<close>)
  ultimately show ?thesis using g(1,3) at by (intro exI [of _ g] conjI allI impI) simp_all
qed

text \<open>The arcs of the input.\<close>

definition input_arcs :: "EdgeBasedEdge list \<Rightarrow> arc_set" where
  "input_arcs es = {(ebe_source e, ebe_target e, max (ebe_weight e) 1) | e. e \<in> set es \<and> ebe_forward e} \<union>
     {(ebe_target e, ebe_source e, max (ebe_weight e) 1) | e. e \<in> set es \<and> ebe_backward e}"

text \<open>Inputs: ends below the number of nodes, lengths that leave room for sums, identifiers that \<open>GetEdges\<close>
  accepts.\<close>

definition valid_id :: "nat \<Rightarrow> bool" where
  "valid_id i \<longleftrightarrow> i mod 2 ^ 31 \<noteq> 2 ^ 31 - 1"

definition valid_input :: "nat \<Rightarrow> EdgeBasedEdge list \<Rightarrow> bool" where
  "valid_input n es \<longleftrightarrow> (\<forall>e \<in> set es. ebe_source e < n \<and> ebe_target e < n \<and> ebe_weight e < 2 ^ 28 \<and> valid_id (ebe_edge_id e))"

lemma both_directions_arcs:
  assumes "valid_input n es"
  shows "fw (concat (map both_directions es)) = input_arcs es" "bw (concat (map both_directions es)) = mirror (input_arcs es)"
    "\<forall>e \<in> set (concat (map both_directions es)). ie_source e < n \<and> ie_target e < n \<and> valid_id (ce_id (ie_data e))"
proof -
  have w: "max (ebe_weight e) 1 mod 2 ^ 32 = max (ebe_weight e) 1" if "e \<in> set es" for e
    using assms that by (intro mod_pos_pos_trivial) (auto simp: valid_input_def)
  have cat: "fw (concat (map both_directions xs)) = (\<Union>e \<in> set xs. fw (both_directions e))"
    "bw (concat (map both_directions xs)) = (\<Union>e \<in> set xs. bw (both_directions e))" for xs
    by (induction xs) simp_all
  have one: "fw (both_directions e) = (if ebe_forward e then {(ebe_source e, ebe_target e, max (ebe_weight e) 1)} else {}) \<union>
      (if ebe_backward e then {(ebe_target e, ebe_source e, max (ebe_weight e) 1)} else {})"
    "bw (both_directions e) = mirror (fw (both_directions e))" if "e \<in> set es" for e
    using w [OF that] by (auto simp: both_directions_def ContractorEdge_of_def ContractorEdgeData_of_def arcs_of_edge_Cons mirror_def)
  have "input_arcs es = (\<Union>e \<in> set es. (if ebe_forward e then {(ebe_source e, ebe_target e, max (ebe_weight e) 1)} else {}) \<union>
      (if ebe_backward e then {(ebe_target e, ebe_source e, max (ebe_weight e) 1)} else {}))"
    by (auto simp: input_arcs_def split: if_splits)
  then show fw: "fw (concat (map both_directions es)) = input_arcs es" unfolding cat(1) using one(1) by simp
  have "mirror (\<Union>e \<in> X. f e) = (\<Union>e \<in> X. mirror (f e))" for X and f :: "EdgeBasedEdge \<Rightarrow> arc_set" by (auto simp: mirror_def)
  then show "bw (concat (map both_directions es)) = mirror (input_arcs es)"
    unfolding fw [symmetric] cat using one(2) by simp
  show "\<forall>e \<in> set (concat (map both_directions es)). ie_source e < n \<and> ie_target e < n \<and> valid_id (ce_id (ie_data e))"
    using assms by (auto simp: valid_input_def both_directions_def ContractorEdge_of_def ContractorEdgeData_of_def)
qed

text \<open>The constructor keeps, of every arc of the input that is no loop, one that is no longer, at both ends.\<close>

definition represents :: "arc_set \<Rightarrow> ContractorGraph \<Rightarrow> bool" where
  "represents A g \<longleftrightarrow> (\<forall>u v d. (v, d) \<in> fwd_arcs g u \<longrightarrow> (u, v, d) \<in> A \<and> u \<noteq> v) \<and>
     (\<forall>u v d. (v, d) \<in> bwd_arcs g u \<longrightarrow> (v, u, d) \<in> A \<and> u \<noteq> v) \<and>
     (\<forall>u v d. (u, v, d) \<in> A \<longrightarrow> u \<noteq> v \<longrightarrow> dominates (fwd_arcs g) u v d \<and> dominates (bwd_arcs g) v u d)"

lemma thinsD:
  assumes "thins A A'"
  shows "(u, v, d) \<in> A' \<Longrightarrow> (u, v, d) \<in> A \<and> u \<noteq> v"
    "(u, v, d) \<in> A \<Longrightarrow> u \<noteq> v \<Longrightarrow> d < INT_MAX \<Longrightarrow> \<exists>d' \<le> d. (u, v, d') \<in> A'"
  using assms unfolding thins_def by blast+

lemma Contractor_new_correct:
  assumes srt: "sorts psort" and n: "n \<le> SPECIAL_NODEID" and es: "valid_input n es"
  shows "\<exists>g. Contractor_new psort fresh hash n es = Some \<lparr> contractor_graph = Some g, external_edge_list = [],
      orig_node_id_to_new_id_map = [], contractor_fast_hash = hash \<rparr> \<and> graph_ok g \<and> number_of_nodes g = n \<and>
    represents (input_arcs es) g \<and> (\<forall>u < n. \<forall>y \<in> edges_at g u. valid_id (ce_id (de_data y)))"
proof -
  let ?in = "concat (map both_directions es)"
  let ?m = "merge_parallel (psort ?in)"
  have perm: "mset (psort ?in) = mset ?in" using srt by (simp add: sorts_def)
  note in_arcs = both_directions_arcs [OF es]
  have arcs: "fw (psort ?in) = input_arcs es" "bw (psort ?in) = mirror (input_arcs es)"
    using arcs_of_mset(1,2) [OF perm] in_arcs(1,2) by simp_all
  have m: "thins (input_arcs es) (fw ?m)" "thins (mirror (input_arcs es)) (bw ?m)" "\<forall>x \<in> set ?m. comes_from (psort ?in) x"
    "sorted (map ie_source ?m)"
    using merge_parallel_correct [of "psort ?in"] sorts_source [OF srt, of ?in] unfolding arcs by blast+
  have ok: "ie_source e < n \<and> ie_target e < n \<and> (ce_forward (ie_data e) \<or> ce_backward (ie_data e)) \<and> valid_id (ce_id (ie_data e))"
    if e: "e \<in> set ?m" for e
  proof -
    have dir: "ce_forward (ie_data e) \<or> ce_backward (ie_data e)" using m(3) e by (simp add: comes_from_def)
    obtain x where x: "x \<in> set (psort ?in)" "ie_source e = ie_source x" "ie_target e = ie_target x" "ce_id (ie_data e) = ce_id (ie_data x)"
      using bspec [OF m(3) e] unfolding comes_from_def by blast
    have "x \<in> set ?in" using x(1) mset_eq_setD [OF perm] by simp
    from bspec [OF in_arcs(3) this] dir show ?thesis unfolding x(2-4) by blast
  qed
  then have "\<forall>e \<in> set ?m. ie_source e < n \<and> ie_target e < n \<and> (ce_forward (ie_data e) \<or> ce_backward (ie_data e))" by simp
  from graph_of_edges [OF m(4) n this, of fresh]
  obtain g where g: "DynamicGraph_of fresh n ?m = Some g" "graph_ok g" "number_of_nodes g = n"
    "\<forall>u v d. (v, d) \<in> fwd_arcs g u \<longleftrightarrow> (u, v, d) \<in> fw ?m" "\<forall>u v d. (v, d) \<in> bwd_arcs g u \<longleftrightarrow> (u, v, d) \<in> bw ?m"
    "\<forall>u < n. edges_at g u = edge_in ` {e \<in> set ?m. ie_source e = u}"
    by (elim exE conjE)
  have arcs_in: "(u, v, d) \<in> fw ?m \<Longrightarrow> (u, v, d) \<in> input_arcs es \<and> u \<noteq> v" "(u, v, d) \<in> bw ?m \<Longrightarrow> (v, u, d) \<in> input_arcs es \<and> u \<noteq> v"
    for u v d using thinsD(1) [OF m(1), of u v d] thinsD(1) [OF m(2), of u v d] by simp_all
  have light: "d < INT_MAX" if "(u, v, d) \<in> input_arcs es" for u v d
    using that es by (auto simp: input_arcs_def valid_input_def)
  have arcs_out: "\<exists>d' \<le> d. (u, v, d') \<in> fw ?m" "\<exists>d' \<le> d. (v, u, d') \<in> bw ?m" if "(u, v, d) \<in> input_arcs es" "u \<noteq> v" for u v d
    using thinsD(2) [OF m(1) that light [OF that(1)]] thinsD(2) [OF m(2), of v u d] that light [OF that(1)] by simp_all
  have "represents (input_arcs es) g" unfolding represents_def dominates_def using g(4,5) arcs_in arcs_out by simp
  moreover have "\<forall>u < n. \<forall>y \<in> edges_at g u. valid_id (ce_id (de_data y))" using g(6) ok by (auto simp: edge_in_def)
  ultimately show ?thesis using g(1-3) unfolding Contractor_new_def Let_def by simp
qed

text \<open>Consequences: every arc is stored at both ends, and lengths are bounded.\<close>

lemma input_arc:
  assumes "valid_input n es" "(u, v, d) \<in> input_arcs es"
  shows "u < n" "v < n" "0 < d" "d < 2 ^ 28"
  using assms by (auto simp: valid_input_def input_arcs_def)

lemma represents_overlay:
  assumes "represents (input_arcs es) g" "valid_input n es"
  shows "overlay_ok (fwd_arcs g) (bwd_arcs g) {..<n}"
proof -
  have F: "(u, v, d) \<in> input_arcs es \<and> u \<noteq> v" if "(v, d) \<in> fwd_arcs g u" for u v d
    using assms(1) that unfolding represents_def by blast
  have B: "(v, u, d) \<in> input_arcs es \<and> u \<noteq> v" if "(v, d) \<in> bwd_arcs g u" for u v d
    using assms(1) that unfolding represents_def by blast
  have dom: "dominates (fwd_arcs g) u v d \<and> dominates (bwd_arcs g) v u d" if "(u, v, d) \<in> input_arcs es" "u \<noteq> v" for u v d
    using assms(1) that unfolding represents_def by blast
  have "v \<in> {..<n} \<and> v \<noteq> u \<and> 0 < d \<and> dominates (bwd_arcs g) v u d" if "(v, d) \<in> fwd_arcs g u" for u v d
    using F [OF that] dom [of u v d] input_arc [OF assms(2), of u v d] by simp
  moreover have "v \<in> {..<n} \<and> v \<noteq> u \<and> 0 < d \<and> dominates (fwd_arcs g) v u d" if "(v, d) \<in> bwd_arcs g u" for u v d
    using B [OF that] dom [of v u d] input_arc [OF assms(2), of v u d] by simp
  ultimately show ?thesis unfolding overlay_ok_def mirrored_def dominates_def by blast
qed

lemma represents_light: "represents (input_arcs es) g \<Longrightarrow> valid_input n es \<Longrightarrow> lighter (2 ^ 28) g R"
proof -
  assume a: "represents (input_arcs es) g" "valid_input n es"
  have "d < 2 ^ 28" if "(v, d) \<in> fwd_arcs g u \<union> bwd_arcs g u" for u v d
    using a(1) that input_arc(4) [OF a(2)] unfolding represents_def by blast
  then show ?thesis unfolding lighter_def by blast
qed

section \<open>The contraction starts\<close>

context search_storage
begin

lemma Run_init_returns:
  assumes c: "contractor_graph c = Some g" and g: "graph_ok g" "number_of_nodes g = N" "N \<le> 2 ^ 31"
    and ov: "overlay_ok (fwd_arcs g) (bwd_arcs g) {..<N}" "lighter (2 ^ 28) g {..<N}"
    and env: "env_ok env" "env_ops env = ops" "st_inv (env_storage env N)"
  shows "returns tot (Run_init env c) (\<lambda>st. run_inv hinv g {..<N} st \<and> run_contractor st = c \<and>
    number_of_contracted_nodes st = 0 \<and> \<not> flushed_contractor st)"
proof -
  have fl: "\<And>x. 0 \<le> x \<Longrightarrow> 0 \<le> env_fl env x" using env(1) by (simp add: env_ok_def)
  have light: "lighter (2 ^ 29) g {..<N}" by (rule lighter_mono [OF ov(2)]) simp
  have sg: "searchable g {..<N}" by (rule searchable_light [OF g(1) ov(1) _ light]) (simp add: g(2))
  have td: "hinv (td_heap (getThreadData ops (env_storage env) N []))" "inserted_edges (getThreadData ops (env_storage env) N []) = []"
    by (rule getThreadData_ok, rule env(3), simp add: threads_ok_def)+
  have ids: "map (rn_id \<circ> (\<lambda>x. \<lparr> rn_id = x mod 2 ^ 31, rn_is_independent = False \<rparr>)) (irange 0 N) = [0..<N]"
    using g(3) by (auto simp: irange_def intro: map_idI)
  have nn: "nonneg (replicate N 0)" "nonneg (replicate N 0 :: rat list)" by (auto simp: nonneg_def)
  show ?thesis unfolding Run_init_def Let_def c bind.bind_lunit dg_GetNumberOfNodes_def g(2) env(2)
    by (rule returns_bind2 [OF update_priorities_returns [OF sg g(2) _ _ nn(1) fl _ nn(2) td(1)]])
      (use ids c g ov(1) td(2) in \<open>auto simp: run_inv_def irange_def nn image_image\<close>)
qed

end

section \<open>Removing the contracted nodes from the graph\<close>

lemma renumber_nodes_correct:
  assumes "distinct (map rn_id rs)" "\<forall>r \<in> set rs. rn_id r < length to_new \<and> rn_id r < length ps" "k + length rs \<le> 2 ^ 31"
  shows "\<exists>to_new' rs'. renumber_nodes k rs ps to_new = Some (map rn_id rs, to_new', map (\<lambda>r. ps ! rn_id r) rs, rs') \<and>
    length to_new' = length to_new \<and> map rn_id rs' = [k..<k + length rs] \<and>
    (\<forall>i < length rs. to_new' ! rn_id (rs ! i) = k + i) \<and> (\<forall>x. x \<notin> rn_id ` set rs \<longrightarrow> to_new' ! x = to_new ! x)"
  using assms
proof (induction rs arbitrary: k to_new)
  case (Cons r rs)
  let ?t = "to_new[rn_id r := k]"
  have "\<forall>r \<in> set rs. rn_id r < length ?t \<and> rn_id r < length ps" "Suc k + length rs \<le> 2 ^ 31" "distinct (map rn_id rs)"
    using Cons.prems by auto
  then obtain t rs' where t: "renumber_nodes (Suc k) rs ps ?t = Some (map rn_id rs, t, map (\<lambda>r. ps ! rn_id r) rs, rs')"
    "length t = length ?t" "map rn_id rs' = [Suc k..<Suc k + length rs]" "\<forall>i < length rs. t ! rn_id (rs ! i) = Suc k + i"
    "\<forall>x. x \<notin> rn_id ` set rs \<longrightarrow> t ! x = ?t ! x"
    using Cons.IH [of ?t "Suc k"] by blast
  have r: "rn_id r < length to_new" "rn_id r < length ps" "rn_id r \<notin> rn_id ` set rs" using Cons.prems by auto
  have "t ! rn_id r = k" using t(5) r by simp
  then have "\<forall>i < length (r # rs). t ! rn_id ((r # rs) ! i) = k + i" using t(4) by (auto simp: less_Suc_eq_0_disj)
  moreover have "renumber_nodes k (r # rs) ps to_new =
      Some (map rn_id (r # rs), t, map (\<lambda>r. ps ! rn_id r) (r # rs), r\<lparr> rn_id := k mod 2 ^ 31 \<rparr> # rs')"
    using r t(1) by (simp add: vec_simps)
  moreover have "map rn_id (r\<lparr> rn_id := k mod 2 ^ 31 \<rparr> # rs') = [k..<k + length (r # rs)]"
    using t(3) Cons.prems(3) by (simp add: upt_conv_Cons [of k] del: upt_Suc)
  moreover have "t ! x = to_new ! x" if "x \<notin> rn_id ` set (r # rs)" for x using t(5) that by simp
  ultimately show ?case using t(2) by (intro exI [of _ t] exI [of _ "r\<lparr> rn_id := k mod 2 ^ 31 \<rparr> # rs'"]) simp
qed simp

text \<open>The edges of contracted nodes leave the graph, the others are renumbered.\<close>

definition external_edge :: "NodeID \<Rightarrow> ContractorEdgeData DG_Edge \<Rightarrow> QueryEdge" where
  "external_edge u x = \<lparr> qe_source = u, qe_target = de_target x, qe_data = EdgeData_from (de_data x) \<rparr>"

definition moved_edge :: "NodeID list \<Rightarrow> NodeID \<Rightarrow> ContractorEdgeData DG_Edge \<Rightarrow> ContractorEdge" where
  "moved_edge to_new u x = \<lparr> ie_source = to_new ! u, ie_target = to_new ! de_target x,
     ie_data = (de_data x)\<lparr> ce_is_original_via_node_ID := True \<rparr> \<rparr>"

lemma flush_edges_correct:
  assumes "\<forall>e \<in> set es. e < length (edge_list g)" "u < length to_new"
    and "to_new ! u \<noteq> SPECIAL_NODEID \<longrightarrow> (\<forall>e \<in> set es. de_target (edge_list g ! e) < length to_new \<and>
      to_new ! de_target (edge_list g ! e) \<noteq> SPECIAL_NODEID)"
  shows "flush_edges g to_new u es (ext, new) =
    (if to_new ! u = SPECIAL_NODEID then Some (ext @ map (\<lambda>e. external_edge u (edge_list g ! e)) es, new)
     else Some (ext, new @ map (\<lambda>e. moved_edge to_new u (edge_list g ! e)) es))"
  using assms(1,3)
proof (induction es arbitrary: ext new)
  case (Cons e es)
  then show ?case using assms(2) by (auto simp: edge_reads vec_simps external_edge_def moved_edge_def)
qed simp

lemma flush_nodes_correct:
  assumes g: "graph_ok g" and us: "\<forall>u \<in> set us. u < number_of_nodes g \<and> u < length to_new \<and> (to_new ! u \<noteq> SPECIAL_NODEID \<longrightarrow>
      (\<forall>x \<in> edges_at g u. de_target x < length to_new \<and> to_new ! de_target x \<noteq> SPECIAL_NODEID))"
  shows "\<exists>ext' new'. flush_nodes g to_new us (ext, new) = Some (ext', new') \<and>
    set ext' = set ext \<union> (\<Union>u \<in> set us. if to_new ! u = SPECIAL_NODEID then external_edge u ` edges_at g u else {}) \<and>
    set new' = set new \<union> (\<Union>u \<in> set us. if to_new ! u = SPECIAL_NODEID then {} else moved_edge to_new u ` edges_at g u)"
  using us
proof (induction us arbitrary: ext new)
  case (Cons u us)
  have u: "u < number_of_nodes g" "u < length to_new" using Cons.prems by simp_all
  obtain r where r: "dg_GetAdjacentEdgeRange g u = Some r" "\<forall>e \<in> set r. e < length (edge_list g)" "map (\<lambda>e. edge_list g ! e) r = out g u"
    using edge_range [OF g u(1)] .
  have eq: "edges_at g u = (\<lambda>e. edge_list g ! e) ` set r" unfolding r(3) [symmetric] by simp
  then have tr: "to_new ! u \<noteq> SPECIAL_NODEID \<longrightarrow> (\<forall>e \<in> set r. de_target (edge_list g ! e) < length to_new \<and>
      to_new ! de_target (edge_list g ! e) \<noteq> SPECIAL_NODEID)" using Cons.prems by simp
  let ?b = "to_new ! u = SPECIAL_NODEID"
  let ?ext = "if ?b then ext @ map (\<lambda>e. external_edge u (edge_list g ! e)) r else ext"
    and ?new = "if ?b then new else new @ map (\<lambda>e. moved_edge to_new u (edge_list g ! e)) r"
  have "flush_nodes g to_new (u # us) (ext, new) = flush_nodes g to_new us (?ext, ?new)"
    using r(1) flush_edges_correct [OF r(2) u(2) tr, of ext new] by simp
  moreover have "set ?ext = set ext \<union> (if ?b then external_edge u ` edges_at g u else {})"
    "set ?new = set new \<union> (if ?b then {} else moved_edge to_new u ` edges_at g u)"
    unfolding eq by (simp_all add: image_image)
  moreover obtain ext' new' where "flush_nodes g to_new us (?ext, ?new) = Some (ext', new')"
    "set ext' = set ?ext \<union> (\<Union>u \<in> set us. if to_new ! u = SPECIAL_NODEID then external_edge u ` edges_at g u else {})"
    "set new' = set ?new \<union> (\<Union>u \<in> set us. if to_new ! u = SPECIAL_NODEID then {} else moved_edge to_new u ` edges_at g u)"
    using Cons.IH [of ?ext ?new] Cons.prems by (meson list.set_intros(2))
  ultimately show ?case by (simp only: list.set UN_insert Un_assoc) blast
qed simp

section \<open>The hierarchy built so far\<close>

text \<open>The arcs of the graph and of the edges already removed from it, between the nodes of the input.\<close>

definition orig_of :: "Contractor \<Rightarrow> NodeID \<Rightarrow> NodeID" where
  "orig_of c i = (if orig_node_id_to_new_id_map c = [] then i else orig_node_id_to_new_id_map c ! i)"

definition query_arcs :: "(EdgeData \<Rightarrow> bool) \<Rightarrow> QueryEdge list \<Rightarrow> stored" where
  "query_arcs dir qs u = {(qe_target q, ed_distance (qe_data q)) | q. q \<in> set qs \<and> qe_source q = u \<and> dir (qe_data q)}"

definition lifted :: "(NodeID \<Rightarrow> NodeID) \<Rightarrow> NodeID set \<Rightarrow> stored \<Rightarrow> stored" where
  "lifted f X F u = {(f v, d) | i v d. i \<in> X \<and> f i = u \<and> (v, d) \<in> F i}"

definition all_fwd :: "Contractor \<Rightarrow> ContractorGraph \<Rightarrow> stored" where
  "all_fwd c g u = query_arcs ed_forward (external_edge_list c) u \<union> lifted (orig_of c) {..<number_of_nodes g} (fwd_arcs g) u"

definition all_bwd :: "Contractor \<Rightarrow> ContractorGraph \<Rightarrow> stored" where
  "all_bwd c g u = query_arcs ed_backward (external_edge_list c) u \<union> lifted (orig_of c) {..<number_of_nodes g} (bwd_arcs g) u"

text \<open>The nodes of the graph are distinct nodes of the input, and removed edges start at other nodes.\<close>

definition chart :: "nat \<Rightarrow> Contractor \<Rightarrow> ContractorGraph \<Rightarrow> bool" where
  "chart n c g \<longleftrightarrow> number_of_nodes g \<le> n \<and>
     (if orig_node_id_to_new_id_map c = [] then number_of_nodes g = n \<and> external_edge_list c = []
      else length (orig_node_id_to_new_id_map c) = number_of_nodes g) \<and>
     inj_on (orig_of c) {..<number_of_nodes g} \<and> orig_of c ` {..<number_of_nodes g} \<subseteq> {..<n} \<and>
     (\<forall>q \<in> set (external_edge_list c). qe_source q < n \<and> qe_target q < n \<and> (ed_forward (qe_data q) \<or> ed_backward (qe_data q)) \<and>
        ed_id (qe_data q) < 2 ^ 31 \<and> qe_source q \<notin> orig_of c ` {..<number_of_nodes g})"

text \<open>Edges of the input, and edges that left the graph once, carry final numbers; shortcuts the number of a node.\<close>

definition ids_ok :: "Contractor \<Rightarrow> ContractorGraph \<Rightarrow> bool" where
  "ids_ok c g \<longleftrightarrow> (\<forall>u < number_of_nodes g. \<forall>y \<in> edges_at g u.
     if orig_node_id_to_new_id_map c = [] \<or> ce_is_original_via_node_ID (de_data y) then valid_id (ce_id (de_data y))
     else ce_id (de_data y) < number_of_nodes g)"

definition sized :: "stored \<Rightarrow> stored \<Rightarrow> bool" where
  "sized F B \<longleftrightarrow> (\<forall>u v d. (v, d) \<in> F u \<union> B u \<longrightarrow> v \<noteq> u \<and> 0 < d \<and> d < 2 ^ 29)"

lemma lifted_renamed:
  assumes F: "renamed f X F G" and inv: "\<And>u. u \<in> X \<Longrightarrow> h (f u) = u"
  shows "lifted h (f ` X) G y = (if y \<in> X then F y else {})"
proof -
  have "(z, d) \<in> lifted h (f ` X) G y \<longleftrightarrow> y \<in> X \<and> (z, d) \<in> F y" for z d
  proof
    assume "(z, d) \<in> lifted h (f ` X) G y"
    then obtain u v where u: "u \<in> X" "h (f u) = y" "(v, d) \<in> G (f u)" "z = h v" unfolding lifted_def by blast
    have "u = y" using inv u(1,2) by simp
    obtain w where "v = f w" "w \<in> X" "(w, d) \<in> F u" using renamedD(3) [OF F u(1,3)] by blast
    then show "y \<in> X \<and> (z, d) \<in> F y" using inv u(1,4) \<open>u = y\<close> by simp
  next
    assume z: "y \<in> X \<and> (z, d) \<in> F y"
    then have "z \<in> X" "(f z, d) \<in> G (f y)" using renamedD(1,2) [OF F, of y z d] by simp_all
    then show "(z, d) \<in> lifted h (f ` X) G y" unfolding lifted_def using inv z by force
  qed
  then show ?thesis by auto
qed

text \<open>What the rounds do to the graph they do to the hierarchy.\<close>

lemma all_renamed:
  assumes "chart n c g" "graph_ok g"
  shows "renamed (orig_of c) {..<number_of_nodes g} (fwd_arcs g) (all_fwd c g)"
    "renamed (orig_of c) {..<number_of_nodes g} (bwd_arcs g) (all_bwd c g)"
proof -
  let ?X = "{..<number_of_nodes g}"
  have inj: "inj_on (orig_of c) ?X" and ext: "\<forall>q \<in> set (external_edge_list c). qe_source q \<notin> orig_of c ` ?X"
    using assms(1) unfolding chart_def by blast+
  have none: "query_arcs dir (external_edge_list c) (orig_of c i) = {}" if "i \<in> ?X" for dir i
    using ext that unfolding query_arcs_def by blast
  have lift: "lifted (orig_of c) ?X F (orig_of c i) = (\<lambda>(v, d). (orig_of c v, d)) ` F i" if i: "i \<in> ?X" for F i
  proof -
    have "j = i" if "j \<in> ?X" "orig_of c j = orig_of c i" for j using inj_onD [OF inj that(2,1) i] .
    then show ?thesis using i unfolding lifted_def by force
  qed
  have "fst ` fwd_arcs g i \<subseteq> ?X" "fst ` bwd_arcs g i \<subseteq> ?X" for i
    using graph_okD(3) [OF assms(2)] unfolding fwd_arcs_def bwd_arcs_def by auto
  then show "renamed (orig_of c) ?X (fwd_arcs g) (all_fwd c g)" "renamed (orig_of c) ?X (bwd_arcs g) (all_bwd c g)"
    unfolding renamed_def all_fwd_def all_bwd_def using none lift by simp_all
qed

lemma all_elsewhere:
  assumes "y \<notin> orig_of c ` {..<number_of_nodes g}"
  shows "all_fwd c g y = query_arcs ed_forward (external_edge_list c) y" "all_bwd c g y = query_arcs ed_backward (external_edge_list c) y"
  using assms unfolding all_fwd_def all_bwd_def lifted_def by auto

lemma whole_round:
  assumes ch: "chart n c g" and g: "graph_ok g" "graph_ok g'" "number_of_nodes g' = number_of_nodes g"
    and R: "R \<subseteq> {..<number_of_nodes g}" and r: "round_ok (fwd_arcs g) (bwd_arcs g) R I (fwd_arcs g') (bwd_arcs g')"
    and c': "c' = c\<lparr> contractor_graph := Some g' \<rparr>"
  shows "chart n c' g'" "round_ok (all_fwd c g) (all_bwd c g) (orig_of c ` R) (orig_of c ` I) (all_fwd c' g') (all_bwd c' g')"
proof -
  have o: "orig_of c' = orig_of c" by (simp add: c' orig_of_def fun_eq_iff)
  show ch': "chart n c' g'" using ch unfolding chart_def o by (simp add: c' g(3))
  have inj: "inj_on (orig_of c) {..<number_of_nodes g}" using ch unfolding chart_def by blast
  show "round_ok (all_fwd c g) (all_bwd c g) (orig_of c ` R) (orig_of c ` I) (all_fwd c' g') (all_bwd c' g')"
  proof (rule renamed_round [OF all_renamed [OF ch g(1)] _ _ inj R _ r])
    show "renamed (orig_of c) {..<number_of_nodes g} (fwd_arcs g') (all_fwd c' g')"
      "renamed (orig_of c) {..<number_of_nodes g} (bwd_arcs g') (all_bwd c' g')"
      using all_renamed [OF ch' g(2)] unfolding o g(3) .
    show "all_fwd c' g' y = all_fwd c g y \<and> all_bwd c' g' y = all_bwd c g y" if "y \<notin> orig_of c ` {..<number_of_nodes g}" for y
      using all_elsewhere [of y c g] all_elsewhere [of y c' g'] that unfolding o g(3) by (simp add: c')
  qed
qed

section \<open>The flush keeps the hierarchy\<close>

text \<open>Old numbers \<open>R\<close> to new numbers, and back.\<close>

definition renumbers :: "NodeID list \<Rightarrow> NodeID list \<Rightarrow> nat \<Rightarrow> NodeID set \<Rightarrow> bool" where
  "renumbers to_orig to_new n R \<longleftrightarrow> length to_new = n \<and> R \<subseteq> {..<n} \<and> (\<forall>u < n. to_new ! u = SPECIAL_NODEID \<longleftrightarrow> u \<notin> R) \<and>
     (\<lambda>u. to_new ! u) ` R = {..<length to_orig} \<and> (\<forall>u \<in> R. to_orig ! (to_new ! u) = u)"

lemma renumber_nodes_renumbers:
  assumes "distinct (map rn_id rs)" "R = set (map rn_id rs)" "R \<subseteq> {..<n}" "n \<le> length ps" "n \<le> 2 ^ 31"
  shows "\<exists>to_new rs'. renumber_nodes 0 rs ps (replicate n SPECIAL_NODEID) =
      Some (map rn_id rs, to_new, map (\<lambda>r. ps ! rn_id r) rs, rs') \<and> renumbers (map rn_id rs) to_new n R \<and>
    map rn_id rs' = [0..<length rs]"
proof -
  have len: "length rs \<le> n"
    using card_mono [OF finite_lessThan assms(3)] distinct_card [OF assms(1)] assms(2) by simp
  obtain t rs' where t: "renumber_nodes 0 rs ps (replicate n SPECIAL_NODEID) = Some (map rn_id rs, t, map (\<lambda>r. ps ! rn_id r) rs, rs')"
    "length t = n" "map rn_id rs' = [0..<length rs]" "\<forall>i < length rs. t ! rn_id (rs ! i) = i"
    "\<forall>x. x \<notin> rn_id ` set rs \<longrightarrow> t ! x = replicate n SPECIAL_NODEID ! x"
    using renumber_nodes_correct [of rs "replicate n SPECIAL_NODEID" ps 0] assms len by force
  have at: "\<exists>i < length rs. u = rn_id (rs ! i) \<and> t ! u = i" if u: "u \<in> R" for u
  proof -
    obtain r where r: "r \<in> set rs" "u = rn_id r" using u assms(2) by auto
    obtain i where "i < length rs" "rs ! i = r" using r(1) by (auto simp: in_set_conv_nth)
    then show ?thesis using t(4) r(2) by blast
  qed
  have "t ! u \<noteq> SPECIAL_NODEID" if "u \<in> R" for u using at [OF that] len assms(5) by (auto simp: SPECIAL_NODEID_def)
  moreover have "t ! u = SPECIAL_NODEID" if "u \<notin> R" "u < n" for u using t(5) that assms(2) by simp
  ultimately have "\<forall>u < n. t ! u = SPECIAL_NODEID \<longleftrightarrow> u \<notin> R" by blast
  moreover have "(\<lambda>u. t ! u) ` R = {..<length (map rn_id rs)}"
  proof (intro subset_antisym subsetI)
    fix i assume i: "i \<in> {..<length (map rn_id rs)}"
    then have "rn_id (rs ! i) \<in> R" "t ! rn_id (rs ! i) = i" using t(4) assms(2) by auto
    then show "i \<in> (\<lambda>u. t ! u) ` R" by force
  qed (use at in fastforce)
  moreover have "\<forall>u \<in> R. map rn_id rs ! (t ! u) = u" using at by fastforce
  ultimately have "renumbers (map rn_id rs) t n R" using t(2) assms(3) unfolding renumbers_def by blast
  then show ?thesis using t(1,3) by blast
qed

lemma moved_arcs:
  assumes es: "set es = (\<Union>u < number_of_nodes g. if to_new ! u = SPECIAL_NODEID then {} else moved_edge to_new u ` edges_at g u)"
  shows "(i, v, d) \<in> fw es \<longleftrightarrow> (\<exists>u w. to_new ! u \<noteq> SPECIAL_NODEID \<and> i = to_new ! u \<and> v = to_new ! w \<and> (w, d) \<in> fwd_arcs g u)"
    "(i, v, d) \<in> bw es \<longleftrightarrow> (\<exists>u w. to_new ! u \<noteq> SPECIAL_NODEID \<and> i = to_new ! u \<and> v = to_new ! w \<and> (w, d) \<in> bwd_arcs g u)"
proof -
  have in_es: "e \<in> set es \<longleftrightarrow> (\<exists>u < number_of_nodes g. to_new ! u \<noteq> SPECIAL_NODEID \<and> (\<exists>x \<in> edges_at g u. e = moved_edge to_new u x))" for e
    unfolding es by (auto split: if_splits)
  show "(i, v, d) \<in> fw es \<longleftrightarrow> (\<exists>u w. to_new ! u \<noteq> SPECIAL_NODEID \<and> i = to_new ! u \<and> v = to_new ! w \<and> (w, d) \<in> fwd_arcs g u)"
    unfolding fw_def fwd_arcs_def by (force simp: in_es moved_edge_def split: if_splits)
  show "(i, v, d) \<in> bw es \<longleftrightarrow> (\<exists>u w. to_new ! u \<noteq> SPECIAL_NODEID \<and> i = to_new ! u \<and> v = to_new ! w \<and> (w, d) \<in> bwd_arcs g u)"
    unfolding bw_def bwd_arcs_def by (force simp: in_es moved_edge_def split: if_splits)
qed

lemma external_arcs:
  assumes ext: "set qs = (\<Union>u < number_of_nodes g. if to_new ! u = SPECIAL_NODEID then external_edge u ` edges_at g u else {})"
    and r: "renumbers to_orig to_new (number_of_nodes g) R" and sz: "sized (fwd_arcs g) (bwd_arcs g)" and g: "graph_ok g"
  shows "query_arcs ed_forward qs y = (if y \<in> R then {} else fwd_arcs g y)"
    "query_arcs ed_backward qs y = (if y \<in> R then {} else bwd_arcs g y)"
proof -
  have in_qs: "q \<in> set qs \<longleftrightarrow> (\<exists>u < number_of_nodes g. u \<notin> R \<and> (\<exists>x \<in> edges_at g u. q = external_edge u x))" for q
    using r unfolding ext renumbers_def by (auto split: if_splits)
  have d: "sbits 30 (ce_distance (de_data x)) = ce_distance (de_data x)" if "u < number_of_nodes g" "x \<in> edges_at g u" for u x
  proof -
    have "(de_target x, ce_distance (de_data x)) \<in> fwd_arcs g u \<union> bwd_arcs g u"
      using graph_okD(4) [OF g that] fwd_arcsI [of u g x] bwd_arcsI [of u g x] that by blast
    then show ?thesis using sz unfolding sized_def by (intro sbits_id) fastforce+
  qed
  show "query_arcs ed_forward qs y = (if y \<in> R then {} else fwd_arcs g y)"
    unfolding query_arcs_def fwd_arcs_def by (force simp: in_qs external_edge_def EdgeData_from_def EdgeData_of_def d split: if_splits)
  show "query_arcs ed_backward qs y = (if y \<in> R then {} else bwd_arcs g y)"
    unfolding query_arcs_def bwd_arcs_def by (force simp: in_qs external_edge_def EdgeData_from_def EdgeData_of_def d split: if_splits)
qed

lemma edge_target:
  assumes "graph_ok g" "overlay_ok (fwd_arcs g) (bwd_arcs g) R" "R \<subseteq> {..<number_of_nodes g}" "u \<in> R" "x \<in> edges_at g u"
  shows "de_target x \<in> R"
proof -
  have u: "u < number_of_nodes g" using assms(3,4) by blast
  have "mirrored (fwd_arcs g) (bwd_arcs g) R" "mirrored (bwd_arcs g) (fwd_arcs g) R" using assms(2) by (simp_all add: overlay_ok_def)
  then show ?thesis using graph_okD(4) [OF assms(1) u assms(5)] mirroredD(1) assms(4) fwd_arcsI [OF u assms(5)] bwd_arcsI [OF u assms(5)] by blast
qed

lemma renamedI:
  assumes inj: "inj_on f X" and G: "\<And>i v d. (v, d) \<in> G i \<longleftrightarrow> (\<exists>u w. P u \<and> i = f u \<and> v = f w \<and> (w, d) \<in> F u)"
    and P: "\<And>u v d. P u \<Longrightarrow> (v, d) \<in> F u \<Longrightarrow> u \<in> X" "\<And>u. u \<in> X \<Longrightarrow> P u" and closed: "\<And>u v d. u \<in> X \<Longrightarrow> (v, d) \<in> F u \<Longrightarrow> v \<in> X"
  shows "renamed f X F G"
  unfolding renamed_def
proof (intro ballI conjI)
  fix w assume w: "w \<in> X"
  have "u = w" if "P u" "(v, d) \<in> F u" "f w = f u" for u v d using inj_onD [OF inj] P(1) [OF that(1,2)] that(3) w by metis
  then have "(v, d) \<in> G (f w) \<longleftrightarrow> (\<exists>x. v = f x \<and> (x, d) \<in> F w)" for v d using G P(2) [OF w] by blast
  then show "G (f w) = (\<lambda>(v, d). (f v, d)) ` F w" by (force simp: image_iff)
  show "fst ` F w \<subseteq> X" using closed [OF w] by force
qed

text \<open>The graph of the remaining nodes under their new numbers.\<close>

lemma moved_graph:
  assumes g: "graph_ok g" and r: "renumbers to_orig to_new (number_of_nodes g) R" and ov: "overlay_ok (fwd_arcs g) (bwd_arcs g) R"
    and srt: "sorts psort" and n: "number_of_nodes g \<le> SPECIAL_NODEID" and k: "length to_orig \<le> number_of_nodes g"
    and new: "set new = (\<Union>u < number_of_nodes g. if to_new ! u = SPECIAL_NODEID then {} else moved_edge to_new u ` edges_at g u)"
  shows "\<exists>g'. DynamicGraph_of fresh (length to_orig) (psort new) = Some g' \<and> graph_ok g' \<and> number_of_nodes g' = length to_orig \<and>
    renamed (\<lambda>u. to_new ! u) R (fwd_arcs g) (fwd_arcs g') \<and> renamed (\<lambda>u. to_new ! u) R (bwd_arcs g) (bwd_arcs g') \<and>
    (\<forall>i < length to_orig. \<forall>y \<in> edges_at g' i. \<exists>u < number_of_nodes g. \<exists>x \<in> edges_at g u.
       de_data y = (de_data x)\<lparr> ce_is_original_via_node_ID := True \<rparr>)"
proof -
  let ?n = "number_of_nodes g" and ?t = "\<lambda>u. to_new ! u"
  have set: "set (psort new) = (\<Union>u < ?n. if ?t u = SPECIAL_NODEID then {} else moved_edge to_new u ` edges_at g u)"
    using srt unfolding new [symmetric] sorts_def by (metis mset_eq_setD)
  have D: "R \<subseteq> {..<?n}" "\<forall>u < ?n. ?t u = SPECIAL_NODEID \<longleftrightarrow> u \<notin> R" "?t ` R = {..<length to_orig}" "\<forall>u \<in> R. to_orig ! ?t u = u"
    using r unfolding renumbers_def by blast+
  have "inj_on ?t R" using D(4) by (metis (lifting) inj_onI)
  have closed: "v \<in> R" if "u \<in> R" "(v, d) \<in> fwd_arcs g u \<union> bwd_arcs g u" for u v d
    using ov that mirroredD(1) unfolding overlay_ok_def by (metis Un_iff)
  have target: "de_target x \<in> R" if "u \<in> R" "x \<in> edges_at g u" for u x
    by (rule edge_target [OF g ov D(1) that])
  have es: "e \<in> set (psort new) \<longleftrightarrow> (\<exists>u \<in> R. \<exists>x \<in> edges_at g u. e = moved_edge to_new u x)" for e
    unfolding set using D(1,2) by (force split: if_splits)
  have ok: "\<forall>e \<in> set (psort new). ie_source e < length to_orig \<and> ie_target e < length to_orig \<and> (ce_forward (ie_data e) \<or> ce_backward (ie_data e))"
  proof
    fix e assume "e \<in> set (psort new)"
    then obtain u x where u: "u \<in> R" "x \<in> edges_at g u" "e = moved_edge to_new u x" using es by blast
    have "?t u < length to_orig" "?t (de_target x) < length to_orig" using D(3) u(1) target [OF u(1,2)] by blast+
    moreover have "ce_forward (de_data x) \<or> ce_backward (de_data x)" using graph_okD(4) [OF g _ u(2)] u(1) D(1) by blast
    ultimately show "ie_source e < length to_orig \<and> ie_target e < length to_orig \<and> (ce_forward (ie_data e) \<or> ce_backward (ie_data e))"
      by (simp add: u(3) moved_edge_def)
  qed
  have "length to_orig \<le> SPECIAL_NODEID" using n k by simp
  from graph_of_edges [OF sorts_source [OF srt] this ok, of fresh]
  obtain g' where g': "DynamicGraph_of fresh (length to_orig) (psort new) = Some g'" "graph_ok g'" "number_of_nodes g' = length to_orig"
    "\<forall>u v d. (v, d) \<in> fwd_arcs g' u \<longleftrightarrow> (u, v, d) \<in> fw (psort new)" "\<forall>u v d. (v, d) \<in> bwd_arcs g' u \<longleftrightarrow> (u, v, d) \<in> bw (psort new)"
    "\<forall>u < length to_orig. edges_at g' u = edge_in ` {e \<in> set (psort new). ie_source e = u}"
    by (elim exE conjE)
  have in_R: "u \<in> R" if "?t u \<noteq> SPECIAL_NODEID" "(v, d) \<in> fwd_arcs g u \<union> bwd_arcs g u" for u v d
    using that D(2) by (auto simp: fwd_arcs_def bwd_arcs_def split: if_splits)
  have not_special: "?t w \<noteq> SPECIAL_NODEID" if "w \<in> R" for w using D(1,2) that by blast
  have "renamed ?t R (fwd_arcs g) (fwd_arcs g')"
  proof (rule renamedI [where P = "\<lambda>u. ?t u \<noteq> SPECIAL_NODEID", OF \<open>inj_on ?t R\<close>], goal_cases)
    case 1
    show ?case using g'(4) moved_arcs(1) [OF set] by simp
  qed (use in_R not_special closed in blast)+
  moreover have "renamed ?t R (bwd_arcs g) (bwd_arcs g')"
  proof (rule renamedI [where P = "\<lambda>u. ?t u \<noteq> SPECIAL_NODEID", OF \<open>inj_on ?t R\<close>], goal_cases)
    case 1
    show ?case using g'(5) moved_arcs(2) [OF set] by simp
  qed (use in_R not_special closed in blast)+
  moreover have "\<exists>u < ?n. \<exists>x \<in> edges_at g u. de_data y = (de_data x)\<lparr> ce_is_original_via_node_ID := True \<rparr>"
    if y: "i < length to_orig" "y \<in> edges_at g' i" for i y
  proof -
    obtain e where e: "e \<in> set (psort new)" "y = edge_in e" using g'(6) y by blast
    obtain u x where "u \<in> R" "x \<in> edges_at g u" "e = moved_edge to_new u x" using e(1) es by blast
    then show ?thesis using D(1) by (intro exI [of _ u] conjI bexI [of _ x]) (use e(2) in \<open>auto simp: edge_in_def moved_edge_def\<close>)
  qed
  ultimately show ?thesis using g'(1-3) by (intro exI [of _ g'] conjI) blast+
qed

lemma flush_contractor_runs:
  assumes env: "env_ok env" and st: "run_inv H g R st" and c: "c = run_contractor st" "orig_node_id_to_new_id_map c = []" "chart n c g"
    and n: "n \<le> 2 ^ 31"
  shows "\<exists>t rs' ext g'. flush_contractor env n st = Some (st\<lparr> run_contractor := c\<lparr> contractor_graph := Some g', external_edge_list := ext, orig_node_id_to_new_id_map := map rn_id (remaining_nodes st) \<rparr>,
        remaining_nodes := rs', node_priorities := map (\<lambda>r. node_priorities st ! rn_id r) (remaining_nodes st),
        flushed_contractor := True, thread_data_list := [], thread_number_of_nodes := card R \<rparr>) \<and>
    renumbers (map rn_id (remaining_nodes st)) t n R \<and> map rn_id rs' = [0..<card R] \<and>
    set ext = (\<Union>u < number_of_nodes g. if t ! u = SPECIAL_NODEID then external_edge u ` edges_at g u else {}) \<and>
    graph_ok g' \<and> number_of_nodes g' = card R \<and>
    renamed (\<lambda>u. t ! u) R (fwd_arcs g) (fwd_arcs g') \<and> renamed (\<lambda>u. t ! u) R (bwd_arcs g) (bwd_arcs g') \<and>
    (\<forall>i < card R. \<forall>y \<in> edges_at g' i. \<exists>u < n. \<exists>x \<in> edges_at g u. de_data y = (de_data x)\<lparr> ce_is_original_via_node_ID := True \<rparr>)"
proof -
  note D = run_invD [OF st]
  have N: "number_of_nodes g = n" "external_edge_list c = []" using c(2,3) by (simp_all add: chart_def)
  let ?rs = "remaining_nodes st"
  have k: "length (map rn_id ?rs) = card R" using distinct_card [OF D(5)] D(6) by simp
  have sub: "card R \<le> n" using card_mono [OF finite_lessThan D(4)] N(1) by simp
  obtain t rs' where t: "renumber_nodes 0 ?rs (node_priorities st) (replicate n SPECIAL_NODEID) =
      Some (map rn_id ?rs, t, map (\<lambda>r. node_priorities st ! rn_id r) ?rs, rs')" "renumbers (map rn_id ?rs) t n R" "map rn_id rs' = [0..<length ?rs]"
    using renumber_nodes_renumbers [OF D(5,6) _ _ n, of "node_priorities st"] D(4,7) N(1) by blast
  have tD: "length t = n" "\<forall>u < n. t ! u = SPECIAL_NODEID \<longleftrightarrow> u \<notin> R" "(\<lambda>u. t ! u) ` R = {..<card R}" "\<forall>u \<in> R. map rn_id ?rs ! (t ! u) = u"
    using t(2) k unfolding renumbers_def by simp_all
  have closed: "de_target x \<in> R" if "u \<in> R" "x \<in> edges_at g u" for u x
    using edge_target [OF D(2,3,4) that] .
  have "\<forall>u \<in> set (irange 0 n). u < number_of_nodes g \<and> u < length t \<and> (t ! u \<noteq> SPECIAL_NODEID \<longrightarrow>
      (\<forall>x \<in> edges_at g u. de_target x < length t \<and> t ! de_target x \<noteq> SPECIAL_NODEID))"
    using N(1) tD(1,2) closed D(4) by (auto simp: irange_def)
  from flush_nodes_correct [OF D(2) this, of "[]" "[]"]
  obtain ext new where fl: "flush_nodes g t (irange 0 n) ([], []) = Some (ext, new)"
    "set ext = (\<Union>u < number_of_nodes g. if t ! u = SPECIAL_NODEID then external_edge u ` edges_at g u else {})"
    "set new = (\<Union>u < number_of_nodes g. if t ! u = SPECIAL_NODEID then {} else moved_edge t u ` edges_at g u)"
    by (auto simp: irange_def N(1) lessThan_atLeast0)
  have srt: "sorts (env_sort env)" using env by (simp add: env_ok_def)
  obtain g' where g': "DynamicGraph_of (env_fresh env) (card R) (env_sort env new) = Some g'" "graph_ok g'" "number_of_nodes g' = card R"
    "renamed (\<lambda>u. t ! u) R (fwd_arcs g) (fwd_arcs g')" "renamed (\<lambda>u. t ! u) R (bwd_arcs g) (bwd_arcs g')"
    "\<forall>i < card R. \<forall>y \<in> edges_at g' i. \<exists>u < number_of_nodes g. \<exists>x \<in> edges_at g u. de_data y = (de_data x)\<lparr> ce_is_original_via_node_ID := True \<rparr>"
    using moved_graph [OF D(2) t(2) [folded N(1)] D(3) srt _ _ fl(3), of "env_fresh env"] n N(1) sub unfolding k by (auto simp: SPECIAL_NODEID_def)
  have "flush_contractor env n st = Some (st\<lparr> run_contractor := c\<lparr> contractor_graph := Some g', external_edge_list := ext, orig_node_id_to_new_id_map := map rn_id (remaining_nodes st) \<rparr>,
        remaining_nodes := rs', node_priorities := map (\<lambda>r. node_priorities st ! rn_id r) (remaining_nodes st),
        flushed_contractor := True, thread_data_list := [], thread_number_of_nodes := card R \<rparr>)"
    using t(1) fl(1) g'(1,3) k D(1) N c(1) by (simp add: flush_contractor_def dg_GetNumberOfNodes_def Let_def)
  then show ?thesis using t(2,3) fl(2) g'(2-6) k N(1) by (intro exI [of _ t] exI [of _ rs'] exI [of _ ext] exI [of _ g']) simp
qed

definition remaining_priorities :: "'s ContractorRun \<Rightarrow> rat set" where
  "remaining_priorities st = {p. \<exists>r \<in> set (remaining_nodes st). vec_at (node_priorities st) (rn_id r) = Some p}"

lemma remaining_priorities_image:
  assumes "run_inv H g R st"
  shows "remaining_priorities st = (\<lambda>u. node_priorities st ! u) ` R"
proof -
  have "rn_id r < length (node_priorities st)" if "r \<in> set (remaining_nodes st)" for r
    using run_invD(4,6,7) [OF assms] that by auto
  then show ?thesis unfolding run_invD(6) [OF assms] remaining_priorities_def by (auto simp: vec_simps)
qed

lemma flush_contractor_correct:
  assumes env: "env_ok env" and st: "run_inv H g R st" and c: "c = run_contractor st" "orig_node_id_to_new_id_map c = []" "chart n c g"
    and ok: "ids_ok c g" "sized (all_fwd c g) (all_bwd c g)" and n: "n \<le> 2 ^ 31" and R: "R \<noteq> {}"
  shows "\<exists>st' g' c'. flush_contractor env n st = Some st' \<and> run_inv H' g' {..<card R} st' \<and> c' = run_contractor st' \<and>
    chart n c' g' \<and> ids_ok c' g' \<and> all_fwd c' g' = all_fwd c g \<and> all_bwd c' g' = all_bwd c g \<and>
    orig_of c' ` {..<card R} = orig_of c ` R \<and> number_of_nodes g' = card R \<and> orig_node_id_to_new_id_map c' \<noteq> [] \<and>
    number_of_contracted_nodes st' = number_of_contracted_nodes st \<and> flushed_contractor st' \<and>
    remaining_priorities st' = remaining_priorities st"
proof -
  note D = run_invD [OF st]
  have N: "number_of_nodes g = n" "external_edge_list c = []" using c(2,3) by (simp_all add: chart_def)
  have o: "orig_of c = id" by (simp add: orig_of_def c(2) fun_eq_iff)
  let ?rs = "remaining_nodes st"
  have k: "length (map rn_id ?rs) = card R" using distinct_card [OF D(5)] D(6) by simp
  have sub: "card R \<le> n" using card_mono [OF finite_lessThan D(4)] N(1) by simp
  obtain t rs' ext g' where run: "flush_contractor env n st = Some (st\<lparr> run_contractor := c\<lparr> contractor_graph := Some g', external_edge_list := ext, orig_node_id_to_new_id_map := map rn_id (remaining_nodes st) \<rparr>,
        remaining_nodes := rs', node_priorities := map (\<lambda>r. node_priorities st ! rn_id r) (remaining_nodes st),
        flushed_contractor := True, thread_data_list := [], thread_number_of_nodes := card R \<rparr>)"
    and t: "renumbers (map rn_id ?rs) t n R" "map rn_id rs' = [0..<card R]"
    "set ext = (\<Union>u < number_of_nodes g. if t ! u = SPECIAL_NODEID then external_edge u ` edges_at g u else {})"
    and g': "graph_ok g'" "number_of_nodes g' = card R"
    "renamed (\<lambda>u. t ! u) R (fwd_arcs g) (fwd_arcs g')" "renamed (\<lambda>u. t ! u) R (bwd_arcs g) (bwd_arcs g')"
    "\<forall>i < card R. \<forall>y \<in> edges_at g' i. \<exists>u < n. \<exists>x \<in> edges_at g u. de_data y = (de_data x)\<lparr> ce_is_original_via_node_ID := True \<rparr>"
    using flush_contractor_runs [OF env st c n] by (elim exE conjE)
  have tD: "\<forall>u < n. t ! u = SPECIAL_NODEID \<longleftrightarrow> u \<notin> R" "(\<lambda>u. t ! u) ` R = {..<card R}" "\<forall>u \<in> R. map rn_id ?rs ! (t ! u) = u"
    using t(1) k unfolding renumbers_def by simp_all
  let ?c = "c\<lparr> contractor_graph := Some g', external_edge_list := ext, orig_node_id_to_new_id_map := map rn_id ?rs \<rparr>"
  let ?st = "st\<lparr> run_contractor := c\<lparr> contractor_graph := Some g', external_edge_list := ext, orig_node_id_to_new_id_map := map rn_id (remaining_nodes st) \<rparr>,
        remaining_nodes := rs', node_priorities := map (\<lambda>r. node_priorities st ! rn_id r) (remaining_nodes st),
        flushed_contractor := True, thread_data_list := [], thread_number_of_nodes := card R \<rparr>"
  have inj: "inj_on (\<lambda>u. t ! u) R" using tD(3) by (metis (lifting) inj_onI)
  have oc: "orig_of ?c i = map rn_id ?rs ! i" for i using R D(6) by (auto simp: orig_of_def)
  have "overlay_ok (fwd_arcs g') (bwd_arcs g') {..<card R}"
    using renamed_overlay [OF g'(3,4) inj subset_refl D(3)] unfolding tD(2) .
  moreover have "nonneg (map (\<lambda>r. node_priorities st ! rn_id r) ?rs)" unfolding nonneg_def
  proof
    fix p assume "p \<in> set (map (\<lambda>r. node_priorities st ! rn_id r) ?rs)"
    then obtain x where "x \<in> R" "p = node_priorities st ! x" using D(6) by auto
    then show "0 \<le> p" using nonneg_nth [OF D(8), of x] D(4,7) by auto
  qed
  ultimately have inv: "run_inv H' g' {..<card R} ?st"
    using g'(1,2) t(2) k sub D(9,10) N(1) by (auto simp: run_inv_def lessThan_atLeast0)
  have img: "orig_of ?c ` {..<card R} = R" unfolding tD(2) [symmetric] using tD(3) by (simp add: oc image_image)
  have ne: "map rn_id ?rs \<noteq> []" using R D(6) by auto
  have "inj_on (orig_of ?c) {..<card R}" by (rule eq_card_imp_inj_on) (simp_all add: img)
  moreover have in_ext: "q \<in> set ext \<longleftrightarrow> (\<exists>u < n. u \<notin> R \<and> (\<exists>x \<in> edges_at g u. q = external_edge u x))" for q
    unfolding t(3) N(1) using tD(1) by (auto split: if_splits)
  moreover have "\<forall>q \<in> set ext. qe_source q < n \<and> qe_target q < n \<and> (ed_forward (qe_data q) \<or> ed_backward (qe_data q)) \<and>
      ed_id (qe_data q) < 2 ^ 31 \<and> qe_source q \<notin> R"
    using graph_okD(3,4) [OF D(2)] N(1) by (auto simp: in_ext external_edge_def EdgeData_from_def EdgeData_of_def) blast
  ultimately have ch: "chart n ?c g'" using img ne k sub g'(2) D(4) N(1) by (simp add: chart_def)
  have ids: "ids_ok ?c g'" unfolding ids_ok_def g'(2)
  proof (intro allI impI ballI)
    fix i y assume y: "i < card R" "y \<in> edges_at g' i"
    obtain u x where "u < n" "x \<in> edges_at g u" "de_data y = (de_data x)\<lparr> ce_is_original_via_node_ID := True \<rparr>"
      using g'(5) y by blast
    then show "if orig_node_id_to_new_id_map ?c = [] \<or> ce_is_original_via_node_ID (de_data y) then valid_id (ce_id (de_data y))
        else ce_id (de_data y) < card R" using ok(1) c(2) N(1) by (simp add: ids_ok_def)
  qed
  have whole: "all_fwd c g y = fwd_arcs g y" "all_bwd c g y = bwd_arcs g y" for y
    unfolding all_fwd_def all_bwd_def lifted_def o N(2) query_arcs_def by (auto simp: fwd_arcs_def bwd_arcs_def split: if_splits)
  have sz: "sized (fwd_arcs g) (bwd_arcs g)" using ok(2) by (simp add: sized_def whole)
  have bk: "\<And>u. u \<in> R \<Longrightarrow> orig_of ?c (t ! u) = u" using tD(3) by (simp add: oc)
  note ext = external_arcs [OF t(3) t(1) [folded N(1)] sz D(2)]
  have "all_fwd ?c g' = all_fwd c g" "all_bwd ?c g' = all_bwd c g"
    using lifted_renamed [OF g'(3) bk] lifted_renamed [OF g'(4) bk] ext unfolding fun_eq_iff all_fwd_def [of ?c] all_bwd_def [of ?c] whole g'(2) tD(2)
    by simp_all
  moreover have "remaining_priorities ?st = remaining_priorities st"
  proof -
    have "remaining_priorities ?st = (\<lambda>i. map (\<lambda>r. node_priorities st ! rn_id r) ?rs ! i) ` {..<card R}"
      using remaining_priorities_image [OF inv] by simp
    also have "\<dots> = set (map (\<lambda>r. node_priorities st ! rn_id r) ?rs)"
      using k nth_image [of "card R" "map (\<lambda>r. node_priorities st ! rn_id r) ?rs"] by (simp add: lessThan_atLeast0)
    finally show ?thesis unfolding remaining_priorities_image [OF st] D(6) by (simp add: image_image)
  qed
  ultimately show ?thesis using run inv ch ids img ne g'(2) unfolding o
    by (intro exI [of _ ?st] exI [of _ g'] exI [of _ ?c]) simp
qed

end
