(* ===== verification/Contractor_Hierarchy.thy ===== *)
theory Contractor_Hierarchy
  imports Contractor_Run
begin

text \<open>
  From the input to the hierarchy (\<open>Run\<close> and \<open>GetEdges\<close> of \<^verbatim>\<open>Contractor/Contractor.h\<close>): the loop of the contraction
  ends when priorities that count as equal are equal, and the edges it returns form a hierarchy in
  which the searches of the queries find the distances of the input.
\<close>

section \<open>The loop of the contraction\<close>

text \<open>A while rule: the invariant is kept, and a measure decreases when results are guaranteed.\<close>

lemma contract_loop_returns:
  fixes mu :: "'s ContractorRun \<Rightarrow> nat"
  assumes step: "\<And>st. I st \<Longrightarrow> nodes > 2 \<Longrightarrow> number_of_contracted_nodes st < nodes \<Longrightarrow>
      returns tot (contract_step env nodes st) (\<lambda>st'. I st' \<and> (tot \<longrightarrow> mu st' < mu st))"
    and init: "I st"
  shows "returns tot (contract_loop env nodes st) I"
proof (cases tot)
  case True
  show ?thesis using init
  proof (induction "mu st" arbitrary: st rule: less_induct)
    case less
    have "returns tot (Option.bind (contract_step env nodes st) (contract_loop env nodes)) I"
      if "nodes > 2" "number_of_contracted_nodes st < nodes"
      by (rule returns_bind [OF step [OF less.prems that]]) (use less.hyps True in blast)
    then show ?case using less.prems by (subst contract_loop.simps) simp
  qed
next
  case False
  have "e = env \<longrightarrow> n = nodes \<longrightarrow> I s \<longrightarrow> I r" if "contract_loop e n s = Some r" for e n s r
    using that
  proof (rule contract_loop.raw_induct [where P = "\<lambda>e n s r. e = env \<longrightarrow> n = nodes \<longrightarrow> I s \<longrightarrow> I r", rotated], intro impI)
    fix loop e n s r
    assume IH: "\<And>e n s r. loop e n s = Some r \<Longrightarrow> e = env \<longrightarrow> n = nodes \<longrightarrow> I s \<longrightarrow> I r"
      and run: "(if 2 < n \<and> number_of_contracted_nodes s < n then Option.bind (contract_step e n s) (loop e n) else Some s) = Some r"
      and s: "e = env" "n = nodes" "I s"
    show "I r"
    proof (cases "2 < n \<and> number_of_contracted_nodes s < n")
      case True
      then obtain s' where s': "contract_step env nodes s = Some s'" "loop env nodes s' = Some r" using run s by (auto simp: bind_eq_Some_conv)
      have "returns tot (contract_step env nodes s) (\<lambda>st'. I st' \<and> (tot \<longrightarrow> mu st' < mu s))" using step [OF s(3)] True s(2) by blast
      then have "I s'" using s'(1) by simp
      then show ?thesis using IH [OF s'(2)] by simp
    next
      case False
      then show ?thesis using run s(3) by auto
    qed
  qed
  then show ?thesis using False init by (cases "contract_loop env nodes st") simp_all
qed

text \<open>Some node is independent when priorities that count as equal are equal.\<close>

definition untied :: "(rat \<Rightarrow> rat) \<Rightarrow> rat set \<Rightarrow> bool" where
  "untied fl P \<longleftrightarrow> (\<forall>p \<in> P. \<forall>q \<in> P. tied fl p q \<longrightarrow> p = q)"

lemma some_independent:
  assumes g: "graph_ok g" "overlay_ok (fwd_arcs g) (bwd_arcs g) R" "R \<subseteq> {..<number_of_nodes g}"
    and R: "finite R" "R \<noteq> {}" and t: "untied fl ((\<lambda>u. ps ! u) ` R)"
  shows "\<exists>x \<in> R. node_independent fl hash g ps x"
proof -
  define m where "m = Min ((\<lambda>u. ps ! u) ` R)"
  define T where "T = {u \<in> R. ps ! u = m}"
  have m: "m \<in> (\<lambda>u. ps ! u) ` R" "\<And>u. u \<in> R \<Longrightarrow> m \<le> ps ! u" unfolding m_def using R by simp_all
  have T: "finite T" "T \<noteq> {}" using R m(1) unfolding T_def by auto
  define h where "h = Max ((\<lambda>u. XORFastHash_hash hash (of_nat u)) ` T)"
  have h: "h \<in> (\<lambda>u. XORFastHash_hash hash (of_nat u)) ` T" "\<And>u. u \<in> T \<Longrightarrow> XORFastHash_hash hash (of_nat u) \<le> h"
    unfolding h_def using T by simp_all
  define U where "U = {u \<in> T. XORFastHash_hash hash (of_nat u) = h}"
  have U: "finite U" "U \<noteq> {}" using T h(1) unfolding U_def by auto
  define x where "x = Max U"
  have x: "x \<in> U" "\<And>u. u \<in> U \<Longrightarrow> u \<le> x" unfolding x_def using U by simp_all
  have xR: "x \<in> R" "ps ! x = m" "XORFastHash_hash hash (of_nat x) = h" using x(1) unfolding U_def T_def by simp_all
  have "\<not> yields fl hash ps x y" if y: "y \<in> R" "y \<noteq> x" for y
  proof
    assume "yields fl hash ps x y"
    moreover have "\<not> ps ! x > ps ! y" using m(2) [OF y(1)] xR(2) by simp
    ultimately have t': "tied fl (ps ! x) (ps ! y)" "bias hash x y" unfolding yields_def by blast+
    have "ps ! x = ps ! y" using t t'(1) xR(1) y(1) unfolding untied_def by blast
    then have "ps ! y = m" using xR(2) by simp
    then have "y \<in> T" using y(1) by (simp add: T_def)
    then have "XORFastHash_hash hash (of_nat y) = h" "x < y"
      using h(2) [OF \<open>y \<in> T\<close>] t'(2) xR(3) by (auto simp: bias_def Let_def split: if_splits)
    then show False using x(2) [of y] \<open>y \<in> T\<close> by (simp add: U_def)
  qed
  then have "node_independent fl hash g ps x" unfolding node_independent_def
    using edge_target [OF g xR(1)] edge_target [OF g] by blast
  then show ?thesis using xR(1) by blast
qed

section \<open>Rounds and flushes keep the hierarchy\<close>

definition light :: "int \<Rightarrow> stored \<Rightarrow> stored \<Rightarrow> NodeID set \<Rightarrow> bool" where
  "light W F B X \<longleftrightarrow> (\<forall>u \<in> X. \<forall>v d. (v, d) \<in> F u \<union> B u \<longrightarrow> d < W)"

lemma lighter_light:
  assumes "chart n c g" "graph_ok g" "R \<subseteq> {..<number_of_nodes g}"
  shows "lighter W g R \<longleftrightarrow> light W (all_fwd c g) (all_bwd c g) (orig_of c ` R)"
proof -
  have "all_fwd c g (orig_of c i) = (\<lambda>(v, d). (orig_of c v, d)) ` fwd_arcs g i"
    "all_bwd c g (orig_of c i) = (\<lambda>(v, d). (orig_of c v, d)) ` bwd_arcs g i" if "i \<in> R" for i
    using all_renamed [OF assms(1,2)] assms(3) that unfolding renamed_def by blast+
  then show ?thesis unfolding lighter_def light_def by fastforce
qed

lemma sized_round:
  assumes "sized F B" "light (2 ^ 28) F B R" and r: "round_ok F B R I F' B'"
  shows "sized F' B'"
proof -
  have sz: "v \<noteq> u \<and> 0 < d \<and> d < 2 ^ 29" if "(v, d) \<in> F u \<or> (v, d) \<in> B u" for u v d using assms(1) that unfolding sized_def by blast
  have br: "0 < d \<and> d < 2 ^ 29" if b: "bridge F B I u v d" for u v d
  proof -
    obtain x a b where x: "x \<in> I" "(u, a) \<in> B x" "(v, b) \<in> F x" "d = a + b" using b unfolding bridge_def by blast
    have "a < 2 ^ 28" "b < 2 ^ 28" using x round_okD(1) [OF r] assms(2) unfolding light_def by blast+
    then show ?thesis using sz [of u a x] sz [of v b x] x by simp
  qed
  have F: "v \<noteq> u \<and> 0 < d \<and> d < 2 ^ 29" if "(v, d) \<in> F' u" for u v d
  proof (cases "u \<in> R - I")
    case True
    then show ?thesis using round_okD(7) [OF r True that] sz [of v d u] br [of u v d] by blast
  qed (use that round_okD(3) [OF r, of u] sz [of v d u] in simp)
  have B: "v \<noteq> u \<and> 0 < d \<and> d < 2 ^ 29" if "(v, d) \<in> B' u" for u v d
  proof (cases "u \<in> R - I")
    case True
    then show ?thesis using round_okD(8) [OF r True that] sz [of v d u] br [of v u d] by blast
  qed (use that round_okD(4) [OF r, of u] sz [of v d u] in simp)
  show ?thesis using F B unfolding sized_def by blast
qed

text \<open>The invariant of the loop: the arcs of the graph and the removed edges are the hierarchy built so far.\<close>

definition whole_inv :: "(nat \<Rightarrow> 's ContractorHeap \<Rightarrow> bool) \<Rightarrow> arc_set \<Rightarrow> nat \<Rightarrow> ContractorGraph \<Rightarrow> NodeID set \<Rightarrow> 's ContractorRun \<Rightarrow> bool" where
  "whole_inv H A n g R st \<longleftrightarrow> (\<exists>c. c = run_contractor st \<and> run_inv (H (number_of_nodes g)) g R st \<and> chart n c g \<and> ids_ok c g \<and>
     sized (all_fwd c g) (all_bwd c g) \<and> complete A (all_fwd c g) (all_bwd c g) (orig_of c ` R) \<and> sound A (all_fwd c g) (all_bwd c g) \<and>
     (\<not> flushed_contractor st \<longrightarrow> orig_node_id_to_new_id_map c = []) \<and> number_of_contracted_nodes st + card R = n)"

lemma whole_invE:
  assumes "whole_inv H A n g R st"
  obtains c where "c = run_contractor st" "run_inv (H (number_of_nodes g)) g R st" "chart n c g" "ids_ok c g"
    "sized (all_fwd c g) (all_bwd c g)" "complete A (all_fwd c g) (all_bwd c g) (orig_of c ` R)" "sound A (all_fwd c g) (all_bwd c g)"
    "\<not> flushed_contractor st \<longrightarrow> orig_node_id_to_new_id_map c = []" "number_of_contracted_nodes st + card R = n"
  using assms unfolding whole_inv_def by (elim exE conjE)

lemma ids_round:
  assumes "ids_ok c g" "chart n c g" "n < 2 ^ 31" "number_of_nodes g' = number_of_nodes g" "X \<subseteq> {..<number_of_nodes g}"
    and edges: "\<forall>u < number_of_nodes g. \<forall>y \<in> edges_at g' u. y \<in> edges_at g u \<or> new_edge X y"
  shows "ids_ok (c\<lparr> contractor_graph := G \<rparr>) g'"
proof -
  have N: "number_of_nodes g \<le> n" using assms(2) by (simp add: chart_def)
  have new: "ce_id (de_data y) < number_of_nodes g" "\<not> ce_is_original_via_node_ID (de_data y)" "valid_id (ce_id (de_data y))" if "new_edge X y" for y
  proof -
    show "ce_id (de_data y) < number_of_nodes g" "\<not> ce_is_original_via_node_ID (de_data y)" using that assms(5) by (auto simp: new_edge_def)
    then show "valid_id (ce_id (de_data y))" using N assms(3) by (simp add: valid_id_def)
  qed
  show ?thesis unfolding ids_ok_def assms(4)
  proof (intro allI impI ballI)
    fix u y assume "u < number_of_nodes g" "y \<in> edges_at g' u"
    then show "if orig_node_id_to_new_id_map (c\<lparr> contractor_graph := G \<rparr>) = [] \<or> ce_is_original_via_node_ID (de_data y)
        then valid_id (ce_id (de_data y)) else ce_id (de_data y) < number_of_nodes g"
      using edges new [of y] assms(1) unfolding ids_ok_def by fastforce
  qed
qed

text \<open>Storages of every size.\<close>

locale contraction_storage =
  fixes ops :: "(NodeID, 's) IndexStorage" and st_inv :: "nat \<Rightarrow> 's \<Rightarrow> bool" and st_val :: "'s \<Rightarrow> NodeID \<Rightarrow> nat option"
    and st_ok :: "'s \<Rightarrow> NodeID \<Rightarrow> bool" and st_clearable :: "'s \<Rightarrow> bool" and tot :: bool and storage :: "nat \<Rightarrow> 's"
  assumes sizes: "N < 2 ^ 31 \<Longrightarrow> search_storage ops (st_inv N) st_val st_ok st_clearable tot N"
    and new_storage: "st_inv N (storage N)"
begin

abbreviation "hinv N \<equiv> heap_inv (st_inv N) st_val"

definition runs :: "'s ContractorEnv \<Rightarrow> bool" where
  "runs env \<longleftrightarrow> env_ok env \<and> env_ops env = ops \<and> env_storage env = storage"

lemma contract_round_whole:
  assumes env: "runs env" and n: "n < 2 ^ 31" and inv: "whole_inv hinv A n g R st" and lt: "lighter (2 ^ 28) g R"
    and R: "R \<noteq> {}"
  shows "returns tot (contract_round env st) (\<lambda>st'. (\<exists>g' R'. whole_inv hinv A n g' R' st' \<and> (\<forall>W. lighter W g R \<longrightarrow> lighter (2 * W) g' R')) \<and>
    (untied (env_fl env) (remaining_priorities st) \<longrightarrow> number_of_contracted_nodes st < number_of_contracted_nodes st'))"
proof -
  obtain c where c: "c = run_contractor st" "run_inv (hinv (number_of_nodes g)) g R st" "chart n c g" "ids_ok c g"
    "sized (all_fwd c g) (all_bwd c g)" "complete A (all_fwd c g) (all_bwd c g) (orig_of c ` R)" "sound A (all_fwd c g) (all_bwd c g)"
    "\<not> flushed_contractor st \<longrightarrow> orig_node_id_to_new_id_map c = []" "number_of_contracted_nodes st + card R = n"
    using inv by (rule whole_invE)
  note D = run_invD [OF c(2)]
  let ?N = "number_of_nodes g" and ?X = "independent_nodes env g st"
  have N: "?N \<le> n" using c(3) by (simp add: chart_def)
  have fin: "finite R" using D(6) by simp
  have X: "set ?X \<subseteq> R" "distinct ?X" using D(5,6) by (auto simp: independent_nodes_def)
  have inj: "inj_on (orig_of c) {..<?N}" using c(3) unfolding chart_def by blast
  have progress: "?X \<noteq> []" if "untied (env_fl env) (remaining_priorities st)"
  proof -
    have "\<exists>x \<in> R. node_independent (env_fl env) (contractor_fast_hash (run_contractor st)) g (node_priorities st) x"
      using some_independent [OF D(2,3,4) fin R] that remaining_priorities_image [OF c(2)] by simp
    then show ?thesis using D(6) by (auto simp: independent_nodes_def filter_empty_conv)
  qed
  have ov: "overlay_ok (all_fwd c g) (all_bwd c g) (orig_of c ` R)"
    by (rule renamed_overlay [OF all_renamed [OF c(3) D(2)] inj D(4,3)])
  have lw: "light (2 ^ 28) (all_fwd c g) (all_bwd c g) (orig_of c ` R)" using lt lighter_light [OF c(3) D(2,4)] by simp
  have sp: "?N \<le> SPECIAL_NODEID" "?N < 2 ^ 31" using N n by (simp_all add: SPECIAL_NODEID_def)
  have e: "env_ok env" "env_ops env = ops" "st_inv ?N (env_storage env ?N)" using env new_storage by (simp_all add: runs_def)
  show ?thesis
  proof (rule returns_mono [OF search_storage.contract_round_returns [OF sizes [OF sp(2)] e refl sp(1) c(2) lt]], elim exE conjE)
    fix st' g' assume r: "run_inv (hinv ?N) g' (R - set ?X) st'" "number_of_nodes g' = ?N"
      "\<forall>u < ?N. \<forall>y \<in> edges_at g' u. y \<in> edges_at g u \<or> new_edge (set ?X) y"
      "round_ok (fwd_arcs g) (bwd_arcs g) R (set ?X) (fwd_arcs g') (bwd_arcs g')"
      "run_contractor st' = (run_contractor st)\<lparr> contractor_graph := Some g' \<rparr>"
      "number_of_contracted_nodes st' = number_of_contracted_nodes st + length ?X" "flushed_contractor st' = flushed_contractor st"
    let ?c = "c\<lparr> contractor_graph := Some g' \<rparr>"
    have c': "run_contractor st' = ?c" using r(5) c(1) by simp
    have o: "orig_of ?c = orig_of c" by (simp add: orig_of_def fun_eq_iff)
    note w = whole_round [OF c(3) D(2) run_invD(2) [OF r(1)] r(2) D(4) r(4) refl]
    have img: "orig_of c ` (R - set ?X) = orig_of c ` R - orig_of c ` set ?X" 
      using inj_on_image_set_diff [OF inj, of R "set ?X"] D(4) X(1) by blast
    have "card (R - set ?X) = card R - length ?X" "length ?X \<le> card R"
      using card_Diff_subset [OF _ X(1)] distinct_card [OF X(2)] card_mono [OF fin X(1)] by simp_all
    then have "number_of_contracted_nodes st' + card (R - set ?X) = n" using c(9) r(6) by simp
    moreover have "ids_ok ?c g'" by (rule ids_round [OF c(4,3) n r(2) _ r(3)]) (use X(1) D(4) in blast)
    ultimately have "whole_inv hinv A n g' (R - set ?X) st'"
      unfolding whole_inv_def using r(1,2,7) c' c(8) w sized_round [OF c(5) lw w(2)] round_complete [OF ov w(2) c(6)] round_sound [OF ov w(2) c(7)]
      by (intro exI [of _ ?c] conjI) (simp_all add: o img)
    then show "(\<exists>g' R'. whole_inv hinv A n g' R' st' \<and> (\<forall>W. lighter W g R \<longrightarrow> lighter (2 * W) g' R')) \<and>
        (untied (env_fl env) (remaining_priorities st) \<longrightarrow> number_of_contracted_nodes st < number_of_contracted_nodes st')"
      using r(6) progress lighter_round [OF _ r(4) D(3)] by auto
  qed
qed

end

section \<open>The run of the contraction\<close>

text \<open>The states of the loop.\<close>

inductive contracting :: "'s ContractorEnv \<Rightarrow> nat \<Rightarrow> 's ContractorRun \<Rightarrow> 's ContractorRun \<Rightarrow> bool" for env nodes st where
  contracting_start: "contracting env nodes st st"
| contracting_step: "contracting env nodes st st' \<Longrightarrow> 2 < nodes \<Longrightarrow> number_of_contracted_nodes st' < nodes \<Longrightarrow>
    contract_step env nodes st' = Some st'' \<Longrightarrow> contracting env nodes st st''"

text \<open>At every round the edges of the remaining nodes leave room for sums; and, where the loop has to end,
  priorities within an epsilon of each other are equal.\<close>

definition light_run :: "int \<Rightarrow> 's ContractorRun \<Rightarrow> bool" where
  "light_run W st \<longleftrightarrow> (\<forall>g. contractor_graph (run_contractor st) = Some g \<longrightarrow> lighter W g (rn_id ` set (remaining_nodes st)))"

definition tame :: "bool \<Rightarrow> 's ContractorEnv \<Rightarrow> Contractor \<Rightarrow> bool" where
  "tame tot env c \<longleftrightarrow> (\<forall>g st0 st. contractor_graph c = Some g \<longrightarrow> Run_init env c = Some st0 \<longrightarrow> contracting env (number_of_nodes g) st0 st \<longrightarrow>
     light_run (2 ^ 28) st \<and> (tot \<longrightarrow> untied (env_fl env) (remaining_priorities st)))"

context contraction_storage
begin

lemma contract_step_whole:
  assumes env: "runs env" and n: "n < 2 ^ 31" and inv: "whole_inv hinv A n g R st" and more: "number_of_contracted_nodes st < n"
    and tm: "light_run (2 ^ 28) st"
  shows "returns tot (contract_step env n st) (\<lambda>st'. (\<exists>g' R'. whole_inv hinv A n g' R' st') \<and> (\<forall>W. light_run W st \<longrightarrow> light_run (2 * W) st') \<and>
    (untied (env_fl env) (remaining_priorities st) \<longrightarrow> number_of_contracted_nodes st < number_of_contracted_nodes st'))"
proof -
  obtain c where c: "c = run_contractor st" "run_inv (hinv (number_of_nodes g)) g R st" "chart n c g" "ids_ok c g"
    "sized (all_fwd c g) (all_bwd c g)" "complete A (all_fwd c g) (all_bwd c g) (orig_of c ` R)" "sound A (all_fwd c g) (all_bwd c g)"
    "\<not> flushed_contractor st \<longrightarrow> orig_node_id_to_new_id_map c = []" "number_of_contracted_nodes st + card R = n"
    using inv by (rule whole_invE)
  note D = run_invD [OF c(2)]
  have R: "R \<noteq> {}" using c(9) more by auto
  have lr: "light_run W st \<longleftrightarrow> lighter W g R" if "whole_inv hinv A n g R st" for W g R st
    using that run_invD(1,6) [of "hinv (number_of_nodes g)" g R st] by (auto simp: light_run_def elim!: whole_invE)
  have lt: "lighter (2 ^ 28) g R" using tm lr [OF inv] by simp
  show ?thesis
  proof (cases "flush_due n st")
    case False
    have "returns tot (contract_round env st) (\<lambda>st'. (\<exists>g' R'. whole_inv hinv A n g' R' st') \<and> (\<forall>W. light_run W st \<longrightarrow> light_run (2 * W) st') \<and>
        (untied (env_fl env) (remaining_priorities st) \<longrightarrow> number_of_contracted_nodes st < number_of_contracted_nodes st'))"
      by (rule returns_mono [OF contract_round_whole [OF env n inv lt R]]) (use lr [OF inv] lr in blast)
    then show ?thesis using False by (simp add: contract_step_def)
  next
    case True
    have e: "env_ok env" using env by (simp add: runs_def)
    have c0: "orig_node_id_to_new_id_map c = []" using True c(8) by (simp add: flush_due_def)
    have n': "n \<le> 2 ^ 31" using n by simp
    obtain st' g' c' where f: "flush_contractor env n st = Some st'" "run_inv (hinv (card R)) g' {..<card R} st'" "c' = run_contractor st'"
      "chart n c' g'" "ids_ok c' g'" "all_fwd c' g' = all_fwd c g" "all_bwd c' g' = all_bwd c g" "orig_of c' ` {..<card R} = orig_of c ` R"
      "number_of_nodes g' = card R" "orig_node_id_to_new_id_map c' \<noteq> []"
      "number_of_contracted_nodes st' = number_of_contracted_nodes st" "flushed_contractor st'" "remaining_priorities st' = remaining_priorities st"
      using flush_contractor_correct [OF e c(2,1) c0 c(3-5) n' R, of "hinv (card R)"] by (elim exE conjE)
    have inv': "whole_inv hinv A n g' {..<card R} st'"
      unfolding whole_inv_def using f c(5-7,9) by (intro exI [of _ c'] conjI) simp_all
    have same: "lighter W g' {..<card R} \<longleftrightarrow> lighter W g R" for W
      using lighter_light [OF c(3) D(2,4)] lighter_light [OF f(4) run_invD(2,4) [OF f(2)]] f(6-8) by simp
    have ne: "{..<card R} \<noteq> {}" using R D(6) by (auto simp: lessThan_empty_iff)
    have lt': "lighter (2 ^ 28) g' {..<card R}" using lt same by simp
    have "returns tot (contract_round env st') (\<lambda>st''. (\<exists>g' R'. whole_inv hinv A n g' R' st'') \<and> (\<forall>W. light_run W st \<longrightarrow> light_run (2 * W) st'') \<and>
        (untied (env_fl env) (remaining_priorities st) \<longrightarrow> number_of_contracted_nodes st < number_of_contracted_nodes st''))"
      by (rule returns_mono [OF contract_round_whole [OF env n inv' lt' ne]]) (use lr [OF inv] lr same f(11,13) in auto)
    then show ?thesis using f(1) True by (simp add: contract_step_def)
  qed
qed

end

text \<open>The whole run, on a graph whose arcs are stored at both ends.\<close>

definition starts :: "arc_set \<Rightarrow> nat \<Rightarrow> Contractor \<Rightarrow> ContractorGraph \<Rightarrow> bool" where
  "starts A n c g \<longleftrightarrow> contractor_graph c = Some g \<and> graph_ok g \<and> number_of_nodes g = n \<and>
     orig_node_id_to_new_id_map c = [] \<and> external_edge_list c = [] \<and> ids_ok c g \<and>
     overlay_ok (fwd_arcs g) (bwd_arcs g) {..<n} \<and> sound A (fwd_arcs g) (bwd_arcs g) \<and> complete A (fwd_arcs g) (bwd_arcs g) {..<n} \<and>
     lighter (2 ^ 28) g {..<n}"

lemma starts_whole:
  assumes "starts A n c g"
  shows "chart n c g" "all_fwd c g = fwd_arcs g" "all_bwd c g = bwd_arcs g" "orig_of c = id" "sized (all_fwd c g) (all_bwd c g)"
proof -
  have c: "graph_ok g" "number_of_nodes g = n" "orig_node_id_to_new_id_map c = []" "external_edge_list c = []"
    "overlay_ok (fwd_arcs g) (bwd_arcs g) {..<n}" "lighter (2 ^ 28) g {..<n}"
    using assms by (simp_all add: starts_def)
  show o: "orig_of c = id" by (simp add: orig_of_def c(3) fun_eq_iff)
  show all: "all_fwd c g = fwd_arcs g" "all_bwd c g = bwd_arcs g"
    by (auto simp: fun_eq_iff all_fwd_def all_bwd_def lifted_def o c(4) query_arcs_def fwd_arcs_def bwd_arcs_def split: if_splits)
  show "chart n c g" using c by (simp add: chart_def o)
  have "v \<noteq> u \<and> 0 < d \<and> d < 2 ^ 29" if "(v, d) \<in> fwd_arcs g u \<union> bwd_arcs g u" for u v d
  proof -
    have u: "u \<in> {..<n}" using that c(2) by (auto simp: fwd_arcs_def bwd_arcs_def split: if_splits)
    have m: "mirrored (fwd_arcs g) (bwd_arcs g) {..<n}" "mirrored (bwd_arcs g) (fwd_arcs g) {..<n}" using c(5) by (simp_all add: overlay_ok_def)
    have "v \<noteq> u" "0 < d" using that mirroredD(2,3) [OF m(1) u] mirroredD(2,3) [OF m(2) u] by blast+
    moreover have "d < 2 ^ 28" using c(6) u that unfolding lighter_def by blast
    ultimately show ?thesis by simp
  qed
  then show "sized (all_fwd c g) (all_bwd c g)" unfolding sized_def all by blast
qed

context contraction_storage
begin

lemma Run_init_whole:
  assumes env: "runs env" and c: "starts A n c g" and n: "n < 2 ^ 31"
  shows "returns tot (Run_init env c) (\<lambda>st. whole_inv hinv A n g {..<n} st \<and> number_of_contracted_nodes st = 0)"
proof -
  have e: "env_ok env" "env_ops env = ops" "st_inv n (env_storage env n)" using env new_storage by (simp_all add: runs_def)
  have s: "contractor_graph c = Some g" "graph_ok g" "number_of_nodes g = n" "orig_node_id_to_new_id_map c = []" "ids_ok c g"
    "overlay_ok (fwd_arcs g) (bwd_arcs g) {..<n}" "sound A (fwd_arcs g) (bwd_arcs g)" "complete A (fwd_arcs g) (bwd_arcs g) {..<n}"
    "lighter (2 ^ 28) g {..<n}"
    using c by (simp_all add: starts_def)
  note w = starts_whole [OF c]
  have n': "n \<le> 2 ^ 31" using n by simp
  show ?thesis
    by (rule returns_mono [OF search_storage.Run_init_returns [OF sizes [OF n] s(1-3) n' s(6,9) e]])
      (use w s in \<open>auto simp: whole_inv_def\<close>)
qed

lemma Run_returns:
  assumes env: "runs env" and c: "starts A n c g" and n: "n < 2 ^ 31" and tm: "tame tot env c"
  shows "returns tot (Run env c) (\<lambda>c'. \<exists>g' R st. whole_inv hinv A n g' R st \<and> c' = run_contractor st)"
proof -
  have s: "contractor_graph c = Some g" "number_of_nodes g = n" using c by (simp_all add: starts_def)
  let ?I = "\<lambda>st. \<exists>g' R. whole_inv hinv A n g' R st"
  have loop: "returns tot (contract_loop env n st0) ?I" if st0: "Run_init env c = Some st0" "?I st0" for st0
  proof -
    have "returns tot (contract_loop env n st0) (\<lambda>st. ?I st \<and> contracting env n st0 st)"
    proof (rule contract_loop_returns [where mu = "\<lambda>st. n - number_of_contracted_nodes st", rotated])
      show "?I st0 \<and> contracting env n st0 st0" using st0(2) contracting_start by blast
    next
      fix st assume st: "?I st \<and> contracting env n st0 st" "n > 2" "number_of_contracted_nodes st < n"
      then obtain g1 R where w: "whole_inv hinv A n g1 R st" by blast
      have t: "light_run (2 ^ 28) st" "tot \<longrightarrow> untied (env_fl env) (remaining_priorities st)"
        using tm s st0(1) st(1) unfolding tame_def by blast+
      have step: "contracting env n st0 st'" if "contract_step env n st = Some st'" for st'
        using contracting_step st that by blast
      show "returns tot (contract_step env n st) (\<lambda>st'. (?I st' \<and> contracting env n st0 st') \<and>
          (tot \<longrightarrow> n - number_of_contracted_nodes st' < n - number_of_contracted_nodes st))"
        using contract_step_whole [OF env n w st(3) t(1)] t(2) step st(3) by (cases "contract_step env n st") auto
    qed
    then show ?thesis by (rule returns_mono) blast
  qed
  have init: "returns tot (Run_init env c) ?I" by (rule returns_mono [OF Run_init_whole [OF env c n]]) blast
  show ?thesis unfolding Run_def s(1) bind.bind_lunit dg_GetNumberOfNodes_def s(2)
  proof (cases "Run_init env c")
    case (Some st0)
    then have "returns tot (contract_loop env n st0) ?I" using loop init by simp
    then show "returns tot (Option.bind (Run_init env c) (\<lambda>st. Option.bind (contract_loop env n st) (\<lambda>st. Some (run_contractor st))))
        (\<lambda>c'. \<exists>g' R st. whole_inv hinv A n g' R st \<and> c' = run_contractor st)"
      unfolding Some bind.bind_lunit by (rule returns_bind) auto
  qed (use init in simp)
qed

end

section \<open>The edges of the hierarchy\<close>

definition final_edge :: "Contractor \<Rightarrow> NodeID \<Rightarrow> ContractorEdgeData DG_Edge \<Rightarrow> QueryEdge" where
  "final_edge c u x = \<lparr> qe_source = orig_of c u, qe_target = orig_of c (de_target x),
     qe_data = EdgeData_of (if ce_is_original_via_node_ID (de_data x) then ce_id (de_data x) else orig_of c (ce_id (de_data x)))
       (ce_shortcut (de_data x)) (ce_distance (de_data x)) (ce_forward (de_data x)) (ce_backward (de_data x)) \<rparr>"

lemma final_edge_simps [simp]:
  "qe_source (final_edge c u x) = orig_of c u" "qe_target (final_edge c u x) = orig_of c (de_target x)"
  "ed_distance (qe_data (final_edge c u x)) = sbits 30 (ce_distance (de_data x))"
  "ed_forward (qe_data (final_edge c u x)) = ce_forward (de_data x)" "ed_backward (qe_data (final_edge c u x)) = ce_backward (de_data x)"
  "ed_id (qe_data (final_edge c u x)) < 2147483648"
  by (simp_all add: final_edge_def EdgeData_of_def)

lemma chartD:
  assumes "chart n c g" "i < number_of_nodes g"
  shows "orig_of c i < n" "orig_id (orig_node_id_to_new_id_map c) i = Some (orig_of c i)"
proof -
  show "orig_of c i < n" using assms unfolding chart_def by blast
  show "orig_id (orig_node_id_to_new_id_map c) i = Some (orig_of c i)"
    using assms by (auto simp: chart_def orig_id_def orig_of_def vec_simps split: if_splits)
qed

lemma get_edges_at_correct:
  assumes ch: "chart n c g" and n: "n < 2 ^ 31" and g: "graph_ok g" "ids_ok c g" and u: "u < number_of_nodes g"
    and es: "\<forall>e \<in> set es. e < length (edge_list g) \<and> edge_list g ! e \<in> edges_at g u"
  shows "get_edges_at g (orig_node_id_to_new_id_map c) u es = Some (map (\<lambda>e. final_edge c u (edge_list g ! e)) es)"
  using es
proof (induction es)
  case (Cons e es)
  let ?x = "edge_list g ! e"
  have e: "e < length (edge_list g)" "?x \<in> edges_at g u" using Cons.prems by simp_all
  have v: "de_target ?x < number_of_nodes g" by (rule graph_okD(3) [OF g(1) u e(2)])
  have sp: "SPECIAL_NODEID \<noteq> orig_of c u" "SPECIAL_NODEID \<noteq> orig_of c (de_target ?x)"
    using chartD(1) [OF ch u] chartD(1) [OF ch v] n by (auto simp: SPECIAL_NODEID_def)
  let ?d = "de_data ?x"
  let ?i = "if ce_is_original_via_node_ID ?d then ce_id ?d else orig_of c (ce_id ?d)"
  have ids: "if orig_node_id_to_new_id_map c = [] \<or> ce_is_original_via_node_ID ?d then valid_id (ce_id ?d) else ce_id ?d < number_of_nodes g"
    using g(2) u e(2) unfolding ids_ok_def by blast
  then have i: "(if \<not> ce_is_original_via_node_ID ?d then orig_id (orig_node_id_to_new_id_map c) (ce_id ?d) else Some (ce_id ?d)) = Some ?i"
    using chartD(2) [OF ch, of "ce_id ?d"] by (auto simp: orig_id_def orig_of_def split: if_splits)
  have "valid_id ?i" using ids chartD(1) [OF ch, of "ce_id ?d"] n by (auto simp: valid_id_def orig_of_def split: if_splits)
  then have "?i mod 2 ^ 31 \<noteq> 2 ^ 31 - 1" unfolding valid_id_def .
  then show ?case using Cons chartD(2) [OF ch u] chartD(2) [OF ch v] sp i e(1)
    by (simp add: edge_reads EdgeData_of_def final_edge_def Let_def del: bind_eq_Some_conv)
qed simp

lemma get_edges_correct:
  assumes ch: "chart n c g" and n: "n < 2 ^ 31" and g: "graph_ok g" "ids_ok c g" and us: "\<forall>u \<in> set us. u < number_of_nodes g"
  shows "\<exists>qs. get_edges g (orig_node_id_to_new_id_map c) us = Some qs \<and> set qs = (\<Union>u \<in> set us. final_edge c u ` edges_at g u)"
  using us
proof (induction us)
  case (Cons u us)
  have u: "u < number_of_nodes g" using Cons.prems by simp
  obtain r where r: "dg_GetAdjacentEdgeRange g u = Some r" "\<forall>e \<in> set r. e < length (edge_list g)" "map (\<lambda>e. edge_list g ! e) r = out g u"
    using edge_range [OF g(1) u] .
  have eq: "edges_at g u = (\<lambda>e. edge_list g ! e) ` set r" unfolding r(3) [symmetric] by simp
  have at: "get_edges_at g (orig_node_id_to_new_id_map c) u r = Some (map (\<lambda>e. final_edge c u (edge_list g ! e)) r)"
    by (rule get_edges_at_correct [OF ch n g u]) (use r(2) eq in blast)
  obtain qs where "get_edges g (orig_node_id_to_new_id_map c) us = Some qs" "set qs = (\<Union>u \<in> set us. final_edge c u ` edges_at g u)"
    using Cons by auto
  moreover have "final_edge c u ` edges_at g u = (\<lambda>e. final_edge c u (edge_list g ! e)) ` set r" unfolding eq by (simp add: image_image)
  ultimately show ?case using r(1) at by simp
qed simp

lemma GetEdges_correct:
  assumes ch: "chart n c g" and n: "n < 2 ^ 31" and g: "graph_ok g" "ids_ok c g" "contractor_graph c = Some g"
    and sz: "sized (all_fwd c g) (all_bwd c g)"
  shows "\<exists>qs c'. GetEdges c vec = Some (vec @ qs, c') \<and>
    query_arcs ed_forward qs = all_fwd c g \<and> query_arcs ed_backward qs = all_bwd c g \<and>
    (\<forall>q \<in> set qs. qe_source q < n \<and> qe_target q < n \<and> (ed_forward (qe_data q) \<or> ed_backward (qe_data q)) \<and> ed_id (qe_data q) < 2 ^ 31)"
proof -
  let ?N = "number_of_nodes g"
  have "\<forall>u \<in> set (irange 0 ?N). u < ?N" by (simp add: irange_def)
  from get_edges_correct [OF ch n g(1,2) this]
  obtain qs where qs: "get_edges g (orig_node_id_to_new_id_map c) (irange 0 ?N) = Some qs"
    "set qs = (\<Union>u \<in> set (irange 0 ?N). final_edge c u ` edges_at g u)"
    by (elim exE conjE)
  have in_qs: "q \<in> set qs \<longleftrightarrow> (\<exists>u < ?N. \<exists>x \<in> edges_at g u. q = final_edge c u x)" for q
    unfolding qs(2) by (auto simp: irange_def)
  have d: "sbits 30 (ce_distance (de_data x)) = ce_distance (de_data x)" if "u < ?N" "x \<in> edges_at g u" for u x
  proof -
    have "(orig_of c (de_target x), ce_distance (de_data x)) \<in> all_fwd c g (orig_of c u) \<union> all_bwd c g (orig_of c u)"
      using graph_okD(4) [OF g(1) that] fwd_arcsI [OF that] bwd_arcsI [OF that] that(1)
        renamedD(2) [OF all_renamed(1) [OF ch g(1)], of u] renamedD(2) [OF all_renamed(2) [OF ch g(1)], of u] by blast
    then have "0 < ce_distance (de_data x) \<and> ce_distance (de_data x) < 2 ^ 29" using sz unfolding sized_def by blast
    then show ?thesis by (intro sbits_id) simp_all
  qed
  have ext: "\<forall>q \<in> set (external_edge_list c). qe_source q < n \<and> qe_target q < n \<and> (ed_forward (qe_data q) \<or> ed_backward (qe_data q)) \<and> ed_id (qe_data q) < 2 ^ 31"
    using ch unfolding chart_def by blast
  have q: "(v, w) \<in> query_arcs dir qs y \<longleftrightarrow> (\<exists>u < ?N. \<exists>x \<in> edges_at g u. orig_of c u = y \<and> dir (qe_data (final_edge c u x)) \<and>
      v = orig_of c (de_target x) \<and> w = ce_distance (de_data x))" for v w dir y
  proof -
    have "(v, w) \<in> query_arcs dir qs y \<longleftrightarrow> (\<exists>q \<in> set qs. qe_source q = y \<and> dir (qe_data q) \<and> v = qe_target q \<and> w = ed_distance (qe_data q))"
      by (auto simp: query_arcs_def)
    also have "\<dots> \<longleftrightarrow> (\<exists>u < ?N. \<exists>x \<in> edges_at g u. orig_of c u = y \<and> dir (qe_data (final_edge c u x)) \<and>
        v = orig_of c (de_target x) \<and> w = sbits 30 (ce_distance (de_data x)))"
      unfolding qs(2) by (auto simp: irange_def)
    finally show ?thesis using d by metis
  qed
  have "(v, w) \<in> lifted (orig_of c) {..<?N} (fwd_arcs g) y \<longleftrightarrow> (\<exists>u < ?N. \<exists>x \<in> edges_at g u. orig_of c u = y \<and> ce_forward (de_data x) \<and>
      v = orig_of c (de_target x) \<and> w = ce_distance (de_data x))"
    "(v, w) \<in> lifted (orig_of c) {..<?N} (bwd_arcs g) y \<longleftrightarrow> (\<exists>u < ?N. \<exists>x \<in> edges_at g u. orig_of c u = y \<and> ce_backward (de_data x) \<and>
      v = orig_of c (de_target x) \<and> w = ce_distance (de_data x))" for v w y
    unfolding lifted_def fwd_arcs_def bwd_arcs_def by auto
  then have "query_arcs ed_forward qs y = lifted (orig_of c) {..<?N} (fwd_arcs g) y"
    "query_arcs ed_backward qs y = lifted (orig_of c) {..<?N} (bwd_arcs g) y" for y
    using q [of _ _ ed_forward] q [of _ _ ed_backward] by auto
  moreover have "query_arcs f (xs @ ys) u = query_arcs f ys u \<union> query_arcs f xs u" for f xs ys u by (auto simp: query_arcs_def)
  ultimately have "query_arcs ed_forward (qs @ external_edge_list c) = all_fwd c g" "query_arcs ed_backward (qs @ external_edge_list c) = all_bwd c g"
    by (simp_all add: fun_eq_iff all_fwd_def all_bwd_def)
  moreover have "qe_source q < n \<and> qe_target q < n \<and> (ed_forward (qe_data q) \<or> ed_backward (qe_data q)) \<and> ed_id (qe_data q) < 2 ^ 31" if "q \<in> set (qs @ external_edge_list c)" for q
  proof (cases "q \<in> set qs")
    case True
    then obtain u x where "u < ?N" "x \<in> edges_at g u" "q = final_edge c u x" using in_qs by blast
    then show ?thesis using chartD(1) [OF ch] graph_okD(3,4) [OF g(1)] by simp
  qed (use that ext in simp)
  ultimately show ?thesis using qs(1) g(3) by (intro exI [of _ "qs @ external_edge_list c"]) (simp add: GetEdges_def dg_GetNumberOfNodes_def)
qed

section \<open>From the input to the edges\<close>

lemma represents_complete:
  assumes r: "represents (input_arcs es) g" and es: "valid_input n es" and g: "number_of_nodes g = n"
  shows "sound (input_arcs es) (fwd_arcs g) (bwd_arcs g)" "complete (input_arcs es) (fwd_arcs g) (bwd_arcs g) {..<n}"
proof -
  let ?A = "input_arcs es" and ?R = "{..<n}"
  show "sound ?A (fwd_arcs g) (bwd_arcs g)" using r walk_arc unfolding represents_def sound_def by blast
  have dom: "dominates (fwd_arcs g) u v d" if "(u, v, d) \<in> ?A" "u \<noteq> v" for u v d using r that unfolding represents_def by blast
  have short: "\<exists>w' \<le> w. walk (stored_arcs (fwd_arcs g) ?R) s t w'" if "walk ?A s t w" for s t w
    using that
  proof (induction rule: walk.induct)
    case (walk_nil s)
    show ?case using walk.walk_nil by blast
  next
    case (walk_step s u d t w)
    obtain w' where w': "w' \<le> w" "walk (stored_arcs (fwd_arcs g) ?R) u t w'" using walk_step.IH by blast
    note a = input_arc [OF es walk_step.hyps(1)]
    show ?case
    proof (cases "s = u")
      case True
      then show ?thesis using w' a(3) by (intro exI [of _ w']) simp
    next
      case False
      obtain d' where "d' \<le> d" "(u, d') \<in> fwd_arcs g s" using dom [OF walk_step.hyps(1) False] unfolding dominates_def by blast
      then have "walk (stored_arcs (fwd_arcs g) ?R) s t (d' + w')" using a(1) w'(2) by (intro walk.walk_step [of s u]) (simp_all add: stored_arcs_def)
      then show ?thesis using \<open>d' \<le> d\<close> w'(1) by (intro exI [of _ "d' + w'"]) simp
    qed
  qed
  have inside: "s < n \<and> t < n \<or> s = t \<and> w = 0" if "walk ?A s t w" for s t w
    using that by (induction rule: walk.induct) (use input_arc(1,2) [OF es] in auto)
  show "complete ?A (fwd_arcs g) (bwd_arcs g) ?R" unfolding complete_def
  proof (intro allI impI)
    fix s t w assume w: "walk ?A s t w"
    obtain w' where w': "w' \<le> w" "walk (stored_arcs (fwd_arcs g) ?R) s t w'" using short [OF w] by blast
    have nil: "walk X x x 0" for X x by (rule walk.walk_nil)
    from inside [OF w] show "meets (fwd_arcs g) (bwd_arcs g) ?R s t w"
    proof
      assume "s < n \<and> t < n"
      then show ?thesis unfolding meets_def using w' nil
        by (intro exI [of _ s] exI [of _ t] exI [of _ 0] exI [of _ w'] exI [of _ 0]) simp
    next
      assume "s = t \<and> w = 0"
      then show ?thesis unfolding meets_def using nil
        by (intro exI [of _ s] exI [of _ s] exI [of _ 0] exI [of _ 0] exI [of _ 0]) simp
    qed
  qed
qed

text \<open>A hierarchy for the arcs \<open>A\<close>: edges stand for walks, and every walk can be replaced by two that go up.\<close>

definition hierarchy_for :: "arc_set \<Rightarrow> nat \<Rightarrow> QueryEdge list \<Rightarrow> bool" where
  "hierarchy_for A n qs \<longleftrightarrow> (\<forall>q \<in> set qs. qe_source q < n \<and> qe_target q < n \<and> qe_source q \<noteq> qe_target q \<and>
       ed_id (qe_data q) < 2 ^ 31 \<and> 0 < ed_distance (qe_data q) \<and> ed_distance (qe_data q) < 2 ^ 29 \<and>
       (ed_forward (qe_data q) \<longrightarrow> walk A (qe_source q) (qe_target q) (ed_distance (qe_data q))) \<and>
       (ed_backward (qe_data q) \<longrightarrow> walk A (qe_target q) (qe_source q) (ed_distance (qe_data q)))) \<and>
     (\<forall>s t w. walk A s t w \<longrightarrow> (\<exists>m x z. walk (stored_arcs (query_arcs ed_forward qs) UNIV) s m x \<and>
       walk (stored_arcs (query_arcs ed_backward qs) UNIV) t m z \<and> x + z \<le> w))"

lemma whole_hierarchy:
  assumes F: "query_arcs ed_forward qs = F" "query_arcs ed_backward qs = B"
    and qs: "\<forall>q \<in> set qs. qe_source q < n \<and> qe_target q < n \<and> (ed_forward (qe_data q) \<or> ed_backward (qe_data q)) \<and> ed_id (qe_data q) < 2 ^ 31"
    and h: "sized F B" "complete A F B R" "sound A F B"
  shows "hierarchy_for A n qs"
proof -
  have arc: "(ed_forward (qe_data q) \<longrightarrow> (qe_target q, ed_distance (qe_data q)) \<in> F (qe_source q)) \<and>
      (ed_backward (qe_data q) \<longrightarrow> (qe_target q, ed_distance (qe_data q)) \<in> B (qe_source q))" if "q \<in> set qs" for q
    using that unfolding F [symmetric] query_arcs_def by blast
  have "qe_source q \<noteq> qe_target q \<and> 0 < ed_distance (qe_data q) \<and> ed_distance (qe_data q) < 2 ^ 29" if "q \<in> set qs" for q
    using arc [OF that] qs that h(1) unfolding sized_def by (metis Un_iff)
  then show ?thesis unfolding hierarchy_for_def F using arc qs h(3) complete_hierarchy [OF h(2)] unfolding sound_def by blast
qed

lemma Contractor_new_starts:
  assumes srt: "sorts psort" "n \<le> SPECIAL_NODEID" and es: "valid_input n es" and c: "Contractor_new psort fresh hash n es = Some c"
  obtains g where "starts (input_arcs es) n c g" "represents (input_arcs es) g"
proof -
  obtain g where g: "c = \<lparr> contractor_graph = Some g, external_edge_list = [], orig_node_id_to_new_id_map = [], contractor_fast_hash = hash \<rparr>"
    "graph_ok g" "number_of_nodes g = n" "represents (input_arcs es) g" "\<forall>u < n. \<forall>y \<in> edges_at g u. valid_id (ce_id (de_data y))"
    using Contractor_new_correct [OF srt es, of fresh hash] c by auto
  have "ids_ok c g" using g(1,3,5) by (simp add: ids_ok_def)
  then have "starts (input_arcs es) n c g" unfolding starts_def
    using g represents_overlay [OF g(4) es] represents_complete [OF g(4) es g(3)] represents_light [OF g(4) es] by simp
  then show thesis using that g(4) by blast
qed

context contraction_storage
begin

lemma contraction_returns:
  assumes env: "runs env" and n: "n < 2 ^ 31" and es: "valid_input n es"
    and c: "Contractor_new (env_sort env) (env_fresh env) hash n es = Some c" and tm: "tame tot env c"
  shows "returns tot (Option.bind (Run env c) (\<lambda>c. GetEdges c [])) (\<lambda>(qs, _). hierarchy_for (input_arcs es) n qs)"
proof -
  let ?A = "input_arcs es"
  have srt: "sorts (env_sort env)" "n \<le> SPECIAL_NODEID" using env n by (auto simp: runs_def env_ok_def SPECIAL_NODEID_def)
  obtain g where g: "starts ?A n c g" "represents ?A g" using Contractor_new_starts [OF srt es c] by blast
  have run: "returns tot (Run env c) (\<lambda>c'. \<exists>g' R st. whole_inv hinv ?A n g' R st \<and> c' = run_contractor st)"
    by (rule Run_returns [OF env g(1) n tm])
  show ?thesis
  proof (rule returns_bind [OF run], elim exE conjE)
    fix c' g' R st assume w: "whole_inv hinv ?A n g' R st" "c' = run_contractor st"
    obtain c1 where w1: "c1 = run_contractor st" "run_inv (hinv (number_of_nodes g')) g' R st" "chart n c1 g'" "ids_ok c1 g'"
      "sized (all_fwd c1 g') (all_bwd c1 g')" "complete ?A (all_fwd c1 g') (all_bwd c1 g') (orig_of c1 ` R)" "sound ?A (all_fwd c1 g') (all_bwd c1 g')"
      using w(1) by (rule whole_invE)
    note D = run_invD [OF w1(2)]
    obtain qs c2 where qs: "GetEdges c1 [] = Some ([] @ qs, c2)" "query_arcs ed_forward qs = all_fwd c1 g'" "query_arcs ed_backward qs = all_bwd c1 g'"
      "\<forall>q \<in> set qs. qe_source q < n \<and> qe_target q < n \<and> (ed_forward (qe_data q) \<or> ed_backward (qe_data q)) \<and> ed_id (qe_data q) < 2 ^ 31"
      using GetEdges_correct [OF w1(3) n D(2) w1(4) _ w1(5), of "[]"] D(1) w1(1) by blast
    show "returns tot (GetEdges c' []) (\<lambda>(qs, _). hierarchy_for ?A n qs)"
      using qs(1) w(2) w1(1) whole_hierarchy [OF qs(2-4) w1(5-7)] by simp
  qed
qed

end

section \<open>Small inputs are tame\<close>

text \<open>Priorities are rounded values.\<close>

lemma update_priorities_values:
  "update_priorities ops fl g nd us (ps, td) = Some (ps', td') \<Longrightarrow> set ps' \<subseteq> set ps \<union> range fl"
proof (induction us arbitrary: ps td)
  case (Cons u us)
  obtain depth p td1 where p: "EvaluateNodePriority ops fl g td depth u = Some (p, td1)" "u < length ps"
    "update_priorities ops fl g nd us (ps[u := p], td1) = Some (ps', td')"
    using Cons.prems by (auto simp: bind_eq_Some_conv vec_upd_def split: if_splits)
  have "p \<in> range fl" using p(1) by (auto simp: EvaluateNodePriority_def node_priority_def Let_def bind_eq_Some_conv)
  then show ?case using Cons.IH [OF p(3)] set_update_subset_insert [of ps u p] by blast
qed simp

lemma update_contracted_values:
  "update_contracted ops fl g xs (ps, nd, td) = Some (ps', nd', td') \<Longrightarrow> set ps' \<subseteq> set ps \<union> range fl"
proof (induction xs arbitrary: ps nd td)
  case (Cons x xs)
  then obtain ps1 nd1 td1 where u: "UpdateNodeNeighbours ops fl g (ps, nd, td) x = Some (ps1, nd1, td1)"
    "update_contracted ops fl g xs (ps1, nd1, td1) = Some (ps', nd', td')"
    by (auto simp: bind_eq_Some_conv)
  have "set ps1 \<subseteq> set ps \<union> range fl"
    using u(1) update_priorities_values by (fastforce simp: UpdateNodeNeighbours_def bind_eq_Some_conv)
  then show ?case using Cons.IH [OF u(2)] by blast
qed simp

lemma renumber_nodes_values: "renumber_nodes k rs ps t = Some (os, t', ps', rs') \<Longrightarrow> set ps' \<subseteq> set ps"
proof (induction rs arbitrary: k t os t' ps' rs')
  case (Cons r rs)
  then obtain p os1 ps1 rs1 t1 where "rn_id r < length ps" "p = ps ! rn_id r" "ps' = p # ps1" "renumber_nodes (k + 1) rs ps t1 = Some (os1, t', ps1, rs1)"
    by (auto simp: bind_eq_Some_conv vec_at_def split: if_splits)
  then show ?case using Cons.IH by fastforce
qed simp

lemma contract_step_values:
  assumes "contract_step env n st = Some st'"
  shows "set (node_priorities st') \<subseteq> set (node_priorities st) \<union> range (env_fl env)"
proof -
  obtain st1 where st1: "(if flush_due n st then flush_contractor env n st else Some st) = Some st1" "contract_round env st1 = Some st'"
    using assms by (auto simp: contract_step_def bind_eq_Some_conv)
  have "set (node_priorities st1) \<subseteq> set (node_priorities st)"
    using st1(1) renumber_nodes_values by (fastforce simp: flush_contractor_def Let_def bind_eq_Some_conv split: if_splits)
  moreover have "set (node_priorities st') \<subseteq> set (node_priorities st1) \<union> range (env_fl env)"
    using st1(2) update_contracted_values by (fastforce simp: contract_round_def Let_def bind_eq_Some_conv)
  ultimately show ?thesis by blast
qed

lemma Run_init_values: "Run_init env c = Some st \<Longrightarrow> set (node_priorities st) \<subseteq> insert 0 (range (env_fl env))"
  using update_priorities_values by (fastforce simp: Run_init_def Let_def bind_eq_Some_conv)

context contraction_storage
begin

lemma small_tame:
  assumes env: "runs env" and n: "n < 2 ^ 31" and es: "valid_input n es"
    and c: "Contractor_new (env_sort env) (env_fresh env) hash n es = Some c"
    and W: "\<forall>(u, v, d) \<in> input_arcs es. d < W" "0 \<le> W" "W * 2 ^ n \<le> 2 ^ 28" and fl: "untied (env_fl env) (insert 0 (range (env_fl env)))"
  shows "tame b env c"
proof -
  let ?A = "input_arcs es" and ?P = "insert 0 (range (env_fl env))"
  have srt: "sorts (env_sort env)" "n \<le> SPECIAL_NODEID" using env n by (auto simp: runs_def env_ok_def SPECIAL_NODEID_def)
  obtain g where g: "starts ?A n c g" "represents ?A g" using Contractor_new_starts [OF srt es c] by blast
  have gn: "contractor_graph c = Some g" "number_of_nodes g = n" using g(1) by (simp_all add: starts_def)
  define I where "I st \<longleftrightarrow> (\<exists>g R. whole_inv hinv ?A n g R st) \<and> light_run (W * 2 ^ number_of_contracted_nodes st) st \<and> set (node_priorities st) \<subseteq> ?P" for st
  have good: "light_run (2 ^ 28) st \<and> untied (env_fl env) (remaining_priorities st)" if "I st" for st
  proof -
    have "number_of_contracted_nodes st \<le> n" using that by (auto simp: I_def elim!: whole_invE)
    then have "W * 2 ^ number_of_contracted_nodes st \<le> 2 ^ 28"
      using W(2,3) mult_left_mono [of "2 ^ number_of_contracted_nodes st" "2 ^ n" W] by simp
    then have "light_run (2 ^ 28) st" using that lighter_mono unfolding I_def light_run_def by blast
    moreover have "remaining_priorities st \<subseteq> set (node_priorities st)" by (auto simp: remaining_priorities_def vec_at_def split: if_splits)
    then have "remaining_priorities st \<subseteq> ?P" using that unfolding I_def by blast
    ultimately show ?thesis using fl unfolding untied_def by blast
  qed
  have init: "I st0" if st0: "Run_init env c = Some st0" for st0
  proof -
    have w: "whole_inv hinv ?A n g {..<n} st0" "number_of_contracted_nodes st0 = 0"
      using Run_init_whole [OF env g(1) n] st0 by simp_all
    have "lighter W g X" for X using g(2) W(1) unfolding represents_def lighter_def by fast
    then have "light_run W st0" using w(1) by (auto simp: light_run_def elim!: whole_invE dest!: run_invD(1))
    then show ?thesis using w Run_init_values [OF st0] unfolding I_def by auto
  qed
  have "I st" if "contracting env n st0 st" "Run_init env c = Some st0" for st0 st
    using that
  proof (induction rule: contracting.induct)
    case (contracting_step st' st'')
    have i: "I st'" by (rule contracting_step.IH [OF contracting_step.prems])
    then obtain g1 R where w: "whole_inv hinv ?A n g1 R st'" unfolding I_def by blast
    have s: "\<exists>g R. whole_inv hinv ?A n g R st''" "\<forall>W. light_run W st' \<longrightarrow> light_run (2 * W) st''"
      "number_of_contracted_nodes st' < number_of_contracted_nodes st''"
      using contract_step_whole [OF env n w contracting_step.hyps(3)] good [OF i] contracting_step.hyps(4) by simp_all
    have "light_run (2 * (W * 2 ^ number_of_contracted_nodes st')) st''" using i s(2) unfolding I_def by blast
    moreover have "2 * (W * 2 ^ number_of_contracted_nodes st') \<le> W * 2 ^ number_of_contracted_nodes st''"

    proof -
      have "(2 :: int) ^ Suc (number_of_contracted_nodes st') \<le> 2 ^ number_of_contracted_nodes st''" using s(3) by (intro power_increasing) simp_all
      from mult_left_mono [OF this W(2)] show ?thesis by (simp add: mult.left_commute)
    qed
    ultimately have "light_run (W * 2 ^ number_of_contracted_nodes st'') st''" unfolding light_run_def using lighter_mono by blast
    then show ?case using s(1) contract_step_values [OF contracting_step.hyps(4)] i unfolding I_def by blast
  qed (rule init)
  then show ?thesis using good gn unfolding tame_def by fastforce
qed

end

section \<open>The storages\<close>

interpretation array_run: contraction_storage ArrayStorage "\<lambda>N positions. length positions = N" vec_at
  "\<lambda>positions node. node < length positions" "\<lambda>_. True" True ArrayStorage_new
  by unfold_locales (use array_search.search_storage_axioms in \<open>simp_all add: ArrayStorage_new_def\<close>)

interpretation hash_run: contraction_storage ContractorStorage "\<lambda>_. xor_inv" contractor_val contractor_ok "\<lambda>_. True" False
  "\<lambda>_. XORFastHashStorage_new hasher" for hasher
proof (rule contraction_storage.intro, goal_cases)
  case (1 N)
  then show ?case using hash_search.search_storage_axioms [of N] by (simp add: min_def)
qed (rule xor_new_inv)

end
