(* ===== verification/Prepare.thy ===== *)
theory Prepare
  imports Contractor_Hierarchy Facade
begin

text \<open>
  The last part of the preprocessing and the start of the server: \<^verbatim>\<open>Contractor/Prepare.cpp\<close> contracts the
  edge-based graph and writes it as an adjacency array to the \<^verbatim>\<open>.hsgr\<close> file; \<open>readHSGRFromStream\<close> of
  \<^verbatim>\<open>Util/GraphLoader.h\<close> and \<open>LoadGraph\<close> of \<^verbatim>\<open>InternalDataFacade.h\<close> read it back.  The graph that the server
  searches is a hierarchy for the input of the contraction, with the same distances.
\<close>

section \<open>Contraction\<close>

definition contract_edges :: "'s ContractorEnv \<Rightarrow> XORFastHash \<Rightarrow> nat \<Rightarrow> EdgeBasedEdge list \<Rightarrow> QueryEdge list option" where
  "contract_edges env hash number_of_edge_based_nodes edge_based_edge_list = do {
     contractor \<leftarrow> Contractor_new (env_sort env) (env_fresh env) hash number_of_edge_based_nodes edge_based_edge_list;
     contractor \<leftarrow> Run env contractor;
     (contracted_edge_list, contractor) \<leftarrow> GetEdges contractor [];
     Some contracted_edge_list
   }"

section \<open>The adjacency array\<close>

fun max_node :: "QueryEdge list \<Rightarrow> nat \<Rightarrow> nat option" where
  "max_node [] tmp_max = Some tmp_max"
| "max_node (edge # es) tmp_max = do {
     assert_that (SPECIAL_NODEID \<noteq> qe_source edge);
     assert_that (SPECIAL_NODEID \<noteq> qe_target edge);
     max_node es (max (max tmp_max (qe_source edge)) (qe_target edge))
   }"

definition max_used_node_id :: "QueryEdge list \<Rightarrow> nat option" where
  "max_used_node_id contracted_edge_list = map_option (\<lambda>m. 1 + m) (max_node contracted_edge_list 0)"

function skip_edges :: "QueryEdge list \<Rightarrow> NodeID \<Rightarrow> nat \<Rightarrow> nat" where
  "skip_edges es node edge =
     (if edge < length es \<and> qe_source (es ! edge) = node then skip_edges es node (edge + 1) else edge)"
  by pat_completeness auto
termination by (relation "measure (\<lambda>(es, _, e). length es - e)") auto

declare skip_edges.simps [simp del]

fun place_first_edges :: "QueryEdge list \<Rightarrow> NodeID list \<Rightarrow> nat \<Rightarrow> nat \<Rightarrow> EdgeID list \<Rightarrow> EdgeID list option" where
  "place_first_edges es [] edge position na = Some na"
| "place_first_edges es (node # ns) edge position na = do {
     let last_edge = edge;
     let edge = skip_edges es node edge;
     na \<leftarrow> vec_upd na node (\<lambda>_. position);
     place_first_edges es ns edge (position + (edge - last_edge)) na
   }"

fun place_sentinels :: "nat \<Rightarrow> nat list \<Rightarrow> EdgeID list \<Rightarrow> EdgeID list option" where
  "place_sentinels contracted_edge_count [] na = Some na"
| "place_sentinels contracted_edge_count (i # is) na = do {
     na \<leftarrow> vec_upd na i (\<lambda>_. contracted_edge_count);
     place_sentinels contracted_edge_count is na
   }"

definition build_node_array :: "nat \<Rightarrow> QueryEdge list \<Rightarrow> EdgeID list option" where
  "build_node_array number_of_edge_based_nodes es = do {
     max_used \<leftarrow> max_used_node_id es;
     let na = replicate (number_of_edge_based_nodes + 1) 0;
     na \<leftarrow> place_first_edges es (irange 0 max_used) 0 0 na;
     place_sentinels (length es) (irange max_used (length na)) na
   }"

text \<open>In a debug build an edge without a positive distance ends the program.\<close>

fun build_edge_array :: "nat \<Rightarrow> QueryEdge list \<Rightarrow> EdgeData DG_Edge list option" where
  "build_edge_array max_used [] = Some []"
| "build_edge_array max_used (e # es) = do {
     assert_that (qe_source e \<noteq> qe_target e);
     let current_edge = \<lparr> de_target = qe_target e, de_data = qe_data e \<rparr>;
     assert_that (de_target current_edge < max_used);
     assert_that (ed_distance (de_data current_edge) > 0);
     rest \<leftarrow> build_edge_array max_used es;
     Some (current_edge # rest)
   }"

section \<open>The file\<close>

text \<open>
  Structures are written as their memory.  The bit fields of \<open>EdgeData\<close> fill two words from the least
  significant bit: 31 bits \<open>id\<close> and \<open>shortcut\<close>; 30 bits \<open>distance\<close>, \<open>forward\<close> and \<open>backward\<close>.
\<close>

definition EdgeData_words :: "EdgeData \<Rightarrow> nat \<times> nat" where
  "EdgeData_words d =
     (ed_id d mod 2 ^ 31 + 2 ^ 31 * of_bool (ed_shortcut d),
      nat (ed_distance d mod 2 ^ 30) + 2 ^ 30 * of_bool (ed_forward d) + 2 ^ 31 * of_bool (ed_backward d))"

definition EdgeData_of_words :: "nat \<Rightarrow> nat \<Rightarrow> EdgeData" where
  "EdgeData_of_words a b = \<lparr> ed_id = a mod 2 ^ 31, ed_shortcut = odd (a div 2 ^ 31),
     ed_distance = sbits 30 (int (b mod 2 ^ 30)), ed_forward = odd (b div 2 ^ 30), ed_backward = odd (b div 2 ^ 31) \<rparr>"

definition EdgeArrayEntry_bytes :: "EdgeData DG_Edge \<Rightarrow> nat list" where
  "EdgeArrayEntry_bytes e = bytes32 (de_target e) @
     (let (a, b) = EdgeData_words (de_data e) in bytes32 a @ bytes32 b)"

definition write_hsgr :: "(QueryEdge list \<Rightarrow> QueryEdge list) \<Rightarrow> nat list \<Rightarrow> nat \<Rightarrow> nat \<Rightarrow> QueryEdge list \<Rightarrow> nat list option" where
  "write_hsgr parallel_sort fingerprint_orig crc32_value number_of_edge_based_nodes contracted_edge_list = do {
     let es = parallel_sort contracted_edge_list;
     max_used \<leftarrow> max_used_node_id es;
     na \<leftarrow> build_node_array number_of_edge_based_nodes es;
     ea \<leftarrow> build_edge_array max_used es;
     Some (fingerprint_orig @ bytes32 crc32_value @ bytes32 (length na) @ bytes32 (length es) @
       concat (map bytes32 na) @ concat (map EdgeArrayEntry_bytes ea))
   }"

text \<open>A fingerprint in memory: the magic number, four terminated checksums, a UUID and a flag.\<close>

definition IsMagicNumberOK :: "nat list \<Rightarrow> bool" where
  "IsMagicNumberOK fp \<longleftrightarrow> map_option fst (read32 fp) = Some 1297240911"

definition TestGraphUtil :: "nat list \<Rightarrow> nat list \<Rightarrow> bool option" where
  "TestGraphUtil fp other = do {
     assert_that (IsMagicNumberOK other);
     Some (take 32 (drop 70 fp) = take 32 (drop 70 other))
   }"

fun read_edge_entries :: "nat \<Rightarrow> nat list \<Rightarrow> (EdgeData DG_Edge list \<times> nat list) option" where
  "read_edge_entries 0 inp = Some ([], inp)"
| "read_edge_entries (Suc k) inp = do {
     (target, inp) \<leftarrow> read32 inp;
     (a, inp) \<leftarrow> read32 inp;
     (b, inp) \<leftarrow> read32 inp;
     (es, inp) \<leftarrow> read_edge_entries k inp;
     Some (\<lparr> de_target = target, de_data = EdgeData_of_words a b \<rparr> # es, inp)
   }"

text \<open>The file is missing, empty, or its bytes; the result of comparing fingerprints is only logged.\<close>

definition readHSGRFromStream ::
    "nat list \<Rightarrow> nat list option \<Rightarrow> (nat \<times> EdgeID list \<times> EdgeData DG_Edge list \<times> nat) option" where
  "readHSGRFromStream fingerprint_orig hsgr_file = do {
     inp \<leftarrow> hsgr_file;
     assert_that (inp \<noteq> []);
     assert_that (length fingerprint_orig \<le> length inp);
     fingerprints_match \<leftarrow> TestGraphUtil (take (length fingerprint_orig) inp) fingerprint_orig;
     let inp = drop (length fingerprint_orig) inp;
     (check_sum, inp) \<leftarrow> read32 inp;
     (number_of_nodes, inp) \<leftarrow> read32 inp;
     assert_that (0 \<noteq> number_of_nodes);
     (number_of_edges, inp) \<leftarrow> read32 inp;
     (node_list, inp) \<leftarrow> read_offsets number_of_nodes inp;
     (edge_list, inp) \<leftarrow> read_edge_entries number_of_edges inp;
     Some (number_of_nodes, node_list, edge_list, check_sum)
   }"

definition LoadGraph :: "nat list \<Rightarrow> nat list option \<Rightarrow> Facade \<Rightarrow> Facade option" where
  "LoadGraph fingerprint_orig hsgr_file f = do {
     (number_of_nodes, node_list, edge_list, check_sum) \<leftarrow> readHSGRFromStream fingerprint_orig hsgr_file;
     assert_that (0 \<noteq> length node_list);
     Some (f\<lparr> m_check_sum := check_sum, m_query_graph := StaticGraph_adopt node_list edge_list \<rparr>)
   }"

section \<open>The arrays are the adjacency of the edges\<close>

definition as_input :: "QueryEdge \<Rightarrow> EdgeData InputEdge" where
  "as_input q = \<lparr> ie_source = qe_source q, ie_target = qe_target q, ie_data = qe_data q \<rparr>"

lemma as_input_source [simp]: "ie_source (as_input q) = qe_source q"
  by (simp add: as_input_def)

lemma skip_edges_source: "skip_edges es node edge = skip_source (map as_input es) node edge"
proof (induction es node edge rule: skip_edges.induct)
  case (1 es node edge)
  have "edge < length (map as_input es) \<and> ie_source (map as_input es ! edge) = node \<longleftrightarrow> edge < length es \<and> qe_source (es ! edge) = node" by auto
  then show ?case using 1 skip_edges.simps [of es node edge] skip_source.simps [of "map as_input es" node edge] by presburger
qed

lemma skip_edges_pos:
  assumes "sorted (map qe_source es)"
  shows "skip_edges es n (key_pos qe_source es n) = key_pos qe_source es (Suc n)"
proof -
  have k: "key_pos ie_source (map as_input es) m = key_pos qe_source es m" for m
    by (simp add: key_pos_def filter_map o_def)
  have "sorted (map ie_source (map as_input es))" using assms by (simp add: o_def)
  from skip_source_pos [OF this order_refl key_pos_mono, of n] show ?thesis by (simp add: skip_edges_source k)
qed

lemma place_first_edges_correct:
  assumes "sorted (map qe_source es)" "b \<le> length na"
  shows "\<exists>na'. place_first_edges es (irange a b) (key_pos qe_source es a) (key_pos qe_source es a) na = Some na' \<and> length na' = length na \<and>
    (\<forall>i < length na. na' ! i = (if a \<le> i \<and> i < b then key_pos qe_source es i else na ! i))"
  using assms(2)
proof (induction "b - a" arbitrary: a na)
  case (Suc k)
  let ?p = "key_pos qe_source es"
  have a: "a < b" "a < length na" using Suc by simp_all
  obtain na' where na': "place_first_edges es (irange (Suc a) b) (?p (Suc a)) (?p (Suc a)) (na[a := ?p a]) = Some na'"
    "length na' = length (na[a := ?p a])"
    "\<forall>i < length (na[a := ?p a]). na' ! i = (if Suc a \<le> i \<and> i < b then ?p i else na[a := ?p a] ! i)"
    using Suc.hyps(1) [of "Suc a" "na[a := ?p a]"] Suc.hyps(2) Suc.prems by fastforce
  have "?p a + (?p (Suc a) - ?p a) = ?p (Suc a)" using key_pos_mono [of a "Suc a" qe_source es] by simp
  then have "place_first_edges es (irange a b) (?p a) (?p a) na = Some na'"
    using na'(1) a skip_edges_pos [OF assms(1), of a] by (simp add: irange_Cons vec_simps Let_def)
  moreover have "na' ! i = (if a \<le> i \<and> i < b then ?p i else na ! i)" if "i < length na" for i
    using na'(3) that a(1) by (cases "i = a") auto
  ultimately show ?case using na'(2) by (intro exI [of _ na']) simp
qed (auto simp: irange_def)

lemma place_sentinels_correct:
  assumes "b \<le> length na"
  shows "\<exists>na'. place_sentinels k (irange a b) na = Some na' \<and> length na' = length na \<and>
    (\<forall>i < length na. na' ! i = (if a \<le> i \<and> i < b then k else na ! i))"
  using assms
proof (induction "b - a" arbitrary: a na)
  case (Suc m)
  have a: "a < b" "a < length na" using Suc by simp_all
  obtain na' where na': "place_sentinels k (irange (Suc a) b) (na[a := k]) = Some na'" "length na' = length (na[a := k])"
    "\<forall>i < length (na[a := k]). na' ! i = (if Suc a \<le> i \<and> i < b then k else na[a := k] ! i)"
    using Suc.hyps(1) [of "Suc a" "na[a := k]"] Suc.hyps(2) Suc.prems by fastforce
  moreover have "na' ! i = (if a \<le> i \<and> i < b then k else na ! i)" if "i < length na" for i
    using na'(3) that a(1) by (cases "i = a") auto
  ultimately show ?case using a by (intro exI [of _ na']) (simp add: irange_Cons vec_simps)
qed (auto simp: irange_def)

lemma max_node_correct:
  assumes "\<forall>q \<in> set es. qe_source q < n \<and> qe_target q < n" "n \<le> SPECIAL_NODEID" "k \<le> n - 1"
  shows "\<exists>m. max_node es k = Some m \<and> k \<le> m \<and> m \<le> n - 1 \<and> (\<forall>q \<in> set es. qe_source q \<le> m \<and> qe_target q \<le> m)"
  using assms(1,3)
proof (induction es arbitrary: k)
  case (Cons q es)
  have q: "qe_source q < n" "qe_target q < n" using Cons.prems(1) by simp_all
  then have "max (max k (qe_source q)) (qe_target q) \<le> n - 1" using Cons.prems(2) by auto
  then obtain m where m: "max_node es (max (max k (qe_source q)) (qe_target q)) = Some m" "max (max k (qe_source q)) (qe_target q) \<le> m" "m \<le> n - 1"
    "\<forall>q \<in> set es. qe_source q \<le> m \<and> qe_target q \<le> m"
    using Cons.IH [of "max (max k (qe_source q)) (qe_target q)"] Cons.prems(1) by auto
  then show ?case using q assms(2) by (intro exI [of _ m]) auto
qed simp

lemma max_used_node_id_correct:
  assumes "\<forall>q \<in> set es. qe_source q < n \<and> qe_target q < n" "n \<le> SPECIAL_NODEID"
  shows "\<exists>m. max_used_node_id es = Some m \<and> m \<le> n + 1 \<and> (\<forall>q \<in> set es. qe_source q < m \<and> qe_target q < m)"
proof -
  obtain m where "max_node es 0 = Some m" "m \<le> n - 1" "\<forall>q \<in> set es. qe_source q \<le> m \<and> qe_target q \<le> m"
    using max_node_correct [OF assms, of 0] by auto
  then show ?thesis by (intro exI [of _ "Suc m"]) (auto simp: max_used_node_id_def less_Suc_eq_le)
qed

lemma build_node_array_correct:
  assumes es: "\<forall>q \<in> set es. qe_source q < n \<and> qe_target q < n" "n \<le> SPECIAL_NODEID" and srt: "sorted (map qe_source es)"
  shows "build_node_array n es = Some (map (key_pos qe_source es) (irange 0 (n + 1)))"
proof -
  let ?p = "key_pos qe_source es" and ?z = "replicate (n + 1) 0"
  obtain m where m: "max_used_node_id es = Some m" "m \<le> n + 1" "\<forall>q \<in> set es. qe_source q < m \<and> qe_target q < m"
    using max_used_node_id_correct [OF es] by blast
  have "m \<le> length ?z" using m(2) by simp
  from place_first_edges_correct [OF srt this, of 0]
  obtain na where na: "place_first_edges es (irange 0 m) 0 0 ?z = Some na" "length na = n + 1"
    "\<forall>i < n + 1. na ! i = (if 0 \<le> i \<and> i < m then ?p i else ?z ! i)" by auto
  from place_sentinels_correct [of "length na" na "length es" m]
  obtain na' where na': "place_sentinels (length es) (irange m (length na)) na = Some na'" "length na' = n + 1"
    "\<forall>i < n + 1. na' ! i = (if m \<le> i \<and> i < n + 1 then length es else na ! i)" using na(2) by auto
  have "na' ! i = ?p i" if "i < n + 1" for i
  proof (cases "i < m")
    case False
    then have "\<forall>q \<in> set es. qe_source q < i" using m(3) by fastforce
    then show ?thesis using na'(3) that False by (simp add: key_pos_all)
  qed (use na(3) na'(3) that in simp)
  then have "na' = map ?p (irange 0 (n + 1))" using na'(2) by (intro nth_equalityI) (auto simp: irange_def simp del: upt_Suc)
  then show ?thesis using m(1) na(1) na'(1) by (simp add: build_node_array_def Let_def)
qed

definition array_edge :: "QueryEdge \<Rightarrow> EdgeData DG_Edge" where
  "array_edge q = \<lparr> de_target = qe_target q, de_data = qe_data q \<rparr>"

lemma build_edge_array_correct:
  "\<forall>q \<in> set es. qe_source q \<noteq> qe_target q \<and> qe_target q < m \<and> 0 < ed_distance (qe_data q) \<Longrightarrow>
    build_edge_array m es = Some (map array_edge es)"
  by (induction es) (simp_all add: array_edge_def)

text \<open>The graph made of the arrays.\<close>

lemma adopt_correct:
  assumes es: "\<forall>q \<in> set es. qe_source q < n" and srt: "sorted (map qe_source es)" and size: "length es < SPECIAL_EDGEID"
  defines "g \<equiv> StaticGraph_adopt (map (key_pos qe_source es) (irange 0 (n + 1))) (map array_edge es)"
  shows "sg_inv g" "sg_number_of_nodes g = n" "u < n \<Longrightarrow> sg_out g u = map array_edge (filter (\<lambda>q. qe_source q = u) es)"
proof -
  let ?p = "key_pos qe_source es" and ?na = "map (key_pos qe_source es) (irange 0 (n + 1))"
  have pos: "?p n = length es" using es by (simp add: key_pos_all)
  have "sorted ?na" by (simp add: irange_def sorted_map key_pos_mono sorted_wrt_iff_nth_less del: upt_Suc)
  then show "sg_inv g" using pos size by (simp add: g_def StaticGraph_adopt_def sg_inv_def irange_def)
  show "sg_number_of_nodes g = n" by (simp add: g_def StaticGraph_adopt_def irange_def)
  assume "u < n"
  then have "sg_out g u = seg (map array_edge es) (?p u) (?p (Suc u))"
    by (simp add: g_def StaticGraph_adopt_def sg_out_def irange_def del: upt_Suc)
  also have "\<dots> = map array_edge (seg es (?p u) (?p (Suc u)))"
    using less_le_trans [OF _ key_pos_le [of qe_source es "Suc u"]] by (auto simp: seg_def)
  finally show "sg_out g u = map array_edge (filter (\<lambda>q. qe_source q = u) es)" using filter_key_seg [OF srt] by simp
qed

section \<open>Reading back\<close>

lemma EdgeData_words_bounds: "fst (EdgeData_words d) < 2 ^ 32" "snd (EdgeData_words d) < 2 ^ 32"
proof -
  have "ed_id d mod 2 ^ 31 < 2 ^ 31" "2 ^ 31 * of_bool (ed_shortcut d) \<le> (2 ^ 31 :: nat)" by simp_all
  from add_less_le_mono [OF this] show "fst (EdgeData_words d) < 2 ^ 32" by (simp add: EdgeData_words_def)
  have "nat (ed_distance d mod 2 ^ 30) < 2 ^ 30" "2 ^ 30 * of_bool (ed_forward d) \<le> (2 ^ 30 :: nat)" by (simp_all add: nat_less_iff)
  from add_less_le_mono [OF this] have "nat (ed_distance d mod 2 ^ 30) + 2 ^ 30 * of_bool (ed_forward d) < 2 ^ 31" by simp
  moreover have "2 ^ 31 * of_bool (ed_backward d) \<le> (2 ^ 31 :: nat)" by simp
  ultimately show "snd (EdgeData_words d) < 2 ^ 32" unfolding EdgeData_words_def using add_less_le_mono by fastforce
qed

lemma EdgeData_of_words_inverse:
  assumes "ed_id d < 2 ^ 31" "0 \<le> ed_distance d" "ed_distance d < 2 ^ 29"
  shows "EdgeData_of_words (fst (EdgeData_words d)) (snd (EdgeData_words d)) = d"
proof -
  obtain i s w f b where d: "d = \<lparr> ed_id = i, ed_shortcut = s, ed_distance = int w, ed_forward = f, ed_backward = b \<rparr>"
    using assms(2) by (cases d) (metis EdgeData.select_convs(3) nonneg_int_cases)
  have i: "i < 2 ^ 31" and w: "w < 2 ^ 30" using assms by (simp_all add: d)
  let ?v = "snd (EdgeData_words d)"
  have "nat (int w mod 2 ^ 30) = w" using w by (simp add: nat_mod_as_int flip: zmod_int)
  then have v: "?v = w + 2 ^ 30 * (of_bool f + 2 * of_bool b)" by (simp add: d EdgeData_words_def)
  have v1: "?v mod 2 ^ 30 = w" "?v div 2 ^ 30 = of_bool f + 2 * of_bool b"
    using w unfolding v by (simp only: mod_mult_self2 mod_less, subst div_mult_self2) simp_all
  have "?v div 2 ^ 31 = ?v div 2 ^ 30 div 2" by (simp add: div_mult2_eq [symmetric])
  also have "\<dots> = of_bool b" unfolding v1(2) by (cases f; cases b) simp_all
  finally have v2: "?v div 2 ^ 31 = of_bool b" .
  have sb: "sbits 30 (int w) = int w" using assms(3) by (intro sbits_id) (simp_all add: d)
  have "fst (EdgeData_words d) mod 2 ^ 31 = i" "fst (EdgeData_words d) div 2 ^ 31 = of_bool s" using i by (simp_all add: d EdgeData_words_def)
  then show ?thesis unfolding EdgeData_of_words_def v1 v2 by (simp add: d sb)
qed

lemma read_edge_entries_bytes:
  assumes "\<forall>e \<in> set ea. de_target e < 2 ^ 32 \<and> ed_id (de_data e) < 2 ^ 31 \<and> 0 \<le> ed_distance (de_data e) \<and> ed_distance (de_data e) < 2 ^ 29"
  shows "read_edge_entries (length ea) (concat (map EdgeArrayEntry_bytes ea) @ rest) = Some (ea, rest)"
  using assms
proof (induction ea)
  case (Cons e ea)
  have e: "de_target e < 2 ^ 32" "EdgeData_of_words (fst (EdgeData_words (de_data e))) (snd (EdgeData_words (de_data e))) = de_data e"
    using Cons.prems by (simp_all add: EdgeData_of_words_inverse)
  show ?case using Cons e EdgeData_words_bounds [of "de_data e"]
    by (simp add: EdgeArrayEntry_bytes_def read32_bytes32 case_prod_beta)
qed simp

lemma readHSGR_bytes:
  assumes fp: "IsMagicNumberOK fp" and crc: "crc < 2 ^ 32" and na: "na \<noteq> []" "length na < 2 ^ 32" "\<forall>x \<in> set na. x < 2 ^ 32"
    and ea: "length ea < 2 ^ 32" "\<forall>e \<in> set ea. de_target e < 2 ^ 32 \<and> ed_id (de_data e) < 2 ^ 31 \<and>
      0 \<le> ed_distance (de_data e) \<and> ed_distance (de_data e) < 2 ^ 29"
  shows "readHSGRFromStream fp (Some (fp @ bytes32 crc @ bytes32 (length na) @ bytes32 (length ea) @
    concat (map bytes32 na) @ concat (map EdgeArrayEntry_bytes ea))) = Some (length na, na, ea, crc)"
proof -
  obtain b where b: "TestGraphUtil fp fp = Some b" using fp by (simp add: TestGraphUtil_def)
  have ne: "bytes32 crc @ xs \<noteq> []" for xs by (simp add: bytes32_def)
  show ?thesis unfolding readHSGRFromStream_def Let_def
    using b ne na(1) read_edge_entries_bytes [OF ea(2), of "[]"] read_offsets_bytes [OF na(3)] read32_bytes32 [OF crc] read32_bytes32 [OF na(2)] read32_bytes32 [OF ea(1)]
    by simp
qed

definition sorts_query :: "(QueryEdge list \<Rightarrow> QueryEdge list) \<Rightarrow> bool" where
  "sorts_query f \<longleftrightarrow> (\<forall>xs. mset (f xs) = mset xs \<and> sorted_wrt (\<lambda>a b. \<not> QueryEdge_less b a) (f xs))"

lemma sorts_query_source: "sorts_query f \<Longrightarrow> sorted (map qe_source (f xs))"
  unfolding sorts_query_def sorted_map
  by (erule allE [of _ xs], erule conjE, erule sorted_wrt_mono_rel [rotated]) (auto simp: QueryEdge_less_def split: if_splits)

text \<open>Writing and loading give the adjacency array of the sorted edges.\<close>

lemma write_load:
  assumes srt: "sorts_query psort" and n: "n < 2 ^ 31" and size: "length qs < SPECIAL_EDGEID"
    and qs: "\<forall>q \<in> set qs. qe_source q < n \<and> qe_target q < n \<and> qe_source q \<noteq> qe_target q \<and> ed_id (qe_data q) < 2 ^ 31 \<and>
      0 < ed_distance (qe_data q) \<and> ed_distance (qe_data q) < 2 ^ 29"
    and fp: "IsMagicNumberOK fp" and crc: "crc < 2 ^ 32"
  shows "\<exists>bytes. write_hsgr psort fp crc n qs = Some bytes \<and> LoadGraph fp (Some bytes) f = Some (f\<lparr> m_check_sum := crc,
    m_query_graph := StaticGraph_adopt (map (key_pos qe_source (psort qs)) (irange 0 (n + 1))) (map array_edge (psort qs)) \<rparr>)"
proof -
  let ?es = "psort qs" and ?na = "map (key_pos qe_source (psort qs)) (irange 0 (n + 1))"
  have perm: "mset ?es = mset qs" using srt by (simp add: sorts_query_def)
  have es: "\<forall>q \<in> set ?es. qe_source q < n \<and> qe_target q < n \<and> qe_source q \<noteq> qe_target q \<and> ed_id (qe_data q) < 2 ^ 31 \<and>
      0 < ed_distance (qe_data q) \<and> ed_distance (qe_data q) < 2 ^ 29" using qs mset_eq_setD [OF perm] by simp
  have len: "length ?es < SPECIAL_EDGEID" using size mset_eq_length [OF perm] by simp
  have ends: "\<forall>q \<in> set ?es. qe_source q < n \<and> qe_target q < n" "n \<le> SPECIAL_NODEID" using es n by (simp_all add: SPECIAL_NODEID_def)
  obtain m where m: "max_used_node_id ?es = Some m" "\<forall>q \<in> set ?es. qe_source q < m \<and> qe_target q < m"
    using max_used_node_id_correct [OF ends] by blast
  have na: "build_node_array n ?es = Some ?na" by (rule build_node_array_correct [OF ends sorts_query_source [OF srt]])
  have ea: "build_edge_array m ?es = Some (map array_edge ?es)" by (rule build_edge_array_correct) (use es m(2) in blast)
  let ?b = "fp @ bytes32 crc @ bytes32 (length ?na) @ bytes32 (length ?es) @ concat (map bytes32 ?na) @ concat (map EdgeArrayEntry_bytes (map array_edge ?es))"
  have w: "write_hsgr psort fp crc n qs = Some ?b" using m(1) na ea by (simp add: write_hsgr_def Let_def)
  have l: "length ?na = n + 1" "length ?na < 2 ^ 32" "length ?es < 2 ^ 32" "\<forall>x \<in> set ?na. x < 2 ^ 32"
    using n len key_pos_le [of qe_source ?es] 
    by (auto simp: irange_def SPECIAL_EDGEID_def intro!: le_less_trans [OF key_pos_le] simp del: upt_Suc)
  have ne: "?na \<noteq> []" by (simp add: irange_def)
  have "\<forall>e \<in> set (map array_edge ?es). de_target e < 2 ^ 32 \<and> ed_id (de_data e) < 2 ^ 31 \<and> 0 \<le> ed_distance (de_data e) \<and> ed_distance (de_data e) < 2 ^ 29"
    using es n by (fastforce simp: array_edge_def)
  then have "readHSGRFromStream fp (Some ?b) = Some (length ?na, ?na, map array_edge ?es, crc)"
    using readHSGR_bytes [OF fp crc ne l(2,4), of "map array_edge ?es"] l(1,3) by (simp del: upt_Suc map_map)
  then have "LoadGraph fp (Some ?b) f = Some (f\<lparr> m_check_sum := crc, m_query_graph := StaticGraph_adopt ?na (map array_edge ?es) \<rparr>)"
    using ne by (simp add: LoadGraph_def del: map_map upt_Suc)
  with w show ?thesis by blast
qed

section \<open>Distances of the loaded graph\<close>

definition presents :: "EdgeData StaticGraph \<Rightarrow> QueryEdge list \<Rightarrow> bool" where
  "presents g qs \<longleftrightarrow> (\<forall>u. set (arcs g True u) = query_arcs ed_forward qs u \<and> set (arcs g False u) = query_arcs ed_backward qs u)"

lemma arcs_out:
  assumes "sg_inv g" "u < sg_number_of_nodes g"
  shows "(v, w) \<in> set (arcs g fwd u) \<longleftrightarrow> (\<exists>x \<in> set (sg_out g u). v = de_target x \<and> w = ed_distance (de_data x) \<and>
    (if fwd then ed_forward (de_data x) else ed_backward (de_data x)))"
  using assms(2) sg_inv_range [OF assms] by (auto simp: arcs_def arcs_at_def flagged_def sg_out_def seg_def irange_def)

lemma adopt_presents:
  assumes es: "\<forall>q \<in> set qs. qe_source q < n \<and> qe_target q < n \<and> 0 < ed_distance (qe_data q)" and srt: "sorts_query psort"
    and size: "length qs < SPECIAL_EDGEID"
  defines "g \<equiv> StaticGraph_adopt (map (key_pos qe_source (psort qs)) (irange 0 (n + 1))) (map array_edge (psort qs))"
  shows "query_graph g" "sg_number_of_nodes g = n" "presents g qs"
proof -
  have perm: "mset (psort qs) = mset qs" using srt by (simp add: sorts_query_def)
  have set: "set (psort qs) = set qs" by (rule mset_eq_setD [OF perm])
  have "\<forall>q \<in> set (psort qs). qe_source q < n" "length (psort qs) < SPECIAL_EDGEID"
    using es set size mset_eq_length [OF perm] by simp_all
  note ad = adopt_correct [OF this(1) sorts_query_source [OF srt] this(2), folded g_def]
  show n: "sg_number_of_nodes g = n" by (rule ad(2))
  have in_out: "x \<in> set (sg_out g u) \<longleftrightarrow> (\<exists>q \<in> set qs. qe_source q = u \<and> x = array_edge q)" if "u < n" for x u
    using ad(3) [OF that] set by auto
  have "set (arcs g fwd u) = query_arcs (if fwd then ed_forward else ed_backward) qs u" for fwd u
  proof (cases "u < n")
    case True
    have "(v, w) \<in> set (arcs g fwd u) \<longleftrightarrow> (\<exists>q \<in> set qs. qe_source q = u \<and> v = qe_target q \<and> w = ed_distance (qe_data q) \<and>
        (if fwd then ed_forward (qe_data q) else ed_backward (qe_data q)))" for v w
      unfolding arcs_out [OF ad(1), of u v w fwd, unfolded n, OF True] ad(3) [OF True] using set by (auto simp: array_edge_def)
    then show ?thesis by (auto simp: query_arcs_def)
  next
    case False
    then show ?thesis using es by (auto simp: arcs_def n query_arcs_def)
  qed
  then show "presents g qs" unfolding presents_def by simp
  have "de_target (edge_array g ! e) < n \<and> ed_distance (de_data (edge_array g ! e)) > 0" if u: "u < n" and e: "e \<in> sg_range g u" for u e
  proof -
    have "edge_array g ! e \<in> set (sg_out g u)" using e by (auto simp: sg_out_def sg_range_def seg_def)
    then show ?thesis using in_out [OF u] es by (auto simp: array_edge_def)
  qed
  then show "query_graph g" unfolding query_graph_def n using ad(1) by blast
qed

lemma presents_up:
  assumes "presents g qs"
  shows "walk (stored_arcs (query_arcs ed_forward qs) UNIV) s m x \<Longrightarrow> up_walk g True s m x"
    "walk (stored_arcs (query_arcs ed_backward qs) UNIV) s m x \<Longrightarrow> up_walk g False s m x"
proof -
  have pre: "up_walk g fwd s m (d + x)" if "(u, d) \<in> set (arcs g fwd s)" "up_walk g fwd u m x" for fwd s u d m x
    using that(2,1)
  proof (induction rule: up_walk.induct)
    case up_refl
    then show ?case using up_step [OF up_walk.up_refl] by fastforce
  next
    case (up_step v w z c)
    then show ?case using up_walk.up_step [of g fwd s v "d + w" z c] by (simp add: add.assoc)
  qed
  show "up_walk g True s m x" if "walk (stored_arcs (query_arcs ed_forward qs) UNIV) s m x"
    using that by (induction rule: walk.induct) (use assms pre in \<open>auto simp: stored_arcs_def presents_def intro: up_refl\<close>)
  show "up_walk g False s m x" if "walk (stored_arcs (query_arcs ed_backward qs) UNIV) s m x"
    using that by (induction rule: walk.induct) (use assms pre in \<open>auto simp: stored_arcs_def presents_def intro: up_refl\<close>)
qed

text \<open>The searched graph is a hierarchy, and its distances are those of the arcs it was made for.\<close>

lemma presents_hierarchy:
  assumes h: "hierarchy_for A n qs" and g: "presents g qs"
  shows "road_walk g True s t w \<Longrightarrow> walk A s t w" "walk A s t w \<Longrightarrow> \<exists>w' \<le> w. road_walk g True s t w'" "hierarchy g"
proof -
  have arc: "walk A x y w" if "dir_arc g True x y w" for x y w
    using that g h unfolding dir_arc_def presents_def query_arcs_def hierarchy_for_def by auto
  have sound: "walk A s t w" if "road_walk g True s t w" for s t w
    using that by (induction rule: road_walk.induct) (use arc walk_trans walk.walk_nil in \<open>fast+\<close>)
  have up: "\<exists>m x z. up_walk g True s m x \<and> up_walk g False t m z \<and> x + z \<le> w" if "walk A s t w" for s t w
    using h that presents_up [OF g] unfolding hierarchy_for_def by blast
  show "walk A s t w" if "road_walk g True s t w" using sound that .
  show "\<exists>w' \<le> w. road_walk g True s t w'" if w: "walk A s t w"
  proof -
    obtain m x z where m: "up_walk g True s m x" "up_walk g False t m z" "x + z \<le> w" using up [OF w] by blast
    have "road_walk g True m t z" using road_walk_flip [of g True] up_walk_road [OF m(2)] by simp
    then have "road_walk g True s t (x + z)" using road_walk_trans up_walk_road [OF m(1)] by blast
    then show ?thesis using m(3) by blast
  qed
  show "hierarchy g" unfolding hierarchy_def using sound up by blast
qed

section \<open>Properties\<close>

definition same_distances :: "arc_set \<Rightarrow> EdgeData StaticGraph \<Rightarrow> bool" where
  "same_distances A g \<longleftrightarrow> (\<forall>s t w. (road_walk g True s t w \<longrightarrow> walk A s t w) \<and> (walk A s t w \<longrightarrow> (\<exists>w' \<le> w. road_walk g True s t w')))"


text \<open>A road network of four nodes, and what the program leaves to its environment.\<close>

definition sample_roads :: "EdgeBasedEdge list" where
  "sample_roads = [EdgeBasedEdge_of 0 1 7 3 True True, EdgeBasedEdge_of 1 2 8 4 True False,
     EdgeBasedEdge_of 2 3 9 5 True True, EdgeBasedEdge_of 0 3 10 20 True True]"

definition sample_env :: "(NodeID, 's) IndexStorage \<Rightarrow> (nat \<Rightarrow> 's) \<Rightarrow> 's ContractorEnv" where
  "sample_env ops storage = \<lparr> env_ops = ops, env_storage = storage,
     env_fresh = (\<lambda>_. \<lparr> de_target = 0, de_data = ContractorEdgeData_new \<rparr>), env_sort = edge_sort,
     env_schedule = (\<lambda>xs. [xs]), env_fl = (\<lambda>x. of_int \<lfloor>x\<rfloor>) \<rparr>"

lemma sample_roads_valid: "valid_input 4 sample_roads" "\<forall>(u, v, d) \<in> input_arcs sample_roads. d < 64"
  by (auto simp: valid_input_def valid_id_def sample_roads_def EdgeBasedEdge_of_def sbits_def input_arcs_def)

lemma sample_env_ok: "env_ok (sample_env ops storage)" "untied (env_fl (sample_env ops storage)) (insert 0 (range (env_fl (sample_env ops storage))))"
proof -
  show "env_ok (sample_env ops storage)" using sorts_edge_sort by (simp add: env_ok_def sample_env_def)
  have "p = q" if h: "p \<in> insert 0 (range (\<lambda>x :: rat. of_int \<lfloor>x\<rfloor>))" "q \<in> insert 0 (range (\<lambda>x :: rat. of_int \<lfloor>x\<rfloor>))"
    "\<bar>of_int \<lfloor>p - q\<rfloor> :: rat\<bar> < 1 / 2 ^ 23" for p q :: rat
  proof -
    have ints: "\<exists>i. r = (of_int i :: rat)" if "r \<in> insert 0 (range (\<lambda>x :: rat. of_int \<lfloor>x\<rfloor>))" for r
      using that by (auto intro: exI [of _ 0])
    obtain i j where ij: "p = of_int i" "q = of_int j" using ints h(1,2) by blast
    have "\<lfloor>p - q\<rfloor> = i - j" unfolding ij of_int_diff [symmetric] by (rule floor_of_int)
    then have "of_int \<bar>i - j\<bar> < (1 :: rat)" using h(3) by simp
    then have "i = j" by simp
    then show ?thesis by (simp add: ij)
  qed
  moreover have "env_fl (sample_env ops storage) = (\<lambda>x. of_int \<lfloor>x\<rfloor>)" by (simp add: sample_env_def)
  ultimately show "untied (env_fl (sample_env ops storage)) (insert 0 (range (env_fl (sample_env ops storage))))"
    unfolding untied_def tied_def by (metis (no_types, lifting))
qed


text \<open>
  C6: The same holds of the hash storages that the program uses, except that the contraction may fail to
  return: whenever it returns, the edges are a hierarchy for the input.
\<close>

theorem contract_edges_hash_hierarchy:
  assumes env: "env_ok env" "env_ops env = ContractorStorage" "env_storage env = (\<lambda>_. XORFastHashStorage_new hasher)"
    and input: "n < 2 ^ 31" "valid_input n es"
    and tm: "\<forall>c. Contractor_new (env_sort env) (env_fresh env) hash n es = Some c \<longrightarrow> tame False env c"
  shows "case contract_edges env hash n es of None \<Rightarrow> True | Some qs \<Rightarrow> hierarchy_for (input_arcs es) n qs"
proof (cases "contract_edges env hash n es")
  case (Some qs)
  then obtain c c' c'' where c: "Contractor_new (env_sort env) (env_fresh env) hash n es = Some c" "Run env c = Some c'" "GetEdges c' [] = Some (qs, c'')"
    by (auto simp: contract_edges_def bind_eq_Some_conv)
  have runs: "hash_run.runs hasher env" using env by (simp add: hash_run.runs_def)
  have "returns False (Option.bind (Run env c) (\<lambda>c. GetEdges c [])) (\<lambda>(qs, _). hierarchy_for (input_arcs es) n qs)"
    using hash_run.contraction_returns [OF runs input c(1)] tm c(1) by blast
  then show ?thesis using Some c by simp
qed simp

theorem contract_edges_hash_hierarchy_witness:
  "case contract_edges (sample_env ContractorStorage (\<lambda>_. XORFastHashStorage_new (XORFastHash_new id rev))) (XORFastHash_new rev id) 4 sample_roads of
     None \<Rightarrow> True | Some qs \<Rightarrow> hierarchy_for (input_arcs sample_roads) 4 qs"
proof (rule contract_edges_hash_hierarchy)
  let ?h = "XORFastHash_new id rev"
  let ?env = "sample_env ContractorStorage (\<lambda>_. XORFastHashStorage_new ?h)"
  have runs: "hash_run.runs ?h ?env" using sample_env_ok(1) by (simp add: hash_run.runs_def sample_env_def)
  show "\<forall>c. Contractor_new (env_sort ?env) (env_fresh ?env) (XORFastHash_new rev id) 4 sample_roads = Some c \<longrightarrow> tame False ?env c"
    using hash_run.small_tame [OF runs _ sample_roads_valid(1) _ sample_roads_valid(2) _ _ sample_env_ok(2)] by auto
  show "env_storage ?env = (\<lambda>_. XORFastHashStorage_new ?h)" by (simp add: sample_env_def)
qed (simp_all add: sample_env_ok sample_roads_valid, simp_all add: sample_env_def)

text \<open>
  C5: Let the contracted edges form a hierarchy for the arcs \<open>A\<close>.  Then writing them to the graph file
  succeeds, reading the file with the same build succeeds, and the graph that the server then
  searches is well-formed, has the same nodes, is a hierarchy, and between every two nodes its
  shortest walks are as long as the shortest walks over \<open>A\<close>.
\<close>

theorem write_load_hierarchy:
  assumes h: "hierarchy_for A n qs" and srt: "sorts_query psort" and size: "n < 2 ^ 31" "length qs < SPECIAL_EDGEID"
    and fp: "IsMagicNumberOK fp" and crc: "crc < 2 ^ 32"
  shows "\<exists>bytes f'. write_hsgr psort fp crc n qs = Some bytes \<and> LoadGraph fp (Some bytes) f = Some f' \<and> m_check_sum f' = crc \<and>
    query_graph (m_query_graph f') \<and> sg_number_of_nodes (m_query_graph f') = n \<and> hierarchy (m_query_graph f') \<and>
    same_distances A (m_query_graph f')"
proof -
  let ?g = "StaticGraph_adopt (map (key_pos qe_source (psort qs)) (irange 0 (n + 1))) (map array_edge (psort qs))"
  have qs: "\<forall>q \<in> set qs. qe_source q < n \<and> qe_target q < n \<and> qe_source q \<noteq> qe_target q \<and> ed_id (qe_data q) < 2 ^ 31 \<and>
      0 < ed_distance (qe_data q) \<and> ed_distance (qe_data q) < 2 ^ 29"
    using h unfolding hierarchy_for_def by blast
  obtain bytes where b: "write_hsgr psort fp crc n qs = Some bytes"
    "LoadGraph fp (Some bytes) f = Some (f\<lparr> m_check_sum := crc, m_query_graph := ?g \<rparr>)"
    using write_load [OF srt size qs fp crc] by blast
  have "\<forall>q \<in> set qs. qe_source q < n \<and> qe_target q < n \<and> 0 < ed_distance (qe_data q)" using qs by blast
  note g = adopt_presents [OF this srt size(2)]
  have "same_distances A ?g" unfolding same_distances_def using presents_hierarchy(1,2) [OF h g(3)] by blast
  then show ?thesis using b g(1,2) presents_hierarchy(3) [OF h g(3)] by (intro exI [of _ bytes] exI [of _ "f\<lparr> m_check_sum := crc, m_query_graph := ?g \<rparr>"]) simp
qed

text \<open>Two roads that meet in node 2, and the edges of their hierarchy.\<close>

definition sample_arcs_set :: arc_set where
  "sample_arcs_set = {(0, 2, 5), (2, 1, 7)}"

definition sample_contracted :: "QueryEdge list" where
  "sample_contracted = [\<lparr> qe_source = 1, qe_target = 2, qe_data = EdgeData_of 8 False 7 False True \<rparr>,
     \<lparr> qe_source = 0, qe_target = 2, qe_data = EdgeData_of 9 False 5 True False \<rparr>]"

definition of_input :: "EdgeData InputEdge \<Rightarrow> QueryEdge" where
  "of_input e = \<lparr> qe_source = ie_source e, qe_target = ie_target e, qe_data = ie_data e \<rparr>"

definition query_sort :: "QueryEdge list \<Rightarrow> QueryEdge list" where
  "query_sort qs = map of_input (edge_sort (map as_input qs))"

lemma sorts_query_sort: "sorts_query query_sort"
proof -
  have "mset (edge_sort (map as_input qs)) = mset (map as_input qs)" "sorted_wrt (\<lambda>a b. \<not> InputEdge_less b a) (edge_sort (map as_input qs))" for qs
    using sorts_edge_sort unfolding sorts_def by blast+
  moreover have "of_input (as_input q) = q" for q by (simp add: of_input_def as_input_def)
  moreover have "QueryEdge_less (of_input a) (of_input b) \<longleftrightarrow> InputEdge_less a b" for a b
    by (simp add: of_input_def QueryEdge_less_def InputEdge_less_def)
  ultimately show ?thesis unfolding sorts_query_def query_sort_def
    by (simp add: sorted_wrt_map multiset.map_comp o_def)
qed

lemma query_arcs_mem:
  "(v, d) \<in> query_arcs dir qs u \<longleftrightarrow> (\<exists>q \<in> set qs. qe_source q = u \<and> dir (qe_data q) \<and> v = qe_target q \<and> d = ed_distance (qe_data q))"
  by (auto simp: query_arcs_def)

lemma sample_walk: "walk sample_arcs_set s t w \<Longrightarrow> s = t \<and> w = 0 \<or> (s, t, w) \<in> {(0, 2, 5), (2, 1, 7), (0, 1, 12)}"
  by (induction rule: walk.induct) (auto simp: sample_arcs_set_def)

lemma sample_hierarchy_for: "hierarchy_for sample_arcs_set 3 sample_contracted"
proof -
  let ?F = "stored_arcs (query_arcs ed_forward sample_contracted) UNIV" and ?B = "stored_arcs (query_arcs ed_backward sample_contracted) UNIV"
  have nil: "walk X x x 0" for X x by (rule walk.walk_nil)
  have F: "walk ?F 0 2 5" and B: "walk ?B 1 2 7"
    by (rule walk_arc, simp add: stored_arcs_def query_arcs_mem sample_contracted_def EdgeData_of_def sbits_def)+
  have A: "walk sample_arcs_set 0 2 5" "walk sample_arcs_set 2 1 7" by (rule walk_arc, simp add: sample_arcs_set_def)+
  have "\<exists>m x z. walk ?F s m x \<and> walk ?B t m z \<and> x + z \<le> w" if "walk sample_arcs_set s t w" for s t w
  proof -
    from sample_walk [OF that] consider "s = t" "w = 0" | "s = 0" "t = 2" "w = 5" | "s = 2" "t = 1" "w = 7" | "s = 0" "t = 1" "w = 12" by auto
    then show ?thesis
    proof cases
      case 1
      then show ?thesis using nil [of ?F s] nil [of ?B s] by (intro exI [of _ s] exI [of _ 0]) simp
    next
      case 2
      then show ?thesis using F nil [of ?B 2] by (intro exI [of _ 2] exI [of _ 5] exI [of _ 0]) simp
    next
      case 3
      then show ?thesis using B nil [of ?F 2] by (intro exI [of _ 2] exI [of _ 0] exI [of _ 7]) simp
    next
      case 4
      then show ?thesis using F B by (intro exI [of _ 2] exI [of _ 5] exI [of _ 7]) simp
    qed
  qed
  then show ?thesis unfolding hierarchy_for_def using A by (auto simp: sample_contracted_def EdgeData_of_def sbits_def)
qed

theorem write_load_hierarchy_witness:
  "\<exists>bytes f'. write_hsgr query_sort (bytes32 1297240911 @ replicate 152 0) 77 3 sample_contracted = Some bytes \<and>
    LoadGraph (bytes32 1297240911 @ replicate 152 0) (Some bytes) (undefined :: Facade) = Some f' \<and> m_check_sum f' = 77 \<and>
    query_graph (m_query_graph f') \<and> sg_number_of_nodes (m_query_graph f') = 3 \<and> hierarchy (m_query_graph f') \<and>
    same_distances sample_arcs_set (m_query_graph f')"
  by (rule write_load_hierarchy [OF sample_hierarchy_for sorts_query_sort])
    (simp_all add: sample_contracted_def SPECIAL_EDGEID_def IsMagicNumberOK_def read32_bytes32)


end
