(* ===== verification/Graph_Loader.thy ===== *)
theory Graph_Loader
  imports Prepare Restriction_Map
begin

text \<open>
  The reader of the extracted road network (\<^verbatim>\<open>readBinaryOSRMGraphFromStream\<close> of \<^verbatim>\<open>Util/GraphLoader.h\<close>, the structures
  of \<^verbatim>\<open>ImportNode.h\<close>, \<^verbatim>\<open>QueryNode.h\<close> and \<^verbatim>\<open>ImportEdge.h\<close>).  The file holds a fingerprint, the nodes and the edges with
  the identifiers of the map; the reader numbers the nodes in the order of the file, translates edges
  and restrictions, orients the edges, sorts them and merges parallel ones.  A file that ends early
  has no result.
\<close>

section \<open>Data\<close>

record NodeInfo =
  ni_lat :: int
  ni_lon :: int
  ni_node_id :: NodeID

record ExternalMemoryNode = NodeInfo +
  bollard :: bool
  trafficLight :: bool

record NodeBasedEdge =
  nbe_source :: NodeID
  nbe_target :: NodeID
  nbe_name_id :: nat
  nbe_weight :: EdgeWeight
  nbe_forward :: bool
  nbe_backward :: bool
  nbe_roundabout :: bool
  nbe_in_tiny_cc :: bool
  nbe_access_restricted :: bool
  nbe_is_split :: bool
  nbe_travel_mode :: TravelMode

type_synonym ImportEdge = NodeBasedEdge

definition NodeBasedEdge_less :: "NodeBasedEdge \<Rightarrow> NodeBasedEdge \<Rightarrow> bool" where
  "NodeBasedEdge_less a b \<longleftrightarrow>
     (if nbe_source a = nbe_source b then
        if nbe_target a = nbe_target b then
          if nbe_weight a = nbe_weight b
          then nbe_forward a \<and> nbe_backward a \<and> (\<not> nbe_forward b \<or> \<not> nbe_backward b)
          else nbe_weight a < nbe_weight b
        else nbe_target a < nbe_target b
      else nbe_source a < nbe_source b)"

text \<open>The variables of the loop that reads the edges.\<close>

record FileEdge =
  fe_source :: NodeID
  fe_target :: NodeID
  fe_length :: int
  fe_dir :: int
  fe_weight :: EdgeWeight
  fe_name_id :: nat
  fe_roundabout :: bool
  fe_ignore_in_grid :: bool
  fe_access_restricted :: bool
  fe_travel_mode :: TravelMode
  fe_is_split :: bool

section \<open>Reading\<close>

definition read_int :: "nat list \<Rightarrow> (int \<times> nat list) option" where
  "read_int inp = do { (n, inp) \<leftarrow> read32 inp; Some (sbits 32 (int n), inp) }"

fun read_short :: "nat list \<Rightarrow> (int \<times> nat list) option" where
  "read_short (a # b # rest) = Some (sbits 16 (int (a + 256 * b)), rest)"
| "read_short _ = None"

fun read_uchar :: "nat list \<Rightarrow> (nat \<times> nat list) option" where
  "read_uchar (a # rest) = Some (a, rest)"
| "read_uchar [] = None"

text \<open>A byte other than 0 and 1 is not the memory of a \<^verbatim>\<open>bool\<close>.\<close>

definition read_bool :: "nat list \<Rightarrow> (bool \<times> nat list) option" where
  "read_bool inp = do { (a, inp) \<leftarrow> read_uchar inp; assert_that (a \<le> 1); Some (a = 1, inp) }"

text \<open>The structure is padded to 16 bytes.\<close>

definition read_ExternalMemoryNode :: "nat list \<Rightarrow> (ExternalMemoryNode \<times> nat list) option" where
  "read_ExternalMemoryNode inp = do {
     (lt, inp) \<leftarrow> read_int inp;
     (ln, inp) \<leftarrow> read_int inp;
     (ident, inp) \<leftarrow> read32 inp;
     (bl, inp) \<leftarrow> read_bool inp;
     (tl, inp) \<leftarrow> read_bool inp;
     (_, inp) \<leftarrow> read_uchar inp;
     (_, inp) \<leftarrow> read_uchar inp;
     Some (\<lparr> ni_lat = lt, ni_lon = ln, ni_node_id = ident, bollard = bl, trafficLight = tl \<rparr>, inp)
   }"

record LoadedNodes =
  int_to_ext_node_id_map :: "NodeInfo list"
  ext_to_int_id_map :: "NodeID \<rightharpoonup> NodeID"
  barrier_node_list :: "NodeID list"
  traffic_light_node_list :: "NodeID list"

definition load_node :: "NodeID \<Rightarrow> ExternalMemoryNode \<Rightarrow> LoadedNodes \<Rightarrow> LoadedNodes" where
  "load_node i n ld = ld\<lparr>
     int_to_ext_node_id_map := int_to_ext_node_id_map ld @ [\<lparr> ni_lat = ni_lat n, ni_lon = ni_lon n, ni_node_id = ni_node_id n \<rparr>],
     ext_to_int_id_map := map_emplace (ext_to_int_id_map ld) (ni_node_id n) i,
     barrier_node_list := barrier_node_list ld @ (if bollard n then [i] else []),
     traffic_light_node_list := traffic_light_node_list ld @ (if trafficLight n then [i] else []) \<rparr>"

fun read_nodes :: "NodeID list \<Rightarrow> nat list \<Rightarrow> LoadedNodes \<Rightarrow> (LoadedNodes \<times> nat list) option" where
  "read_nodes [] inp ld = Some (ld, inp)"
| "read_nodes (i # is) inp ld = do {
     (current_node, inp) \<leftarrow> read_ExternalMemoryNode inp;
     read_nodes is inp (load_node i current_node ld)
   }"

text \<open>A restriction is translated node by node, and left as it is from the first unknown node on.\<close>

definition translate_restriction :: "(NodeID \<rightharpoonup> NodeID) \<Rightarrow> TurnRestriction \<Rightarrow> TurnRestriction" where
  "translate_restriction ids r =
     (case ids (fromNode r) of None \<Rightarrow> r
      | Some f \<Rightarrow> let r = r\<lparr> fromNode := f \<rparr> in
     (case ids (viaNode r) of None \<Rightarrow> r
      | Some v \<Rightarrow> let r = r\<lparr> viaNode := v \<rparr> in
     (case ids (toNode r) of None \<Rightarrow> r
      | Some t \<Rightarrow> r\<lparr> toNode := t \<rparr>)))"

definition read_FileEdge :: "nat list \<Rightarrow> (FileEdge \<times> nat list) option" where
  "read_FileEdge inp = do {
     (s, inp) \<leftarrow> read32 inp;
     (t, inp) \<leftarrow> read32 inp;
     (len, inp) \<leftarrow> read_int inp;
     (dr, inp) \<leftarrow> read_short inp;
     (w, inp) \<leftarrow> read_int inp;
     (nameID, inp) \<leftarrow> read32 inp;
     (ra, inp) \<leftarrow> read_bool inp;
     (ig, inp) \<leftarrow> read_bool inp;
     (ar, inp) \<leftarrow> read_bool inp;
     (tm, inp) \<leftarrow> read_uchar inp;
     (sp, inp) \<leftarrow> read_bool inp;
     Some (\<lparr> fe_source = s, fe_target = t, fe_length = len, fe_dir = dr, fe_weight = w, fe_name_id = nameID,
             fe_roundabout = ra, fe_ignore_in_grid = ig, fe_access_restricted = ar, fe_travel_mode = tm, fe_is_split = sp \<rparr>, inp)
   }"

text \<open>The edge that is appended, if any.\<close>

definition import_edge :: "(NodeID \<rightharpoonup> NodeID) \<Rightarrow> FileEdge \<Rightarrow> ImportEdge list option" where
  "import_edge ids e = do {
     assert_that (fe_length e > 0);
     assert_that (fe_weight e > 0);
     assert_that (0 \<le> fe_dir e \<and> fe_dir e \<le> 2);
     let forward = fe_dir e \<noteq> 2;
     let backward = fe_dir e \<noteq> 1;
     case ids (fe_source e) of
       None \<Rightarrow> Some []
     | Some source \<Rightarrow>
         (case ids (fe_target e) of
            None \<Rightarrow> Some []
          | Some target \<Rightarrow> do {
              assert_that (source \<noteq> SPECIAL_NODEID \<and> target \<noteq> SPECIAL_NODEID);
              let (source, target, forward, backward) =
                (if source > target then (target, source, backward, forward) else (source, target, forward, backward));
              Some [\<lparr> nbe_source = source, nbe_target = target, nbe_name_id = fe_name_id e, nbe_weight = fe_weight e,
                nbe_forward = forward, nbe_backward = backward, nbe_roundabout = fe_roundabout e,
                nbe_in_tiny_cc = fe_ignore_in_grid e, nbe_access_restricted = fe_access_restricted e,
                nbe_is_split = fe_is_split e, nbe_travel_mode = fe_travel_mode e mod 16 \<rparr>]
            })
   }"

fun read_edges :: "nat \<Rightarrow> (NodeID \<rightharpoonup> NodeID) \<Rightarrow> nat list \<Rightarrow> (ImportEdge list \<times> nat list) option" where
  "read_edges 0 ids inp = Some ([], inp)"
| "read_edges (Suc m) ids inp = do {
     (e, inp) \<leftarrow> read_FileEdge inp;
     new \<leftarrow> import_edge ids e;
     (es, inp) \<leftarrow> read_edges m ids inp;
     Some (new @ es, inp)
   }"

text \<open>One round of the loop that merges parallel edges, on the edges \<open>i - 1\<close> and \<open>i\<close>.\<close>

definition merge_pair :: "ImportEdge \<Rightarrow> ImportEdge \<Rightarrow> ImportEdge \<times> ImportEdge" where
  "merge_pair a b =
     (if nbe_target a = nbe_target b \<and> nbe_source a = nbe_source b then
        let edge_flags_equivalent = (nbe_forward a = nbe_forward b \<and> nbe_backward a = nbe_backward b);
            edge_flags_are_superset1 = (nbe_forward a \<and> nbe_backward a \<and> nbe_backward b \<noteq> nbe_backward b);
            edge_flags_are_superset_2 = (nbe_forward b \<and> nbe_backward b \<and> nbe_backward a \<noteq> nbe_backward a)
        in if edge_flags_equivalent
           then (a\<lparr> nbe_source := SPECIAL_NODEID \<rparr>, b\<lparr> nbe_weight := min (nbe_weight a) (nbe_weight b) \<rparr>)
           else if edge_flags_are_superset1 then
             if nbe_weight a \<le> nbe_weight b then (a, b\<lparr> nbe_source := SPECIAL_NODEID \<rparr>)
             else (a\<lparr> nbe_forward := \<not> nbe_forward b, nbe_backward := \<not> nbe_backward b \<rparr>, b)
           else if edge_flags_are_superset_2 then
             if nbe_weight a \<le> nbe_weight b
             then (a, b\<lparr> nbe_forward := \<not> nbe_forward a, nbe_backward := \<not> nbe_backward a \<rparr>)
             else (a\<lparr> nbe_source := SPECIAL_NODEID \<rparr>, b)
           else (a, b)
      else (a, b))"

fun merge_adjacent :: "ImportEdge list \<Rightarrow> ImportEdge list" where
  "merge_adjacent (a # b # es) = (let (a, b) = merge_pair a b in a # merge_adjacent (b # es))"
| "merge_adjacent es = es"

definition merge_edges :: "(ImportEdge list \<Rightarrow> ImportEdge list) \<Rightarrow> ImportEdge list \<Rightarrow> ImportEdge list" where
  "merge_edges psort es = filter (\<lambda>e. nbe_source e \<noteq> SPECIAL_NODEID) (merge_adjacent (psort es))"

definition readBinaryOSRMGraphFromStream ::
    "(ImportEdge list \<Rightarrow> ImportEdge list) \<Rightarrow> nat list \<Rightarrow> TurnRestriction list \<Rightarrow> nat list \<Rightarrow>
     (nat \<times> ImportEdge list \<times> LoadedNodes \<times> TurnRestriction list) option" where
  "readBinaryOSRMGraphFromStream psort fingerprint_orig restriction_list inp = do {
     assert_that (length fingerprint_orig \<le> length inp);
     fingerprints_match \<leftarrow> TestGraphUtil (take (length fingerprint_orig) inp) fingerprint_orig;
     let inp = drop (length fingerprint_orig) inp;
     (n, inp) \<leftarrow> read32 inp;
     (ld, inp) \<leftarrow> read_nodes (irange 0 n) inp
        \<lparr> int_to_ext_node_id_map = [], ext_to_int_id_map = Map.empty, barrier_node_list = [], traffic_light_node_list = [] \<rparr>;
     (m, inp) \<leftarrow> read32 inp;
     let restriction_list = map (translate_restriction (ext_to_int_id_map ld)) restriction_list;
     (es, inp) \<leftarrow> read_edges m (ext_to_int_id_map ld) inp;
     Some (n, merge_edges psort es, ld, restriction_list)
   }"

section \<open>The roads of a list of edges\<close>

text \<open>The directed arcs that edges stand for.\<close>

definition import_arcs :: "ImportEdge list \<Rightarrow> (NodeID \<times> NodeID \<times> EdgeWeight) set" where
  "import_arcs es = {(u, v, w). \<exists>e \<in> set es. w = nbe_weight e \<and>
     ((u, v) = (nbe_source e, nbe_target e) \<and> nbe_forward e \<or> (u, v) = (nbe_target e, nbe_source e) \<and> nbe_backward e)}"

definition file_arcs :: "(NodeID \<rightharpoonup> NodeID) \<Rightarrow> FileEdge list \<Rightarrow> (NodeID \<times> NodeID \<times> EdgeWeight) set" where
  "file_arcs ids es = {(u, v, w). \<exists>e \<in> set es. w = fe_weight e \<and>
     (ids (fe_source e) = Some u \<and> ids (fe_target e) = Some v \<and> fe_dir e \<noteq> 2 \<or>
      ids (fe_target e) = Some u \<and> ids (fe_source e) = Some v \<and> fe_dir e \<noteq> 1)}"

text \<open>The arcs \<open>B\<close> are arcs of \<open>A\<close>, and no arc of \<open>A\<close> is cheaper than the best in \<open>B\<close> with the same ends.\<close>

definition keeps_best :: "(NodeID \<times> NodeID \<times> EdgeWeight) set \<Rightarrow> (NodeID \<times> NodeID \<times> EdgeWeight) set \<Rightarrow> bool" where
  "keeps_best A B \<longleftrightarrow> B \<subseteq> A \<and> (\<forall>(u, v, w) \<in> A. \<exists>w' \<le> w. (u, v, w') \<in> B)"

lemma keeps_best_refl [simp]: "keeps_best A A"
  unfolding keeps_best_def by blast

lemma keeps_bestI: "B \<subseteq> A \<Longrightarrow> (\<And>u v w. (u, v, w) \<in> A \<Longrightarrow> \<exists>w'. w' \<le> w \<and> (u, v, w') \<in> B) \<Longrightarrow> keeps_best A B"
  unfolding keeps_best_def by fast

lemma keeps_bestD: "keeps_best A B \<Longrightarrow> (u, v, w) \<in> A \<Longrightarrow> \<exists>w'. w' \<le> w \<and> (u, v, w') \<in> B"
  unfolding keeps_best_def by fast

lemma keeps_best_sub: "keeps_best A B \<Longrightarrow> B \<subseteq> A"
  unfolding keeps_best_def by (rule conjunct1)

lemma keeps_best_trans:
  assumes "keeps_best A B" "keeps_best B C"
  shows "keeps_best A C"
proof (rule keeps_bestI)
  show "C \<subseteq> A" using assms by (meson keeps_best_sub order_trans)
  fix u v w assume "(u, v, w) \<in> A"
  then obtain w' where "w' \<le> w" "(u, v, w') \<in> B" using keeps_bestD [OF assms(1)] by blast
  then obtain w'' where "w'' \<le> w'" "(u, v, w'') \<in> C" using keeps_bestD [OF assms(2)] by blast
  then show "\<exists>w'. w' \<le> w \<and> (u, v, w') \<in> C" using \<open>w' \<le> w\<close> by (intro exI [of _ w'']) simp
qed

lemma keeps_best_Un:
  assumes "keeps_best A B" "keeps_best C D"
  shows "keeps_best (A \<union> C) (B \<union> D)"
proof (rule keeps_bestI)
  show "B \<union> D \<subseteq> A \<union> C" using assms by (meson Un_mono keeps_best_sub)
  fix u v w assume "(u, v, w) \<in> A \<union> C"
  then show "\<exists>w'. w' \<le> w \<and> (u, v, w') \<in> B \<union> D" using keeps_bestD [OF assms(1)] keeps_bestD [OF assms(2)] by blast
qed

lemma import_arcs_Nil [simp]: "import_arcs [] = {}"
  by (simp add: import_arcs_def)

lemma import_arcs_Cons: "import_arcs (e # es) = import_arcs [e] \<union> import_arcs es"
  by (auto simp: import_arcs_def)

lemma import_arcs_append: "import_arcs (xs @ ys) = import_arcs xs \<union> import_arcs ys"
  by (auto simp: import_arcs_def)

lemma import_arcs_mset: "mset xs = mset ys \<Longrightarrow> import_arcs xs = import_arcs ys"
  using mset_eq_setD [of xs ys] by (simp add: import_arcs_def)

section \<open>Merging\<close>

text \<open>The two cases of edges whose flags are a superset compare a flag with itself and are never taken.\<close>

lemma merge_pair_effect:
  "merge_pair a b =
     (if nbe_target a = nbe_target b \<and> nbe_source a = nbe_source b \<and> nbe_forward a = nbe_forward b \<and> nbe_backward a = nbe_backward b
      then (a\<lparr> nbe_source := SPECIAL_NODEID \<rparr>, b\<lparr> nbe_weight := min (nbe_weight a) (nbe_weight b) \<rparr>) else (a, b))"
  by (auto simp: merge_pair_def)

definition has_source :: "ImportEdge \<Rightarrow> bool" where
  "has_source e \<longleftrightarrow> nbe_source e \<noteq> SPECIAL_NODEID"

lemma has_source_simps [simp]: "has_source (e\<lparr> nbe_weight := w \<rparr>) = has_source e" "\<not> has_source (e\<lparr> nbe_source := SPECIAL_NODEID \<rparr>)"
  by (simp_all add: has_source_def)

lemma import_arcs_single: "import_arcs [e] =
    (if nbe_forward e then {(nbe_source e, nbe_target e, nbe_weight e)} else {}) \<union>
    (if nbe_backward e then {(nbe_target e, nbe_source e, nbe_weight e)} else {})"
  by (auto simp: import_arcs_def)

lemma keeps_best_pair:
  assumes "nbe_target a = nbe_target b" "nbe_source a = nbe_source b" "nbe_forward a = nbe_forward b" "nbe_backward a = nbe_backward b"
  shows "keeps_best (import_arcs [a] \<union> import_arcs [b]) (import_arcs [b\<lparr> nbe_weight := min (nbe_weight a) (nbe_weight b) \<rparr>])"
proof (rule keeps_bestI)
  let ?w = "min (nbe_weight a) (nbe_weight b)"
  show "import_arcs [b\<lparr> nbe_weight := ?w \<rparr>] \<subseteq> import_arcs [a] \<union> import_arcs [b]"
    using assms by (auto simp: import_arcs_single min_def)
  fix u v w assume "(u, v, w) \<in> import_arcs [a] \<union> import_arcs [b]"
  then have "(u, v, ?w) \<in> import_arcs [b\<lparr> nbe_weight := ?w \<rparr>]" "?w \<le> w"
    using assms by (auto simp: import_arcs_single split: if_splits)
  then show "\<exists>w'. w' \<le> w \<and> (u, v, w') \<in> import_arcs [b\<lparr> nbe_weight := ?w \<rparr>]" by blast
qed

text \<open>An edge of a list with the weight of another.\<close>

definition reweighted :: "ImportEdge list \<Rightarrow> ImportEdge \<Rightarrow> bool" where
  "reweighted es e \<longleftrightarrow> (\<exists>x \<in> set es. \<exists>y \<in> set es. e = x\<lparr> nbe_weight := nbe_weight y \<rparr>)"

lemma reweighted_self: "e \<in> set es \<Longrightarrow> reweighted es e"
  unfolding reweighted_def by (rule bexI [of _ e], rule bexI [of _ e]) simp_all

lemma reweighted_Cons: "reweighted es e \<Longrightarrow> reweighted (a # es) e"
  unfolding reweighted_def by auto

lemma reweighted_merged:
  assumes "reweighted (b\<lparr> nbe_weight := min (nbe_weight a) (nbe_weight b) \<rparr> # es) e"
  shows "reweighted (a # b # es) e"
proof -
  let ?b = "b\<lparr> nbe_weight := min (nbe_weight a) (nbe_weight b) \<rparr>"
  obtain x y where xy: "x \<in> set (?b # es)" "y \<in> set (?b # es)" "e = x\<lparr> nbe_weight := nbe_weight y \<rparr>"
    using assms unfolding reweighted_def by blast
  have "\<exists>y' \<in> set (a # b # es). nbe_weight y = nbe_weight y'" using xy(2) by (auto simp: min_def)
  then obtain y' where y': "y' \<in> set (a # b # es)" "nbe_weight y = nbe_weight y'" by blast
  let ?x = "if x = ?b then b else x"
  have "?x \<in> set (a # b # es)" "e = ?x\<lparr> nbe_weight := nbe_weight y' \<rparr>" using xy(1,3) y'(2) by auto
  then show ?thesis unfolding reweighted_def using y'(1) by blast
qed

lemma merge_adjacent_keeps:
  assumes "\<forall>e \<in> set es. has_source e"
  shows "keeps_best (import_arcs es) (import_arcs (filter has_source (merge_adjacent es))) \<and>
    (\<forall>e \<in> set (filter has_source (merge_adjacent es)). reweighted es e)"
  using assms
proof (induction es rule: merge_adjacent.induct)
  case (1 a b es)
  let ?r = "\<lambda>x. filter has_source (merge_adjacent (x # es))"
  show ?case
  proof (cases "nbe_target a = nbe_target b \<and> nbe_source a = nbe_source b \<and> nbe_forward a = nbe_forward b \<and> nbe_backward a = nbe_backward b")
    case True
    let ?a = "a\<lparr> nbe_source := SPECIAL_NODEID \<rparr>" and ?b = "b\<lparr> nbe_weight := min (nbe_weight a) (nbe_weight b) \<rparr>"
    have mp: "merge_pair a b = (?a, ?b)" using True by (simp add: merge_pair_effect)
    have src: "\<forall>e \<in> set (?b # es). has_source e" using 1(2) by simp
    note IH = 1(1) [OF mp [symmetric] refl src]
    have r: "filter has_source (merge_adjacent (a # b # es)) = ?r ?b" using mp by simp
    have "keeps_best (import_arcs [a] \<union> import_arcs [b]) (import_arcs [?b])" by (rule keeps_best_pair) (use True in auto)
    from keeps_best_Un [OF this keeps_best_refl [of "import_arcs es"]]
    have "keeps_best (import_arcs (a # b # es)) (import_arcs (?b # es))"
      using import_arcs_Cons [of a "b # es"] import_arcs_Cons [of b es] import_arcs_Cons [of ?b es] by (simp add: Un_assoc)
    from keeps_best_trans [OF this conjunct1 [OF IH]] show ?thesis
      unfolding r using IH reweighted_merged [of a b es] by blast
  next
    case False
    have mp: "merge_pair a b = (a, b)" unfolding merge_pair_effect by (rule if_not_P [OF False])
    have src: "\<forall>e \<in> set (b # es). has_source e" using 1(2) by simp
    note IH = 1(1) [OF mp [symmetric] refl src]
    have r: "filter has_source (merge_adjacent (a # b # es)) = a # ?r b" using mp 1(2) by simp
    have "keeps_best (import_arcs (a # b # es)) (import_arcs (a # ?r b))"
      using keeps_best_Un [OF keeps_best_refl [of "import_arcs [a]"] conjunct1 [OF IH]]
      by (simp add: import_arcs_Cons [of a "b # es"] import_arcs_Cons [of a "?r b"])
    then show ?thesis unfolding r using IH reweighted_Cons [of "b # es" _ a] reweighted_self [of a "a # b # es"] by simp
  qed
qed (simp_all add: reweighted_self)

definition sorts_by :: "('a \<Rightarrow> 'a \<Rightarrow> bool) \<Rightarrow> ('a list \<Rightarrow> 'a list) \<Rightarrow> bool" where
  "sorts_by lt f \<longleftrightarrow> (\<forall>xs. mset (f xs) = mset xs \<and> sorted_wrt (\<lambda>a b. \<not> lt b a) (f xs))"

lemma sorts_by_set: "sorts_by lt f \<Longrightarrow> set (f xs) = set xs"
  unfolding sorts_by_def using mset_eq_setD by blast

lemma merge_edges_keeps:
  assumes srt: "sorts_by NodeBasedEdge_less psort" and ok: "\<forall>e \<in> set es. has_source e"
  shows "keeps_best (import_arcs es) (import_arcs (merge_edges psort es))"
    and "\<forall>e \<in> set (merge_edges psort es). reweighted es e"
proof -
  have st: "set (psort es) = set es" by (rule sorts_by_set [OF srt])
  have eq: "import_arcs (psort es) = import_arcs es" "reweighted (psort es) = reweighted es" "merge_edges psort es = filter has_source (merge_adjacent (psort es))"
    unfolding import_arcs_def reweighted_def st merge_edges_def has_source_def by (rule refl)+
  show "keeps_best (import_arcs es) (import_arcs (merge_edges psort es))" "\<forall>e \<in> set (merge_edges psort es). reweighted es e"
    using merge_adjacent_keeps [of "psort es"] ok unfolding st eq by simp_all
qed

section \<open>Importing\<close>

fun import_edges :: "(NodeID \<rightharpoonup> NodeID) \<Rightarrow> FileEdge list \<Rightarrow> ImportEdge list option" where
  "import_edges ids [] = Some []"
| "import_edges ids (e # es) = do { new \<leftarrow> import_edge ids e; rest \<leftarrow> import_edges ids es; Some (new @ rest) }"

definition plausible :: "FileEdge \<Rightarrow> bool" where
  "plausible e \<longleftrightarrow> 0 < fe_length e \<and> 0 < fe_weight e \<and> 0 \<le> fe_dir e \<and> fe_dir e \<le> 2"

definition oriented :: "nat \<Rightarrow> ImportEdge \<Rightarrow> bool" where
  "oriented n e \<longleftrightarrow> nbe_source e \<le> nbe_target e \<and> nbe_target e < n \<and> 0 < nbe_weight e \<and> (nbe_forward e \<or> nbe_backward e) \<and> nbe_travel_mode e < 16"

lemma import_edge_correct:
  assumes "plausible e" and ids: "\<forall>x i. ids x = Some i \<longrightarrow> i < n" and "n \<le> SPECIAL_NODEID"
  shows "\<exists>new. import_edge ids e = Some new \<and> import_arcs new = file_arcs ids [e] \<and> (\<forall>i \<in> set new. oriented n i)"
proof (cases "ids (fe_source e)")
  case None
  then show ?thesis using assms by (simp add: import_edge_def plausible_def file_arcs_def)
next
  case s: (Some s)
  show ?thesis
  proof (cases "ids (fe_target e)")
    case None
    then show ?thesis using assms s by (simp add: import_edge_def plausible_def file_arcs_def)
  next
    case t: (Some t)
    have st: "s < n" "t < n" using ids s t by auto
    define new where "new = \<lparr> nbe_source = min s t, nbe_target = max s t, nbe_name_id = fe_name_id e, nbe_weight = fe_weight e,
      nbe_forward = (if t < s then fe_dir e \<noteq> 1 else fe_dir e \<noteq> 2), nbe_backward = (if t < s then fe_dir e \<noteq> 2 else fe_dir e \<noteq> 1),
      nbe_roundabout = fe_roundabout e, nbe_in_tiny_cc = fe_ignore_in_grid e, nbe_access_restricted = fe_access_restricted e,
      nbe_is_split = fe_is_split e, nbe_travel_mode = fe_travel_mode e mod 16 \<rparr>"
    have "import_edge ids e = Some [new]"
      using assms(1,3) s t st unfolding new_def by (cases "t < s") (simp_all add: import_edge_def plausible_def)
    moreover have "import_arcs [new] = file_arcs ids [e]"
    proof (cases "t < s")
      case True
      then show ?thesis unfolding import_arcs_single file_arcs_def new_def using s t by (simp add: set_eq_iff) blast
    next
      case False
      then show ?thesis unfolding import_arcs_single file_arcs_def new_def using s t by (simp add: set_eq_iff) blast
    qed
    moreover have "oriented n new" using st assms(1) unfolding new_def oriented_def plausible_def by (cases "t < s") simp_all
    ultimately show ?thesis by auto
  qed
qed

lemma file_arcs_Cons: "file_arcs ids (e # es) = file_arcs ids [e] \<union> file_arcs ids es"
  by (auto simp: file_arcs_def)

lemma import_edges_correct:
  assumes "\<forall>e \<in> set es. plausible e" and ids: "\<forall>x i. ids x = Some i \<longrightarrow> i < n" and n: "n \<le> SPECIAL_NODEID"
  shows "\<exists>new. import_edges ids es = Some new \<and> import_arcs new = file_arcs ids es \<and> (\<forall>i \<in> set new. oriented n i)"
  using assms(1)
proof (induction es)
  case Nil
  then show ?case by (simp add: file_arcs_def)
next
  case (Cons e es)
  obtain new where new: "import_edge ids e = Some new" "import_arcs new = file_arcs ids [e]" "\<forall>i \<in> set new. oriented n i"
    using import_edge_correct [OF _ ids n, of e] Cons.prems by auto
  obtain r where r: "import_edges ids es = Some r" "import_arcs r = file_arcs ids es" "\<forall>i \<in> set r. oriented n i"
    using Cons by auto
  show ?case using new r by (auto simp: import_arcs_append file_arcs_Cons [of ids e es])
qed

lemma merge_imported:
  assumes srt: "sorts_by NodeBasedEdge_less psort" and n: "n \<le> SPECIAL_NODEID" and es: "\<forall>e \<in> set es. oriented n e"
  shows "keeps_best (import_arcs es) (import_arcs (merge_edges psort es))" "\<forall>e \<in> set (merge_edges psort es). oriented n e"
proof -
  have k: "\<forall>e \<in> set es. has_source e" using es n by (auto simp: oriented_def has_source_def)
  show "keeps_best (import_arcs es) (import_arcs (merge_edges psort es))" by (rule merge_edges_keeps(1) [OF srt k])
  show "\<forall>e \<in> set (merge_edges psort es). oriented n e"
  proof
    fix e assume "e \<in> set (merge_edges psort es)"
    then obtain x y where "x \<in> set es" "y \<in> set es" "e = x\<lparr> nbe_weight := nbe_weight y \<rparr>"
      using merge_edges_keeps(2) [OF srt k] unfolding reweighted_def by blast
    then show "oriented n e" using es by (auto simp: oriented_def)
  qed
qed

end
