(* ===== verification/Extractor.thy ===== *)
theory Extractor
  imports Graph_Loader Coordinates "HOL-Library.Product_Lexorder"
begin

text \<open>
  The part of the extractor behind the parsers: \<^verbatim>\<open>ExtractorCallbacks.cpp\<close> collects nodes, ways and restrictions in
  the lists of \<^verbatim>\<open>ExtractionContainers\<close>, whose \<open>PrepareData\<close> joins the sorted lists and writes the files of the road
  network, of the restrictions and of the street names.  \<^verbatim>\<open>Prepare.cpp\<close> and \<^verbatim>\<open>InternalDataFacade.h\<close> read them.

  A \<^verbatim>\<open>double\<close> is a rational number and every operation on it rounds with \<open>xe_fl\<close>; the distance of two
  coordinates, the sorting routines and the contents of padding are parameters (\<open>ExtractionEnv\<close>).  Characters of
  names are their bytes.  Tags (\<^verbatim>\<open>keyVals\<close>) are read by the parsers only and left out.
\<close>

section \<open>Data\<close>

record ExtractionWay =
  way_id :: nat
  way_nameID :: nat
  forward_speed :: rat
  backward_speed :: rat
  duration :: rat
  way_name :: "nat list"
  way_access :: bool
  way_roundabout :: bool
  way_isAccessRestricted :: bool
  way_ignoreInGrid :: bool
  way_path :: "NodeID list"
  way_forward_mode :: TravelMode
  way_backward_mode :: TravelMode

datatype Directions = notSure | oneway | bidirectional | opposite

definition TRAVEL_MODE_DEFAULT :: TravelMode where
  "TRAVEL_MODE_DEFAULT = 1"

definition INVALID_NAMEID :: nat where
  "INVALID_NAMEID = 2 ^ 32 - 1"

text \<open>\<^verbatim>\<open>Clear\<close> keeps the string of the name.\<close>

definition way_Clear :: "ExtractionWay \<Rightarrow> ExtractionWay" where
  "way_Clear w = w\<lparr> way_id := SPECIAL_NODEID, way_nameID := INVALID_NAMEID, way_path := [], forward_speed := -1,
     backward_speed := -1, duration := -1, way_access := True, way_roundabout := False, way_isAccessRestricted := False,
     way_ignoreInGrid := False, way_forward_mode := TRAVEL_MODE_DEFAULT, way_backward_mode := TRAVEL_MODE_DEFAULT \<rparr>"

definition set_direction :: "Directions \<Rightarrow> ExtractionWay \<Rightarrow> ExtractionWay" where
  "set_direction m w =
     (if m = oneway then w\<lparr> way_forward_mode := TRAVEL_MODE_DEFAULT, way_backward_mode := TRAVEL_MODE_INACCESSIBLE \<rparr>
      else if m = opposite then w\<lparr> way_forward_mode := TRAVEL_MODE_INACCESSIBLE, way_backward_mode := TRAVEL_MODE_DEFAULT \<rparr>
      else if m = bidirectional then w\<lparr> way_forward_mode := TRAVEL_MODE_DEFAULT, way_backward_mode := TRAVEL_MODE_DEFAULT \<rparr>
      else w)"

definition get_direction :: "ExtractionWay \<Rightarrow> Directions" where
  "get_direction w =
     (if TRAVEL_MODE_INACCESSIBLE \<noteq> way_forward_mode w \<and> TRAVEL_MODE_INACCESSIBLE \<noteq> way_backward_mode w then bidirectional
      else if TRAVEL_MODE_INACCESSIBLE \<noteq> way_forward_mode w then oneway
      else if TRAVEL_MODE_INACCESSIBLE \<noteq> way_backward_mode w then opposite
      else notSure)"

record InternalExtractorEdge =
  xe_start :: NodeID
  xe_target :: NodeID
  xe_direction :: Directions
  xe_speed :: rat
  xe_name_id :: nat
  xe_is_roundabout :: bool
  xe_is_in_tiny_cc :: bool
  xe_is_duration_set :: bool
  xe_is_access_restricted :: bool
  xe_travel_mode :: TravelMode
  xe_is_split :: bool
  source_coordinate :: FixedPointCoordinate
  target_coordinate :: FixedPointCoordinate

definition InternalExtractorEdge_of ::
    "NodeID \<Rightarrow> NodeID \<Rightarrow> Directions \<Rightarrow> rat \<Rightarrow> nat \<Rightarrow> bool \<Rightarrow> bool \<Rightarrow> bool \<Rightarrow> bool \<Rightarrow> TravelMode \<Rightarrow> bool \<Rightarrow> InternalExtractorEdge" where
  "InternalExtractorEdge_of s t direction speed name_id is_roundabout is_in_tiny_cc is_duration_set is_access_restricted travel_mode is_split =
     \<lparr> xe_start = s, xe_target = t, xe_direction = direction, xe_speed = speed, xe_name_id = name_id,
       xe_is_roundabout = is_roundabout, xe_is_in_tiny_cc = is_in_tiny_cc, xe_is_duration_set = is_duration_set,
       xe_is_access_restricted = is_access_restricted, xe_travel_mode = travel_mode mod 16, xe_is_split = is_split,
       source_coordinate = FixedPointCoordinate_unset, target_coordinate = FixedPointCoordinate_unset \<rparr>"

record WayIDStartAndEndEdge =
  wayID :: nat
  firstStart :: NodeID
  firstTarget :: NodeID
  lastStart :: NodeID
  lastTarget :: NodeID

record InputRestrictionContainer =
  fromWay :: EdgeID
  toWay :: EdgeID
  ir_viaNode :: nat
  ir_restriction :: TurnRestriction

record ExtractionContainers =
  used_node_id_list :: "NodeID list"
  all_nodes_list :: "ExternalMemoryNode list"
  all_edges_list :: "InternalExtractorEdge list"
  name_list :: "nat list list"
  restrictions_list :: "InputRestrictionContainer list"
  way_start_end_id_list :: "WayIDStartAndEndEdge list"

definition ExtractionContainers_new :: ExtractionContainers where
  "ExtractionContainers_new = \<lparr> used_node_id_list = [], all_nodes_list = [], all_edges_list = [], name_list = [[]],
     restrictions_list = [], way_start_end_id_list = [] \<rparr>"

record ExtractorCallbacks =
  string_map :: "nat list \<rightharpoonup> nat"
  external_memory :: ExtractionContainers

record ExtractionEnv =
  xe_fl :: "rat \<Rightarrow> rat"
  ApproximateEuclideanDistance :: "int \<Rightarrow> int \<Rightarrow> int \<Rightarrow> int \<Rightarrow> rat"
  sort_ids :: "NodeID list \<Rightarrow> NodeID list"
  sort_nodes :: "ExternalMemoryNode list \<Rightarrow> ExternalMemoryNode list"
  sort_ways :: "WayIDStartAndEndEdge list \<Rightarrow> WayIDStartAndEndEdge list"
  sort_by_from :: "InputRestrictionContainer list \<Rightarrow> InputRestrictionContainer list"
  sort_by_to :: "InputRestrictionContainer list \<Rightarrow> InputRestrictionContainer list"
  sort_by_start :: "InternalExtractorEdge list \<Rightarrow> InternalExtractorEdge list"
  sort_by_target :: "InternalExtractorEdge list \<Rightarrow> InternalExtractorEdge list"
  node_padding :: "ExternalMemoryNode \<Rightarrow> nat \<times> nat"
  restriction_padding :: "TurnRestriction \<Rightarrow> nat \<times> nat \<times> nat"
  block_junk :: BlockT

text \<open>The orders of the lists.\<close>

definition Cmp :: "NodeID \<Rightarrow> NodeID \<Rightarrow> bool" where
  "Cmp left right \<longleftrightarrow> left < right"

definition CmpNodeByID :: "ExternalMemoryNode \<Rightarrow> ExternalMemoryNode \<Rightarrow> bool" where
  "CmpNodeByID left right \<longleftrightarrow> ni_node_id left < ni_node_id right"

definition CmpWayByID :: "WayIDStartAndEndEdge \<Rightarrow> WayIDStartAndEndEdge \<Rightarrow> bool" where
  "CmpWayByID a b \<longleftrightarrow> wayID a < wayID b"

definition CmpRestrictionContainerByFrom :: "InputRestrictionContainer \<Rightarrow> InputRestrictionContainer \<Rightarrow> bool" where
  "CmpRestrictionContainerByFrom a b \<longleftrightarrow> fromWay a < fromWay b"

definition CmpRestrictionContainerByTo :: "InputRestrictionContainer \<Rightarrow> InputRestrictionContainer \<Rightarrow> bool" where
  "CmpRestrictionContainerByTo a b \<longleftrightarrow> toWay a < toWay b"

definition CmpEdgeByStartID :: "InternalExtractorEdge \<Rightarrow> InternalExtractorEdge \<Rightarrow> bool" where
  "CmpEdgeByStartID a b \<longleftrightarrow> xe_start a < xe_start b"

definition CmpEdgeByTargetID :: "InternalExtractorEdge \<Rightarrow> InternalExtractorEdge \<Rightarrow> bool" where
  "CmpEdgeByTargetID a b \<longleftrightarrow> xe_target a < xe_target b"

definition sorting_env :: "ExtractionEnv \<Rightarrow> bool" where
  "sorting_env env \<longleftrightarrow> sorts_by Cmp (sort_ids env) \<and> sorts_by CmpNodeByID (sort_nodes env) \<and> sorts_by CmpWayByID (sort_ways env) \<and>
     sorts_by CmpRestrictionContainerByFrom (sort_by_from env) \<and> sorts_by CmpRestrictionContainerByTo (sort_by_to env) \<and>
     sorts_by CmpEdgeByStartID (sort_by_start env) \<and> sorts_by CmpEdgeByTargetID (sort_by_target env)"

section \<open>Callbacks\<close>

definition ProcessNode :: "ExternalMemoryNode \<Rightarrow> ExtractorCallbacks \<Rightarrow> ExtractorCallbacks" where
  "ProcessNode n cb =
     (if float_of_int (ni_lat n) \<le> 85 * 1000000 \<and> float_of_int (ni_lat n) \<ge> - 85 * 1000000
      then cb\<lparr> external_memory := (external_memory cb)\<lparr> all_nodes_list := all_nodes_list (external_memory cb) @ [n] \<rparr> \<rparr>
      else cb)"

definition ProcessRestriction :: "InputRestrictionContainer \<Rightarrow> ExtractorCallbacks \<Rightarrow> bool \<times> ExtractorCallbacks" where
  "ProcessRestriction restriction cb =
     (True, cb\<lparr> external_memory := (external_memory cb)\<lparr> restrictions_list := restrictions_list (external_memory cb) @ [restriction] \<rparr> \<rparr>)"

definition intern_name :: "nat list \<Rightarrow> ExtractorCallbacks \<Rightarrow> nat \<times> ExtractorCallbacks" where
  "intern_name nm cb =
     (case string_map cb nm of
        None \<Rightarrow>
          (let ident = length (name_list (external_memory cb)) in
           (ident, cb\<lparr> external_memory := (external_memory cb)\<lparr> name_list := name_list (external_memory cb) @ [nm] \<rparr>,
                        string_map := (string_map cb)(nm \<mapsto> ident) \<rparr>))
      | Some ident \<Rightarrow> (ident, cb))"

text \<open>The loops over the segments of the path, which has at least two nodes.\<close>

definition path_edges :: "(NodeID \<Rightarrow> NodeID \<Rightarrow> 'a) \<Rightarrow> NodeID list \<Rightarrow> 'a list" where
  "path_edges mk path = map (\<lambda>n. mk (path ! n) (path ! (n + 1))) (irange 0 (length path - 1))"

definition path_ends :: "nat \<Rightarrow> NodeID list \<Rightarrow> WayIDStartAndEndEdge" where
  "path_ends ident path = \<lparr> wayID = ident, firstStart = path ! 0, firstTarget = path ! 1,
     lastStart = path ! (length path - 2), lastTarget = last path \<rparr>"

definition is_split_way :: "ExtractionWay \<Rightarrow> bool" where
  "is_split_way w \<longleftrightarrow>
     forward_speed w > 0 \<and> TRAVEL_MODE_INACCESSIBLE \<noteq> way_forward_mode w \<and>
     backward_speed w > 0 \<and> TRAVEL_MODE_INACCESSIBLE \<noteq> way_backward_mode w \<and>
     (forward_speed w \<noteq> backward_speed w \<or> way_forward_mode w \<noteq> way_backward_mode w)"

text \<open>The edges of a way, once more in reverse when its directions differ.\<close>

definition store_way :: "ExtractionWay \<Rightarrow> ExtractionContainers \<Rightarrow> ExtractionContainers option" where
  "store_way w em = do {
     let split_edge = is_split_way w;
     assert_that (way_forward_mode w > 0);
     let mk = (\<lambda>direction speed mode s t. InternalExtractorEdge_of s t direction speed (way_nameID w) (way_roundabout w)
       (way_ignoreInGrid w) (0 < duration w) (way_isAccessRestricted w) mode split_edge);
     let direction = (if split_edge \<or> TRAVEL_MODE_INACCESSIBLE = way_backward_mode w then oneway else bidirectional);
     let em = em\<lparr> all_edges_list := all_edges_list em @
                    path_edges (mk direction (forward_speed w) (way_forward_mode w)) (way_path w),
                  used_node_id_list := used_node_id_list em @ way_path w,
                  way_start_end_id_list := way_start_end_id_list em @ [path_ends (way_id w) (way_path w)] \<rparr>;
     if split_edge then do {
       assert_that (way_backward_mode w > 0);
       let path = rev (way_path w);
       Some (em\<lparr> all_edges_list := all_edges_list em @
                   path_edges (mk oneway (backward_speed w) (way_backward_mode w)) path,
                 way_start_end_id_list := way_start_end_id_list em @ [path_ends (way_id w) path] \<rparr>)
     } else Some em
   }"

definition ProcessWay :: "ExtractionEnv \<Rightarrow> ExtractionWay \<Rightarrow> ExtractorCallbacks \<Rightarrow> ExtractorCallbacks option" where
  "ProcessWay env parsed_way cb =
     (if (0 \<ge> forward_speed parsed_way \<or> TRAVEL_MODE_INACCESSIBLE = way_forward_mode parsed_way) \<and>
         (0 \<ge> backward_speed parsed_way \<or> TRAVEL_MODE_INACCESSIBLE = way_backward_mode parsed_way) \<and>
         0 \<ge> duration parsed_way then Some cb
      else if length (way_path parsed_way) \<le> 1 then Some cb
      else if 2 ^ 32 - 1 = way_id parsed_way then Some cb
      else
        let segment = xe_fl env (duration parsed_way / of_nat (length (way_path parsed_way) - 1));
            w = (if 0 < duration parsed_way then parsed_way\<lparr> forward_speed := segment, backward_speed := segment \<rparr> else parsed_way)
        in if \<bar>xe_fl env (- 1 - forward_speed w)\<bar> \<le> 1 / 2 ^ 52 then Some cb
        else do {
          let (ident, cb) = intern_name (way_name w) cb;
          let w = w\<lparr> way_nameID := ident \<rparr>;
          let w = (if TRAVEL_MODE_INACCESSIBLE = way_forward_mode w
                   then w\<lparr> way_path := rev (way_path w), way_forward_mode := way_backward_mode w,
                           way_backward_mode := TRAVEL_MODE_INACCESSIBLE \<rparr>
                   else w);
          em \<leftarrow> store_way w (external_memory cb);
          Some (cb\<lparr> external_memory := em \<rparr>)
        })"

section \<open>Restrictions\<close>

text \<open>The node of a way next to the via node; the ends of the way are searched in two orders.\<close>

definition set_from_node :: "WayIDStartAndEndEdge \<Rightarrow> InputRestrictionContainer \<Rightarrow> InputRestrictionContainer" where
  "set_from_node w r =
     (let via_node_id = viaNode (ir_restriction r);
          to_from = (\<lambda>x. r\<lparr> ir_restriction := (ir_restriction r)\<lparr> fromNode := x \<rparr> \<rparr>)
      in if firstStart w = via_node_id then to_from (firstTarget w)
         else if firstTarget w = via_node_id then to_from (firstStart w)
         else if lastStart w = via_node_id then to_from (lastTarget w)
         else if lastTarget w = via_node_id then to_from (lastStart w)
         else r)"

definition set_to_node :: "WayIDStartAndEndEdge \<Rightarrow> InputRestrictionContainer \<Rightarrow> InputRestrictionContainer" where
  "set_to_node w r =
     (let via_node_id = viaNode (ir_restriction r);
          to_to = (\<lambda>x. r\<lparr> ir_restriction := (ir_restriction r)\<lparr> toNode := x \<rparr> \<rparr>)
      in if lastStart w = via_node_id then to_to (lastTarget w)
         else if lastTarget w = via_node_id then to_to (lastStart w)
         else if firstStart w = via_node_id then to_to (firstTarget w)
         else if firstTarget w = via_node_id then to_to (firstStart w)
         else r)"

fun fix_restriction_starts :: "WayIDStartAndEndEdge list \<Rightarrow> InputRestrictionContainer list \<Rightarrow> InputRestrictionContainer list" where
  "fix_restriction_starts (w # ws) (r # rs) =
     (if wayID w < fromWay r then fix_restriction_starts ws (r # rs)
      else if wayID w > fromWay r then r # fix_restriction_starts (w # ws) rs
      else set_from_node w r # fix_restriction_starts (w # ws) rs)"
| "fix_restriction_starts _ rs = rs"

definition is_usable :: "InputRestrictionContainer \<Rightarrow> bool" where
  "is_usable r \<longleftrightarrow> 2 ^ 32 - 1 \<noteq> fromNode (ir_restriction r) \<and> 2 ^ 32 - 1 \<noteq> toNode (ir_restriction r)"

fun fix_restriction_ends ::
    "WayIDStartAndEndEdge list \<Rightarrow> InputRestrictionContainer list \<Rightarrow> nat \<times> InputRestrictionContainer list" where
  "fix_restriction_ends (w # ws) (r # rs) =
     (if wayID w < toWay r then fix_restriction_ends ws (r # rs)
      else if wayID w > toWay r then let (k, rs) = fix_restriction_ends (w # ws) rs in (k, r # rs)
      else let r = set_to_node w r; (k, rs) = fix_restriction_ends (w # ws) rs
           in ((if is_usable r then k + 1 else k), r # rs))"
| "fix_restriction_ends _ rs = (0, rs)"

text \<open>The memory of a restriction: three identifiers, a byte of flags and the padding.\<close>

definition TurnRestriction_bytes :: "ExtractionEnv \<Rightarrow> TurnRestriction \<Rightarrow> nat list" where
  "TurnRestriction_bytes env r = (case restriction_padding env r of (a, b, c) \<Rightarrow>
     bytes32 (viaNode r) @ bytes32 (fromNode r) @ bytes32 (toNode r) @ [of_bool (isOnly r), a, b, c])"

definition prepare_restrictions ::
    "ExtractionEnv \<Rightarrow> WayIDStartAndEndEdge list \<Rightarrow> InputRestrictionContainer list \<Rightarrow> nat \<times> InputRestrictionContainer list" where
  "prepare_restrictions env ways rs =
     fix_restriction_ends ways (sort_by_to env (fix_restriction_starts ways (sort_by_from env rs)))"

definition write_restrictions :: "ExtractionEnv \<Rightarrow> nat list \<Rightarrow> ExtractionContainers \<Rightarrow> nat list" where
  "write_restrictions env fingerprint c =
     (let (number_of_useable_restrictions, rs) =
            prepare_restrictions env (sort_ways env (way_start_end_id_list c)) (restrictions_list c)
      in fingerprint @ bytes32 number_of_useable_restrictions @
         concat (map (TurnRestriction_bytes env) (map ir_restriction (filter is_usable rs))))"

text \<open>\<^verbatim>\<open>Prepare.cpp\<close> reads the file back.\<close>

definition TestPrepare :: "nat list \<Rightarrow> nat list \<Rightarrow> bool option" where
  "TestPrepare fp other = do {
     assert_that (IsMagicNumberOK other);
     Some (take 32 (drop 4 fp) = take 32 (drop 4 other))
   }"

definition read_TurnRestriction :: "nat list \<Rightarrow> (TurnRestriction \<times> nat list) option" where
  "read_TurnRestriction inp = do {
     (v, inp) \<leftarrow> read32 inp;
     (f, inp) \<leftarrow> read32 inp;
     (t, inp) \<leftarrow> read32 inp;
     (flags, inp) \<leftarrow> read_uchar inp;
     (_, inp) \<leftarrow> read_uchar inp;
     (_, inp) \<leftarrow> read_uchar inp;
     (_, inp) \<leftarrow> read_uchar inp;
     Some (\<lparr> viaNode = v, fromNode = f, toNode = t, isOnly = odd flags \<rparr>, inp)
   }"

fun read_restrictions :: "nat \<Rightarrow> nat list \<Rightarrow> (TurnRestriction list \<times> nat list) option" where
  "read_restrictions 0 inp = Some ([], inp)"
| "read_restrictions (Suc k) inp = do {
     (r, inp) \<leftarrow> read_TurnRestriction inp;
     (rs, inp) \<leftarrow> read_restrictions k inp;
     Some (r # rs, inp)
   }"

definition CheckRestrictionsFile :: "nat list \<Rightarrow> nat list \<Rightarrow> TurnRestriction list option" where
  "CheckRestrictionsFile fingerprint_orig inp = do {
     assert_that (length fingerprint_orig \<le> length inp);
     fingerprints_match \<leftarrow> TestPrepare (take (length fingerprint_orig) inp) fingerprint_orig;
     let inp = drop (length fingerprint_orig) inp;
     (number_of_usable_restrictions, inp) \<leftarrow> read32 inp;
     (rs, inp) \<leftarrow> read_restrictions number_of_usable_restrictions inp;
     Some rs
   }"

section \<open>Nodes and edges\<close>

fun used_nodes :: "NodeID list \<Rightarrow> ExternalMemoryNode list \<Rightarrow> ExternalMemoryNode list" where
  "used_nodes (i # is) (n # ns) =
     (if i < ni_node_id n then used_nodes is (n # ns)
      else if i > ni_node_id n then used_nodes (i # is) ns
      else n # used_nodes is ns)"
| "used_nodes _ _ = []"

fun set_start_coordinates :: "InternalExtractorEdge list \<Rightarrow> ExternalMemoryNode list \<Rightarrow> InternalExtractorEdge list" where
  "set_start_coordinates (e # es) (n # ns) =
     (if xe_start e < ni_node_id n then e # set_start_coordinates es (n # ns)
      else if xe_start e > ni_node_id n then set_start_coordinates (e # es) ns
      else e\<lparr> source_coordinate := \<lparr> lat = ni_lat n, lon = ni_lon n \<rparr> \<rparr> # set_start_coordinates es (n # ns))"
| "set_start_coordinates es _ = es"

text \<open>A conversion to \<^verbatim>\<open>int\<close> is undefined when the value does not fit.\<close>

definition to_int :: "int \<Rightarrow> int option" where
  "to_int x = do { assert_that (INT_MIN \<le> x \<and> x < 2 ^ 31); Some x }"

text \<open>A quotient by zero is not finite.\<close>

definition integer_weight :: "ExtractionEnv \<Rightarrow> InternalExtractorEdge \<Rightarrow> rat \<Rightarrow> int option" where
  "integer_weight env e distance = do {
     let fl = xe_fl env;
     let metres_per_second = fl (xe_speed e / fl (36 / 10));
     assert_that (xe_is_duration_set e \<or> metres_per_second \<noteq> 0);
     let weight = fl (fl (distance * 10) / metres_per_second);
     w \<leftarrow> to_int \<lfloor>fl ((if xe_is_duration_set e then xe_speed e else weight) + 1 / 2)\<rfloor>;
     Some (max 1 w)
   }"

definition integer_distance :: "rat \<Rightarrow> int option" where
  "integer_distance distance = do {
     d \<leftarrow> to_int (if distance < 0 then \<lceil>distance\<rceil> else \<lfloor>distance\<rfloor>);
     Some (max 1 d)
   }"

definition direction_code :: "Directions \<Rightarrow> int" where
  "direction_code d = (case d of notSure \<Rightarrow> 0 | oneway \<Rightarrow> 1 | bidirectional \<Rightarrow> 0 | opposite \<Rightarrow> 1)"

definition file_edge :: "ExtractionEnv \<Rightarrow> InternalExtractorEdge \<Rightarrow> ExternalMemoryNode \<Rightarrow> FileEdge option" where
  "file_edge env e n = do {
     assert_that (xe_speed e \<noteq> - 1);
     let distance = ApproximateEuclideanDistance env (lat (source_coordinate e)) (lon (source_coordinate e)) (ni_lat n) (ni_lon n);
     w \<leftarrow> integer_weight env e distance;
     len \<leftarrow> integer_distance distance;
     Some \<lparr> fe_source = xe_start e, fe_target = xe_target e, fe_length = len, fe_dir = direction_code (xe_direction e),
            fe_weight = w, fe_name_id = xe_name_id e, fe_roundabout = xe_is_roundabout e, fe_ignore_in_grid = xe_is_in_tiny_cc e,
            fe_access_restricted = xe_is_access_restricted e, fe_travel_mode = xe_travel_mode e, fe_is_split = xe_is_split e \<rparr>
   }"

fun write_file_edges :: "ExtractionEnv \<Rightarrow> InternalExtractorEdge list \<Rightarrow> ExternalMemoryNode list \<Rightarrow> FileEdge list option" where
  "write_file_edges env (e # es) (n # ns) =
     (if xe_target e < ni_node_id n then write_file_edges env es (n # ns)
      else if xe_target e > ni_node_id n then write_file_edges env (e # es) ns
      else if lat (source_coordinate e) \<noteq> INT_MIN \<and> lon (source_coordinate e) \<noteq> INT_MIN then do {
        f \<leftarrow> file_edge env e n;
        fs \<leftarrow> write_file_edges env es (n # ns);
        Some (f # fs)
      } else write_file_edges env es (n # ns))"
| "write_file_edges env _ _ = Some []"

definition bytes_int :: "int \<Rightarrow> nat list" where
  "bytes_int x = bytes32 (nat (x mod 2 ^ 32))"

definition bytes_short :: "int \<Rightarrow> nat list" where
  "bytes_short x = [nat (x mod 2 ^ 16) mod 256, nat (x mod 2 ^ 16) div 256]"

definition ExternalMemoryNode_bytes :: "ExtractionEnv \<Rightarrow> ExternalMemoryNode \<Rightarrow> nat list" where
  "ExternalMemoryNode_bytes env n = (case node_padding env n of (a, b) \<Rightarrow>
     bytes_int (ni_lat n) @ bytes_int (ni_lon n) @ bytes32 (ni_node_id n) @ [of_bool (bollard n), of_bool (trafficLight n), a, b])"

definition FileEdge_bytes :: "FileEdge \<Rightarrow> nat list" where
  "FileEdge_bytes e = bytes32 (fe_source e) @ bytes32 (fe_target e) @ bytes_int (fe_length e) @ bytes_short (fe_dir e) @
     bytes_int (fe_weight e) @ bytes32 (fe_name_id e) @ [of_bool (fe_roundabout e), of_bool (fe_ignore_in_grid e),
     of_bool (fe_access_restricted e), fe_travel_mode e, of_bool (fe_is_split e)]"

text \<open>The counters in the file are overwritten when the numbers are known.\<close>

definition osrm_bytes :: "ExtractionEnv \<Rightarrow> nat list \<Rightarrow> ExternalMemoryNode list \<Rightarrow> FileEdge list \<Rightarrow> nat list" where
  "osrm_bytes env fingerprint ns es = fingerprint @ bytes32 (length ns) @ concat (map (ExternalMemoryNode_bytes env) ns) @
     bytes32 (length es) @ concat (map FileEdge_bytes es)"

definition write_osrm :: "ExtractionEnv \<Rightarrow> nat list \<Rightarrow> ExtractionContainers \<Rightarrow> nat list option" where
  "write_osrm env fingerprint c = do {
     let ids = remdups_adj (sort_ids env (used_node_id_list c));
     let ns = sort_nodes env (all_nodes_list c);
     let es = set_start_coordinates (sort_by_start env (all_edges_list c)) ns;
     fs \<leftarrow> write_file_edges env (sort_by_target env es) ns;
     Some (osrm_bytes env fingerprint (used_nodes ids ns) fs)
   }"

section \<open>Names\<close>

definition write_names :: "ExtractionEnv \<Rightarrow> nat list list \<Rightarrow> nat list option" where
  "write_names env names = do {
     let name_lengths = map (\<lambda>s. min (length s) 255) names;
     table \<leftarrow> RangeTable_of 16 (block_junk env) name_lengths;
     Some (RangeTable_write table @ bytes32 (sum_list name_lengths) @ concat (map (\<lambda>s. take (min (length s) 255) s) names))
   }"

definition PrepareData :: "ExtractionEnv \<Rightarrow> nat list \<Rightarrow> ExtractionContainers \<Rightarrow> (nat list \<times> nat list \<times> nat list) option" where
  "PrepareData env fingerprint c = do {
     let restrictions_out_stream = write_restrictions env fingerprint c;
     file_out_stream \<leftarrow> write_osrm env fingerprint c;
     name_file_stream \<leftarrow> write_names env (name_list c);
     Some (restrictions_out_stream, file_out_stream, name_file_stream)
   }"

section \<open>Reading back what was written\<close>

lemma sbits_mod: "sbits w (x mod 2 ^ w) = sbits w x"
  unfolding sbits_def by (simp add: mod_add_left_eq)

lemma read_int_bytes: "- (2 ^ 31) \<le> x \<Longrightarrow> x < 2 ^ 31 \<Longrightarrow> read_int (bytes_int x @ r) = Some (x, r)"
proof -
  assume x: "- (2 ^ 31) \<le> x" "x < 2 ^ 31"
  have m: "0 \<le> x mod 2 ^ 32" "x mod 2 ^ 32 < 2 ^ 32" by simp_all
  then have "nat (x mod 2 ^ 32) < 2 ^ 32" by (simp add: nat_less_iff)
  moreover have "sbits 32 (x mod 2 ^ 32) = x" using sbits_id [of 32 x] sbits_mod [of 32 x] x by simp
  ultimately show ?thesis using m by (simp add: read_int_def bytes_int_def read32_bytes32)
qed

lemma read_short_bytes:
  assumes "0 \<le> x" "x \<le> 2"
  shows "read_short (bytes_short x @ r) = Some (x, r)"
proof -
  have "x = 0 \<or> x = 1 \<or> x = 2" using assms by auto
  then show ?thesis by (auto simp: bytes_short_def sbits_def)
qed

lemma read_bool_byte [simp]: "read_bool (of_bool b # r) = Some (b, r)"
  by (simp add: read_bool_def)

definition node_fits :: "ExternalMemoryNode \<Rightarrow> bool" where
  "node_fits n \<longleftrightarrow> - (2 ^ 31) \<le> ni_lat n \<and> ni_lat n < 2 ^ 31 \<and> - (2 ^ 31) \<le> ni_lon n \<and> ni_lon n < 2 ^ 31 \<and> ni_node_id n < 2 ^ 32"

definition edge_fits :: "FileEdge \<Rightarrow> bool" where
  "edge_fits e \<longleftrightarrow> fe_source e < 2 ^ 32 \<and> fe_target e < 2 ^ 32 \<and> - (2 ^ 31) \<le> fe_length e \<and> fe_length e < 2 ^ 31 \<and>
     0 \<le> fe_dir e \<and> fe_dir e \<le> 2 \<and> - (2 ^ 31) \<le> fe_weight e \<and> fe_weight e < 2 ^ 31 \<and> fe_name_id e < 2 ^ 32"

lemma read_node_bytes: "node_fits n \<Longrightarrow> read_ExternalMemoryNode (ExternalMemoryNode_bytes env n @ r) = Some (n, r)"
  by (cases "node_padding env n") (simp add: read_ExternalMemoryNode_def ExternalMemoryNode_bytes_def node_fits_def read_int_bytes read32_bytes32)

lemma read_edge_bytes: "edge_fits e \<Longrightarrow> read_FileEdge (FileEdge_bytes e @ r) = Some (e, r)"
  by (simp add: read_FileEdge_def FileEdge_bytes_def edge_fits_def read_int_bytes read32_bytes32 read_short_bytes)

lemma read_edges_bytes:
  "\<forall>e \<in> set es. edge_fits e \<Longrightarrow> read_edges (length es) ids (concat (map FileEdge_bytes es) @ r) = map_option (\<lambda>new. (new, r)) (import_edges ids es)"
  by (induction es) (auto simp: read_edge_bytes split: Option.bind_split)

lemma read_nodes_bytes:
  "\<forall>n \<in> set ns. node_fits n \<Longrightarrow> read_nodes (irange i (i + length ns)) (concat (map (ExternalMemoryNode_bytes env) ns) @ r) ld =
     Some (fold (\<lambda>(i, n). load_node i n) (zip (irange i (i + length ns)) ns) ld, r)"
proof (induction ns arbitrary: i ld)
  case (Cons n ns)
  have "irange i (i + length (n # ns)) = i # irange (Suc i) (Suc i + length ns)" by (simp add: irange_Cons)
  then show ?case using Cons.IH [of "Suc i"] Cons.prems by (simp add: read_node_bytes)
qed simp

section \<open>Merge joins\<close>

text \<open>
  The loops over two sorted lists: \<open>a\<close> waits for the elements of the other list that have its key.
\<close>

fun merge_join :: "('a \<Rightarrow> nat) \<Rightarrow> ('b \<Rightarrow> nat) \<Rightarrow> ('a \<Rightarrow> 'b \<Rightarrow> 'b) \<Rightarrow> 'a list \<Rightarrow> 'b list \<Rightarrow> 'b list" where
  "merge_join ka kb f (a # as) (b # bs) =
     (if ka a < kb b then merge_join ka kb f as (b # bs)
      else if ka a > kb b then b # merge_join ka kb f (a # as) bs
      else f a b # merge_join ka kb f (a # as) bs)"
| "merge_join ka kb f _ bs = bs"

definition with_key :: "('a \<Rightarrow> nat) \<Rightarrow> 'a list \<Rightarrow> nat \<Rightarrow> 'a option" where
  "with_key ka as k = find (\<lambda>a. ka a = k) as"

lemma with_key_Nil [simp]: "with_key ka [] k = None"
  by (simp add: with_key_def)

lemma with_key_None: "with_key ka as k = None \<longleftrightarrow> k \<notin> ka ` set as"
  unfolding with_key_def by (auto simp: find_None_iff)

lemma with_key_Some: "with_key ka as k = Some a \<Longrightarrow> a \<in> set as \<and> ka a = k"
  unfolding with_key_def by (auto simp: find_Some_iff)

lemma with_key_skip: "ka a \<noteq> k \<Longrightarrow> with_key ka (a # as) k = with_key ka as k"
  by (simp add: with_key_def)

lemma with_key_here: "with_key ka (a # as) (ka a) = Some a"
  by (simp add: with_key_def)

lemma with_key_below: "sorted (map ka (a # as)) \<Longrightarrow> k < ka a \<Longrightarrow> with_key ka (a # as) k = None"
  unfolding with_key_None by auto

lemma merge_join_map:
  "sorted (map ka as) \<Longrightarrow> sorted (map kb bs) \<Longrightarrow>
   merge_join ka kb f as bs = map (\<lambda>b. case with_key ka as (kb b) of None \<Rightarrow> b | Some a \<Rightarrow> f a b) bs"
proof (induction ka kb f as bs rule: merge_join.induct)
  case (1 ka kb f a as b bs)
  consider "ka a < kb b" | "ka a > kb b" | "ka a = kb b" by linarith
  then show ?case
  proof cases
    case 1
    then have "with_key ka (a # as) (kb x) = with_key ka as (kb x)" if "x \<in> set (b # bs)" for x
      using that \<open>sorted (map kb (b # bs))\<close> by (intro with_key_skip) auto
    then show ?thesis using 1 "1.IH"(1) "1.prems" by (simp cong: map_cong)
  next
    case 2
    then show ?thesis using "1.IH"(2) "1.prems" with_key_below [OF "1.prems"(1) 2] by simp
  next
    case 3
    then show ?thesis using "1.IH"(3) "1.prems" with_key_here [of ka a as] by simp
  qed
qed simp_all

lemma fix_restriction_starts_join: "fix_restriction_starts ws rs = merge_join wayID fromWay set_from_node ws rs"
  by (induction ws rs rule: fix_restriction_starts.induct) simp_all

lemma fix_restriction_ends_join: "snd (fix_restriction_ends ws rs) = merge_join wayID toWay set_to_node ws rs"
  by (induction ws rs rule: fix_restriction_ends.induct) (simp_all add: Let_def split_beta)

lemma set_start_coordinates_join:
  "set_start_coordinates es ns = merge_join ni_node_id xe_start (\<lambda>n e. e\<lparr> source_coordinate := \<lparr> lat = ni_lat n, lon = ni_lon n \<rparr> \<rparr>) ns es"
  by (induction es ns rule: set_start_coordinates.induct) simp_all

text \<open>The loop that writes the edges looks up the target of each.\<close>

fun collect_edges :: "ExtractionEnv \<Rightarrow> ExternalMemoryNode list \<Rightarrow> InternalExtractorEdge list \<Rightarrow> FileEdge list option" where
  "collect_edges env ns [] = Some []"
| "collect_edges env ns (e # es) =
     (case with_key ni_node_id ns (xe_target e) of
        None \<Rightarrow> collect_edges env ns es
      | Some n \<Rightarrow>
          if isSet (source_coordinate e) then do { f \<leftarrow> file_edge env e n; fs \<leftarrow> collect_edges env ns es; Some (f # fs) }
          else collect_edges env ns es)"

lemma collect_edges_skip:
  "\<forall>e \<in> set es. ni_node_id n \<noteq> xe_target e \<Longrightarrow> collect_edges env (n # ns) es = collect_edges env ns es"
  by (induction es) (auto simp: with_key_skip split: option.splits)

lemma collect_edges_none: "collect_edges env [] es = Some []"
  by (induction es) simp_all

lemma write_file_edges_collect:
  "sorted (map xe_target es) \<Longrightarrow> sorted (map ni_node_id ns) \<Longrightarrow> write_file_edges env es ns = collect_edges env ns es"
proof (induction env es ns rule: write_file_edges.induct)
  case (1 env e es n ns)
  consider "xe_target e < ni_node_id n" | "xe_target e > ni_node_id n" | "xe_target e = ni_node_id n" by linarith
  then show ?case
  proof cases
    case 1
    then show ?thesis using "1.IH"(1) "1.prems" with_key_below [OF "1.prems"(2) 1] by simp
  next
    case 2
    then have "collect_edges env (n # ns) (e # es) = collect_edges env ns (e # es)"
      using "1.prems"(1) by (intro collect_edges_skip) auto
    then show ?thesis using 2 "1.IH"(2) "1.prems" by simp
  next
    case 3
    then show ?thesis using "1.IH"(3,4) "1.prems" with_key_here [of ni_node_id n ns]
      by (cases "file_edge env e n") (auto simp: isSet_def)
  qed
qed (simp_all add: collect_edges_none)

lemma collect_edges_correct:
  assumes "\<And>e n. e \<in> set es \<Longrightarrow> with_key ni_node_id ns (xe_target e) = Some n \<Longrightarrow> isSet (source_coordinate e) \<Longrightarrow> file_edge env e n \<noteq> None"
  shows "\<exists>fs. collect_edges env ns es = Some fs \<and> length fs \<le> length es \<and>
    set fs = {f. \<exists>e \<in> set es. \<exists>n. with_key ni_node_id ns (xe_target e) = Some n \<and> isSet (source_coordinate e) \<and> file_edge env e n = Some f}"
  using assms
proof (induction es)
  case (Cons e es)
  have "\<exists>fs. collect_edges env ns es = Some fs \<and> length fs \<le> length es \<and>
    set fs = {f. \<exists>e \<in> set es. \<exists>n. with_key ni_node_id ns (xe_target e) = Some n \<and> isSet (source_coordinate e) \<and> file_edge env e n = Some f}"
    by (rule Cons.IH) (simp add: Cons.prems)
  then obtain fs where fs: "collect_edges env ns es = Some fs" "length fs \<le> length es"
    "set fs = {f. \<exists>e \<in> set es. \<exists>n. with_key ni_node_id ns (xe_target e) = Some n \<and> isSet (source_coordinate e) \<and> file_edge env e n = Some f}" by blast
  show ?case
  proof (cases "with_key ni_node_id ns (xe_target e) \<noteq> None \<and> isSet (source_coordinate e)")
    case True
    then obtain n f where "with_key ni_node_id ns (xe_target e) = Some n" "file_edge env e n = Some f"
      using Cons.prems [of e] by auto
    then show ?thesis using True fs by (intro exI [of _ "f # fs"]) auto
  next
    case False
    then show ?thesis using fs by (intro exI [of _ fs]) (auto split: option.splits)
  qed
qed simp

section \<open>Nodes in use\<close>

lemma sorted_remdups_strict: "sorted xs \<Longrightarrow> sorted_wrt (<) (remdups_adj (xs :: nat list))"
  by (induction xs rule: remdups_adj.induct) (auto simp: less_le)

lemma used_nodes_lookup:
  "sorted_wrt (<) is \<Longrightarrow> sorted (map ni_node_id ns) \<Longrightarrow> used_nodes is ns = List.map_filter (with_key ni_node_id ns) is"
proof (induction "is" ns rule: used_nodes.induct)
  case (1 i "is" n ns)
  have skip: "List.map_filter (with_key ni_node_id (n # ns)) js = List.map_filter (with_key ni_node_id ns) js"
    if "\<forall>j \<in> set js. ni_node_id n < j" for js
  proof -
    have "with_key ni_node_id (n # ns) j = with_key ni_node_id ns j" if "j \<in> set js" for j
      using \<open>\<forall>j \<in> set js. ni_node_id n < j\<close> that by (intro with_key_skip) auto
    then show ?thesis by (induction js) (simp_all add: List.map_filter_simps split: option.split)
  qed
  consider "i < ni_node_id n" | "i > ni_node_id n" | "i = ni_node_id n" by linarith
  then show ?case
  proof cases
    case 1
    then show ?thesis using "1.IH"(1) "1.prems" with_key_below [OF "1.prems"(2) 1] by (simp add: List.map_filter_simps)
  next
    case 2
    then have "used_nodes (i # is) (n # ns) = used_nodes (i # is) ns" by simp
    also have "\<dots> = List.map_filter (with_key ni_node_id ns) (i # is)" using "1.IH"(2) 2 "1.prems" by auto
    also have "\<dots> = List.map_filter (with_key ni_node_id (n # ns)) (i # is)"
      by (rule skip [symmetric]) (use "1.prems" 2 in auto)
    finally show ?thesis .
  next
    case 3
    then show ?thesis using "1.IH"(3) "1.prems" skip [of "is"] with_key_here [of ni_node_id n ns] by (auto simp: List.map_filter_simps)
  qed
qed (simp_all add: List.map_filter_simps, simp add: List.map_filter_def)

lemma used_nodes_ids:
  assumes "sorted_wrt (<) is" "sorted (map ni_node_id ns)"
  shows "map ni_node_id (used_nodes is ns) = filter (\<lambda>i. i \<in> ni_node_id ` set ns) is" "set (used_nodes is ns) \<subseteq> set ns"
proof -
  have k: "ni_node_id (the (with_key ni_node_id ns i)) = i" if "with_key ni_node_id ns i \<noteq> None" for i
    using that with_key_Some by fastforce
  show "map ni_node_id (used_nodes is ns) = filter (\<lambda>i. i \<in> ni_node_id ` set ns) is"
    unfolding used_nodes_lookup [OF assms]
    by (induction "is") (auto simp: List.map_filter_simps with_key_None [of ni_node_id ns] k split: option.splits dest: with_key_Some)
  show "set (used_nodes is ns) \<subseteq> set ns"
    unfolding used_nodes_lookup [OF assms] List.map_filter_def using with_key_Some by fastforce
qed

lemma load_nodes_effect:
  fixes ids :: "nat \<Rightarrow> ExternalMemoryNode list \<Rightarrow> (nat \<times> ExternalMemoryNode) list"
  defines "ids \<equiv> (\<lambda>i ns. zip (irange i (i + length ns)) ns)"
  shows "ext_to_int_id_map (fold (\<lambda>(i, n). load_node i n) (ids i ns) ld) =
      map_of (map (\<lambda>(i, n). (ni_node_id n, i)) (ids i ns)) ++ ext_to_int_id_map ld"
    and "map ni_node_id (int_to_ext_node_id_map (fold (\<lambda>(i, n). load_node i n) (ids i ns) ld)) =
      map ni_node_id (int_to_ext_node_id_map ld) @ map ni_node_id ns"
proof -
  have step: "ids i (n # ns) = (i, n) # ids (Suc i) ns" for i n ns
    by (simp add: ids_def irange_Cons)
  have [simp]: "ids i [] = []" for i by (simp add: ids_def)
  show "ext_to_int_id_map (fold (\<lambda>(i, n). load_node i n) (ids i ns) ld) =
      map_of (map (\<lambda>(i, n). (ni_node_id n, i)) (ids i ns)) ++ ext_to_int_id_map ld"
    by (induction ns arbitrary: i ld) (auto simp: step load_node_def map_emplace_def map_add_def fun_eq_iff split: option.splits)
  show "map ni_node_id (int_to_ext_node_id_map (fold (\<lambda>(i, n). load_node i n) (ids i ns) ld)) =
      map ni_node_id (int_to_ext_node_id_map ld) @ map ni_node_id ns"
    by (induction ns arbitrary: i ld) (auto simp: step load_node_def)
qed

section \<open>The file of the road network\<close>

lemma sorts_by_key: "sorts_by (\<lambda>a b. k a < (k b :: nat)) f \<Longrightarrow> sorted (map k (f xs))"
  unfolding sorts_by_def sorted_map by (simp add: not_less)

lemma orders_by_key:
  "Cmp = (\<lambda>a b. a < b)" "CmpNodeByID = (\<lambda>a b. ni_node_id a < ni_node_id b)" "CmpWayByID = (\<lambda>a b. wayID a < wayID b)"
  "CmpRestrictionContainerByFrom = (\<lambda>a b. fromWay a < fromWay b)" "CmpRestrictionContainerByTo = (\<lambda>a b. toWay a < toWay b)"
  "CmpEdgeByStartID = (\<lambda>a b. xe_start a < xe_start b)" "CmpEdgeByTargetID = (\<lambda>a b. xe_target a < xe_target b)"
  by (simp_all add: fun_eq_iff Cmp_def CmpNodeByID_def CmpWayByID_def CmpRestrictionContainerByFrom_def CmpRestrictionContainerByTo_def
      CmpEdgeByStartID_def CmpEdgeByTargetID_def)

lemma sorting_env_keys:
  assumes "sorting_env env"
  shows "sorted (sort_ids env xs)" "sorted (map ni_node_id (sort_nodes env ns))" "sorted (map wayID (sort_ways env ws))"
    "sorted (map fromWay (sort_by_from env rs))" "sorted (map toWay (sort_by_to env rs))"
    "sorted (map xe_start (sort_by_start env es))" "sorted (map xe_target (sort_by_target env es))"
proof -
  note s = assms [unfolded sorting_env_def orders_by_key]
  show "sorted (sort_ids env xs)" using sorts_by_key [of "\<lambda>x. x" "sort_ids env" xs] s by simp
  show "sorted (map ni_node_id (sort_nodes env ns))" by (rule sorts_by_key) (use s in blast)
  show "sorted (map wayID (sort_ways env ws))" by (rule sorts_by_key) (use s in blast)
  show "sorted (map fromWay (sort_by_from env rs))" by (rule sorts_by_key) (use s in blast)
  show "sorted (map toWay (sort_by_to env rs))" by (rule sorts_by_key) (use s in blast)
  show "sorted (map xe_start (sort_by_start env es))" by (rule sorts_by_key) (use s in blast)
  show "sorted (map xe_target (sort_by_target env es))" by (rule sorts_by_key) (use s in blast)
qed

lemma sorting_env_sets:
  assumes "sorting_env env"
  shows "set (sort_ids env xs) = set xs" "set (sort_nodes env ns) = set ns" "set (sort_ways env ws) = set ws"
    "set (sort_by_from env rs) = set rs" "set (sort_by_to env rs) = set rs" "set (sort_by_start env es) = set es" "set (sort_by_target env es) = set es"
proof -
  note s = assms [unfolded sorting_env_def]
  show "set (sort_ids env xs) = set xs" by (rule sorts_by_set) (use s in blast)
  show "set (sort_nodes env ns) = set ns" by (rule sorts_by_set) (use s in blast)
  show "set (sort_ways env ws) = set ws" by (rule sorts_by_set) (use s in blast)
  show "set (sort_by_from env rs) = set rs" by (rule sorts_by_set) (use s in blast)
  show "set (sort_by_to env rs) = set rs" by (rule sorts_by_set) (use s in blast)
  show "set (sort_by_start env es) = set es" by (rule sorts_by_set) (use s in blast)
  show "set (sort_by_target env es) = set es" by (rule sorts_by_set) (use s in blast)
qed

lemma sorting_env_lengths:
  assumes "sorting_env env"
  shows "length (sort_by_start env es) = length es" "length (sort_by_target env es) = length es"
  using assms unfolding sorting_env_def sorts_by_def by (metis size_mset)+

text \<open>What the file says of an edge: nothing when an end is unknown.\<close>

definition road_of :: "ExtractionEnv \<Rightarrow> ExternalMemoryNode list \<Rightarrow> InternalExtractorEdge \<Rightarrow> FileEdge option" where
  "road_of env ns e = do {
     a \<leftarrow> with_key ni_node_id ns (xe_start e);
     b \<leftarrow> with_key ni_node_id ns (xe_target e);
     file_edge env (e\<lparr> source_coordinate := \<lparr> lat = ni_lat a, lon = ni_lon a \<rparr> \<rparr>) b
   }"

definition known_nodes :: "ExtractionContainers \<Rightarrow> NodeID list" where
  "known_nodes c = filter (\<lambda>i. i \<in> ni_node_id ` set (all_nodes_list c)) (sorted_list_of_set (set (used_node_id_list c)))"

definition containers_ok :: "ExtractionContainers \<Rightarrow> bool" where
  "containers_ok c \<longleftrightarrow>
     (\<forall>n \<in> set (all_nodes_list c). node_fits n \<and> ni_lat n \<noteq> INT_MIN \<and> ni_lon n \<noteq> INT_MIN) \<and>
     (\<forall>e \<in> set (all_edges_list c). xe_start e \<in> set (used_node_id_list c) \<and> xe_target e \<in> set (used_node_id_list c) \<and>
        \<not> isSet (source_coordinate e) \<and> xe_name_id e < length (name_list c))"

text \<open>The edges between known nodes have a weight that fits.\<close>

definition measurable :: "ExtractionEnv \<Rightarrow> ExtractionContainers \<Rightarrow> bool" where
  "measurable env c \<longleftrightarrow> (\<forall>e \<in> set (all_edges_list c).
     xe_start e \<in> ni_node_id ` set (all_nodes_list c) \<longrightarrow> xe_target e \<in> ni_node_id ` set (all_nodes_list c) \<longrightarrow>
     road_of env (sort_nodes env (all_nodes_list c)) e \<noteq> None)"

lemma file_edge_values:
  assumes "file_edge env e n = Some f"
  shows "fe_source f = xe_start e" "fe_target f = xe_target e" "fe_name_id f = xe_name_id e" "fe_dir f = direction_code (xe_direction e)"
    "1 \<le> fe_weight f" "fe_weight f < 2 ^ 31" "1 \<le> fe_length f" "fe_length f < 2 ^ 31"
  using assms by (auto simp: file_edge_def integer_weight_def integer_distance_def to_int_def bind_eq_Some_conv Let_def)

lemma road_of_ends:
  assumes "road_of env ns e = Some f"
  shows "xe_start e \<in> ni_node_id ` set ns" "xe_target e \<in> ni_node_id ` set ns" "fe_source f = xe_start e" "fe_target f = xe_target e"
    "fe_dir f = direction_code (xe_direction e)" "fe_name_id f = xe_name_id e" "1 \<le> fe_weight f" "fe_weight f < 2 ^ 31" "fe_length f < 2 ^ 31" "plausible f"
proof -
  obtain a b where ab: "with_key ni_node_id ns (xe_start e) = Some a" "with_key ni_node_id ns (xe_target e) = Some b"
    "file_edge env (e\<lparr> source_coordinate := \<lparr> lat = ni_lat a, lon = ni_lon a \<rparr> \<rparr>) b = Some f"
    using assms by (auto simp: road_of_def bind_eq_Some_conv)
  show "xe_start e \<in> ni_node_id ` set ns" "xe_target e \<in> ni_node_id ` set ns"
    using with_key_Some [OF ab(1)] with_key_Some [OF ab(2)] by (metis image_eqI)+
  have "0 \<le> direction_code (xe_direction e)" "direction_code (xe_direction e) \<le> 2" by (simp_all add: direction_code_def split: Directions.split)
  then show "plausible f" using file_edge_values [OF ab(3)] by (simp add: plausible_def)
  show "fe_source f = xe_start e" "fe_target f = xe_target e" "fe_dir f = direction_code (xe_direction e)" "fe_name_id f = xe_name_id e"
    "1 \<le> fe_weight f" "fe_weight f < 2 ^ 31" "fe_length f < 2 ^ 31" using file_edge_values [OF ab(3)] by simp_all
qed

lemma road_of_fits:
  assumes "road_of env ns e = Some f" "\<forall>n \<in> set ns. node_fits n" "xe_name_id e < 2 ^ 32"
  shows "edge_fits f"
  using road_of_ends [OF assms(1)] assms(2,3) by (auto simp: edge_fits_def plausible_def node_fits_def)

text \<open>An edge after the first join.\<close>

definition at_start :: "ExternalMemoryNode list \<Rightarrow> InternalExtractorEdge \<Rightarrow> InternalExtractorEdge" where
  "at_start ns e = (case with_key ni_node_id ns (xe_start e) of None \<Rightarrow> e
     | Some n \<Rightarrow> e\<lparr> source_coordinate := \<lparr> lat = ni_lat n, lon = ni_lon n \<rparr> \<rparr>)"

lemma at_start_simps [simp]: "xe_target (at_start ns e) = xe_target e"
  by (simp add: at_start_def split: option.split)

lemma at_start_road:
  assumes c: "containers_ok c" and ns: "set ns = set (all_nodes_list c)" and e: "e \<in> set (all_edges_list c)"
  shows "(\<exists>b. with_key ni_node_id ns (xe_target e) = Some b \<and> isSet (source_coordinate (at_start ns e)) \<and> file_edge env (at_start ns e) b = Some f) \<longleftrightarrow>
      road_of env ns e = Some f"
    and "isSet (source_coordinate (at_start ns e)) \<longleftrightarrow> xe_start e \<in> ni_node_id ` set ns"
proof -
  have s: "isSet (source_coordinate (at_start ns e)) \<longleftrightarrow> with_key ni_node_id ns (xe_start e) \<noteq> None"
  proof (cases "with_key ni_node_id ns (xe_start e)")
    case None
    then show ?thesis using c e by (auto simp: containers_ok_def at_start_def)
  next
    case (Some a)
    then have "a \<in> set (all_nodes_list c)" using with_key_Some [OF Some] ns by auto
    then show ?thesis using Some c by (auto simp: containers_ok_def isSet_def at_start_def)
  qed
  then show "isSet (source_coordinate (at_start ns e)) \<longleftrightarrow> xe_start e \<in> ni_node_id ` set ns" by (simp only: with_key_None not_not)
  show "(\<exists>b. with_key ni_node_id ns (xe_target e) = Some b \<and> isSet (source_coordinate (at_start ns e)) \<and> file_edge env (at_start ns e) b = Some f) \<longleftrightarrow>
      road_of env ns e = Some f"
    using s by (cases "with_key ni_node_id ns (xe_start e)") (auto simp: road_of_def at_start_def bind_eq_Some_conv)
qed

lemma write_osrm_correct:
  fixes c env
  defines "ns \<equiv> sort_nodes env (all_nodes_list c)"
  assumes env: "sorting_env env" and c: "containers_ok c" and m: "measurable env c"
  shows "\<exists>ks fs. write_osrm env fp c = Some (osrm_bytes env fp ks fs) \<and> map ni_node_id ks = known_nodes c \<and>
    set ks \<subseteq> set (all_nodes_list c) \<and> length fs \<le> length (all_edges_list c) \<and>
    set fs = {f. \<exists>e \<in> set (all_edges_list c). road_of env ns e = Some f}"
proof -
  let ?ids = "remdups_adj (sort_ids env (used_node_id_list c))"
  let ?es = "set_start_coordinates (sort_by_start env (all_edges_list c)) ns"
  let ?ts = "sort_by_target env ?es"
  have ns: "sorted (map ni_node_id ns)" "set ns = set (all_nodes_list c)"
    unfolding ns_def using sorting_env_keys(2) [OF env] sorting_env_sets(2) [OF env] by auto
  have es: "?es = map (at_start ns) (sort_by_start env (all_edges_list c))"
    unfolding set_start_coordinates_join at_start_def by (rule merge_join_map [OF ns(1) sorting_env_keys(6) [OF env]])
  then have ts: "set ?ts = at_start ns ` set (all_edges_list c)" using sorting_env_sets(6,7) [OF env] by simp
  note road = at_start_road [OF c ns(2)]
  have ok: "file_edge env e b \<noteq> None" if e: "e \<in> set ?ts" "with_key ni_node_id ns (xe_target e) = Some b" "isSet (source_coordinate e)" for e b
  proof -
    obtain e' where e': "e' \<in> set (all_edges_list c)" "e = at_start ns e'" using e(1) ts by blast
    have "xe_target e' \<in> ni_node_id ` set ns" using e(2) with_key_None [of ni_node_id ns] unfolding e'(2) at_start_simps by (metis option.distinct(1))
    then obtain f where "road_of env ns e' = Some f"
      using m e'(1) e(3) road(2) [OF e'(1)] ns(2) unfolding measurable_def ns_def [symmetric] e'(2) by auto
    then have "\<exists>b. with_key ni_node_id ns (xe_target e) = Some b \<and> file_edge env e b = Some f" using road(1) [OF e'(1), of env f] e'(2) by auto
    then show ?thesis using e(2) by auto
  qed
  obtain fs where fs: "collect_edges env ns ?ts = Some fs" "length fs \<le> length ?ts"
    "set fs = {f. \<exists>e \<in> set ?ts. \<exists>n. with_key ni_node_id ns (xe_target e) = Some n \<and> isSet (source_coordinate e) \<and> file_edge env e n = Some f}"
    using collect_edges_correct [of ?ts ns env] ok by blast
  have "length ?ts = length (all_edges_list c)"
    using sorting_env_lengths [OF env] unfolding es by simp
  moreover have "set fs = {f. \<exists>e \<in> set (all_edges_list c). road_of env ns e = Some f}"
    unfolding fs(3) ts using road(1) by (simp add: bex_simps cong: bex_cong)
  moreover have ids: "sorted_wrt (<) ?ids" "set ?ids = set (used_node_id_list c)"
    using sorted_remdups_strict [OF sorting_env_keys(1) [OF env]] sorting_env_sets(1) [OF env] by simp_all
  moreover have "?ids = sorted_list_of_set (set (used_node_id_list c))"
    using ids by (metis sorted_list_of_set.idem_if_sorted_distinct strict_sorted_iff)
  moreover have "write_osrm env fp c = Some (osrm_bytes env fp (used_nodes ?ids ns) fs)"
    unfolding write_osrm_def Let_def ns_def [symmetric] write_file_edges_collect [OF sorting_env_keys(7) [OF env] ns(1)] by (simp add: fs(1))
  ultimately show ?thesis using fs(2) used_nodes_ids [OF ids(1) ns(1)] ns(2)
    by (intro exI [of _ "used_nodes ?ids ns"] exI [of _ fs]) (simp only: known_nodes_def simp_thms)
qed

lemma numbering:
  assumes "distinct (map ni_node_id ks)"
  shows "map_of (map (\<lambda>(i, n). (ni_node_id n, i)) (zip (irange 0 (length ks)) ks)) x = Some i \<longleftrightarrow> i < length ks \<and> ni_node_id (ks ! i) = x"
proof -
  let ?z = "map (\<lambda>(i, n). (ni_node_id n, i)) (zip (irange 0 (length ks)) ks)"
  have len: "length (irange 0 (length ks)) = length ks" by (simp add: irange_def)
  have "map fst ?z = map ni_node_id ks" using len by (intro nth_equalityI) auto
  then have "map_of ?z x = Some i \<longleftrightarrow> (x, i) \<in> set ?z" using assms by (intro map_of_eq_Some_iff) simp
  also have "\<dots> \<longleftrightarrow> i < length ks \<and> ni_node_id (ks ! i) = x"
  proof -
    have "?z = map (\<lambda>j. (ni_node_id (ks ! j), j)) [0..<length ks]" using len by (intro nth_equalityI) (auto simp: irange_def)
    then show ?thesis by auto
  qed
  finally show ?thesis .
qed

definition loaded :: "ExternalMemoryNode list \<Rightarrow> LoadedNodes" where
  "loaded ks = fold (\<lambda>(i, n). load_node i n) (zip (irange 0 (length ks)) ks)
     \<lparr> int_to_ext_node_id_map = [], ext_to_int_id_map = Map.empty, barrier_node_list = [], traffic_light_node_list = [] \<rparr>"

lemma loaded_ids:
  "map ni_node_id (int_to_ext_node_id_map (loaded ks)) = map ni_node_id ks"
  "distinct (map ni_node_id ks) \<Longrightarrow> ext_to_int_id_map (loaded ks) x = Some i \<longleftrightarrow> i < length ks \<and> ni_node_id (ks ! i) = x"
  unfolding loaded_def using load_nodes_effect [of 0 ks] numbering [of ks x i] by (simp_all add: map_add_def)

lemma read_osrm_bytes:
  assumes fp: "IsMagicNumberOK fp" and size: "length ks < 2 ^ 32" "length fs < 2 ^ 32"
    and ok: "\<forall>n \<in> set ks. node_fits n" "\<forall>f \<in> set fs. edge_fits f"
  shows "readBinaryOSRMGraphFromStream psort fp rs (osrm_bytes env fp ks fs) =
    map_option (\<lambda>es. (length ks, merge_edges psort es, loaded ks, map (translate_restriction (ext_to_int_id_map (loaded ks))) rs))
      (import_edges (ext_to_int_id_map (loaded ks)) fs)"
  unfolding readBinaryOSRMGraphFromStream_def osrm_bytes_def
  using fp size read_nodes_bytes [OF ok(1), of 0 env, folded loaded_def] read_edges_bytes [OF ok(2), of _ "[]"]
  by (simp add: TestGraphUtil_def read32_bytes32 loaded_def split: Option.bind_split)

text \<open>The arcs that the collected edges stand for, between the known nodes in ascending order of their identifiers.\<close>

definition extracted_arcs :: "ExtractionEnv \<Rightarrow> ExtractionContainers \<Rightarrow> (NodeID \<times> NodeID \<times> EdgeWeight) set" where
  "extracted_arcs env c = {(u, v, w). u < length (known_nodes c) \<and> v < length (known_nodes c) \<and>
     (\<exists>e \<in> set (all_edges_list c). \<exists>f. road_of env (sort_nodes env (all_nodes_list c)) e = Some f \<and> w = fe_weight f \<and>
       (known_nodes c ! u = xe_start e \<and> known_nodes c ! v = xe_target e \<or>
        known_nodes c ! u = xe_target e \<and> known_nodes c ! v = xe_start e \<and> xe_direction e \<in> {notSure, bidirectional}))}"

lemma direction_code_cases: "direction_code d \<noteq> 2" "direction_code d \<noteq> 1 \<longleftrightarrow> d \<in> {notSure, bidirectional}"
  by (cases d; simp add: direction_code_def)+

lemma file_arcs_extracted:
  assumes fs: "set fs = {f. \<exists>e \<in> set (all_edges_list c). road_of env (sort_nodes env (all_nodes_list c)) e = Some f}"
    and ids: "\<And>x i. ids x = Some i \<longleftrightarrow> i < length (known_nodes c) \<and> known_nodes c ! i = x"
  shows "file_arcs ids fs = extracted_arcs env c"
proof -
  let ?road = "road_of env (sort_nodes env (all_nodes_list c))"
  let ?P = "\<lambda>u v w f. w = fe_weight f \<and> (ids (fe_source f) = Some u \<and> ids (fe_target f) = Some v \<and> fe_dir f \<noteq> 2 \<or>
      ids (fe_target f) = Some u \<and> ids (fe_source f) = Some v \<and> fe_dir f \<noteq> 1)"
  let ?Q = "\<lambda>u v w e f. w = fe_weight f \<and> (ids (xe_start e) = Some u \<and> ids (xe_target e) = Some v \<or>
      ids (xe_target e) = Some u \<and> ids (xe_start e) = Some v \<and> xe_direction e \<in> {notSure, bidirectional})"
  have PQ: "?P u v w f \<longleftrightarrow> ?Q u v w e f" if "?road e = Some f" for u v w e f
    using road_of_ends(3-5) [OF that] direction_code_cases [of "xe_direction e"] by simp
  have "(u, v, w) \<in> file_arcs ids fs \<longleftrightarrow> (u, v, w) \<in> extracted_arcs env c" for u v w
  proof -
    have "(u, v, w) \<in> file_arcs ids fs \<longleftrightarrow> (\<exists>e \<in> set (all_edges_list c). \<exists>f. ?road e = Some f \<and> ?P u v w f)"
      unfolding file_arcs_def fs by blast
    also have "\<dots> \<longleftrightarrow> (\<exists>e \<in> set (all_edges_list c). \<exists>f. ?road e = Some f \<and> ?Q u v w e f)"
      by (intro bex_cong refl ex_cong1) (rule conj_cong [OF refl PQ])
    also have "\<dots> \<longleftrightarrow> (u, v, w) \<in> extracted_arcs env c" unfolding extracted_arcs_def ids by blast
    finally show ?thesis .
  qed
  then show ?thesis by auto
qed

lemma write_load_roads:
  assumes env: "sorting_env env" and srt: "sorts_by NodeBasedEdge_less psort" and fp: "IsMagicNumberOK fp"
    and c: "containers_ok c" and m: "measurable env c"
    and size: "length (all_nodes_list c) < SPECIAL_NODEID" "length (all_edges_list c) < 2 ^ 32" "length (name_list c) \<le> 2 ^ 32"
  shows "\<exists>bytes es ld. write_osrm env fp c = Some bytes \<and>
    readBinaryOSRMGraphFromStream psort fp rs bytes =
      Some (length (known_nodes c), es, ld, map (translate_restriction (ext_to_int_id_map ld)) rs) \<and>
    map ni_node_id (int_to_ext_node_id_map ld) = known_nodes c \<and>
    (\<forall>x i. ext_to_int_id_map ld x = Some i \<longleftrightarrow> i < length (known_nodes c) \<and> known_nodes c ! i = x) \<and>
    (\<forall>e \<in> set es. oriented (length (known_nodes c)) e) \<and> keeps_best (extracted_arcs env c) (import_arcs es)"
proof -
  let ?ns = "sort_nodes env (all_nodes_list c)"
  obtain ks fs where k: "write_osrm env fp c = Some (osrm_bytes env fp ks fs)" "map ni_node_id ks = known_nodes c"
    "set ks \<subseteq> set (all_nodes_list c)" "length fs \<le> length (all_edges_list c)"
    "set fs = {f. \<exists>e \<in> set (all_edges_list c). road_of env ?ns e = Some f}"
    using write_osrm_correct [OF env c m, of fp] by (elim exE conjE) (rule that)
  let ?ids = "ext_to_int_id_map (loaded ks)"
  have dist: "distinct (known_nodes c)" by (simp add: known_nodes_def)
  have len: "length ks = length (known_nodes c)" using k(2) by (metis length_map)
  have "distinct ks" using dist unfolding k(2) [symmetric] distinct_map by simp
  then have "length ks = card (set ks)" by (simp add: distinct_card)
  also have "\<dots> \<le> length (all_nodes_list c)" using k(3) using card_mono [OF _ k(3)] card_length [of "all_nodes_list c"] by simp
  finally have n: "length ks < SPECIAL_NODEID" using size(1) by simp
  have ids: "?ids x = Some i \<longleftrightarrow> i < length (known_nodes c) \<and> known_nodes c ! i = x" for x i
    using loaded_ids(2) [of ks x i] dist unfolding k(2) [symmetric] by auto
  have fits: "\<forall>n \<in> set ks. node_fits n" "\<forall>n \<in> set ?ns. node_fits n"
    using c k(3) sorting_env_sets(2) [OF env] by (auto simp: containers_ok_def)
  have fs: "edge_fits f \<and> plausible f" if h: "f \<in> set fs" for f
  proof -
    obtain e where e: "e \<in> set (all_edges_list c)" "road_of env ?ns e = Some f" using h k(5) by auto
    then have "xe_name_id e < length (name_list c)" using c unfolding containers_ok_def by blast
    then have "xe_name_id e < 2 ^ 32" using size(3) by simp
    then show ?thesis using road_of_fits [OF e(2) fits(2)] road_of_ends(10) [OF e(2)] by blast
  qed
  obtain new where new: "import_edges ?ids fs = Some new" "import_arcs new = file_arcs ?ids fs" "\<forall>i \<in> set new. oriented (length ks) i"
  proof -
    have "\<forall>x i. ?ids x = Some i \<longrightarrow> i < length ks" "\<forall>f \<in> set fs. plausible f" using ids len fs by simp_all
    from import_edges_correct [OF this(2,1) less_imp_le [OF n]] show thesis using that by blast
  qed
  have "readBinaryOSRMGraphFromStream psort fp rs (osrm_bytes env fp ks fs) =
      Some (length ks, merge_edges psort new, loaded ks, map (translate_restriction ?ids) rs)"
    using read_osrm_bytes [OF fp, of ks fs] n size(2) k(4) fits(1) fs new(1) by (simp add: SPECIAL_NODEID_def)
  moreover note merge_imported [OF srt less_imp_le [OF n] new(3)] file_arcs_extracted [OF k(5) ids] loaded_ids(1) [of ks]
  ultimately show ?thesis using k(1,2) new(2) len ids
    by (intro exI [of _ "osrm_bytes env fp ks fs"] exI [of _ "merge_edges psort new"] exI [of _ "loaded ks"]) simp
qed

section \<open>The callbacks keep the containers well-formed\<close>

definition callbacks_ok :: "ExtractorCallbacks \<Rightarrow> bool" where
  "callbacks_ok cb \<longleftrightarrow> containers_ok (external_memory cb) \<and> (\<forall>nm i. string_map cb nm = Some i \<longrightarrow> i < length (name_list (external_memory cb)))"

definition parsed_node_ok :: "ExternalMemoryNode \<Rightarrow> bool" where
  "parsed_node_ok n \<longleftrightarrow> node_fits n \<and> ni_lon n \<noteq> INT_MIN"

lemma ProcessNode_ok: "callbacks_ok cb \<Longrightarrow> parsed_node_ok n \<Longrightarrow> callbacks_ok (ProcessNode n cb)"
proof -
  have "float_of_int INT_MIN = - (2 ^ 31)" by (simp add: float_of_int_def INT_MIN_def round_even_def)
  then have "float_of_int (ni_lat n) \<ge> - 85 * 1000000 \<Longrightarrow> ni_lat n \<noteq> INT_MIN" by auto
  then show "callbacks_ok cb \<Longrightarrow> parsed_node_ok n \<Longrightarrow> callbacks_ok (ProcessNode n cb)"
    by (auto simp: ProcessNode_def callbacks_ok_def containers_ok_def parsed_node_ok_def)
qed

lemma ProcessRestriction_ok: "callbacks_ok cb \<Longrightarrow> callbacks_ok (snd (ProcessRestriction r cb))"
  by (auto simp: ProcessRestriction_def callbacks_ok_def containers_ok_def)

lemma intern_name_ok:
  assumes "callbacks_ok cb" "intern_name nm cb = (i, cb')"
  shows "callbacks_ok cb'" "i < length (name_list (external_memory cb'))"
  using assms by (auto simp: intern_name_def callbacks_ok_def containers_ok_def Let_def less_Suc_eq split: option.splits if_splits)

lemma path_edges_ends:
  assumes "e \<in> set (path_edges mk path)"
  shows "\<exists>s \<in> set path. \<exists>t \<in> set path. e = mk s t"
proof -
  obtain n where n: "n < length path - 1" "e = mk (path ! n) (path ! (n + 1))" using assms by (auto simp: path_edges_def)
  then have "path ! n \<in> set path" "path ! (n + 1) \<in> set path" by simp_all
  then show ?thesis using n(2) by blast
qed

lemma path_edges_all:
  assumes "\<And>s t. s \<in> set path \<Longrightarrow> t \<in> set path \<Longrightarrow> P (mk s t)"
  shows "\<forall>e \<in> set (path_edges mk path). P e"
proof
  fix e assume "e \<in> set (path_edges mk path)"
  then obtain s t where "s \<in> set path" "t \<in> set path" "e = mk s t" using path_edges_ends [of e mk path] by blast
  then show "P e" using assms by simp
qed

lemma InternalExtractorEdge_of_simps [simp]:
  "xe_start (InternalExtractorEdge_of s t d v nm a b c r m sp) = s" "xe_target (InternalExtractorEdge_of s t d v nm a b c r m sp) = t"
  "xe_name_id (InternalExtractorEdge_of s t d v nm a b c r m sp) = nm" "xe_speed (InternalExtractorEdge_of s t d v nm a b c r m sp) = v"
  "xe_direction (InternalExtractorEdge_of s t d v nm a b c r m sp) = d"
  "\<not> isSet (source_coordinate (InternalExtractorEdge_of s t d v nm a b c r m sp))"
  by (simp_all add: InternalExtractorEdge_of_def isSet_def FixedPointCoordinate_unset_def)

lemma add_edges_ok:
  assumes "containers_ok c" "set (used_node_id_list c) \<subseteq> used"
    and "\<forall>e \<in> set es. xe_start e \<in> used \<and> xe_target e \<in> used \<and> \<not> isSet (source_coordinate e) \<and> xe_name_id e < length (name_list c)"
    and "set (used_node_id_list c') = used" "all_edges_list c' = all_edges_list c @ es" "all_nodes_list c' = all_nodes_list c" "name_list c' = name_list c"
  shows "containers_ok c'"
  using assms unfolding containers_ok_def by auto

lemma store_way_ok:
  assumes c: "containers_ok em" "way_nameID w < length (name_list em)" and s: "store_way w em = Some em'"
  shows "containers_ok em' \<and> name_list em' = name_list em"
proof -
  let ?mk = "\<lambda>direction speed mode s t. InternalExtractorEdge_of s t direction speed (way_nameID w) (way_roundabout w)
       (way_ignoreInGrid w) (0 < duration w) (way_isAccessRestricted w) mode (is_split_way w)"
  define new where "new = path_edges (?mk (if is_split_way w \<or> TRAVEL_MODE_INACCESSIBLE = way_backward_mode w then oneway else bidirectional)
      (forward_speed w) (way_forward_mode w)) (way_path w)"
  define bwd where "bwd = path_edges (?mk oneway (backward_speed w) (way_backward_mode w)) (rev (way_path w))"
  let ?es = "new @ (if is_split_way w then bwd else [])"
  let ?P = "\<lambda>e. xe_start e \<in> set (way_path w) \<and> xe_target e \<in> set (way_path w) \<and> \<not> isSet (source_coordinate e) \<and> xe_name_id e < length (name_list em)"
  have "\<forall>e \<in> set new. ?P e" "\<forall>e \<in> set bwd. ?P e"
    unfolding new_def bwd_def by (rule path_edges_all; use c(2) in simp)+
  then have "\<forall>e \<in> set ?es. ?P e" by auto
  moreover have "all_edges_list em' = all_edges_list em @ ?es" "used_node_id_list em' = used_node_id_list em @ way_path w"
    "all_nodes_list em' = all_nodes_list em" "name_list em' = name_list em"
    using s by (auto simp: store_way_def Let_def bind_eq_Some_conv new_def bwd_def split: if_splits)
  ultimately show ?thesis
    using add_edges_ok [OF c(1), of "set (used_node_id_list em')" ?es em'] by (simp add: ball_Un Ball_def)
qed

lemma if_Some_else: "(if c then Some a else x) = Some b \<Longrightarrow> b \<noteq> a \<Longrightarrow> x = Some b"
  by (simp split: if_splits)

lemma ProcessWay_ok:
  assumes cb: "callbacks_ok cb" and p: "ProcessWay env w cb = Some cb'"
  shows "callbacks_ok cb'"
proof (cases "cb' = cb")
  case False
  obtain i cb1 where n: "intern_name (way_name w) cb = (i, cb1)" by fastforce
  let ?v = "xe_fl env (duration w / of_nat (length (way_path w) - 1))"
  let ?w1 = "(if 0 < duration w then w\<lparr> forward_speed := ?v, backward_speed := ?v \<rparr> else w)\<lparr> way_nameID := i \<rparr>"
  let ?w = "if TRAVEL_MODE_INACCESSIBLE = way_forward_mode ?w1
    then ?w1\<lparr> way_path := rev (way_path ?w1), way_forward_mode := way_backward_mode ?w1, way_backward_mode := TRAVEL_MODE_INACCESSIBLE \<rparr> else ?w1"
  have nm: "way_name (if 0 < duration w then w\<lparr> forward_speed := ?v, backward_speed := ?v \<rparr> else w) = way_name w" by simp
  note else4 = if_Some_else [OF if_Some_else [OF if_Some_else [OF if_Some_else [OF p [unfolded ProcessWay_def Let_def] False] False] False] False]
  have "Option.bind (store_way ?w (external_memory cb1)) (\<lambda>em. Some (cb1\<lparr> external_memory := em \<rparr>)) = Some cb'"
    using else4 unfolding nm n prod.case .
  then obtain em where w: "store_way ?w (external_memory cb1) = Some em" "cb' = cb1\<lparr> external_memory := em \<rparr>"
    by (auto simp: bind_eq_Some_conv)
  note ok = intern_name_ok [OF cb n]
  have "containers_ok em \<and> name_list em = name_list (external_memory cb1)"
    using store_way_ok [OF _ _ w(1)] ok by (simp add: callbacks_ok_def)
  then show ?thesis using ok(1) w(2) by (auto simp: callbacks_ok_def)
qed (use cb in simp)

section \<open>Street names\<close>

lemma seg_append_mid: "length a = p \<Longrightarrow> length b = q - p \<Longrightarrow> p \<le> q \<Longrightarrow> seg (a @ b @ r) p q = b"
  by (intro nth_equalityI) (auto simp: nth_append)

lemma seg_concat_nth:
  assumes "i < length xs"
  shows "seg (concat xs @ r) (psum (map length xs) i) (psum (map length xs) (Suc i)) = xs ! i"
proof -
  have "concat xs = concat (take i xs) @ xs ! i @ concat (drop (Suc i) xs)"
    using id_take_nth_drop [OF assms] by (metis concat.simps(2) concat_append)
  moreover have "psum (map length xs) i = length (concat (take i xs))" by (simp add: psum_def length_concat take_map)
  moreover have "psum (map length xs) (Suc i) = length (concat (take i xs)) + length (xs ! i)"
    using assms by (simp add: psum_def length_concat take_map take_Suc_conv_app_nth)
  ultimately show ?thesis by (simp add: seg_append_mid)
qed

lemma psum_le_total: "psum ls i \<le> sum_list ls"
  unfolding psum_def by (metis append_take_drop_id le_add1 sum_list_append)

lemma RangeTable_read_write:
  assumes "length (block_offsets t) = length (diff_blocks t)" "length (diff_blocks t) < 2 ^ 32"
    and "sum_lengths t < 2 ^ 32" "\<forall>x \<in> set (block_offsets t). x < 2 ^ 32" "\<forall>b \<in> set (diff_blocks t). length b = B"
  shows "RangeTable_read B (RangeTable_write t @ rest) = Some (t, rest)"
  using assms read_offsets_bytes [OF assms(4), of "concat (diff_blocks t) @ rest"] read_blocks_bytes [OF assms(5), of rest]
  by (simp add: RangeTable_read_def RangeTable_write_def read32_bytes32)

lemma RangeTable_read_table:
  assumes sum: "sum_list ls < 2 ^ 32" and len: "length ls < 2 ^ 32 - 1"
  shows "RangeTable_read B (RangeTable_write (table_of B ls) @ rest) = Some (table_of B ls, rest)"
proof (rule RangeTable_read_write)
  have "length ls div (B + 1) < 2 ^ 32 - 1" by (rule le_less_trans [OF div_le_dividend len])
  then show "length (diff_blocks (table_of B ls)) < 2 ^ 32" by (simp add: table_of_def)
  have "psum ls k < 2 ^ 32" for k using psum_le_total [of ls k] sum by (rule le_less_trans)
  then show "\<forall>x \<in> set (block_offsets (table_of B ls)). x < 2 ^ 32" by (auto simp: table_of_def)
qed (use sum in \<open>auto simp: table_of_def block_of_def\<close>)

text \<open>
  C38: the file of street names that the extractor writes is accepted by the server, which then answers
  for every name the first 255 bytes of it; excepted are a list without any characters, and empty
  names at the very end of the list.
\<close>

theorem names_roundtrip:
  assumes junk: "length (block_junk env) = 16" and len: "length names < 2 ^ 32 - 1"
    and sum: "sum_list (map (\<lambda>s. min (length s) 255) names) < 2 ^ 32" and i: "i < length names"
    and ne: "sum_list (map (\<lambda>s. min (length s) 255) (take i names)) < sum_list (map (\<lambda>s. min (length s) 255) names)"
  shows "\<exists>bytes f'. write_names env names = Some bytes \<and> LoadStreetNames bytes f = Some f' \<and> GetName f' i = Some (take 255 (names ! i))"
proof -
  define xs where "xs = map (\<lambda>s. take (min (length s) 255) s) names"
  define ls where "ls = map length xs"
  have ls: "map (\<lambda>s. min (length s) 255) names = ls" by (simp add: ls_def xs_def comp_def)
  have small: "\<forall>l \<in> set ls. l \<le> 255" "length ls = length names" "length xs = length names" by (auto simp: ls_def xs_def)
  have sums: "sum_list ls < 2 ^ 32" "psum ls i < sum_list ls" using sum ne unfolding ls [symmetric] by (simp_all add: psum_def take_map)
  define chars where "chars = concat xs"
  have total: "sum_list ls = length chars" by (simp add: ls_def chars_def length_concat)
  let ?bytes = "RangeTable_write (table_of 16 ls) @ bytes32 (sum_list ls) @ chars"
  let ?f = "f\<lparr> m_name_table := table_of 16 ls, m_names_char_list := chars @ [0] \<rparr>"
  have "write_names env names = Some ?bytes"
    unfolding write_names_def Let_def ls using RangeTable_of_correct [of 16 ls "block_junk env"] junk sums(1) small by (simp add: xs_def chars_def)
  moreover have "LoadStreetNames ?bytes f = Some ?f"
    unfolding LoadStreetNames_def using RangeTable_read_table [of ls 16] sums len small(2) total
    by (cases "chars = []") (simp_all add: read32_bytes32)
  moreover have "GetName ?f i = Some (xs ! i)"
  proof -
    define p where "p = psum ls i"
    define q where "q = psum ls (Suc i)"
    have r: "GetRange 16 (table_of 16 ls) i = Some (irange p q)" unfolding p_def q_def using GetRange_correct [of 16 ls i] sums i small(2) by simp
    have s: "seg (chars @ [0]) p q = xs ! i" unfolding p_def q_def ls_def chars_def by (rule seg_concat_nth) (use i small in simp)
    have q: "q \<le> length (chars)" unfolding q_def total [symmetric] by (rule psum_le_total)
    show ?thesis
    proof (cases "p < q")
      case True
      then have "irange p q \<noteq> []" "hd (irange p q) = p" "last (irange p q) + 1 = q" by (auto simp: irange_def)
      then show ?thesis unfolding GetName_def using r s q True len i by (simp add: copy_range_def)
    next
      case False
      then show ?thesis unfolding GetName_def using r s len i by simp
    qed
  qed
  moreover have "xs ! i = take 255 (names ! i)" using i by (simp add: xs_def min_def)
  ultimately show ?thesis by (intro exI [of _ ?bytes] exI [of _ ?f]) simp
qed

section \<open>Restrictions\<close>

definition resolve_from :: "WayIDStartAndEndEdge list \<Rightarrow> InputRestrictionContainer \<Rightarrow> InputRestrictionContainer" where
  "resolve_from ways r = (case with_key wayID ways (fromWay r) of None \<Rightarrow> r | Some w \<Rightarrow> set_from_node w r)"

definition resolve_to :: "WayIDStartAndEndEdge list \<Rightarrow> InputRestrictionContainer \<Rightarrow> InputRestrictionContainer" where
  "resolve_to ways r = (case with_key wayID ways (toWay r) of None \<Rightarrow> r | Some w \<Rightarrow> set_to_node w r)"

lemma fix_restriction_ends_count:
  "\<forall>r \<in> set rs. toNode (ir_restriction r) = 2 ^ 32 - 1 \<Longrightarrow>
   fst (fix_restriction_ends ws rs) = length (filter is_usable (snd (fix_restriction_ends ws rs)))"
  by (induction ws rs rule: fix_restriction_ends.induct) (auto simp: Let_def split_beta is_usable_def filter_empty_conv)

lemma set_from_node_keeps:
  "toNode (ir_restriction (set_from_node w r)) = toNode (ir_restriction r)" "viaNode (ir_restriction (set_from_node w r)) = viaNode (ir_restriction r)"
  "toWay (set_from_node w r) = toWay r"
  by (simp_all add: set_from_node_def Let_def)

lemma resolve_from_keeps:
  "toNode (ir_restriction (resolve_from ws r)) = toNode (ir_restriction r)" "viaNode (ir_restriction (resolve_from ws r)) = viaNode (ir_restriction r)"
  "toWay (resolve_from ws r) = toWay r"
  by (simp_all add: resolve_from_def set_from_node_keeps split: option.split)

lemma prepare_restrictions_correct:
  assumes env: "sorting_env env" and fresh: "\<forall>r \<in> set rs. toNode (ir_restriction r) = 2 ^ 32 - 1"
    and ways: "sorted (map wayID ways)" and p: "prepare_restrictions env ways rs = (k, rs')"
  shows "k = length (filter is_usable rs')" "mset rs' = mset (map (resolve_to ways) (map (resolve_from ways) rs))"
proof -
  let ?a = "fix_restriction_starts ways (sort_by_from env rs)"
  have m: "mset (sort_by_from env xs) = mset xs" "mset (sort_by_to env xs) = mset xs" for xs
    using env unfolding sorting_env_def sorts_by_def by blast+
  have a: "?a = map (resolve_from ways) (sort_by_from env rs)"
    unfolding fix_restriction_starts_join resolve_from_def by (rule merge_join_map [OF ways sorting_env_keys(4) [OF env]])
  have rs': "rs' = map (resolve_to ways) (sort_by_to env ?a)"
    using p fix_restriction_ends_join [of ways "sort_by_to env ?a"] merge_join_map [OF ways sorting_env_keys(5) [OF env, of ?a], of set_to_node]
    unfolding prepare_restrictions_def resolve_to_def by simp
  show "mset rs' = mset (map (resolve_to ways) (map (resolve_from ways) rs))"
    unfolding rs' a by (simp add: m image_mset.compositionality comp_def)
  have "\<forall>r \<in> set (sort_by_to env ?a). toNode (ir_restriction r) = 2 ^ 32 - 1"
    unfolding sorting_env_sets(5) [OF env] a using fresh sorting_env_sets(4) [OF env] by (auto simp: resolve_from_keeps)
  from fix_restriction_ends_count [OF this, of ways] show "k = length (filter is_usable rs')"
    using p unfolding prepare_restrictions_def by simp
qed

definition restriction_fits :: "TurnRestriction \<Rightarrow> bool" where
  "restriction_fits r \<longleftrightarrow> viaNode r < 2 ^ 32 \<and> fromNode r < 2 ^ 32 \<and> toNode r < 2 ^ 32"

lemma read_restriction_bytes: "restriction_fits r \<Longrightarrow> read_TurnRestriction (TurnRestriction_bytes env r @ rest) = Some (r, rest)"
  by (cases "restriction_padding env r") (simp add: read_TurnRestriction_def TurnRestriction_bytes_def restriction_fits_def read32_bytes32)

lemma read_restrictions_bytes:
  "\<forall>r \<in> set rs. restriction_fits r \<Longrightarrow> read_restrictions (length rs) (concat (map (TurnRestriction_bytes env) rs) @ rest) = Some (rs, rest)"
  by (induction rs) (simp_all add: read_restriction_bytes)

definition way_fits :: "WayIDStartAndEndEdge \<Rightarrow> bool" where
  "way_fits w \<longleftrightarrow> firstStart w < 2 ^ 32 \<and> firstTarget w < 2 ^ 32 \<and> lastStart w < 2 ^ 32 \<and> lastTarget w < 2 ^ 32"

lemma resolve_fits:
  assumes "\<forall>w \<in> set ways. way_fits w" "restriction_fits (ir_restriction r)"
  shows "restriction_fits (ir_restriction (resolve_from ways r))" "restriction_fits (ir_restriction (resolve_to ways r))"
proof -
  have "way_fits w" if "with_key wayID ways i = Some w" for i w using with_key_Some [OF that] assms(1) by blast
  then show "restriction_fits (ir_restriction (resolve_from ways r))" "restriction_fits (ir_restriction (resolve_to ways r))"
    using assms(2) by (auto simp: resolve_from_def resolve_to_def set_from_node_def set_to_node_def Let_def restriction_fits_def way_fits_def split: option.split)
qed


section \<open>From parsed elements to roads\<close>

text \<open>The parsers call the callbacks once for each element of the map.\<close>

datatype Parsed = ParsedNode ExternalMemoryNode | ParsedWay ExtractionWay | ParsedRestriction InputRestrictionContainer

fun run_callbacks :: "ExtractionEnv \<Rightarrow> Parsed list \<Rightarrow> ExtractorCallbacks \<Rightarrow> ExtractorCallbacks option" where
  "run_callbacks env [] cb = Some cb"
| "run_callbacks env (ParsedNode n # ps) cb = run_callbacks env ps (ProcessNode n cb)"
| "run_callbacks env (ParsedWay w # ps) cb = do { cb \<leftarrow> ProcessWay env w cb; run_callbacks env ps cb }"
| "run_callbacks env (ParsedRestriction r # ps) cb = run_callbacks env ps (snd (ProcessRestriction r cb))"

definition callbacks_start :: ExtractorCallbacks where
  "callbacks_start = \<lparr> string_map = [[] \<mapsto> 0], external_memory = ExtractionContainers_new \<rparr>"

lemma run_callbacks_ok:
  assumes "\<forall>n. ParsedNode n \<in> set ps \<longrightarrow> parsed_node_ok n" "callbacks_ok cb" "run_callbacks env ps cb = Some cb'"
  shows "callbacks_ok cb'"
  using assms
  by (induction env ps cb rule: run_callbacks.induct)
    (auto simp: bind_eq_Some_conv intro: ProcessNode_ok ProcessWay_ok ProcessRestriction_ok)

lemma callbacks_start_ok: "callbacks_ok callbacks_start"
  by (simp add: callbacks_start_def callbacks_ok_def containers_ok_def ExtractionContainers_new_def)

text \<open>
  C8: Let the callbacks process any sequence of nodes, ways and restrictions, and let every collected
  edge between two known nodes have a weight that fits.  Then the file of the road network is written,
  and the preprocessing reads it: the nodes are the known nodes that are used, numbered in ascending
  order of their identifiers; every edge joins two of them, the smaller first, with a positive weight
  and at least one open direction; and between every two nodes in each direction, the cheapest edge
  read is the cheapest edge collected.
\<close>

theorem extract_load_roads:
  assumes env: "sorting_env env" and srt: "sorts_by NodeBasedEdge_less psort" and fp: "IsMagicNumberOK fp"
    and parsed: "\<forall>n. ParsedNode n \<in> set ps \<longrightarrow> parsed_node_ok n"
    and run: "run_callbacks env ps callbacks_start = Some cb" and c: "c = external_memory cb"
    and m: "measurable env c"
    and size: "length (all_nodes_list c) < SPECIAL_NODEID" "length (all_edges_list c) < 2 ^ 32" "length (name_list c) \<le> 2 ^ 32"
  shows "\<exists>bytes es ld. write_osrm env fp c = Some bytes \<and>
    readBinaryOSRMGraphFromStream psort fp rs bytes =
      Some (length (known_nodes c), es, ld, map (translate_restriction (ext_to_int_id_map ld)) rs) \<and>
    map ni_node_id (int_to_ext_node_id_map ld) = known_nodes c \<and>
    (\<forall>x i. ext_to_int_id_map ld x = Some i \<longleftrightarrow> i < length (known_nodes c) \<and> known_nodes c ! i = x) \<and>
    (\<forall>e \<in> set es. oriented (length (known_nodes c)) e) \<and> keeps_best (extracted_arcs env c) (import_arcs es)"
proof -
  have "containers_ok c" using run_callbacks_ok [OF parsed callbacks_start_ok run] c by (simp add: callbacks_ok_def)
  then show ?thesis by (rule write_load_roads [OF env srt fp _ m size])
qed

text \<open>Sorting routines, and a map with two crossing ways.\<close>

definition import_key :: "ImportEdge \<Rightarrow> NodeID \<times> NodeID \<times> EdgeWeight \<times> bool" where
  "import_key e = (nbe_source e, nbe_target e, nbe_weight e, \<not> (nbe_forward e \<and> nbe_backward e))"

lemma sorts_by_sort_key: "sorts_by (\<lambda>a b. k a < k b) (sort_key k)"
  unfolding sorts_by_def using sorted_sort_key [of k] by (simp add: sorted_map not_less)

lemma sorts_import: "sorts_by NodeBasedEdge_less (sort_key import_key)"
proof -
  have eq: "NodeBasedEdge_less = (\<lambda>a b. import_key a < import_key b)"
    by (auto simp: fun_eq_iff NodeBasedEdge_less_def import_key_def)
  show ?thesis unfolding eq by (rule sorts_by_sort_key)
qed

definition sample_extraction :: ExtractionEnv where
  "sample_extraction = \<lparr> xe_fl = id, ApproximateEuclideanDistance = (\<lambda>a b c d. of_int (\<bar>a - c\<bar> + \<bar>b - d\<bar>) / 10),
     sort_ids = sort, sort_nodes = sort_key ni_node_id, sort_ways = sort_key wayID, sort_by_from = sort_key fromWay, sort_by_to = sort_key toWay,
     sort_by_start = sort_key xe_start, sort_by_target = sort_key xe_target, node_padding = (\<lambda>_. (0, 0)), restriction_padding = (\<lambda>_. (0, 0, 0)),
     block_junk = replicate 16 0 \<rparr>"

lemma sample_extraction_sorts: "sorting_env sample_extraction"
  unfolding sorting_env_def orders_by_key sample_extraction_def
  using sorts_by_sort_key [of "\<lambda>x. x"] by (simp add: sorts_by_sort_key)

definition sample_node :: "nat \<Rightarrow> int \<Rightarrow> int \<Rightarrow> Parsed" where
  "sample_node i x y = ParsedNode \<lparr> ni_lat = x, ni_lon = y, ni_node_id = i, bollard = False, trafficLight = False \<rparr>"

definition sample_way :: "nat \<Rightarrow> NodeID list \<Rightarrow> rat \<Rightarrow> rat \<Rightarrow> TravelMode \<Rightarrow> ExtractionWay" where
  "sample_way i path vf vb mode = \<lparr> way_id = i, way_nameID = 0, forward_speed = vf, backward_speed = vb, duration = 0, way_name = [65],
     way_access = True, way_roundabout = False, way_isAccessRestricted = False, way_ignoreInGrid = False, way_path = path,
     way_forward_mode = mode, way_backward_mode = 1 \<rparr>"

definition sample_map :: "Parsed list" where
  "sample_map = [sample_node 30 0 900, sample_node 10 0 0, sample_node 20 500 0,
     ParsedWay (sample_way 5 [10, 30, 40] 36 36 1), ParsedWay (sample_way 6 [30, 20] 36 18 1)]"


definition sample_collected :: ExtractorCallbacks where
  "sample_collected = \<lparr> string_map = [[] \<mapsto> 0, [65] \<mapsto> 1], external_memory = \<lparr> used_node_id_list = [10, 30, 40, 30, 20],
     all_nodes_list = [\<lparr> ni_lat = 0, ni_lon = 900, ni_node_id = 30, bollard = False, trafficLight = False \<rparr>,
       \<lparr> ni_lat = 0, ni_lon = 0, ni_node_id = 10, bollard = False, trafficLight = False \<rparr>,
       \<lparr> ni_lat = 500, ni_lon = 0, ni_node_id = 20, bollard = False, trafficLight = False \<rparr>],
     all_edges_list = [InternalExtractorEdge_of 10 30 bidirectional 36 1 False False False False 1 False,
       InternalExtractorEdge_of 30 40 bidirectional 36 1 False False False False 1 False,
       InternalExtractorEdge_of 30 20 oneway 36 1 False False False False 1 True,
       InternalExtractorEdge_of 20 30 oneway 18 1 False False False False 1 True],
     name_list = [[], [65]], restrictions_list = [],
     way_start_end_id_list = [path_ends 5 [10, 30, 40], path_ends 6 [30, 20], path_ends 6 [20, 30]] \<rparr> \<rparr>"

lemma sample_run: "run_callbacks sample_extraction sample_map callbacks_start = Some sample_collected"
  by (simp add: sample_map_def sample_node_def sample_way_def callbacks_start_def ExtractionContainers_new_def ProcessNode_def ProcessWay_def
      sample_extraction_def intern_name_def store_way_def path_edges_def irange_def is_split_way_def TRAVEL_MODE_INACCESSIBLE_def
      float_of_int_def sample_collected_def upt_conv_Cons)

lemma sample_measurable: "measurable sample_extraction (external_memory sample_collected)"
  by (simp add: measurable_def sample_collected_def road_of_def with_key_def sample_extraction_def InternalExtractorEdge_of_def
      file_edge_def integer_weight_def integer_distance_def to_int_def INT_MIN_def Let_def)

theorem extract_load_roads_witness:
  "\<exists>bytes es ld. write_osrm sample_extraction (bytes32 1297240911 @ replicate 152 0) (external_memory sample_collected) = Some bytes \<and>
    readBinaryOSRMGraphFromStream (sort_key import_key) (bytes32 1297240911 @ replicate 152 0) [] bytes = Some (3, es, ld, []) \<and>
    map ni_node_id (int_to_ext_node_id_map ld) = [10, 20, 30] \<and>
    keeps_best (extracted_arcs sample_extraction (external_memory sample_collected)) (import_arcs es)"
proof -
  let ?fp = "bytes32 1297240911 @ replicate 152 0" and ?c = "external_memory sample_collected"
  have "set (used_node_id_list ?c) = set [10, 20, 30, 40]" by (auto simp: sample_collected_def)
  moreover have "sorted_list_of_set (set [10, 20, 30, 40]) = [10, 20, 30, 40 :: nat]"
    by (rule sorted_list_of_set.idem_if_sorted_distinct) simp_all
  ultimately have known: "known_nodes ?c = [10, 20, 30]" unfolding known_nodes_def by (simp add: sample_collected_def)
  have "IsMagicNumberOK ?fp" by (simp add: IsMagicNumberOK_def read32_bytes32)
  moreover have "\<forall>n. ParsedNode n \<in> set sample_map \<longrightarrow> parsed_node_ok n"
    by (auto simp: sample_map_def sample_node_def parsed_node_ok_def node_fits_def INT_MIN_def)
  moreover have "length (all_nodes_list ?c) < SPECIAL_NODEID" "length (all_edges_list ?c) < 2 ^ 32" "length (name_list ?c) \<le> 2 ^ 32"
    by (simp_all add: sample_collected_def SPECIAL_NODEID_def)
  ultimately show ?thesis
    using extract_load_roads [OF sample_extraction_sorts sorts_import _ _ sample_run refl sample_measurable, of ?fp "[]"] unfolding known by fastforce
qed

text \<open>
  C39: A way that is open backwards only is stored with its path reversed, but its edges get the speed
  of the forward direction, whatever the speed of the backward direction is; and when the forward
  speed was never set the way is dropped.
\<close>

theorem ProcessWay_opposite_speed:
  assumes mode: "way_forward_mode w = TRAVEL_MODE_INACCESSIBLE" "0 < way_backward_mode w"
    and speed: "0 < backward_speed w" "duration w \<le> 0" and path: "1 < length (way_path w)" "way_id w \<noteq> 2 ^ 32 - 1"
  shows "(\<bar>xe_fl env (- 1 - forward_speed w)\<bar> \<le> 1 / 2 ^ 52 \<longrightarrow> ProcessWay env w cb = Some cb) \<and>
    (\<bar>xe_fl env (- 1 - forward_speed w)\<bar> > 1 / 2 ^ 52 \<longrightarrow> (\<exists>cb'. ProcessWay env w cb = Some cb' \<and>
      map (\<lambda>e. (xe_start e, xe_target e, xe_speed e)) (all_edges_list (external_memory cb')) =
      map (\<lambda>e. (xe_start e, xe_target e, xe_speed e)) (all_edges_list (external_memory cb)) @
      path_edges (\<lambda>s t. (s, t, forward_speed w)) (rev (way_path w))))"
proof -
  obtain i cb1 where n: "intern_name (way_name w) cb = (i, cb1)" by fastforce
  have edges: "all_edges_list (external_memory cb1) = all_edges_list (external_memory cb)"
    using n by (auto simp: intern_name_def Let_def split: option.splits)
  have mp: "map f (path_edges mk p) = path_edges (\<lambda>s t. f (mk s t)) p" for f :: "InternalExtractorEdge \<Rightarrow> nat \<times> nat \<times> rat" and mk p
    by (simp add: path_edges_def)
  show ?thesis using mode speed path n edges
    by (auto simp: ProcessWay_def Let_def store_way_def is_split_way_def TRAVEL_MODE_INACCESSIBLE_def mp)
qed

theorem ProcessWay_opposite_speed_witness:
  "\<exists>cb'. ProcessWay sample_extraction (sample_way 7 [10, 30, 20] 5 90 0) callbacks_start = Some cb' \<and>
    map (\<lambda>e. (xe_start e, xe_target e, xe_speed e)) (all_edges_list (external_memory cb')) = [(20, 30, 5), (30, 10, 5)]"
  using ProcessWay_opposite_speed [of "sample_way 7 [10, 30, 20] 5 90 0" sample_extraction callbacks_start]
  by (simp add: sample_way_def TRAVEL_MODE_INACCESSIBLE_def sample_extraction_def callbacks_start_def ExtractionContainers_new_def path_edges_def irange_def upt_conv_Cons)

theorem names_roundtrip_witness:
  "\<exists>bytes f'. write_names sample_extraction [[], replicate 300 66, [67, 68]] = Some bytes \<and> LoadStreetNames bytes (undefined :: Facade) = Some f' \<and>
    GetName f' 1 = Some (replicate 255 66)"
  using names_roundtrip [of sample_extraction "[[], replicate 300 66, [67, 68]]" 1 "undefined :: Facade"] by (simp add: sample_extraction_def)

text \<open>A restriction of the turn from way 6 over node 30 into way 5, and one into an unknown way.\<close>

definition sample_restricted :: ExtractionContainers where
  "sample_restricted = (external_memory sample_collected)\<lparr> restrictions_list :=
     [\<lparr> fromWay = 6, toWay = 5, ir_viaNode = 0, ir_restriction = \<lparr> viaNode = 30, fromNode = 2 ^ 32 - 1, toNode = 2 ^ 32 - 1, isOnly = False \<rparr> \<rparr>,
      \<lparr> fromWay = 6, toWay = 9, ir_viaNode = 0, ir_restriction = \<lparr> viaNode = 30, fromNode = 2 ^ 32 - 1, toNode = 2 ^ 32 - 1, isOnly = False \<rparr> \<rparr>] \<rparr>"


end
