(* ===== verification/Node_Based_Graph.thy ===== *)
theory Node_Based_Graph
  imports Extractor
begin

text \<open>
  The road network as a graph (\<^verbatim>\<open>DataStructures/NodeBasedGraph.h\<close>): every imported edge is stored at both ends, the
  edges between two nodes are merged into at most one for each direction, and a dynamic graph is built
  from the sorted list.  The list is merged in place; a run of parallel edges never gives more edges than
  it has, so the model builds the merged list on the side.
\<close>

section \<open>Data and construction\<close>

record NodeBasedEdgeData =
  nb_distance :: int
  nb_edgeBasedNodeID :: nat
  nb_nameID :: nat
  nb_isAccessRestricted :: bool
  nb_shortcut :: bool
  nb_forward :: bool
  nb_backward :: bool
  nb_roundabout :: bool
  nb_ignore_in_grid :: bool
  nb_travel_mode :: TravelMode

type_synonym NodeBasedDynamicGraph = "NodeBasedEdgeData DynamicGraph"

definition NodeBasedEdgeData_new :: NodeBasedEdgeData where
  "NodeBasedEdgeData_new = \<lparr> nb_distance = INVALID_EDGE_WEIGHT, nb_edgeBasedNodeID = SPECIAL_NODEID, nb_nameID = 2 ^ 32 - 1,
     nb_isAccessRestricted = False, nb_shortcut = False, nb_forward = False, nb_backward = False, nb_roundabout = False,
     nb_ignore_in_grid = False, nb_travel_mode = TRAVEL_MODE_INACCESSIBLE \<rparr>"

definition SwapDirectionFlags :: "NodeBasedEdgeData \<Rightarrow> NodeBasedEdgeData" where
  "SwapDirectionFlags d = d\<lparr> nb_forward := nb_backward d, nb_backward := nb_forward d \<rparr>"

definition IsEqualTo :: "NodeBasedEdgeData \<Rightarrow> NodeBasedEdgeData \<Rightarrow> bool" where
  "IsEqualTo d other \<longleftrightarrow> nb_forward d = nb_forward other \<and> nb_backward d = nb_backward other \<and>
     nb_nameID d = nb_nameID other \<and> nb_ignore_in_grid d = nb_ignore_in_grid other \<and> nb_travel_mode d = nb_travel_mode other"

definition input_edges :: "ImportEdge \<Rightarrow> NodeBasedEdgeData InputEdge list" where
  "input_edges i =
     (let (s, t, fw, bw) =
        (if nbe_forward i then (nbe_source i, nbe_target i, nbe_forward i, nbe_backward i)
         else (nbe_target i, nbe_source i, nbe_backward i, nbe_forward i))
      in if s = t then []
         else
           let d = NodeBasedEdgeData_new\<lparr> nb_forward := fw, nb_backward := bw, nb_distance := max (nbe_weight i) 1, nb_shortcut := False,
                 nb_roundabout := nbe_roundabout i, nb_ignore_in_grid := nbe_in_tiny_cc i, nb_nameID := nbe_name_id i,
                 nb_isAccessRestricted := nbe_access_restricted i, nb_travel_mode := nbe_travel_mode i \<rparr>
           in \<lparr> ie_source = s, ie_target = t, ie_data = d \<rparr> #
              (if \<not> nbe_is_split i then [\<lparr> ie_source = t, ie_target = s, ie_data = SwapDirectionFlags d \<rparr>] else []))"

text \<open>The run of the edges between two nodes; \<open>e\<close> is the first of them.\<close>

definition lightest_open :: "(NodeBasedEdgeData \<Rightarrow> bool) \<Rightarrow> NodeBasedEdgeData InputEdge list \<Rightarrow> int" where
  "lightest_open is_open run = fold (\<lambda>x d. if is_open (ie_data x) then min (nb_distance (ie_data x)) d else d) run INT_MAX"

definition nb_merge_run :: "NodeBasedEdgeData InputEdge \<Rightarrow> NodeBasedEdgeData InputEdge list \<Rightarrow> NodeBasedEdgeData InputEdge list" where
  "nb_merge_run e run =
     (let df = lightest_open nb_forward run;
          dr = lightest_open nb_backward run;
          edge = (\<lambda>d fw bw. e\<lparr> ie_data := (ie_data e)\<lparr> nb_forward := fw, nb_backward := bw, nb_shortcut := False, nb_distance := d \<rparr> \<rparr>)
      in if df = dr then (if df \<noteq> INT_MAX then [edge df True True] else [])
         else (if df \<noteq> INT_MAX then [edge df True False] else []) @
              (if dr \<noteq> INT_MAX then [edge dr False True] else []))"

definition joins :: "NodeID \<Rightarrow> NodeID \<Rightarrow> 'd InputEdge \<Rightarrow> bool" where
  "joins s t x \<longleftrightarrow> ie_source x = s \<and> ie_target x = t"

function nb_merge :: "NodeBasedEdgeData InputEdge list \<Rightarrow> NodeBasedEdgeData InputEdge list" where
  "nb_merge [] = []"
| "nb_merge (e # es) =
     (if ie_source e = ie_target e then nb_merge es
      else nb_merge_run e (takeWhile (joins (ie_source e) (ie_target e)) (e # es)) @
           nb_merge (dropWhile (joins (ie_source e) (ie_target e)) (e # es)))"
  by pat_completeness auto
termination
proof (relation "measure length", goal_cases)
  case (3 e es)
  then show ?case using length_dropWhile_le [of "joins (ie_source e) (ie_target e)" es] by (simp add: joins_def le_imp_less_Suc)
qed auto

declare nb_merge.simps(2) [simp del]

definition NodeBasedDynamicGraphFromImportEdges ::
    "(NodeBasedEdgeData InputEdge list \<Rightarrow> NodeBasedEdgeData InputEdge list) \<Rightarrow> (nat \<Rightarrow> NodeBasedEdgeData DG_Edge) \<Rightarrow> nat \<Rightarrow>
     ImportEdge list \<Rightarrow> NodeBasedDynamicGraph option" where
  "NodeBasedDynamicGraphFromImportEdges psort fresh n es =
     DynamicGraph_of fresh n (nb_merge (psort (concat (map input_edges es))))"

text \<open>
  The variant of the component analysis, whose edges have a capacity of 1 and no direction.  It
  overwrites the front of the list and hands all of it to the graph.
\<close>

fun simple_merge :: "EdgeWeight InputEdge list \<Rightarrow> EdgeWeight InputEdge list" where
  "simple_merge [] = []"
| "simple_merge (e # es) =
     (if ie_source e = ie_target e then simple_merge es
      else let run = takeWhile (joins (ie_source e) (ie_target e)) es;
               capacity = fold (\<lambda>x d. min (ie_data x) d) (e # run) INVALID_EDGE_WEIGHT
           in (if capacity \<noteq> INVALID_EDGE_WEIGHT then [e\<lparr> ie_data := capacity \<rparr>] else []) @
              simple_merge (drop (length run) es))"

definition SimpleNodeBasedDynamicGraphFromEdges ::
    "((NodeID \<times> NodeID) list \<Rightarrow> (NodeID \<times> NodeID) list) \<Rightarrow> (EdgeWeight InputEdge list \<Rightarrow> EdgeWeight InputEdge list) \<Rightarrow>
     (nat \<Rightarrow> EdgeWeight DG_Edge) \<Rightarrow> nat \<Rightarrow> (NodeID \<times> NodeID) list \<Rightarrow> EdgeWeight DynamicGraph option" where
  "SimpleNodeBasedDynamicGraphFromEdges sort_input psort fresh n es = do {
     let input_edge_list = sort_input es;
     let edge = (\<lambda>s t. \<lparr> ie_source = s, ie_target = t, ie_data = 1 \<rparr>);
     let edges_list = psort (concat (map (\<lambda>(s, t). if s = t then [] else [edge s t, edge t s]) input_edge_list));
     let merged = simple_merge edges_list;
     DynamicGraph_of fresh n (merged @ drop (length merged) edges_list)
   }"

section \<open>Merging keeps the lightest_open edges\<close>

lemma sorted_run:
  assumes "sorted_wrt (\<lambda>a b. \<not> InputEdge_less b a) (e # es)"
  shows "takeWhile (joins (ie_source e) (ie_target e)) (e # es) = filter (joins (ie_source e) (ie_target e)) (e # es)"
    and "dropWhile (joins (ie_source e) (ie_target e)) (e # es) = filter (\<lambda>x. \<not> joins (ie_source e) (ie_target e) x) (e # es)"
proof -
  let ?P = "joins (ie_source e) (ie_target e)"
  have "takeWhile ?P xs = filter ?P xs \<and> dropWhile ?P xs = filter (\<lambda>x. \<not> ?P x) xs"
    if "sorted_wrt (\<lambda>a b. \<not> InputEdge_less b a) xs" "\<forall>x \<in> set xs. \<not> InputEdge_less x e" for xs
    using that
  proof (induction xs)
    case (Cons x xs)
    show ?case
    proof (cases "?P x")
      case True
      then show ?thesis using Cons by simp
    next
      case False
      have "\<not> ?P y" if "y \<in> set xs" for y
        using Cons.prems that False unfolding joins_def InputEdge_less_def by (auto split: if_splits)
      then show ?thesis using False by (auto simp: filter_id_conv filter_empty_conv)
    qed
  qed simp
  from this [of "e # es"] assms show "takeWhile ?P (e # es) = filter ?P (e # es)" "dropWhile ?P (e # es) = filter (\<lambda>x. \<not> ?P x) (e # es)"
    by (auto simp: InputEdge_less_def)
qed

lemma nb_merge_run_joins: "x \<in> set (nb_merge_run e run) \<Longrightarrow> joins (ie_source e) (ie_target e) x"
  by (auto simp: nb_merge_run_def Let_def joins_def split: if_splits)

text \<open>Between two nodes, the merged list has what the run of the edges between them gives.\<close>

lemma nb_merge_between:
  "sorted_wrt (\<lambda>a b. \<not> InputEdge_less b a) es \<Longrightarrow>
   filter (joins s t) (nb_merge es) =
     (let run = filter (joins s t) es in if run = [] \<or> s = t then [] else nb_merge_run (hd run) run)"
proof (induction es rule: nb_merge.induct)
  case 1
  then show ?case by simp
next
  case (2 e es)
  let ?P = "joins (ie_source e) (ie_target e)"
  show ?case
  proof (cases "ie_source e = ie_target e")
    case True
    have srt: "sorted_wrt (\<lambda>a b. \<not> InputEdge_less b a) es" using 2(3) by simp
    have m: "nb_merge (e # es) = nb_merge es" using True by (simp add: nb_merge.simps)
    have f: "filter (joins s t) (e # es) = filter (joins s t) es" if "s \<noteq> t" using True that by (auto simp: joins_def)
    show ?thesis using 2(1) [OF True srt] f unfolding m by (cases "s = t") (simp_all add: Let_def)
  next
    case False
    define run where "run = takeWhile ?P (e # es)"
    define rest where "rest = dropWhile ?P (e # es)"
    have m: "nb_merge (e # es) = nb_merge_run e run @ nb_merge rest" using False by (simp only: nb_merge.simps if_False run_def rest_def)
    have runs: "run = filter ?P (e # es)" "rest = filter (\<lambda>x. \<not> ?P x) (e # es)" using sorted_run [OF 2(3)] by (simp_all only: run_def rest_def)
    have srt: "sorted_wrt (\<lambda>a b. \<not> InputEdge_less b a) rest" unfolding runs(2) by (rule sorted_wrt_filter [OF 2(3)])
    note IH = 2(2) [OF False, folded rest_def, OF srt]
    have new: "\<forall>x \<in> set (nb_merge_run e run). ?P x" using nb_merge_run_joins [of _ e run] by blast
    show ?thesis
    proof (cases "s = ie_source e \<and> t = ie_target e")
      case True
      then have st: "joins s t = ?P" by simp
      have "filter ?P rest = []" unfolding runs(2) by (simp add: filter_empty_conv)
      moreover have "filter ?P (nb_merge_run e run) = nb_merge_run e run" using new by (rule filter_True)
      moreover have "filter ?P (e # es) = run" "run \<noteq> []" "hd run = e" using runs(1) by (simp_all add: joins_def)
      moreover have "s \<noteq> t" using False True by simp
      ultimately show ?thesis unfolding m st using IH [unfolded st] by (simp add: Let_def)
    next
      case other: False
      then have no: "\<not> joins s t x" if "?P x" for x using that by (auto simp: joins_def)
      have "filter (joins s t) (nb_merge_run e run) = []" unfolding filter_empty_conv using new no by blast
      moreover have "filter (joins s t) rest = filter (joins s t) (e # es)"
        unfolding runs(2) filter_filter by (rule filter_cong [OF refl]) (use no in blast)
      ultimately show ?thesis unfolding m using IH by simp
    qed
  qed
qed

lemma nb_merge_ends:
  "x \<in> set (nb_merge es) \<Longrightarrow> \<exists>e \<in> set es. ie_source x = ie_source e \<and> ie_target x = ie_target e \<and> ie_source x \<noteq> ie_target x"
proof (induction es rule: nb_merge.induct)
  case (2 e es)
  let ?P = "joins (ie_source e) (ie_target e)"
  show ?case
  proof (cases "ie_source e = ie_target e")
    case False
    then have "x \<in> set (nb_merge_run e (takeWhile ?P (e # es))) \<or> x \<in> set (nb_merge (dropWhile ?P (e # es)))"
      using 2(3) unfolding nb_merge.simps by simp
    then show ?thesis
    proof
      assume "x \<in> set (nb_merge_run e (takeWhile ?P (e # es)))"
      then show ?thesis using nb_merge_run_joins [of x e] False by (auto simp: joins_def)
    next
      assume "x \<in> set (nb_merge (dropWhile ?P (e # es)))"
      then show ?thesis using 2(2) [OF False] set_dropWhileD [of _ ?P "e # es"] by blast
    qed
  qed (use 2 in \<open>auto simp: nb_merge.simps\<close>)
qed simp

lemma nb_merge_run_sources: "sorted (map ie_source (nb_merge_run e run))" "y \<in> set (nb_merge_run e run) \<Longrightarrow> ie_source y = ie_source e"
  by (auto simp: nb_merge_run_def Let_def split: if_splits)

lemma nb_merge_sorted: "sorted (map ie_source es) \<Longrightarrow> sorted (map ie_source (nb_merge es))"
proof (induction es rule: nb_merge.induct)
  case (2 e es)
  let ?P = "joins (ie_source e) (ie_target e)"
  show ?case
  proof (cases "ie_source e = ie_target e")
    case True
    then have "nb_merge (e # es) = nb_merge es" by (simp add: nb_merge.simps)
    then show ?thesis using 2(1) [OF True] 2(3) by simp
  next
    case False
    define run where "run = takeWhile ?P (e # es)"
    define rest where "rest = dropWhile ?P (e # es)"
    have m: "nb_merge (e # es) = nb_merge_run e run @ nb_merge rest" using False by (simp only: nb_merge.simps if_False run_def rest_def)
    have "run @ rest = e # es" unfolding run_def rest_def by (rule takeWhile_dropWhile_id)
    then have rest: "sorted (map ie_source rest)" "set rest \<subseteq> set (e # es)" using 2(3) by (metis map_append sorted_append, metis Un_upper2 set_append)
    have "ie_source e \<le> ie_source x" if x: "x \<in> set (nb_merge rest)" for x
    proof -
      obtain y where "y \<in> set rest" "ie_source x = ie_source y" using nb_merge_ends [OF x] by blast
      then show ?thesis using 2(3) rest(2) by auto
    qed
    then show ?thesis unfolding m using 2(2) [OF False, folded rest_def, OF rest(1)] nb_merge_run_sources(1) [of e run] nb_merge_run_sources(2) [of _ e run] by (auto simp: sorted_append)
  qed
qed simp

section \<open>The arcs of the graph\<close>

definition open_arcs :: "(NodeBasedEdgeData \<Rightarrow> bool) \<Rightarrow> NodeBasedDynamicGraph \<Rightarrow> nat \<Rightarrow> (NodeID \<times> NodeID \<times> EdgeWeight) set" where
  "open_arcs is_open g n = {(u, v, w). u < n \<and> (\<exists>e \<in> set (out g u). de_target e = v \<and> is_open (de_data e) \<and> nb_distance (de_data e) = w)}"

definition input_arcs_by :: "(NodeBasedEdgeData \<Rightarrow> bool) \<Rightarrow> NodeBasedEdgeData InputEdge list \<Rightarrow> (NodeID \<times> NodeID \<times> EdgeWeight) set" where
  "input_arcs_by is_open es = {(u, v, w). \<exists>x \<in> set es. joins u v x \<and> is_open (ie_data x) \<and> nb_distance (ie_data x) = w}"

lemma nb_merge_run_open:
  "(\<exists>x \<in> set (nb_merge_run e run). nb_forward (ie_data x) \<and> nb_distance (ie_data x) = w) \<longleftrightarrow> w = lightest_open nb_forward run \<and> w \<noteq> INT_MAX"
  "(\<exists>x \<in> set (nb_merge_run e run). nb_backward (ie_data x) \<and> nb_distance (ie_data x) = w) \<longleftrightarrow> w = lightest_open nb_backward run \<and> w \<noteq> INT_MAX"
  by (auto simp: nb_merge_run_def Let_def)

lemma lightest_open_best:
  "lightest_open is_open run = INT_MAX \<or> (\<exists>x \<in> set run. is_open (ie_data x) \<and> nb_distance (ie_data x) = lightest_open is_open run)"
  "x \<in> set run \<Longrightarrow> is_open (ie_data x) \<Longrightarrow> lightest_open is_open run \<le> nb_distance (ie_data x)"
  unfolding lightest_open_def using fold_min(3) [of "\<lambda>x. is_open (ie_data x)" "\<lambda>x. nb_distance (ie_data x)" run INT_MAX]
    fold_min(2) [of x run "\<lambda>x. is_open (ie_data x)" "\<lambda>x. nb_distance (ie_data x)" INT_MAX] by auto

lemma nb_merge_arcs:
  assumes srt: "sorted_wrt (\<lambda>a b. \<not> InputEdge_less b a) es" and dir: "is_open = nb_forward \<or> is_open = nb_backward"
    and no_loop: "\<forall>x \<in> set es. ie_source x \<noteq> ie_target x" and small: "\<forall>x \<in> set es. nb_distance (ie_data x) < INT_MAX"
  shows "keeps_best (input_arcs_by is_open es) (input_arcs_by is_open (nb_merge es))"
    and "(u, v, w) \<in> input_arcs_by is_open (nb_merge es) \<Longrightarrow> w = lightest_open is_open (filter (joins u v) es)"
proof -
  have iff: "(u, v, w) \<in> input_arcs_by is_open (nb_merge es) \<longleftrightarrow> u \<noteq> v \<and> w = lightest_open is_open (filter (joins u v) es) \<and> w \<noteq> INT_MAX" for u v w
  proof -
    let ?run = "filter (joins u v) es"
    have "(u, v, w) \<in> input_arcs_by is_open (nb_merge es) \<longleftrightarrow> (\<exists>x \<in> set (filter (joins u v) (nb_merge es)). is_open (ie_data x) \<and> nb_distance (ie_data x) = w)"
      unfolding input_arcs_by_def by auto
    also have "\<dots> \<longleftrightarrow> (\<exists>x \<in> set (if ?run = [] \<or> u = v then [] else nb_merge_run (hd ?run) ?run). is_open (ie_data x) \<and> nb_distance (ie_data x) = w)"
      unfolding nb_merge_between [OF srt] Let_def ..
    also have "\<dots> \<longleftrightarrow> u \<noteq> v \<and> w = lightest_open is_open ?run \<and> w \<noteq> INT_MAX"
      using dir nb_merge_run_open [of "hd ?run" ?run w] by (auto simp: lightest_open_def [of _ "[]"])
    finally show ?thesis .
  qed
  then show "(u, v, w) \<in> input_arcs_by is_open (nb_merge es) \<Longrightarrow> w = lightest_open is_open (filter (joins u v) es)" by blast
  show "keeps_best (input_arcs_by is_open es) (input_arcs_by is_open (nb_merge es))"
  proof (rule keeps_bestI)
    show "input_arcs_by is_open (nb_merge es) \<subseteq> input_arcs_by is_open es"
    proof
      fix a assume "a \<in> input_arcs_by is_open (nb_merge es)"
      then obtain u v w where a: "a = (u, v, w)" "w = lightest_open is_open (filter (joins u v) es)" "w \<noteq> INT_MAX" using iff by (cases a) blast
      then show "a \<in> input_arcs_by is_open es" using lightest_open_best(1) [of is_open "filter (joins u v) es"] unfolding input_arcs_by_def by auto
    qed
    fix u v w assume "(u, v, w) \<in> input_arcs_by is_open es"
    then obtain x where x: "x \<in> set es" "joins u v x" "is_open (ie_data x)" "nb_distance (ie_data x) = w" unfolding input_arcs_by_def by blast
    let ?w = "lightest_open is_open (filter (joins u v) es)"
    have "?w \<le> w" using lightest_open_best(2) [of x "filter (joins u v) es" is_open] x by auto
    moreover have "u \<noteq> v" "w < INT_MAX" using no_loop small x by (auto simp: joins_def)
    ultimately show "\<exists>w'. w' \<le> w \<and> (u, v, w') \<in> input_arcs_by is_open (nb_merge es)" unfolding iff by (intro exI [of _ ?w]) simp
  qed
qed

lemma input_arcs_by_simps [simp]:
  "input_arcs_by is_open [] = {}"
  "input_arcs_by is_open (x # xs) =
     (if is_open (ie_data x) then {(ie_source x, ie_target x, nb_distance (ie_data x))} else {}) \<union> input_arcs_by is_open xs"
  "input_arcs_by is_open (xs @ ys) = input_arcs_by is_open xs \<union> input_arcs_by is_open ys"
  by (auto simp: input_arcs_by_def joins_def)

lemma input_edges_arcs:
  assumes i: "0 < nbe_weight i" and split: "nbe_is_split i \<Longrightarrow> \<not> (nbe_forward i \<and> nbe_backward i)"
  shows "input_arcs_by nb_forward (input_edges i) = {(u, v, w) \<in> import_arcs [i]. u \<noteq> v}"
    and "input_arcs_by nb_backward (input_edges i) = {(u, v, w). u \<noteq> v \<and> \<not> nbe_is_split i \<and> (v, u, w) \<in> import_arcs [i]}"
proof -
  have "max (nbe_weight i) 1 = nbe_weight i" using i by simp
  then show "input_arcs_by nb_forward (input_edges i) = {(u, v, w) \<in> import_arcs [i]. u \<noteq> v}"
    "input_arcs_by nb_backward (input_edges i) = {(u, v, w). u \<noteq> v \<and> \<not> nbe_is_split i \<and> (v, u, w) \<in> import_arcs [i]}"
    using split by (auto simp: input_edges_def import_arcs_single SwapDirectionFlags_def NodeBasedEdgeData_new_def Let_def split: if_splits)
qed

lemma input_arcs_by_concat: "input_arcs_by is_open (concat (map f xs)) = (\<Union>x \<in> set xs. input_arcs_by is_open (f x))"
  by (induction xs) auto

lemma import_arcs_Union: "import_arcs es = (\<Union>e \<in> set es. import_arcs [e])"
  by (auto simp: import_arcs_def)

lemma input_edges_ends:
  assumes "x \<in> set (input_edges i)"
  shows "{ie_source x, ie_target x} = {nbe_source i, nbe_target i}" "ie_source x \<noteq> ie_target x" "nb_distance (ie_data x) = max (nbe_weight i) 1"
  using assms by (auto simp: input_edges_def SwapDirectionFlags_def Let_def split: if_splits)

text \<open>The edges that the loader hands over, with weights below the value that means none.\<close>

definition importable :: "nat \<Rightarrow> ImportEdge list \<Rightarrow> bool" where
  "importable n es \<longleftrightarrow> (\<forall>e \<in> set es. oriented n e \<and> nbe_weight e < INT_MAX \<and> (nbe_is_split e \<longrightarrow> \<not> (nbe_forward e \<and> nbe_backward e)))"

lemma graph_arcs:
  assumes "\<forall>x < n. out g x = map edge_of (filter (\<lambda>ie. ie_source ie = x) es)" "\<forall>ie \<in> set es. ie_source ie < n"
  shows "open_arcs is_open g n = input_arcs_by is_open es"
proof -
  have "(u, v, w) \<in> open_arcs is_open g n \<longleftrightarrow> (u, v, w) \<in> input_arcs_by is_open es" for u v w
    using assms unfolding open_arcs_def input_arcs_by_def joins_def by (fastforce simp: edge_of_def)
  then show ?thesis by auto
qed

text \<open>
  C9: From the edges of the loader the graph is built without an access out of range, and it satisfies
  the invariant of the dynamic graph.  Between two nodes it has at most one weight for each direction:
  in the open direction the weight of the cheapest edge in that direction, and against it that of the
  cheapest edge in the opposite direction that is not one half of a split way.  Loops are dropped,
  nothing else is lost, and nothing is invented.
\<close>

theorem NodeBasedDynamicGraph_arcs:
  assumes srt: "sorts psort" and es: "importable n es" and n: "n \<le> SPECIAL_NODEID"
  shows "\<exists>g. NodeBasedDynamicGraphFromImportEdges psort fresh n es = Some g \<and> dg_inv g \<and> number_of_nodes g = n \<and>
    keeps_best {(u, v, w) \<in> import_arcs es. u \<noteq> v} (open_arcs nb_forward g n) \<and>
    keeps_best {(u, v, w). u \<noteq> v \<and> (v, u, w) \<in> import_arcs (filter (\<lambda>e. \<not> nbe_is_split e) es)} (open_arcs nb_backward g n) \<and>
    single_valued {((u, v), w). (u, v, w) \<in> open_arcs nb_forward g n} \<and> single_valued {((u, v), w). (u, v, w) \<in> open_arcs nb_backward g n}"
proof -
  define L where "L = psort (concat (map input_edges es))"
  have set_L: "set L = set (concat (map input_edges es))" using srt unfolding L_def sorts_def by (metis mset_eq_setD)
  have srt_L: "sorted_wrt (\<lambda>a b. \<not> InputEdge_less b a) L" "sorted (map ie_source L)"
    using srt sorts_source [OF srt] unfolding L_def sorts_def by blast+
  have ends: "ie_source x < n \<and> ie_target x < n \<and> ie_source x \<noteq> ie_target x \<and> nb_distance (ie_data x) < INT_MAX" if x: "x \<in> set L" for x
  proof -
    obtain i where "i \<in> set es" "x \<in> set (input_edges i)" using x set_L by auto
    then show ?thesis using input_edges_ends [of x i] es by (auto simp: importable_def oriented_def INVALID_EDGE_WEIGHT_def doubleton_eq_iff)
  qed
  have valid: "\<forall>ie \<in> set (nb_merge L). ie_source ie < n \<and> ie_target ie \<noteq> SPECIAL_NODEID"
    using nb_merge_ends [of _ L] ends n by (metis less_le_trans nat_neq_iff)
  obtain g where g: "NodeBasedDynamicGraphFromImportEdges psort fresh n es = Some g" "dg_inv g" "number_of_nodes g = n"
    "\<forall>x < n. out g x = map edge_of (filter (\<lambda>ie. ie_source ie = x) (nb_merge L))"
    using DynamicGraph_of_correct [OF nb_merge_sorted [OF srt_L(2)] valid, of fresh]
    unfolding NodeBasedDynamicGraphFromImportEdges_def L_def [symmetric] by blast
  have arcs: "open_arcs is_open g n = input_arcs_by is_open (nb_merge L)" for is_open
    by (rule graph_arcs [OF g(4)]) (use valid in blast)
  have in_L: "input_arcs_by is_open L = (\<Union>i \<in> set es. input_arcs_by is_open (input_edges i))" for is_open
    unfolding input_arcs_by_concat [symmetric] unfolding input_arcs_by_def set_L ..
  have i: "0 < nbe_weight i" "nbe_is_split i \<Longrightarrow> \<not> (nbe_forward i \<and> nbe_backward i)" if "i \<in> set es" for i
    using es that by (auto simp: importable_def oriented_def)
  have "input_arcs_by nb_forward L = {(u, v, w) \<in> import_arcs es. u \<noteq> v}"
    unfolding in_L import_arcs_Union [of es] using input_edges_arcs(1) [OF i] by auto
  moreover have "input_arcs_by nb_backward L = {(u, v, w). u \<noteq> v \<and> (v, u, w) \<in> import_arcs (filter (\<lambda>e. \<not> nbe_is_split e) es)}"
    unfolding in_L import_arcs_Union [of "filter _ es"] using input_edges_arcs(2) [OF i] by auto
  moreover have "single_valued {((u, v), w). (u, v, w) \<in> input_arcs_by is_open (nb_merge L)}"
    if h: "is_open = nb_forward \<or> is_open = nb_backward" for is_open
  proof -
    have "w = lightest_open is_open (filter (joins u v) L)" if a: "(u, v, w) \<in> input_arcs_by is_open (nb_merge L)" for u v w
      by (rule nb_merge_arcs(2) [OF srt_L(1) h _ _ a]) (use ends in blast)+
    then show ?thesis unfolding single_valued_def by clarsimp metis
  qed
  ultimately show ?thesis using g(1-3) nb_merge_arcs(1) [OF srt_L(1), of nb_forward] nb_merge_arcs(1) [OF srt_L(1), of nb_backward] ends
    unfolding arcs [symmetric] by (intro exI [of _ g]) auto
qed

text \<open>Two parallel roads between the nodes 0 and 1, and a way between 1 and 2 that is slower on the way back.\<close>

definition sample_import :: "NodeID \<Rightarrow> NodeID \<Rightarrow> EdgeWeight \<Rightarrow> bool \<Rightarrow> bool \<Rightarrow> bool \<Rightarrow> ImportEdge" where
  "sample_import s t w fd bd sp = \<lparr> nbe_source = s, nbe_target = t, nbe_name_id = 1, nbe_weight = w, nbe_forward = fd, nbe_backward = bd,
     nbe_roundabout = False, nbe_in_tiny_cc = False, nbe_access_restricted = False, nbe_is_split = sp, nbe_travel_mode = 1 \<rparr>"

definition sample_imports :: "ImportEdge list" where
  "sample_imports = [sample_import 0 1 5 True True False, sample_import 0 1 3 True False False,
     sample_import 1 2 4 True False True, sample_import 1 2 6 False True True]"

theorem NodeBasedDynamicGraph_arcs_witness:
  "\<exists>g. NodeBasedDynamicGraphFromImportEdges edge_sort (\<lambda>_. \<lparr> de_target = 0, de_data = NodeBasedEdgeData_new \<rparr>) 3 sample_imports = Some g \<and> dg_inv g \<and>
    keeps_best {(0, 1, 5), (1, 0, 5), (0, 1, 3), (1, 2, 4), (2, 1, 6)} (open_arcs nb_forward g 3)"
proof -
  have "importable 3 sample_imports" by (simp add: importable_def oriented_def sample_imports_def sample_import_def)
  moreover have "{(u, v, w) \<in> import_arcs sample_imports. u \<noteq> v} = {(0, 1, 5), (1, 0, 5), (0, 1, 3), (1, 2, 4), (2, 1, 6)}"
    unfolding import_arcs_def by (auto simp: sample_imports_def sample_import_def)
  ultimately show ?thesis
    using NodeBasedDynamicGraph_arcs [OF sorts_edge_sort, of 3 sample_imports] by (fastforce simp: SPECIAL_NODEID_def)
qed


end
